(* ===== verification/Redb_Prelude.thy ===== *)
theory Redb_Prelude
  imports Main "HOL-Library.Word" "HOL-Library.Monad_Syntax"
begin

text \<open>
  Shared vocabulary of the development: how a Rust computation that may panic is
  represented, checked machine arithmetic, checked access to byte buffers, and the
  little-endian encoding of integers.

  A Rust function that can panic (a failed \<open>assert!\<close>, an \<open>unwrap\<close> of \<open>None\<close>, an
  index out of range, an overflowing addition in a build with overflow checks) is a
  function into \<open>'a rust\<close>: \<open>ok x\<close> is a normal return and \<open>panic\<close> a panic.  A Rust
  \<open>Option\<close> result is an inner HOL \<open>option\<close>.  Integers of the source are natural
  numbers; each operation that could leave the range of its type is one of the checked
  operations below, so a theorem that an operation returns \<open>ok\<close> also says that no
  machine integer wrapped around on the way.  Where the code works on bits, the value is
  a \<open>64 word\<close>.
\<close>

unbundle bit_operations_syntax

type_synonym byte = "8 word"
type_synonym u64 = "64 word"
type_synonym u128 = "128 word"
type_synonym 'a rust = "'a option"

abbreviation ok :: "'a \<Rightarrow> 'a rust" where "ok \<equiv> Some"
abbreviation panic :: "'a rust" where "panic \<equiv> None"

named_theorems rust_simps "unfolding rules of the checked operations"
named_theorems slice_simps "reading and writing parts of a buffer"

subsection \<open>Checked operations\<close>

definition assert_that :: "bool \<Rightarrow> unit rust" where
  "assert_that P = (if P then ok () else panic)"

definition cadd :: "nat \<Rightarrow> nat \<Rightarrow> nat \<Rightarrow> nat rust" where
  "cadd w a b = (if a + b < 2 ^ w then ok (a + b) else panic)"

definition cmul :: "nat \<Rightarrow> nat \<Rightarrow> nat \<Rightarrow> nat rust" where
  "cmul w a b = (if a * b < 2 ^ w then ok (a * b) else panic)"

definition csub :: "nat \<Rightarrow> nat \<Rightarrow> nat rust" where
  "csub a b = (if b \<le> a then ok (a - b) else panic)"

definition cdiv :: "nat \<Rightarrow> nat \<Rightarrow> nat rust" where
  "cdiv a b = (if b = 0 then panic else ok (a div b))"

definition cmod :: "nat \<Rightarrow> nat \<Rightarrow> nat rust" where
  "cmod a b = (if b = 0 then panic else ok (a mod b))"

definition try_into :: "nat \<Rightarrow> nat \<Rightarrow> nat rust" where
  "try_into w a = (if a < 2 ^ w then ok a else panic)"

definition div_ceil :: "nat \<Rightarrow> nat \<Rightarrow> nat" where
  "div_ceil a b = (a + b - 1) div b"

definition index :: "'a list \<Rightarrow> nat \<Rightarrow> 'a rust" where
  "index xs i = (if i < length xs then ok (xs ! i) else panic)"

definition index_set :: "'a list \<Rightarrow> nat \<Rightarrow> 'a \<Rightarrow> 'a list rust" where
  "index_set xs i v = (if i < length xs then ok (xs[i := v]) else panic)"

text \<open>\<open>xs[i].f()\<close> for a method \<open>f\<close> that takes \<open>&mut self\<close>.\<close>

definition update_at :: "'a list \<Rightarrow> nat \<Rightarrow> ('a \<Rightarrow> 'a rust) \<Rightarrow> 'a list rust" where
  "update_at xs i f = do { x \<leftarrow> index xs i; x' \<leftarrow> f x; index_set xs i x' }"

definition sub_slice :: "'a list \<Rightarrow> nat \<Rightarrow> nat \<Rightarrow> 'a list rust" where
  "sub_slice xs a b = (if a \<le> b \<and> b \<le> length xs then ok (take (b - a) (drop a xs)) else panic)"

definition slice_from :: "'a list \<Rightarrow> nat \<Rightarrow> 'a list rust" where
  "slice_from xs a = (if a \<le> length xs then ok (drop a xs) else panic)"

definition write_at :: "'a list \<Rightarrow> nat \<Rightarrow> 'a list \<Rightarrow> 'a list rust" where
  "write_at xs off ys =
     (if off + length ys \<le> length xs
      then ok (take off xs @ ys @ drop (off + length ys) xs) else panic)"

text \<open>Integer functions of the standard library, on an unsigned integer of \<open>w\<close> bits.\<close>

fun bit_len :: "nat \<Rightarrow> nat" where
  "bit_len n = (if n = 0 then 0 else Suc (bit_len (n div 2)))"

fun factors_of_two :: "nat \<Rightarrow> nat" where
  "factors_of_two n = (if n = 0 \<or> odd n then 0 else Suc (factors_of_two (n div 2)))"

declare bit_len.simps [simp del] factors_of_two.simps [simp del]

definition leading_zeros :: "nat \<Rightarrow> nat \<Rightarrow> nat" where
  "leading_zeros w n = w - bit_len n"

definition trailing_zeros :: "nat \<Rightarrow> nat \<Rightarrow> nat" where
  "trailing_zeros w n = (if n = 0 then w else factors_of_two n)"

definition pow2_u32 :: "nat \<Rightarrow> nat rust" where
  "pow2_u32 e = (if e < 32 then ok (2 ^ e) else panic)"

lemmas checked_defs [rust_simps] =
  assert_that_def cadd_def cmul_def csub_def cdiv_def cmod_def try_into_def index_def index_set_def

lemma assert_that_ok [simp]: "assert_that P = ok u \<longleftrightarrow> P"
  by (simp add: assert_that_def)

lemma assert_that_bind [simp]: "P \<Longrightarrow> assert_that P \<bind> f = f ()"
  by (simp add: assert_that_def)

lemma bind_ok_iff: "(m \<bind> f) = ok y \<longleftrightarrow> (\<exists>x. m = ok x \<and> f x = ok y)"
  by (cases m) auto

lemma index_ok [simp]: "i < length xs \<Longrightarrow> index xs i = ok (xs ! i)"
  by (simp add: index_def)

lemma index_set_ok [simp]: "i < length xs \<Longrightarrow> index_set xs i v = ok (xs[i := v])"
  by (simp add: index_set_def)

lemma less_bit_len: "n < 2 ^ bit_len n"
proof (induction n rule: bit_len.induct)
  case (1 n)
  then show ?case by (cases "n = 0") (auto simp: bit_len.simps [of n])
qed

lemma bit_len_le: "0 < n \<Longrightarrow> 2 ^ bit_len n \<le> 2 * n"
proof (induction n rule: bit_len.induct)
  case (1 n)
  have "2 ^ bit_len (n div 2) \<le> 2 * (n div 2)" if "n div 2 \<noteq> 0" using 1 that by simp
  moreover have "bit_len (n div 2) = 0" if "n div 2 = 0" using that by (simp add: bit_len.simps)
  ultimately have "2 ^ bit_len (n div 2) \<le> n" using 1(2) by (cases "n div 2 = 0") auto
  then show ?case using 1(2) by (subst bit_len.simps) simp
qed

lemma bit_len_pos: "0 < n \<Longrightarrow> 0 < bit_len n"
  by (simp add: bit_len.simps [of n])

lemma factors_of_two_dvd: "2 ^ factors_of_two n dvd n"
proof (induction n rule: factors_of_two.induct)
  case (1 n)
  show ?case
  proof (cases "n = 0 \<or> odd n")
    case False
    then have "2 * 2 ^ factors_of_two (n div 2) dvd 2 * (n div 2)" using 1 by (intro mult_dvd_mono) auto
    then have "2 * 2 ^ factors_of_two (n div 2) dvd n" using False by auto
    then show ?thesis using False by (subst factors_of_two.simps) auto
  qed (auto simp: factors_of_two.simps)
qed

lemma pow2_progress:
  "p + 2 ^ k \<le> l \<Longrightarrow> l - (p + 2 ^ k) < l - p" "\<not> n < 2 ^ k \<Longrightarrow> n - 2 ^ k < n" for l p n :: nat
proof -
  have "0 < (2::nat) ^ k" by simp
  then show "p + 2 ^ k \<le> l \<Longrightarrow> l - (p + 2 ^ k) < l - p" "\<not> n < 2 ^ k \<Longrightarrow> n - 2 ^ k < n" by linarith+
qed

lemma list_all_nthD: "list_all P xs \<Longrightarrow> i < length xs \<Longrightarrow> P (xs ! i)"
  by (simp add: list_all_length)

lemma list_all_update: "list_all P xs \<Longrightarrow> P x \<Longrightarrow> list_all P (xs[i := x])"
  using set_update_subset_insert [of xs i x] by (auto simp: list_all_iff)

lemma div_ceil_64: "div_ceil n 64 = (n + 63) div 64"
  by (simp add: div_ceil_def)

lemma div_ceil_le_iff: "0 < b \<Longrightarrow> div_ceil a b \<le> n \<longleftrightarrow> a \<le> n * b"
proof -
  assume b: "0 < b"
  have "div_ceil a b \<le> n \<longleftrightarrow> (a + b - 1) div b < Suc n"
    by (auto simp: div_ceil_def)
  also have "\<dots> \<longleftrightarrow> a + b - 1 < Suc n * b"
    using b by (simp add: div_less_iff_less_mult)
  also have "\<dots> \<longleftrightarrow> a \<le> n * b"
    using b by auto
  finally show ?thesis .
qed

lemma less_div_ceil_iff: "0 < b \<Longrightarrow> n < div_ceil a b \<longleftrightarrow> n * b < a"
  using div_ceil_le_iff [of b a n] by auto

subsection \<open>Loops over a fixed list\<close>

text \<open>\<open>for x in xs { body }\<close> over a mutable state, and \<open>iter().map(..).collect()\<close>.\<close>

fun for_each :: "'a list \<Rightarrow> ('a \<Rightarrow> 's \<Rightarrow> 's rust) \<Rightarrow> 's \<Rightarrow> 's rust" where
  "for_each [] body s = ok s"
| "for_each (x # xs) body s = body x s \<bind> for_each xs body"

fun map_rust :: "('a \<Rightarrow> 'b rust) \<Rightarrow> 'a list \<Rightarrow> 'b list rust" where
  "map_rust f [] = ok []"
| "map_rust f (x # xs) = do { y \<leftarrow> f x; ys \<leftarrow> map_rust f xs; ok (y # ys) }"

lemma for_each_append:
  "for_each (xs @ ys) body s = for_each xs body s \<bind> for_each ys body"
  by (induction xs arbitrary: s) (auto split: bind_splits)

lemma for_each_cong [fundef_cong]:
  assumes "xs = ys" "s = t" "\<And>x u. x \<in> set ys \<Longrightarrow> f x u = g x u"
  shows "for_each xs f s = for_each ys g t"
proof -
  have "for_each ys f u = for_each ys g u" for u
    using assms(3)
  proof (induction ys arbitrary: u)
    case (Cons y ys)
    then show ?case by (cases "g y u") auto
  qed simp
  then show ?thesis using assms(1,2) by simp
qed

text \<open>An invariant of a loop that cannot panic, by induction on the list: \<open>P k s\<close> holds
  of the state before iteration \<open>k\<close>.\<close>

lemma for_each_inv:
  assumes "P 0 s"
    and "\<And>k u. k < length xs \<Longrightarrow> P k u \<Longrightarrow> \<exists>v. body (xs ! k) u = ok v \<and> P (Suc k) v"
  shows "\<exists>t. for_each xs body s = ok t \<and> P (length xs) t"
  using assms
proof (induction xs arbitrary: s P)
  case (Cons x xs)
  from Cons.prems(2) [of 0 s] Cons.prems(1)
  obtain v where v: "body x s = ok v" "P (Suc 0) v" by auto
  have "\<exists>t. for_each xs body v = ok t \<and> P (Suc (length xs)) t"
    using Cons.IH [of "\<lambda>k. P (Suc k)" v] v(2) Cons.prems(2) by fastforce
  then show ?case using v(1) by auto
qed simp

text \<open>A loop whose body always returns is a fold.\<close>

lemma for_each_fold:
  assumes "P s" "\<And>x u. x \<in> set xs \<Longrightarrow> P u \<Longrightarrow> body x u = ok (g x u) \<and> P (g x u)"
  shows "for_each xs body s = ok (fold g xs s) \<and> P (fold g xs s)"
  using assms by (induction xs arbitrary: s) auto

lemma bind_total: "\<exists>x. m = ok x \<Longrightarrow> (\<And>x. \<exists>r. f x = ok r) \<Longrightarrow> \<exists>r. (m \<bind> f) = ok r"
  by auto

lemma for_each_total:
  "(\<And>i s. i \<in> set xs \<Longrightarrow> \<exists>s'. body i s = ok s') \<Longrightarrow> \<exists>t. for_each xs body s = ok t"
  by (induction xs arbitrary: s) (auto, metis bind.bind_lunit)

lemma map_rust_ok: "(\<And>x. x \<in> set xs \<Longrightarrow> f x = ok (g x)) \<Longrightarrow> map_rust f xs = ok (map g xs)"
  by (induction xs) auto

lemma map_rust_map: "(\<And>x. x \<in> set xs \<Longrightarrow> f (g x) = ok (k x)) \<Longrightarrow> map_rust f (map g xs) = ok (map k xs)"
  by (induction xs) simp_all

lemma map_rust_length: "map_rust f xs = ok ys \<Longrightarrow> length ys = length xs"
  by (induction xs arbitrary: ys) (auto simp: bind_ok_iff)

lemma map_rust_nth: "map_rust f xs = ok ys \<Longrightarrow> i < length xs \<Longrightarrow> f (xs ! i) = ok (ys ! i)"
  by (induction xs arbitrary: ys i) (auto simp: bind_ok_iff nth_Cons split: nat.splits)

lemma map_rust_append:
  "map_rust f (xs @ ys) = do { a \<leftarrow> map_rust f xs; b \<leftarrow> map_rust f ys; ok (a @ b) }"
  by (induction xs) (auto split: bind_splits)

subsection \<open>The question mark operator\<close>

text \<open>A function that returns \<open>Result\<close> and may panic; \<open>try_then m f\<close> is \<open>let x = m?; f(x)\<close>.\<close>

definition try_then :: "('e + 'a) rust \<Rightarrow> ('a \<Rightarrow> ('e + 'b) rust) \<Rightarrow> ('e + 'b) rust" where
  "try_then m f = do { r \<leftarrow> m; case r of Inl e \<Rightarrow> ok (Inl e) | Inr x \<Rightarrow> f x }"

lemma try_then_simps [simp]:
  "try_then (ok (Inl e)) f = ok (Inl e)" "try_then (ok (Inr x)) f = f x" "try_then panic f = panic"
  by (simp_all add: try_then_def)

lemma try_then_Inr: "try_then m f = ok (Inr y) \<longleftrightarrow> (\<exists>x. m = ok (Inr x) \<and> f x = ok (Inr y))"
  by (cases m) (auto simp: try_then_def split: sum.splits)

subsection \<open>Reading and writing parts of a buffer\<close>

lemma sub_slice_ok: "sub_slice xs a b = ok ys \<longleftrightarrow>
    a \<le> b \<and> b \<le> length xs \<and> ys = take (b - a) (drop a xs)"
  by (auto simp: sub_slice_def)

lemma slice_append_mid [slice_simps]:
  "a = length xs \<Longrightarrow> b = a + length ys \<Longrightarrow> sub_slice (xs @ ys @ zs) a b = ok ys"
  by (simp add: sub_slice_def)

lemma slice_from_ok [simp]: "a \<le> length xs \<Longrightarrow> slice_from xs a = ok (drop a xs)"
  by (simp add: slice_from_def)

lemma length_slice: "sub_slice xs a b = ok ys \<Longrightarrow> length ys = b - a"
  by (auto simp: sub_slice_def split: if_splits)

lemma length_write_at [slice_simps]: "write_at xs off ys = ok zs \<Longrightarrow> length zs = length xs"
  by (auto simp: write_at_def split: if_splits)

lemma write_at_nth:
  assumes "write_at xs off ys = ok zs" "i < length xs"
  shows "zs ! i = (if off \<le> i \<and> i < off + length ys then ys ! (i - off) else xs ! i)"
  using assms by (auto simp: write_at_def nth_append min_def split: if_splits)

lemma slice_write_at_same:
  assumes "write_at xs off ys = ok zs"
  shows "sub_slice zs off (off + length ys) = ok ys"
  using assms by (auto simp: write_at_def sub_slice_def split: if_splits)

lemma slice_write_at_other:
  assumes "write_at xs off ys = ok zs" and "b \<le> off \<or> off + length ys \<le> a"
  shows "sub_slice zs a b = sub_slice xs a b"
proof -
  have len: "length zs = length xs" using assms(1) by (rule length_write_at)
  have "take (b - a) (drop a zs) = take (b - a) (drop a xs)" if "a \<le> b" "b \<le> length xs"
  proof (rule nth_equalityI)
    show "length (take (b - a) (drop a zs)) = length (take (b - a) (drop a xs))"
      by (simp add: len)
    fix i assume "i < length (take (b - a) (drop a zs))"
    then have i: "a + i < b" "a + i < length xs" by (auto simp: len)
    show "take (b - a) (drop a zs) ! i = take (b - a) (drop a xs) ! i"
      using i that assms(2) write_at_nth [OF assms(1) i(2)] by (auto simp: len)
  qed
  then show ?thesis by (simp add: sub_slice_def len)
qed

subsection \<open>Little-endian encoding\<close>

fun le_bytes :: "nat \<Rightarrow> nat \<Rightarrow> byte list" where
  "le_bytes 0 x = []"
| "le_bytes (Suc n) x = word_of_nat (x mod 256) # le_bytes n (x div 256)"

fun le_nat :: "byte list \<Rightarrow> nat" where
  "le_nat [] = 0"
| "le_nat (b # bs) = unat b + 256 * le_nat bs"

lemma length_le_bytes [simp]: "length (le_bytes n x) = n"
  by (induction n arbitrary: x) auto

lemma le_nat_le_bytes: "le_nat (le_bytes n x) = x mod 256 ^ n"
proof (induction n arbitrary: x)
  case (Suc n)
  have "unat (word_of_nat (x mod 256) :: byte) = x mod 256"
    by (simp add: unat_of_nat)
  then show ?case
    by (simp add: Suc mod_mult2_eq)
qed simp

lemma le_nat_le_bytes_id [simp]: "x < 256 ^ n \<Longrightarrow> le_nat (le_bytes n x) = x"
  by (simp add: le_nat_le_bytes)

lemma le_nat_bound: "le_nat bs < 256 ^ length bs"
proof (induction bs)
  case (Cons b bs)
  have "unat b < 256" using unsigned_less [where ?w = b and ?'a = nat] by simp
  with Cons show ?case by simp
qed simp

lemma le_bytes_le_nat [simp]: "le_bytes (length bs) (le_nat bs) = bs"
proof (induction bs)
  case (Cons b bs)
  have b: "unat b < 256" using unsigned_less [where ?w = b and ?'a = nat] by simp
  then have "(unat b + 256 * le_nat bs) mod 256 = unat b"
    and "(unat b + 256 * le_nat bs) div 256 = le_nat bs" by simp_all
  then show ?case using Cons by simp
qed simp

lemma le_bytes_inject: "x < 256 ^ n \<Longrightarrow> y < 256 ^ n \<Longrightarrow> le_bytes n x = le_bytes n y \<longleftrightarrow> x = y"
  by (metis le_nat_le_bytes_id)

text \<open>\<open>to_le_bytes\<close> and \<open>from_le_bytes\<close> on words.\<close>

definition word_to_le :: "nat \<Rightarrow> 'a::len word \<Rightarrow> byte list" where
  "word_to_le n w = le_bytes n (unat w)"

definition word_from_le :: "byte list \<Rightarrow> 'a::len word" where
  "word_from_le bs = word_of_nat (le_nat bs)"

lemma length_word_to_le [simp]: "length (word_to_le n w) = n"
  by (simp add: word_to_le_def)

lemma word_from_to_le:
  fixes w :: "'a::len word"
  assumes "LENGTH('a) = 8 * n"
  shows "word_from_le (word_to_le n w) = w"
proof -
  have "unat w < 256 ^ n"
    using unsigned_less [where ?w = w and ?'a = nat] by (simp add: assms power_mult)
  then show ?thesis by (simp add: word_from_le_def word_to_le_def)
qed

lemma word_from_to_le_64 [simp]: "word_from_le (word_to_le 8 (w :: u64)) = w"
  by (simp add: word_from_to_le)

lemma word_from_to_le_128 [simp]: "word_from_le (word_to_le 16 (w :: u128)) = w"
  by (simp add: word_from_to_le)

subsection \<open>Vectors of serialized parts\<close>

text \<open>
  The allocator structures serialize a vector of parts as the \<open>u32\<close> end offset of each part
  followed by the parts.
\<close>

fun end_offsets :: "nat \<Rightarrow> byte list list \<Rightarrow> nat list rust" where
  "end_offsets data_offset [] = ok []"
| "end_offsets data_offset (v # vs) = do {
     let data_offset = data_offset + length v;
     offset_u32 \<leftarrow> try_into 32 data_offset;
     rest \<leftarrow> end_offsets data_offset vs;
     ok (offset_u32 # rest)
   }"

fun read_parts :: "(byte list \<Rightarrow> 'a rust) \<Rightarrow> nat \<Rightarrow> byte list \<Rightarrow> nat \<Rightarrow> nat \<Rightarrow> 'a list rust" where
  "read_parts from_bytes 0 dat metadata data_start = ok []"
| "read_parts from_bytes (Suc n) dat metadata data_start = do {
     eb \<leftarrow> sub_slice dat metadata (metadata + 4);
     let data_end = le_nat eb;
     bs \<leftarrow> sub_slice dat data_start data_end;
     g \<leftarrow> from_bytes bs;
     gs \<leftarrow> read_parts from_bytes n dat (metadata + 4) data_end;
     ok (g # gs)
   }"

lemma sub_slice_drop:
  "drop a xs = ys @ zs \<Longrightarrow> ys \<noteq> [] \<or> a \<le> length xs \<Longrightarrow> sub_slice xs a (a + length ys) = ok ys"
proof -
  assume d: "drop a xs = ys @ zs" and a: "ys \<noteq> [] \<or> a \<le> length xs"
  then have "a \<le> length xs" by (metis append_is_Nil_conv drop_all nat_le_linear)
  moreover have "length xs - a = length ys + length zs" using arg_cong [OF d, of length] by simp
  ultimately show ?thesis by (simp add: sub_slice_def d)
qed

lemma end_offsets_ok:
  "off + length (concat vs) < 2 ^ 32 \<Longrightarrow> \<exists>ends. end_offsets off vs = ok ends \<and> length ends = length vs"
proof (induction vs arbitrary: off)
  case (Cons v vs)
  have "(off + length v) + length (concat vs) < 2 ^ 32" using Cons.prems by simp
  from Cons.IH [OF this] obtain ends where "end_offsets (off + length v) vs = ok ends" "length ends = length vs"
    by blast
  then show ?case using Cons.prems by (simp add: try_into_def Let_def)
qed simp

lemma read_parts_ok:
  assumes "end_offsets ds vs = ok ends"
    "drop md dat = concat (map (le_bytes 4) ends) @ r1" "drop ds dat = concat vs @ r2" "ds \<le> length dat"
  shows "read_parts f (length vs) dat md ds = map_rust f vs"
  using assms
proof (induction vs arbitrary: ds md ends)
  case (Cons v vs)
  obtain es where es: "end_offsets (ds + length v) vs = ok es" "ends = (ds + length v) # es"
    and b: "ds + length v < 2 ^ 32"
    using Cons.prems(1) by (auto simp: Let_def try_into_def bind_ok_iff split: if_splits)
  have "sub_slice dat md (md + 4) = ok (le_bytes 4 (ds + length v))"
    using sub_slice_drop [of md dat "le_bytes 4 (ds + length v)"] Cons.prems(2)
    by (simp add: es(2) flip: length_greater_0_conv)
  moreover have "sub_slice dat ds (ds + length v) = ok v"
    using sub_slice_drop [of ds dat v] Cons.prems(3,4) by simp
  moreover have "read_parts f (length vs) dat (md + 4) (ds + length v) = map_rust f vs"
  proof (rule Cons.IH [OF es(1)])
    show "drop (md + 4) dat = concat (map (le_bytes 4) es) @ r1"
      using arg_cong [OF Cons.prems(2), of "drop 4"] by (simp add: es(2) add.commute)
    show "drop (ds + length v) dat = concat vs @ r2"
      using arg_cong [OF Cons.prems(3), of "drop (length v)"] by (simp add: add.commute)
    have "length (drop ds dat) \<ge> length v" using Cons.prems(3) by simp
    then show "ds + length v \<le> length dat" using Cons.prems(4) by simp
  qed
  ultimately show ?case using b by simp
qed simp

lemma nth_chunk:
  "\<lbrakk>\<And>x. x \<in> set xs \<Longrightarrow> length x = n; i < length xs\<rbrakk> \<Longrightarrow> take n (drop (i * n) (concat xs)) = xs ! i"
proof (induction xs arbitrary: i)
  case (Cons x xs)
  then show ?case by (cases i) simp_all
qed simp

lemma length_concat_const: "(\<And>x. x \<in> set xs \<Longrightarrow> length x = n) \<Longrightarrow> length (concat xs) = length xs * n"
  by (induction xs) simp_all

lemma length_concat_le: "(\<And>x. x \<in> set xs \<Longrightarrow> length x \<le> n) \<Longrightarrow> length (concat xs) \<le> length xs * n"
  by (induction xs) (simp_all add: add_le_mono)

end
