(* ===== verification/Bitmap.thy ===== *)
theory Bitmap
  imports Redb_Prelude
begin

text \<open>
  The bitmaps of \<open>src/tree_store/page_store/bitmap.rs\<close>.

  \<open>grouped_bitmap\<close> is \<open>U64GroupedBitmap\<close>: a vector of bits packed in \<open>u64\<close> words.
  \<open>btree_bitmap\<close> is \<open>BtreeBitmap\<close>, the 64-way tree of such vectors, root first, in which
  a bit of an inner level says whether the corresponding word of the level below is full.
  The abstract value of a tree is the set of its unset leaf bits (the free ids).  The
  tree invariant \<open>bb_inv\<close> is kept by every operation, no operation panics under it, and
  \<open>find_first_unset\<close> returns the least free id.
\<close>

subsection \<open>Functions of the standard library on \<open>u64\<close>\<close>

definition trailing_ones :: "u64 \<Rightarrow> nat" where
  "trailing_ones w = length (takeWhile (bit w) [0..<64])"

definition count_zeros :: "u64 \<Rightarrow> nat" where
  "count_zeros w = length (filter (\<lambda>i. \<not> bit w i) [0..<64])"

abbreviation u64_max :: u64 where "u64_max \<equiv> - 1"

subsection \<open>\<open>U64GroupedBitmap\<close>\<close>

record grouped_bitmap =
  gb_len :: nat
  gb_data :: "u64 list"

definition required_words :: "nat \<Rightarrow> nat" where
  "required_words elements = div_ceil elements 64"

definition gb_new_full :: "nat \<Rightarrow> nat \<Rightarrow> grouped_bitmap" where
  "gb_new_full len capacity =
     \<lparr>gb_len = len, gb_data = replicate (required_words capacity) u64_max\<rparr>"

definition data_index_of :: "nat \<Rightarrow> nat \<times> nat" where
  "data_index_of b = (b div 64, b mod 64)"

definition select_mask :: "nat \<Rightarrow> u64" where
  "select_mask b = push_bit b 1"

definition gb_count_unset :: "grouped_bitmap \<Rightarrow> nat rust" where
  "gb_count_unset g = foldl (\<lambda>s x. s \<bind> (\<lambda>n. cadd 32 n (count_zeros x))) (ok 0) (gb_data g)"

definition gb_any_unset :: "grouped_bitmap \<Rightarrow> bool" where
  "gb_any_unset g = list_ex (\<lambda>x. count_zeros x > 0) (gb_data g)"

definition gb_first_unset :: "grouped_bitmap \<Rightarrow> nat \<Rightarrow> nat \<Rightarrow> nat option rust" where
  "gb_first_unset g start_bit end_bit = do {
     assert_that (end_bit = (start_bit - start_bit mod 64) + 64);
     if gb_len g = 0 then ok None
     else do {
       let (ix, b) = data_index_of start_bit;
       let mask = push_bit b 1 - 1;
       w \<leftarrow> index (gb_data g) ix;
       let group = w OR mask;
       let x = trailing_ones group;
       if x = 64 then ok None
       else do { s \<leftarrow> cadd 32 start_bit x; r \<leftarrow> csub s b; ok (Some r) }
     }
   }"

definition bits_in_range :: "nat \<Rightarrow> nat \<Rightarrow> u64 rust" where
  "bits_in_range lo hi = do {
     assert_that (lo < hi \<and> hi \<le> 64);
     let bits_at_or_above_lo = push_bit lo u64_max;
     let bits_below_hi = drop_bit (64 - hi) u64_max;
     ok (bits_at_or_above_lo AND bits_below_hi)
   }"

definition gb_resize_word :: "nat \<Rightarrow> nat \<Rightarrow> bool \<Rightarrow> nat \<Rightarrow> u64 list \<Rightarrow> u64 list rust" where
  "gb_resize_word old_len new_len full word d = do {
     word_first_bit \<leftarrow> cmul 32 word 64;
     let lo = old_len - word_first_bit;
     above \<leftarrow> csub new_len word_first_bit;
     let hi = min above 64;
     mask \<leftarrow> bits_in_range lo hi;
     slot \<leftarrow> index d word;
     index_set d word (if full then slot OR mask else slot AND NOT mask)
   }"

definition gb_resize :: "grouped_bitmap \<Rightarrow> nat \<Rightarrow> bool \<Rightarrow> grouped_bitmap rust" where
  "gb_resize g new_len full =
     (let d = (if length (gb_data g) < required_words new_len
               then gb_data g @ replicate (required_words new_len - length (gb_data g))
                                  (if full then u64_max else 0)
               else gb_data g);
          old_len = gb_len g
      in if old_len \<ge> new_len then ok \<lparr>gb_len = new_len, gb_data = d\<rparr>
         else do {
           let start_word = old_len div 64;
           let end_word = (new_len - 1) div 64;
           d' \<leftarrow> for_each [start_word..<Suc end_word] (gb_resize_word old_len new_len full) d;
           ok \<lparr>gb_len = new_len, gb_data = d'\<rparr>
         })"

definition gb_get :: "grouped_bitmap \<Rightarrow> nat \<Rightarrow> bool rust" where
  "gb_get g b = do {
     assert_that (b < gb_len g);
     let (ix, bit_index) = data_index_of b;
     group \<leftarrow> index (gb_data g) ix;
     ok (group AND select_mask bit_index \<noteq> 0)
   }"

definition gb_set :: "grouped_bitmap \<Rightarrow> nat \<Rightarrow> (grouped_bitmap \<times> bool) rust" where
  "gb_set g b = do {
     assert_that (b < gb_len g);
     let (ix, bit_index) = data_index_of b;
     w \<leftarrow> index (gb_data g) ix;
     let group = w OR select_mask bit_index;
     d \<leftarrow> index_set (gb_data g) ix group;
     ok (g\<lparr>gb_data := d\<rparr>, group = u64_max)
   }"

definition gb_clear :: "grouped_bitmap \<Rightarrow> nat \<Rightarrow> grouped_bitmap rust" where
  "gb_clear g b = do {
     assert_that (b < gb_len g);
     let (ix, bit_index) = data_index_of b;
     w \<leftarrow> index (gb_data g) ix;
     d \<leftarrow> index_set (gb_data g) ix (w AND NOT (select_mask bit_index));
     ok (g\<lparr>gb_data := d\<rparr>)
   }"

definition gb_to_vec :: "grouped_bitmap \<Rightarrow> byte list rust" where
  "gb_to_vec g = do {
     let words = required_words (gb_len g);
     ws \<leftarrow> sub_slice (gb_data g) 0 words;
     ok (le_bytes 4 (gb_len g) @ concat (map (word_to_le 8) ws))
   }"

definition gb_from_bytes :: "byte list \<Rightarrow> grouped_bitmap rust" where
  "gb_from_bytes serialized = do {
     body \<leftarrow> csub (length serialized) 4;
     assert_that (body mod 8 = 0);
     lenb \<leftarrow> sub_slice serialized 0 4;
     let words = body div 8;
     d \<leftarrow> map_rust (\<lambda>i. do {
            let start = 4 + i * 8;
            bs \<leftarrow> sub_slice serialized start (start + 8);
            ok (word_from_le bs) }) [0..<words];
     ok \<lparr>gb_len = le_nat lenb, gb_data = d\<rparr>
   }"

subsection \<open>\<open>BtreeBitmap\<close>\<close>

type_synonym btree_bitmap = "grouped_bitmap list"

definition get_level :: "btree_bitmap \<Rightarrow> nat \<Rightarrow> grouped_bitmap rust" where
  "get_level b i = do { assert_that (i < length b); index b i }"

definition leaf_level :: "btree_bitmap \<Rightarrow> grouped_bitmap rust" where
  "leaf_level b = csub (length b) 1 \<bind> get_level b"

definition bb_count_unset :: "btree_bitmap \<Rightarrow> nat rust" where
  "bb_count_unset b = leaf_level b \<bind> gb_count_unset"

definition bb_has_unset :: "btree_bitmap \<Rightarrow> bool rust" where
  "bb_has_unset b = do { g \<leftarrow> leaf_level b; ok (gb_any_unset g) }"

definition bb_get :: "btree_bitmap \<Rightarrow> nat \<Rightarrow> bool rust" where
  "bb_get b i = do { g \<leftarrow> leaf_level b; gb_get g i }"

definition bb_len :: "btree_bitmap \<Rightarrow> nat rust" where
  "bb_len b = do { g \<leftarrow> leaf_level b; ok (gb_len g) }"

fun descend :: "grouped_bitmap list \<Rightarrow> nat \<Rightarrow> nat rust" where
  "descend [] entry = ok entry"
| "descend (g # gs) entry = do {
     e \<leftarrow> cmul 32 entry 64;
     e_end \<leftarrow> cadd 32 e 64;
     r \<leftarrow> gb_first_unset g e e_end;
     (case r of None \<Rightarrow> panic | Some x \<Rightarrow> descend gs x)
   }"

definition find_first_unset :: "btree_bitmap \<Rightarrow> nat option rust" where
  "find_first_unset b = do {
     root \<leftarrow> get_level b 0;
     r \<leftarrow> gb_first_unset root 0 64;
     (case r of None \<Rightarrow> ok None
      | Some entry \<Rightarrow> do { e \<leftarrow> descend (drop 1 b) entry; ok (Some e) })
   }"

fun update_loop :: "btree_bitmap \<Rightarrow> nat \<Rightarrow> nat \<Rightarrow> bool \<Rightarrow> btree_bitmap rust" where
  "update_loop b parent_height parent_entry full = do {
     g \<leftarrow> get_level b parent_height;
     (g', full') \<leftarrow> (if full then gb_set g parent_entry
                    else do { g' \<leftarrow> gb_clear g parent_entry; ok (g', False) });
     let b' = b[parent_height := g'];
     (case parent_height of 0 \<Rightarrow> ok b'
      | Suc h \<Rightarrow> update_loop b' h (parent_entry div 64) full')
   }"

definition update_to_root :: "btree_bitmap \<Rightarrow> nat \<Rightarrow> bool \<Rightarrow> btree_bitmap rust" where
  "update_to_root b i full =
     (if length b = 1 then ok b
      else do { h \<leftarrow> csub (length b) 2; update_loop b h (i div 64) full })"

definition bb_set :: "btree_bitmap \<Rightarrow> nat \<Rightarrow> btree_bitmap rust" where
  "bb_set b i = do {
     h \<leftarrow> csub (length b) 1;
     g \<leftarrow> get_level b h;
     (g', full) \<leftarrow> gb_set g i;
     update_to_root (b[h := g']) i full
   }"

definition bb_clear :: "btree_bitmap \<Rightarrow> nat \<Rightarrow> btree_bitmap rust" where
  "bb_clear b i = do {
     h \<leftarrow> csub (length b) 1;
     g \<leftarrow> get_level b h;
     g' \<leftarrow> gb_clear g i;
     update_to_root (b[h := g']) i False
   }"

definition bb_alloc :: "btree_bitmap \<Rightarrow> (nat option \<times> btree_bitmap) rust" where
  "bb_alloc b = do {
     r \<leftarrow> find_first_unset b;
     (case r of None \<Rightarrow> ok (None, b)
      | Some entry \<Rightarrow> do { b' \<leftarrow> bb_set b entry; ok (Some entry, b') })
   }"

function new_levels :: "nat \<Rightarrow> nat \<Rightarrow> grouped_bitmap list" where
  "new_levels num_pages capacity =
     gb_new_full num_pages capacity #
     (if capacity \<le> 64 then [] else new_levels (div_ceil num_pages 64) (div_ceil capacity 64))"
  by pat_completeness auto
termination
  by (relation "measure snd") (auto simp: div_ceil_def)

definition bb_new :: "nat \<Rightarrow> nat \<Rightarrow> btree_bitmap" where
  "bb_new num_pages capacity = rev (new_levels num_pages capacity)"

function height_for_capacity :: "nat \<Rightarrow> nat" where
  "height_for_capacity capacity =
     (if capacity > 64 then Suc (height_for_capacity (div_ceil capacity 64)) else 1)"
  by pat_completeness auto
termination
  by (relation "measure id") (auto simp: div_ceil_def)

function pad_levels :: "nat \<Rightarrow> btree_bitmap \<Rightarrow> btree_bitmap rust" where
  "pad_levels max_height b =
     (if length b < max_height then do {
        root \<leftarrow> index b 0;
        let parent_len = div_ceil (gb_len root) 64;
        pad_levels max_height (gb_new_full parent_len parent_len # b)
      } else ok b)"
  by pat_completeness auto
termination
  by (relation "measure (\<lambda>(m, b). m - length b)") auto

definition bb_new_padded :: "nat \<Rightarrow> nat \<Rightarrow> nat \<Rightarrow> btree_bitmap rust" where
  "bb_new_padded num_pages capacity max_capacity =
     pad_levels (height_for_capacity max_capacity) (bb_new num_pages capacity)"

fun resize_levels :: "grouped_bitmap list \<Rightarrow> nat \<Rightarrow> bool \<Rightarrow> grouped_bitmap list rust" where
  "resize_levels [] new_len full = ok []"
| "resize_levels (g # gs) new_len full = do {
     g' \<leftarrow> gb_resize g new_len full;
     gs' \<leftarrow> resize_levels gs (div_ceil new_len 64) full;
     ok (g' # gs')
   }"

definition bb_resize :: "btree_bitmap \<Rightarrow> nat \<Rightarrow> bool \<Rightarrow> btree_bitmap rust" where
  "bb_resize b new_len full = do {
     leaf_first \<leftarrow> resize_levels (rev b) new_len full;
     let b' = rev leaf_first;
     root \<leftarrow> get_level b' 0;
     assert_that (gb_len root \<le> 64);
     ok b'
   }"

definition bb_to_vec :: "btree_bitmap \<Rightarrow> byte list rust" where
  "bb_to_vec b = do {
     height \<leftarrow> try_into 32 (length b);
     vecs \<leftarrow> map_rust gb_to_vec b;
     let end_metadata = 4 + length b * 4;
     ends \<leftarrow> end_offsets end_metadata vecs;
     let result = le_bytes 4 height @ concat (map (le_bytes 4) ends);
     assert_that (end_metadata = length result);
     ok (result @ concat vecs)
   }"

definition bb_from_bytes :: "byte list \<Rightarrow> btree_bitmap rust" where
  "bb_from_bytes dat = do {
     hb \<leftarrow> sub_slice dat 0 4;
     let height = le_nat hb;
     read_parts gb_from_bytes height dat 4 (4 + height * 4)
   }"

declare new_levels.simps [simp del] height_for_capacity.simps [simp del]
  pad_levels.simps [simp del] update_loop.simps [simp del]


subsection \<open>Bits of a level\<close>

definition gbit :: "grouped_bitmap \<Rightarrow> nat \<Rightarrow> bool" where
  "gbit g i = bit (gb_data g ! (i div 64)) (i mod 64)"

definition unset :: "grouped_bitmap \<Rightarrow> nat set" where
  "unset g = {i. i < gb_len g \<and> \<not> gbit g i}"

definition gb_ok :: "grouped_bitmap \<Rightarrow> bool" where
  "gb_ok g \<longleftrightarrow> gb_len g \<le> 64 * length (gb_data g)
     \<and> (\<forall>i. gb_len g \<le> i \<and> i < 64 * length (gb_data g) \<longrightarrow> gbit g i)"

lemma u64_max_iff: "w = u64_max \<longleftrightarrow> (\<forall>n<64. bit w n)" for w :: u64
  by (auto intro: bit_word_eqI)

lemma trailing_ones_le: "trailing_ones w \<le> 64"
  using length_takeWhile_le [of "bit w" "[0..<64]"] by (simp add: trailing_ones_def)

lemma trailing_ones_bit: "i < trailing_ones w \<Longrightarrow> bit w i"
proof -
  assume i: "i < trailing_ones w"
  then have "takeWhile (bit w) [0..<64] ! i \<in> set (takeWhile (bit w) [0..<64])"
    by (simp add: trailing_ones_def)
  moreover have "takeWhile (bit w) [0..<64] ! i = i"
    using i trailing_ones_le [of w] by (simp add: trailing_ones_def takeWhile_nth)
  ultimately show ?thesis by (auto dest: set_takeWhileD)
qed

lemma trailing_ones_not_bit: "trailing_ones w < 64 \<Longrightarrow> \<not> bit w (trailing_ones w)"
  using nth_length_takeWhile [of "bit w" "[0..<64]"] by (simp add: trailing_ones_def)

lemma trailing_ones_64: "trailing_ones w = 64 \<longleftrightarrow> w = u64_max"
proof
  assume "trailing_ones w = 64"
  then show "w = u64_max" unfolding u64_max_iff by (simp add: trailing_ones_bit)
next
  assume "w = u64_max"
  then have "\<not> trailing_ones w < 64" using trailing_ones_not_bit [of w] by auto
  then show "trailing_ones w = 64" using trailing_ones_le [of w] by simp
qed

lemma count_zeros_pos: "0 < count_zeros w \<longleftrightarrow> w \<noteq> u64_max"
  unfolding u64_max_iff by (auto simp: count_zeros_def filter_empty_conv)

lemma bit_select_mask: "bit (select_mask k) n \<longleftrightarrow> n = k \<and> n < 64"
  by (auto simp: select_mask_def bit_simps)

lemma and_select_mask: "w AND select_mask k \<noteq> 0 \<longleftrightarrow> bit w k"
  by (simp add: select_mask_def bit_iff_and_push_bit_not_eq_0)

text \<open>Setting or clearing one bit of the word that holds it.\<close>

lemma gbit_update:
  assumes "i < 64 * length (gb_data g)" "i div 64 = ix"
  shows "gbit (g\<lparr>gb_data := (gb_data g)[ix := w]\<rparr>) j =
     (if j div 64 = ix then bit w (j mod 64) else gbit g j)"
  using assms by (auto simp: gbit_def nth_list_update)

lemma word_index: "gb_ok g \<Longrightarrow> i < gb_len g \<Longrightarrow> i div 64 < length (gb_data g)"
  by (simp add: gb_ok_def less_mult_imp_div_less mult.commute)

lemma gb_get_ok: "gb_ok g \<Longrightarrow> i < gb_len g \<Longrightarrow> gb_get g i = ok (i \<notin> unset g)"
  by (simp add: gb_get_def data_index_of_def word_index and_select_mask unset_def gbit_def)

lemma div_mod_eq_iff: "j div 64 = i div 64 \<and> j mod 64 = i mod 64 \<longleftrightarrow> j = i" for i j :: nat
  by (metis div_mult_mod_eq)

lemma word_full_iff:
  assumes "gb_ok g" "k < length (gb_data g)"
  shows "gb_data g ! k = u64_max \<longleftrightarrow> (\<forall>i\<in>unset g. i div 64 \<noteq> k)"
proof
  assume "gb_data g ! k = u64_max"
  then show "\<forall>i\<in>unset g. i div 64 \<noteq> k" by (auto simp: unset_def gbit_def)
next
  assume *: "\<forall>i\<in>unset g. i div 64 \<noteq> k"
  show "gb_data g ! k = u64_max" unfolding u64_max_iff
  proof (intro allI impI)
    fix n :: nat assume n: "n < 64"
    have "gbit g (64 * k + n)"
    proof (cases "64 * k + n < gb_len g")
      case True
      then show ?thesis using * n by (force simp: unset_def)
    next
      case False
      then show ?thesis using assms n by (auto simp: gb_ok_def)
    qed
    then show "bit (gb_data g ! k) n" using n by (simp add: gbit_def)
  qed
qed

lemma gb_set_ok:
  assumes "gb_ok g" "i < gb_len g"
  obtains g' where "gb_set g i = ok (g', i div 64 \<notin> (\<lambda>j. j div 64) ` unset g')" "gb_ok g'"
    "gb_len g' = gb_len g" "length (gb_data g') = length (gb_data g)"
    "unset g' = unset g - {i}"
proof -
  define w where "w = gb_data g ! (i div 64) OR select_mask (i mod 64)"
  define g' where "g' = g\<lparr>gb_data := (gb_data g)[i div 64 := w]\<rparr>"
  have ix: "i div 64 < length (gb_data g)" using assms by (rule word_index)
  have gb: "gbit g' j = (j = i \<or> gbit g j)" for j
    using ix div_mod_eq_iff [of j i]
    by (auto simp: g'_def gbit_def nth_list_update w_def bit_or_iff bit_select_mask)
  have l: "gb_len g' = gb_len g" "length (gb_data g') = length (gb_data g)"
    by (simp_all add: g'_def)
  have ok: "gb_ok g'" using assms(1) by (auto simp: gb_ok_def l gb)
  have u: "unset g' = unset g - {i}" by (auto simp: unset_def l gb)
  have "(w = u64_max) = (i div 64 \<notin> (\<lambda>j. j div 64) ` unset g')"
    using word_full_iff [OF ok, of "i div 64"] ix by (simp add: g'_def image_iff) metis
  then have "gb_set g i = ok (g', i div 64 \<notin> (\<lambda>j. j div 64) ` unset g')"
    using assms(2) ix by (simp add: gb_set_def data_index_of_def g'_def w_def Let_def)
  then show ?thesis using that ok u l by blast
qed

lemma gb_clear_ok:
  assumes "gb_ok g" "i < gb_len g"
  obtains g' where "gb_clear g i = ok g'" "gb_ok g'"
    "gb_len g' = gb_len g" "length (gb_data g') = length (gb_data g)"
    "unset g' = insert i (unset g)"
proof -
  define w where "w = gb_data g ! (i div 64) AND NOT (select_mask (i mod 64))"
  define g' where "g' = g\<lparr>gb_data := (gb_data g)[i div 64 := w]\<rparr>"
  have ix: "i div 64 < length (gb_data g)" using assms by (rule word_index)
  have gb: "gbit g' j = (j \<noteq> i \<and> gbit g j)" for j
    using ix div_mod_eq_iff [of j i]
    by (auto simp: g'_def gbit_def nth_list_update w_def bit_and_iff bit_not_iff bit_select_mask)
  have l: "gb_len g' = gb_len g" "length (gb_data g') = length (gb_data g)"
    by (simp_all add: g'_def)
  have ok: "gb_ok g'" using assms by (auto simp: gb_ok_def l gb)
  have u: "unset g' = insert i (unset g)" using assms(2) by (auto simp: unset_def l gb)
  have "gb_clear g i = ok g'"
    using assms(2) ix by (simp add: gb_clear_def data_index_of_def g'_def w_def)
  then show ?thesis using that ok u l by blast
qed

lemma unset_bound: "unset g \<subseteq> {..<gb_len g}"
  by (auto simp: unset_def)

lemma finite_unset [simp]: "finite (unset g)"
  using unset_bound finite_subset by blast

text \<open>The search of one word returns the least unset bit of that word.\<close>

lemma trailing_ones_least:
  assumes "gb_ok g" "k < length (gb_data g)" "gb_data g ! k \<noteq> u64_max"
  defines "r \<equiv> 64 * k + trailing_ones (gb_data g ! k)"
  shows "r \<in> unset g" "r div 64 = k" "\<And>j. j \<in> unset g \<Longrightarrow> j div 64 = k \<Longrightarrow> r \<le> j"
proof -
  let ?t = "trailing_ones (gb_data g ! k)"
  have t: "?t < 64" using assms(3) trailing_ones_64 trailing_ones_le [of "gb_data g ! k"]
    by (metis le_neq_implies_less)
  show rk: "r div 64 = k" using t by (simp add: r_def)
  have nb: "\<not> gbit g r" using t trailing_ones_not_bit [OF t] by (simp add: gbit_def r_def)
  have "r < 64 * length (gb_data g)" using t assms(2) by (simp add: r_def)
  then have "r < gb_len g" using nb assms(1) by (auto simp: gb_ok_def not_less)
  then show "r \<in> unset g" using nb by (simp add: unset_def)
  fix j assume j: "j \<in> unset g" "j div 64 = k"
  then have "\<not> bit (gb_data g ! k) (j mod 64)" by (simp add: unset_def gbit_def)
  then have "?t \<le> j mod 64" using trailing_ones_bit not_le by blast
  then show "r \<le> j" using j(2) mult_div_mod_eq [of 64 j] unfolding r_def by linarith
qed

lemma gb_first_unset_some:
  assumes "gb_ok g" "64 * k + 64 < 2 ^ 32" "j \<in> unset g" "j div 64 = k"
  obtains r where "gb_first_unset g (64 * k) (64 * k + 64) = ok (Some r)" "r \<in> unset g" "r div 64 = k"
    "\<And>i. i \<in> unset g \<Longrightarrow> i div 64 = k \<Longrightarrow> r \<le> i"
proof -
  let ?r = "64 * k + trailing_ones (gb_data g ! k)"
  have k: "k < length (gb_data g)"
    using assms by (auto simp: unset_def dest: word_index)
  have full: "gb_data g ! k \<noteq> u64_max" using word_full_iff [OF assms(1) k] assms(3,4) by blast
  note tl = trailing_ones_least [OF assms(1) k full]
  have "gb_len g \<noteq> 0" using assms(3) by (auto simp: unset_def)
  moreover have "trailing_ones (gb_data g ! k) \<noteq> 64" using full by (simp add: trailing_ones_64)
  moreover have "?r < 2 ^ 32" using assms(2) trailing_ones_le [of "gb_data g ! k"] by linarith
  ultimately have "gb_first_unset g (64 * k) (64 * k + 64) = ok (Some ?r)"
    using k by (simp add: gb_first_unset_def data_index_of_def checked_defs Let_def)
  then show ?thesis using tl that by blast
qed

lemma gb_first_unset_none:
  assumes "gb_ok g" "gb_len g \<le> 64" "unset g = {}"
  shows "gb_first_unset g 0 64 = ok None"
proof (cases "gb_len g = 0")
  case True
  then show ?thesis by (simp add: gb_first_unset_def)
next
  case False
  then have k: "0 < length (gb_data g)" using assms(1) by (auto simp: gb_ok_def)
  then have "gb_data g ! 0 = u64_max" using word_full_iff [OF assms(1) k] assms(3) by simp
  then show ?thesis using k False
    by (simp add: gb_first_unset_def data_index_of_def trailing_ones_64 Let_def)
qed

subsection \<open>The tree invariant\<close>

text \<open>
  A parent level has one bit per word of the level below, unset when that word has an
  unset bit.
\<close>

definition linked :: "grouped_bitmap \<Rightarrow> grouped_bitmap \<Rightarrow> bool" where
  "linked p g \<longleftrightarrow> gb_len p = div_ceil (gb_len g) 64 \<and> unset p = (\<lambda>i. i div 64) ` unset g"

definition bb_inv :: "btree_bitmap \<Rightarrow> bool" where
  "bb_inv b \<longleftrightarrow> b \<noteq> [] \<and> list_all gb_ok b \<and> gb_len (hd b) \<le> 64 \<and> gb_len (last b) + 64 \<le> 2 ^ 32
     \<and> successively linked b"

definition bb_size :: "btree_bitmap \<Rightarrow> nat" where
  "bb_size b = gb_len (last b)"

definition free_ids :: "btree_bitmap \<Rightarrow> nat set" where
  "free_ids b = unset (last b)"

lemma linked_Min:
  assumes "linked p g" "unset g \<noteq> {}"
  shows "unset p \<noteq> {}" "Min (unset p) = Min (unset g) div 64"
proof -
  show "unset p \<noteq> {}" using assms by (simp add: linked_def)
  have "Min (unset g) div 64 = Min ((\<lambda>i. i div 64) ` unset g)"
    using assms(2) by (intro mono_Min_commute) (auto simp: mono_def div_le_mono)
  then show "Min (unset p) = Min (unset g) div 64" using assms(1) by (simp add: linked_def)
qed

lemma linked_empty: "linked p g \<Longrightarrow> unset p = {} \<longleftrightarrow> unset g = {}"
  by (simp add: linked_def)

lemma div_ceil_le: "div_ceil n 64 \<le> n"
  by (simp add: div_ceil_le_iff)

text \<open>Walking down from a parent whose least unset bit is known.\<close>

lemma descend_Min:
  assumes "list_all gb_ok (p # gs)" "gb_len (last (p # gs)) + 64 \<le> 2 ^ 32"
    "successively linked (p # gs)" "unset (last (p # gs)) \<noteq> {}"
  shows "gb_len p + 64 \<le> 2 ^ 32 \<and> unset p \<noteq> {} \<and>
    descend gs (Min (unset p)) = ok (Min (unset (last (p # gs))))"
  using assms
proof (induction gs arbitrary: p)
  case Nil
  then show ?case by simp
next
  case (Cons g gs)
  have "linked p g" using Cons.prems(3) by simp
  have IH: "gb_len g + 64 \<le> 2 ^ 32" "unset g \<noteq> {}"
    "descend gs (Min (unset g)) = ok (Min (unset (last (g # gs))))"
    using Cons.IH [of g] Cons.prems by simp_all
  note M = linked_Min [OF \<open>linked p g\<close> IH(2)]
  let ?m = "Min (unset g)" let ?k = "?m div 64"
  have m: "?m \<in> unset g" using IH(2) by simp
  then have lt: "?m < gb_len g" by (simp add: unset_def)
  then have b: "64 * ?k + 64 < 2 ^ 32" using IH(1) by linarith
  have okg: "gb_ok g" using Cons.prems(1) by simp
  obtain r where r: "gb_first_unset g (64 * ?k) (64 * ?k + 64) = ok (Some r)" "r \<in> unset g"
    "\<And>i. i \<in> unset g \<Longrightarrow> i div 64 = ?k \<Longrightarrow> r \<le> i"
    using gb_first_unset_some [OF okg b m refl] by blast
  have "r = ?m" using r(2) r(3) [OF m refl] by (intro antisym) simp_all
  moreover have "gb_len p + 64 \<le> 2 ^ 32"
    using \<open>linked p g\<close> IH(1) div_ceil_le [of "gb_len g"] by (simp add: linked_def)
  ultimately show ?case
    using r(1) b M(1) IH(3) by (simp add: M(2) checked_defs mult.commute [of _ 64])
qed

lemma bb_inv_last: "bb_inv b \<Longrightarrow> gb_ok (last b)"
  by (auto simp: bb_inv_def list_all_iff)

lemma leaf_level_ok: "bb_inv b \<Longrightarrow> leaf_level b = ok (last b)"
  by (cases b) (simp_all add: leaf_level_def bb_inv_def get_level_def csub_def last_conv_nth)

lemma linked_chain_empty:
  "successively linked b \<Longrightarrow> b \<noteq> [] \<Longrightarrow> unset (hd b) = {} \<longleftrightarrow> unset (last b) = {}"
proof (induction b rule: induct_list012)
  case (3 x y zs)
  then have "unset x = {} \<longleftrightarrow> unset y = {}" using linked_empty [of x y] by simp
  moreover have "unset y = {} \<longleftrightarrow> unset (last (y # zs)) = {}" using 3 by simp
  ultimately show ?case by simp
qed simp_all

lemma find_first_unset_ok:
  assumes "bb_inv b"
  shows "find_first_unset b = ok (if free_ids b = {} then None else Some (Min (free_ids b)))"
proof -
  obtain p gs where b: "b = p # gs" using assms by (cases b) (auto simp: bb_inv_def)
  have okp: "gb_ok p" "gb_len p \<le> 64" using assms by (auto simp: bb_inv_def b)
  note inv = assms [unfolded bb_inv_def]
  show ?thesis
  proof (cases "free_ids b = {}")
    case True
    then have "unset p = {}" using linked_chain_empty [of b] inv b by (simp add: free_ids_def)
    then show ?thesis using gb_first_unset_none [OF okp] True
      by (simp add: find_first_unset_def get_level_def b)
  next
    case False
    have d: "unset p \<noteq> {}" "descend gs (Min (unset p)) = ok (Min (unset (last b)))"
      using descend_Min [of p gs] inv False by (auto simp: b free_ids_def)
    have M: "Min (unset p) \<in> unset p" using d(1) by simp
    have z: "Min (unset p) div 64 = 0" using okp(2) M by (simp add: unset_def)
    obtain r where r: "gb_first_unset p 0 64 = ok (Some r)" "r \<in> unset p" "r \<le> Min (unset p)"
      using gb_first_unset_some [OF okp(1) _ M z] M z by force
    have "r = Min (unset p)" using r(2,3) by (intro antisym) simp_all
    then show ?thesis using r(1) d(2) False
      by (simp add: find_first_unset_def get_level_def b free_ids_def)
  qed
qed

subsection \<open>Updates keep the invariant\<close>

text \<open>
  While \<open>update_to_root\<close> walks up, the levels are linked except possibly at the entry of
  the level it is about to write.
\<close>

definition linked_except :: "nat \<Rightarrow> grouped_bitmap \<Rightarrow> grouped_bitmap \<Rightarrow> bool" where
  "linked_except e p g \<longleftrightarrow> gb_len p = div_ceil (gb_len g) 64
     \<and> (\<forall>x. x \<noteq> e \<longrightarrow> x \<in> unset p \<longleftrightarrow> x \<in> (\<lambda>i. i div 64) ` unset g)"

lemma linked_set:
  assumes "linked_except e p g" "e \<notin> (\<lambda>i. i div 64) ` unset g" "unset p' = unset p - {e}"
    "gb_len p' = gb_len p"
  shows "linked p' g"
  using assms unfolding linked_def linked_except_def by (intro conjI set_eqI; metis Diff_iff insertCI singletonD)

lemma linked_clear:
  assumes "linked_except e p g" "e \<in> (\<lambda>i. i div 64) ` unset g" "unset p' = insert e (unset p)"
    "gb_len p' = gb_len p"
  shows "linked p' g"
  using assms unfolding linked_def linked_except_def by (intro conjI set_eqI; metis insert_iff)

lemma linked_except_parent:
  assumes "linked p g" "gb_len g' = gb_len g" "unset g' = unset g - {e} \<or> unset g' = insert e (unset g)"
  shows "linked_except (e div 64) p g'"
  using assms unfolding linked_def linked_except_def by (auto simp: image_iff)

lemma linked_bound: "linked_except f p g \<Longrightarrow> e < gb_len g \<Longrightarrow> e div 64 < gb_len p"
  using mult_div_mod_eq [of 64 e] by (simp add: linked_except_def less_div_ceil_iff)

lemma write_parent:
  assumes "gb_ok p" "e < gb_len p" "linked_except e p g"
    "full \<longleftrightarrow> e \<notin> (\<lambda>i. i div 64) ` unset g"
  obtains p' full' where
    "(if full then gb_set p e else do { p' \<leftarrow> gb_clear p e; ok (p', False) }) = ok (p', full')"
    "gb_ok p'" "gb_len p' = gb_len p" "linked p' g"
    "unset p' = unset p - {e} \<or> unset p' = insert e (unset p)"
    "full' \<longleftrightarrow> e div 64 \<notin> (\<lambda>i. i div 64) ` unset p'"
proof (cases full)
  case True
  obtain p' where "gb_set p e = ok (p', e div 64 \<notin> (\<lambda>j. j div 64) ` unset p')" "gb_ok p'"
    "gb_len p' = gb_len p" "unset p' = unset p - {e}"
    using gb_set_ok [OF assms(1,2)] by blast
  moreover from this have "linked p' g" using True assms(3,4) linked_set by blast
  ultimately show ?thesis using True by (intro that [of p']) auto
next
  case False
  obtain p' where "gb_clear p e = ok p'" "gb_ok p'" "gb_len p' = gb_len p" "unset p' = insert e (unset p)"
    using gb_clear_ok [OF assms(1,2)] by blast
  moreover from this have "linked p' g" using False assms(3,4) linked_clear by blast
  ultimately show ?thesis using False by (intro that [of p']) auto
qed

definition links_from :: "nat \<Rightarrow> btree_bitmap \<Rightarrow> bool" where
  "links_from n b \<longleftrightarrow> (\<forall>h\<ge>n. Suc h < length b \<longrightarrow> linked (b ! h) (b ! Suc h))"

definition links_below :: "nat \<Rightarrow> btree_bitmap \<Rightarrow> bool" where
  "links_below n b \<longleftrightarrow> (\<forall>h<n. Suc h < length b \<longrightarrow> linked (b ! h) (b ! Suc h))"

lemma links_from_update:
  assumes "links_from (Suc n) b" "Suc n < length b" "linked p' (b ! Suc n)"
  shows "links_from n (b[n := p'])"
  unfolding links_from_def
proof (intro allI impI)
  fix h assume "n \<le> h" "Suc h < length (b[n := p'])"
  then show "linked (b[n := p'] ! h) (b[n := p'] ! Suc h)"
    using assms by (cases "h = n") (auto simp: links_from_def)
qed

lemma update_loop_ok:
  assumes "Suc ph < length b" "list_all gb_ok b" "links_below ph b" "links_from (Suc ph) b"
    "linked_except e (b ! ph) (b ! Suc ph)" "e < gb_len (b ! ph)"
    "full \<longleftrightarrow> e \<notin> (\<lambda>i. i div 64) ` unset (b ! Suc ph)"
  shows "\<exists>b'. update_loop b ph e full = ok b' \<and> length b' = length b \<and> list_all gb_ok b'
    \<and> links_from 0 b' \<and> gb_len (hd b') = gb_len (hd b) \<and> (\<forall>h>ph. b' ! h = b ! h)"
  using assms
proof (induction ph arbitrary: b e full)
  case 0
  then have ne: "b \<noteq> []" by auto
  from 0 have "gb_ok (b ! 0)" using list_all_nthD [of gb_ok b 0] by linarith
  obtain p' full' where w: "(if full then gb_set (b ! 0) e
      else do { p' \<leftarrow> gb_clear (b ! 0) e; ok (p', False) }) = ok (p', full')"
    "gb_ok p'" "gb_len p' = gb_len (b ! 0)" "linked p' (b ! Suc 0)"
    using write_parent [OF \<open>gb_ok (b ! 0)\<close> 0(6,5,7)] by blast
  have "update_loop b 0 e full = ok (b[0 := p'])"
    using ne w(1) by (subst update_loop.simps) (simp add: get_level_def)
  moreover have "links_from 0 (b[0 := p'])"
    using links_from_update [OF 0(4,1) w(4)] .
  ultimately show ?case using 0(2) ne w(2,3) by (simp add: list_all_update hd_conv_nth)
next
  case (Suc ph)
  let ?p = "b ! Suc ph"
  have okp: "gb_ok ?p" using Suc.prems by (intro list_all_nthD [of gb_ok b]) simp_all
  obtain p' full' where w: "(if full then gb_set ?p e
      else do { p' \<leftarrow> gb_clear ?p e; ok (p', False) }) = ok (p', full')"
    "gb_ok p'" "gb_len p' = gb_len ?p" "linked p' (b ! Suc (Suc ph))"
    "unset p' = unset ?p - {e} \<or> unset p' = insert e (unset ?p)"
    "full' \<longleftrightarrow> e div 64 \<notin> (\<lambda>i. i div 64) ` unset p'"
    using write_parent [OF okp Suc.prems(6,5,7)] by blast
  let ?b = "b[Suc ph := p']"
  have l: "linked (b ! ph) ?p" using Suc.prems by (auto simp: links_below_def)
  have lx: "linked_except (e div 64) (b ! ph) p'"
    using linked_except_parent [OF l w(3,5)] .
  have "\<exists>b'. update_loop ?b ph (e div 64) full' = ok b' \<and> length b' = length ?b \<and> list_all gb_ok b'
    \<and> links_from 0 b' \<and> gb_len (hd b') = gb_len (hd ?b) \<and> (\<forall>h>ph. b' ! h = ?b ! h)"
  proof (rule Suc.IH)
    show "links_from (Suc ph) ?b" using links_from_update [OF Suc.prems(4,1) w(4)] .
    show "e div 64 < gb_len (?b ! ph)"
      using linked_bound [OF lx] Suc.prems(6) w(3) by simp
  qed (use Suc.prems w lx in \<open>auto simp: links_below_def list_all_update nth_list_update\<close>)
  then obtain b' where b': "update_loop ?b ph (e div 64) full' = ok b'" "length b' = length b"
    "list_all gb_ok b'" "links_from 0 b'" "gb_len (hd b') = gb_len (hd ?b)" "\<forall>h>ph. b' ! h = ?b ! h"
    by auto
  have "update_loop b (Suc ph) e full = ok b'"
    using Suc.prems(1) w(1) b'(1) by (subst update_loop.simps) (simp add: get_level_def)
  moreover have "hd ?b = hd b" by (cases b) simp_all
  ultimately show ?case using b' by auto
qed

lemma links_from_0: "links_from 0 b \<longleftrightarrow> successively linked b"
  by (simp add: links_from_def successively_conv_nth)

text \<open>Writing the leaf and walking to the root.\<close>

lemma write_leaf:
  assumes inv: "bb_inv b" and ok: "gb_ok g'" and len: "gb_len g' = gb_len (last b)"
    and u: "unset g' = unset (last b) - {i} \<or> unset g' = insert i (unset (last b))"
    and i: "i < bb_size b" and full: "full \<longleftrightarrow> i div 64 \<notin> (\<lambda>j. j div 64) ` unset g'"
  obtains b' where "update_to_root (b[length b - 1 := g']) i full = ok b'" "bb_inv b'"
    "bb_size b' = bb_size b" "free_ids b' = unset g'" "length b' = length b"
proof (cases "length b = 1")
  case True
  then obtain g where b: "b = [g]" by (auto simp: length_Suc_conv)
  show ?thesis using assms
    by (intro that [of "[g']"]) (auto simp: b update_to_root_def bb_inv_def bb_size_def free_ids_def)
next
  case False
  define ph where "ph = length b - 2"
  have ne: "b \<noteq> []" using inv by (simp add: bb_inv_def)
  have lb: "length b = Suc (Suc ph)" using False ne by (cases b) (auto simp: ph_def Suc_le_eq)
  let ?b = "b[Suc ph := g']"
  have lk: "linked (b ! ph) (last b)"
    using inv lb ne by (auto simp: bb_inv_def successively_conv_nth last_conv_nth)
  have lx: "linked_except (i div 64) (b ! ph) g'"
    using linked_except_parent [OF lk len u] .
  have "\<exists>b'. update_loop ?b ph (i div 64) full = ok b' \<and> length b' = length ?b \<and> list_all gb_ok b'
    \<and> links_from 0 b' \<and> gb_len (hd b') = gb_len (hd ?b) \<and> (\<forall>h>ph. b' ! h = ?b ! h)"
  proof (rule update_loop_ok)
    show "list_all gb_ok ?b" using inv ok by (simp add: bb_inv_def list_all_update)
    show "links_below ph ?b"
      using inv lb by (auto simp: bb_inv_def links_below_def successively_conv_nth nth_list_update)
    show "i div 64 < gb_len (?b ! ph)" using linked_bound [OF lx] i len by (simp add: bb_size_def)
  qed (use lb lx full in \<open>auto simp: links_from_def\<close>)
  then obtain b' where b': "update_loop ?b ph (i div 64) full = ok b'" "length b' = length b"
    "list_all gb_ok b'" "links_from 0 b'" "gb_len (hd b') = gb_len (hd ?b)" "\<forall>h>ph. b' ! h = ?b ! h"
    by auto
  have hd: "hd ?b = hd b" by (cases b) simp_all
  have "last b' = b' ! Suc ph" using b'(2) lb by (subst last_conv_nth) auto
  then have last: "last b' = g'" using b'(6) lb by simp
  have "update_to_root (b[length b - 1 := g']) i full = ok b'"
    using b'(1) lb by (simp add: update_to_root_def checked_defs numeral_2_eq_2)
  moreover have "bb_inv b'" using inv b' last len lb by (auto simp: bb_inv_def links_from_0 hd)
  ultimately show ?thesis using that last len b'(2) by (simp add: bb_size_def free_ids_def)
qed

lemma bb_set_ok:
  assumes "bb_inv b" "i < bb_size b"
  obtains b' where "bb_set b i = ok b'" "bb_inv b'" "bb_size b' = bb_size b"
    "free_ids b' = free_ids b - {i}" "length b' = length b"
proof -
  have ne: "b \<noteq> []" using assms(1) by (simp add: bb_inv_def)
  obtain g' where g': "gb_set (last b) i = ok (g', i div 64 \<notin> (\<lambda>j. j div 64) ` unset g')" "gb_ok g'"
    "gb_len g' = gb_len (last b)" "unset g' = unset (last b) - {i}"
    using gb_set_ok [OF bb_inv_last [OF assms(1)]] assms(2) unfolding bb_size_def by metis
  obtain b' where "update_to_root (b[length b - 1 := g']) i (i div 64 \<notin> (\<lambda>j. j div 64) ` unset g') = ok b'"
    "bb_inv b'" "bb_size b' = bb_size b" "free_ids b' = unset g'" "length b' = length b"
    using write_leaf [OF assms(1) g'(2,3) disjI1 [OF g'(4)] assms(2) refl] by blast
  then show ?thesis using that ne g' leaf_level_ok [OF assms(1)]
    by (simp add: bb_set_def free_ids_def leaf_level_def checked_defs Suc_le_eq)
qed

lemma bb_clear_ok:
  assumes "bb_inv b" "i < bb_size b"
  obtains b' where "bb_clear b i = ok b'" "bb_inv b'" "bb_size b' = bb_size b"
    "free_ids b' = insert i (free_ids b)" "length b' = length b"
proof -
  have ne: "b \<noteq> []" using assms(1) by (simp add: bb_inv_def)
  obtain g' where g': "gb_clear (last b) i = ok g'" "gb_ok g'"
    "gb_len g' = gb_len (last b)" "unset g' = insert i (unset (last b))"
    using gb_clear_ok [OF bb_inv_last [OF assms(1)]] assms(2) unfolding bb_size_def by metis
  have "False \<longleftrightarrow> i div 64 \<notin> (\<lambda>j. j div 64) ` unset g'" using g'(4) by simp
  then obtain b' where "update_to_root (b[length b - 1 := g']) i False = ok b'"
    "bb_inv b'" "bb_size b' = bb_size b" "free_ids b' = unset g'" "length b' = length b"
    using write_leaf [OF assms(1) g'(2,3) disjI2 [OF g'(4)] assms(2)] by blast
  then show ?thesis using that ne g' leaf_level_ok [OF assms(1)]
    by (simp add: bb_clear_def free_ids_def leaf_level_def checked_defs Suc_le_eq)
qed

lemma bb_get_ok: "bb_inv b \<Longrightarrow> i < bb_size b \<Longrightarrow> bb_get b i = ok (i \<notin> free_ids b)"
  by (simp add: bb_get_def leaf_level_ok gb_get_ok bb_inv_last bb_size_def free_ids_def)

lemma bb_len_ok: "bb_inv b \<Longrightarrow> bb_len b = ok (bb_size b)"
  by (simp add: bb_len_def leaf_level_ok bb_size_def)

lemma free_ids_bound: "free_ids b \<subseteq> {..<bb_size b}"
  by (simp add: free_ids_def bb_size_def unset_bound)

lemma finite_free_ids [simp]: "finite (free_ids b)"
  by (simp add: free_ids_def)

lemma bb_alloc_ok:
  assumes "bb_inv b"
  obtains b' where "bb_alloc b = ok (if free_ids b = {} then None else Some (Min (free_ids b)), b')"
    "bb_inv b'" "bb_size b' = bb_size b" "free_ids b' = free_ids b - {Min (free_ids b)}" "length b' = length b"
proof (cases "free_ids b = {}")
  case True
  then show ?thesis using that [of b] assms by (simp add: bb_alloc_def find_first_unset_ok)
next
  case False
  then have "Min (free_ids b) \<in> free_ids b" by simp
  then have "Min (free_ids b) < bb_size b" using free_ids_bound [of b] by blast
  then obtain b' where "bb_set b (Min (free_ids b)) = ok b'" "bb_inv b'" "bb_size b' = bb_size b"
    "free_ids b' = free_ids b - {Min (free_ids b)}" "length b' = length b"
    using bb_set_ok [OF assms] by blast
  then show ?thesis using that [of b'] False assms by (simp add: bb_alloc_def find_first_unset_ok)
qed

subsection \<open>Counting\<close>

lemma sum_checked:
  assumes "m + sum_list (map f xs) < 2 ^ w"
  shows "foldl (\<lambda>s x. s \<bind> (\<lambda>n. cadd w n (f x))) (ok m) xs = ok (m + sum_list (map f xs))"
  using assms by (induction xs arbitrary: m) (simp_all add: cadd_def add.assoc)

lemma count_zeros_card: "count_zeros w = card {n. n < 64 \<and> \<not> bit w n}"
proof -
  have "count_zeros w = card (set (filter (\<lambda>i. \<not> bit w i) [0..<64]))"
    unfolding count_zeros_def by (intro distinct_card [symmetric] distinct_filter distinct_upt)
  moreover have "set (filter (\<lambda>i. \<not> bit w i) [0..<64]) = {n. n < 64 \<and> \<not> bit w n}" by auto
  ultimately show ?thesis by simp
qed

lemma sum_count_zeros:
  "sum_list (map count_zeros d) = card {i. i < 64 * length d \<and> \<not> bit (d ! (i div 64)) (i mod 64)}"
proof (induction d)
  case (Cons w d)
  let ?A = "{n. n < 64 \<and> \<not> bit w n}"
  let ?B = "{i. i < 64 * length d \<and> \<not> bit (d ! (i div 64)) (i mod 64)}"
  have "{i. i < 64 * length (w # d) \<and> \<not> bit ((w # d) ! (i div 64)) (i mod 64)} = ?A \<union> (\<lambda>i. i + 64) ` ?B"
    (is "?L = ?R")
  proof (intro set_eqI iffI)
    fix i assume i: "i \<in> ?L"
    show "i \<in> ?R"
    proof (cases "i < 64")
      case False
      then have "i = (i - 64) + 64" "(i - 64) div 64 = i div 64 - 1" "(i - 64) mod 64 = i mod 64" "i div 64 \<noteq> 0"
        by (simp_all add: le_mod_geq le_div_geq)
      then show ?thesis using i by (intro UnI2 image_eqI [of _ _ "i - 64"]) (auto simp: nth_Cons')
    qed (use i in auto)
  qed (auto simp: div_add_self2)
  moreover have "card (?A \<union> (\<lambda>i. i + 64) ` ?B) = card ?A + card ?B"
    by (subst card_Un_disjoint) (auto simp: card_image inj_on_def)
  ultimately show ?case using Cons by (simp add: count_zeros_card)
qed simp

lemma unset_words: "gb_ok g \<Longrightarrow> unset g = {i. i < 64 * length (gb_data g) \<and> \<not> gbit g i}"
  by (auto simp: unset_def gb_ok_def not_less [symmetric])

lemma bb_count_unset_ok:
  assumes "bb_inv b"
  shows "bb_count_unset b = ok (card (free_ids b))"
proof -
  have ok: "gb_ok (last b)" using assms by (rule bb_inv_last)
  have c: "sum_list (map count_zeros (gb_data (last b))) = card (free_ids b)"
    using unset_words [OF ok] by (simp add: sum_count_zeros free_ids_def gbit_def)
  have "card (free_ids b) \<le> card {..<bb_size b}" by (intro card_mono free_ids_bound) simp
  moreover have "bb_size b < 2 ^ 32" using assms by (simp add: bb_inv_def bb_size_def)
  ultimately have "card (free_ids b) < 2 ^ 32" by simp
  then show ?thesis using sum_checked [of 0 count_zeros "gb_data (last b)" 32] c
    by (simp add: bb_count_unset_def leaf_level_ok [OF assms] gb_count_unset_def)
qed

lemma bb_has_unset_ok:
  assumes "bb_inv b"
  shows "bb_has_unset b = ok (free_ids b \<noteq> {})"
proof -
  have ok: "gb_ok (last b)" using assms by (rule bb_inv_last)
  have "(\<exists>k<length (gb_data (last b)). gb_data (last b) ! k \<noteq> u64_max) \<longleftrightarrow> unset (last b) \<noteq> {}"
    using word_full_iff [OF ok] word_index [OF ok] by (auto simp: unset_def)
  then show ?thesis
    by (simp add: bb_has_unset_def leaf_level_ok [OF assms] gb_any_unset_def list_ex_length
        count_zeros_pos free_ids_def)
qed

subsection \<open>Construction and resizing\<close>

lemma gb_new_full_ok:
  assumes "n \<le> c"
  shows "gb_ok (gb_new_full n c)" "unset (gb_new_full n c) = {}" "gb_len (gb_new_full n c) = n"
proof -
  have w: "c \<le> 64 * div_ceil c 64" using div_ceil_le_iff [of 64 c "div_ceil c 64"] by simp
  have b: "gbit (gb_new_full n c) i" if "i < 64 * div_ceil c 64" for i
    using that by (simp add: gbit_def gb_new_full_def required_words_def less_mult_imp_div_less mult.commute)
  show "gb_ok (gb_new_full n c)"
    using w assms b by (auto simp: gb_ok_def gb_new_full_def required_words_def)
  show "unset (gb_new_full n c) = {}"
    using w assms b by (fastforce simp: unset_def gb_new_full_def)
qed (simp add: gb_new_full_def)

lemma div_ceil_mono: "n \<le> c \<Longrightarrow> div_ceil n 64 \<le> div_ceil c 64"
  by (meson div_ceil_le_iff le_refl order_trans zero_less_numeral)

lemma linked_full: "unset p = {} \<Longrightarrow> unset g = {} \<Longrightarrow> gb_len p = div_ceil (gb_len g) 64 \<Longrightarrow> linked p g"
  by (simp add: linked_def)

lemma new_levels_ok:
  assumes "n \<le> c"
  shows "list_all gb_ok (new_levels n c) \<and> list_all (\<lambda>g. unset g = {}) (new_levels n c)
    \<and> successively (\<lambda>g p. linked p g) (new_levels n c) \<and> gb_len (last (new_levels n c)) \<le> 64
    \<and> length (new_levels n c) = height_for_capacity c
    \<and> new_levels n c \<noteq> [] \<and> gb_len (hd (new_levels n c)) = n"
  using assms
proof (induction n c rule: new_levels.induct)
  case (1 n c)
  note g = gb_new_full_ok [OF 1(2)]
  show ?case
  proof (cases "c \<le> 64")
    case True
    then show ?thesis using g 1(2)
      by (subst (1 2 3 4 5 6 7) new_levels.simps, subst height_for_capacity.simps) simp
  next
    case False
    let ?r = "new_levels (div_ceil n 64) (div_ceil c 64)"
    have r: "new_levels n c = gb_new_full n c # ?r" using False by (subst new_levels.simps) simp
    have h: "height_for_capacity c = Suc (height_for_capacity (div_ceil c 64))"
      using False by (subst height_for_capacity.simps) simp
    note IH = 1(1) [OF False div_ceil_mono [OF 1(2)]]
    then have "linked (hd ?r) (gb_new_full n c)"
      using g by (intro linked_full) (auto simp: list_all_iff)
    then show ?thesis using IH g by (simp add: r h successively_Cons)
  qed
qed

text \<open>\<open>bb_rep n h F b\<close>: the tree \<open>b\<close> has \<open>n\<close> ids, height \<open>h\<close> and free ids \<open>F\<close>.\<close>

definition bb_rep :: "nat \<Rightarrow> nat \<Rightarrow> nat set \<Rightarrow> btree_bitmap \<Rightarrow> bool" where
  "bb_rep n h F b \<longleftrightarrow> bb_inv b \<and> bb_size b = n \<and> length b = h \<and> free_ids b = F"

lemma bb_new_rep: "n \<le> c \<Longrightarrow> n + 64 \<le> 2 ^ 32 \<Longrightarrow> bb_rep n (height_for_capacity c) {} (bb_new n c)"
  using new_levels_ok [of n c]
  by (auto simp: bb_rep_def bb_inv_def bb_new_def bb_size_def free_ids_def list_all_iff
      successively_rev hd_rev last_rev)

lemma height_bound: "c \<le> 64 ^ height_for_capacity c"
proof (induction c rule: height_for_capacity.induct)
  case (1 c)
  then show ?case
    by (subst height_for_capacity.simps) (simp add: div_ceil_le_iff mult.commute)
qed

lemma height_pos: "0 < height_for_capacity c"
  by (subst height_for_capacity.simps) simp

lemma pad_levels_rep:
  assumes "bb_rep n h {} b"
  shows "\<exists>b'. pad_levels m b = ok b' \<and> bb_rep n (max m h) {} b'"
  using assms
proof (induction m b arbitrary: h rule: pad_levels.induct)
  case (1 m b)
  show ?case
  proof (cases "length b < m")
    case True
    obtain r gs where b: "b = r # gs" using 1(2) by (cases b) (auto simp: bb_rep_def bb_inv_def)
    let ?l = "div_ceil (gb_len r) 64"
    let ?p = "gb_new_full ?l ?l"
    note g = gb_new_full_ok [of ?l ?l, OF order_refl]
    have "unset r = {}"
      using 1(2) linked_chain_empty [of b] by (auto simp: bb_rep_def bb_inv_def free_ids_def b)
    then have "linked ?p r" using g by (intro linked_full) auto
    then have "bb_rep n (Suc h) {} (?p # b)"
      using 1(2) g div_ceil_le [of "gb_len r"]
      by (auto simp: bb_rep_def bb_inv_def bb_size_def free_ids_def b)
    then have "\<exists>b'. pad_levels m (?p # b) = ok b' \<and> bb_rep n (max m (Suc h)) {} b'"
      using 1(1) [OF True, of r] by (simp add: b)
    moreover have "pad_levels m b = pad_levels m (?p # b)"
      using True by (subst pad_levels.simps) (simp add: b Let_def)
    moreover have "max m (Suc h) = max m h" using True 1(2) by (simp add: bb_rep_def)
    ultimately show ?thesis by simp
  next
    case False
    then show ?thesis using 1(2) by (subst pad_levels.simps) (auto simp: bb_rep_def max_def)
  qed
qed

definition padded_height :: "nat \<Rightarrow> nat \<Rightarrow> nat" where
  "padded_height c m = max (height_for_capacity m) (height_for_capacity c)"

lemma padded_height_bound: "m \<le> 64 ^ padded_height c m" "c \<le> 64 ^ padded_height c m"
  using height_bound [of m] height_bound [of c] unfolding padded_height_def
  by (meson max.cobounded1 max.cobounded2 one_le_numeral order_trans power_increasing)+

lemma bb_new_padded_rep:
  "n \<le> c \<Longrightarrow> n + 64 \<le> 2 ^ 32 \<Longrightarrow> \<exists>b. bb_new_padded n c m = ok b \<and> bb_rep n (padded_height c m) {} b"
  using pad_levels_rep [OF bb_new_rep] unfolding bb_new_padded_def padded_height_def by blast

text \<open>Growing a level with \<open>full = true\<close> writes bits that are already set.\<close>

lemma bits_in_range_bit:
  assumes "lo < hi" "hi \<le> 64"
  shows "\<exists>m. bits_in_range lo hi = ok m \<and> (\<forall>n. bit m n \<longleftrightarrow> lo \<le> n \<and> n < hi)"
  using assms by (auto simp: bits_in_range_def bit_simps bit_and_iff bit_not_iff bit_mask_iff)

lemma gb_resize_word_full:
  assumes "\<forall>i\<ge>old. i < 64 * length d \<longrightarrow> bit (d ! (i div 64)) (i mod 64)"
    "old div 64 \<le> k" "old < n" "k \<le> (n - 1) div 64" "n < 2 ^ 32" "n \<le> 64 * length d"
  shows "gb_resize_word old n True k d = ok d"
proof -
  have kn: "64 * k < n" using assms(3,4) mult_div_mod_eq [of 64 "n - 1"]
    by (metis Suc_pred' bot_nat_0.extremum_strict div_times_less_eq_dividend le_less_trans lessI
        less_le_trans mult.commute mult_le_mono1 not_gr_zero order_less_le_trans)
  have lo: "old - 64 * k < min (n - 64 * k) 64"
    using kn assms(2,3) mult_div_mod_eq [of 64 old] by (auto simp: min_def)
  obtain m where m: "bits_in_range (old - 64 * k) (min (n - 64 * k) 64) = ok m"
    "\<forall>i. bit m i \<longleftrightarrow> old - 64 * k \<le> i \<and> i < min (n - 64 * k) 64"
    using bits_in_range_bit [OF lo] by auto
  have k: "k < length d" using kn assms(6) by linarith
  have "d ! k OR m = d ! k"
  proof (rule bit_word_eqI)
    fix i assume i: "i < LENGTH(64)"
    have "bit (d ! k) i" if "bit m i"
      using assms(1) [rule_format, of "64 * k + i"] that m(2) i k by (simp add: le_diff_conv add.commute)
    then show "bit (d ! k OR m) i = bit (d ! k) i" by (auto simp: bit_or_iff)
  qed
  then show ?thesis using m(1) kn k assms(5)
    by (simp add: gb_resize_word_def checked_defs mult.commute [of k])
qed

lemma for_each_unchanged: "(\<And>x. x \<in> set xs \<Longrightarrow> f x s = ok s) \<Longrightarrow> for_each xs f s = ok s"
  by (induction xs) simp_all

lemma gb_resize_ok:
  assumes "gb_ok g" "unset g \<subseteq> {..<n}" "n < 2 ^ 32"
  obtains g' where "gb_resize g n True = ok g'" "gb_ok g'" "gb_len g' = n" "unset g' = unset g"
proof -
  let ?k = "required_words n - length (gb_data g)"
  define d where "d = gb_data g @ replicate ?k u64_max"
  let ?g = "\<lparr>gb_len = n, gb_data = d\<rparr>"
  have n: "n \<le> 64 * length d"
    using div_ceil_le_iff [of 64 n "length d"] by (auto simp: d_def required_words_def mult.commute)
  have bit: "bit (d ! (i div 64)) (i mod 64) \<longleftrightarrow> i \<notin> unset g" if "i < 64 * length d" for i
  proof (cases "i < 64 * length (gb_data g)")
    case True
    then have "i div 64 < length (gb_data g)" by (simp add: less_mult_imp_div_less mult.commute)
    then show ?thesis using True unset_words [OF assms(1)] by (simp add: d_def nth_append gbit_def)
  next
    case False
    moreover from this have "\<not> i div 64 < length (gb_data g)" by linarith
    moreover have "i div 64 < length d" using that by (simp add: less_mult_imp_div_less mult.commute)
    ultimately show ?thesis using unset_words [OF assms(1)]
      by (auto simp: d_def nth_append)
  qed
  have ok: "gb_ok ?g" using n bit assms(2) by (force simp: gb_ok_def gbit_def)
  have u: "unset ?g = unset g"
    using n bit assms(2) by (auto simp: unset_def [of ?g] gbit_def)
  have full: "\<forall>i\<ge>gb_len g. i < 64 * length d \<longrightarrow> bit (d ! (i div 64)) (i mod 64)"
    using bit unset_bound [of g] by fastforce
  have d: "(if length (gb_data g) < required_words n
      then gb_data g @ replicate ?k u64_max else gb_data g) = d"
    by (simp add: d_def)
  have "gb_resize g n True = ok ?g"
  proof (cases "n \<le> gb_len g")
    case True
    then show ?thesis by (simp only: gb_resize_def Let_def d if_True)
  next
    case False
    have "for_each [gb_len g div 64..<Suc ((n - 1) div 64)] (gb_resize_word (gb_len g) n True) d = ok d"
      using gb_resize_word_full [OF full _ _ _ assms(3) n] False by (intro for_each_unchanged) auto
    then show ?thesis using False by (simp only: gb_resize_def Let_def d if_True if_False bind.bind_lunit)
  qed
  then show ?thesis using that ok u by simp
qed

lemma resize_levels_ok:
  assumes "gs \<noteq> []" "list_all gb_ok gs" "successively (\<lambda>g p. linked p g) gs"
    "unset (hd gs) \<subseteq> {..<n}" "n < 2 ^ 32" "n \<le> 64 ^ length gs"
  shows "\<exists>gs'. resize_levels gs n True = ok gs' \<and> length gs' = length gs \<and> list_all gb_ok gs'
    \<and> successively (\<lambda>g p. linked p g) gs' \<and> unset (hd gs') = unset (hd gs) \<and> gb_len (hd gs') = n
    \<and> gb_len (last gs') \<le> 64"
  using assms
proof (induction gs arbitrary: n)
  case (Cons g gs)
  obtain g' where g': "gb_resize g n True = ok g'" "gb_ok g'" "gb_len g' = n" "unset g' = unset g"
    using gb_resize_ok [of g n] Cons.prems by auto
  show ?case
  proof (cases "gs = []")
    case True
    then show ?thesis using g' Cons.prems by simp
  next
    case False
    have l: "linked (hd gs) g" using Cons.prems(3) False by (simp add: successively_Cons)
    have "\<exists>gs'. resize_levels gs (div_ceil n 64) True = ok gs' \<and> length gs' = length gs \<and> list_all gb_ok gs'
      \<and> successively (\<lambda>g p. linked p g) gs' \<and> unset (hd gs') = unset (hd gs)
      \<and> gb_len (hd gs') = div_ceil n 64 \<and> gb_len (last gs') \<le> 64"
    proof (rule Cons.IH)
      show "unset (hd gs) \<subseteq> {..<div_ceil n 64}"
        using l Cons.prems(4) by (auto simp: linked_def less_div_ceil_iff)
      show "div_ceil n 64 < 2 ^ 32" using div_ceil_le [of n] Cons.prems(5) by simp
      show "div_ceil n 64 \<le> 64 ^ length gs" using Cons.prems(6) by (simp add: div_ceil_le_iff mult.commute)
    qed (use Cons.prems False in \<open>auto simp: successively_Cons\<close>)
    then obtain gs' where gs': "resize_levels gs (div_ceil n 64) True = ok gs'" "length gs' = length gs"
      "list_all gb_ok gs'" "successively (\<lambda>g p. linked p g) gs'" "unset (hd gs') = unset (hd gs)"
      "gb_len (hd gs') = div_ceil n 64" "gb_len (last gs') \<le> 64" by blast
    then have "linked (hd gs') g'" using l g' by (simp add: linked_def)
    moreover have "gs' \<noteq> []" using gs'(2) False by auto
    ultimately show ?thesis using g' gs' by (simp add: successively_Cons)
  qed
qed simp

lemma bb_resize_rep:
  assumes "bb_rep n h F b" "F \<subseteq> {..<m}" "m + 64 \<le> 2 ^ 32" "m \<le> 64 ^ h"
  shows "\<exists>b'. bb_resize b m True = ok b' \<and> bb_rep m h F b'"
proof -
  have inv: "b \<noteq> []" "list_all gb_ok b" "successively linked b" "length b = h" "unset (last b) = F"
    using assms(1) by (auto simp: bb_rep_def bb_inv_def free_ids_def)
  obtain gs where gs: "resize_levels (rev b) m True = ok gs" "length gs = length b" "list_all gb_ok gs"
    "successively (\<lambda>g p. linked p g) gs" "unset (hd gs) = F" "gb_len (hd gs) = m" "gb_len (last gs) \<le> 64"
    using resize_levels_ok [of "rev b" m] inv assms(2-4)
    by (auto simp: successively_rev hd_rev list_all_iff)
  have ne: "gs \<noteq> []" using gs(2) inv(1) by auto
  have "get_level (rev gs) 0 = ok (last gs)"
    using ne by (simp add: get_level_def hd_rev flip: hd_conv_nth)
  then have "bb_resize b m True = ok (rev gs)" using gs by (simp add: bb_resize_def Let_def)
  moreover have "bb_rep m h F (rev gs)"
    using gs ne inv assms(3)
    by (auto simp: bb_rep_def bb_inv_def bb_size_def free_ids_def hd_rev last_rev successively_rev list_all_iff)
  ultimately show ?thesis by blast
qed

lemma height_le: "c \<le> 64 ^ Suc k \<Longrightarrow> height_for_capacity c \<le> Suc k"
proof (induction k arbitrary: c)
  case 0
  then show ?case by (subst height_for_capacity.simps) simp
next
  case (Suc k)
  then have "div_ceil c 64 \<le> 64 ^ Suc k" by (simp add: div_ceil_le_iff mult.commute)
  then show ?case using Suc.IH by (subst height_for_capacity.simps) simp
qed

lemma padded_height_le: "c \<le> 2 ^ 32 \<Longrightarrow> m \<le> 2 ^ 32 \<Longrightarrow> padded_height c m \<le> 6"
  using height_le [of c 5] height_le [of m 5] by (simp add: padded_height_def)

subsection \<open>Serialization\<close>

definition gb_trim :: "grouped_bitmap \<Rightarrow> grouped_bitmap" where
  "gb_trim g = g\<lparr>gb_data := take (required_words (gb_len g)) (gb_data g)\<rparr>"

lemma gb_ok_words: "gb_ok g \<Longrightarrow> required_words (gb_len g) \<le> length (gb_data g)"
  by (simp add: gb_ok_def required_words_def div_ceil_le_iff mult.commute)

lemma gb_trim_ok:
  assumes "gb_ok g"
  shows "gb_ok (gb_trim g)" "unset (gb_trim g) = unset g" "gb_len (gb_trim g) = gb_len g"
proof -
  have w: "gb_len g \<le> 64 * required_words (gb_len g)"
    using div_ceil_le_iff [of 64 "gb_len g" "required_words (gb_len g)"]
    by (simp add: required_words_def mult.commute)
  have b: "gbit (gb_trim g) i = gbit g i" if "i < 64 * required_words (gb_len g)" for i
    using that by (simp add: gb_trim_def gbit_def less_mult_imp_div_less mult.commute)
  show l: "gb_len (gb_trim g) = gb_len g" by (simp add: gb_trim_def)
  show "unset (gb_trim g) = unset g" using w b by (auto simp: unset_def l)
  show "gb_ok (gb_trim g)" using assms w b gb_ok_words [OF assms]
    by (auto simp: gb_ok_def l) (auto simp: gb_trim_def)
qed

lemma gb_round_trip:
  assumes "gb_ok g" "gb_len g < 2 ^ 32"
  shows "\<exists>v. gb_to_vec g = ok v \<and> gb_from_bytes v = ok (gb_trim g)
    \<and> length v = 4 + 8 * required_words (gb_len g)"
proof -
  define ws where "ws = take (required_words (gb_len g)) (gb_data g)"
  have lw: "length ws = required_words (gb_len g)" using gb_ok_words [OF assms(1)] by (simp add: ws_def)
  let ?c = "concat (map (word_to_le 8) ws)"
  define v where "v = le_bytes 4 (gb_len g) @ ?c"
  have to: "gb_to_vec g = ok v"
    using gb_ok_words [OF assms(1)] by (simp add: gb_to_vec_def sub_slice_def v_def ws_def Let_def)
  have lc: "length ?c = length ws * 8" by (subst length_concat_const [where n = 8]) auto
  have M: "map_rust (\<lambda>i. do { bs \<leftarrow> sub_slice v (4 + i * 8) (4 + i * 8 + 8); ok (word_from_le bs :: u64) })
      [0..<length ws] = ok (map (\<lambda>i. ws ! i) [0..<length ws])"
  proof (rule map_rust_ok)
    fix i assume "i \<in> set [0..<length ws]"
    then have i: "i < length ws" by simp
    have "take 8 (drop (i * 8) ?c) = word_to_le 8 (ws ! i)"
      using i by (subst nth_chunk) auto
    then have "sub_slice v (4 + i * 8) (4 + i * 8 + 8) = ok (word_to_le 8 (ws ! i))"
      using i lc by (simp add: sub_slice_def v_def)
    then show "do { bs \<leftarrow> sub_slice v (4 + i * 8) (4 + i * 8 + 8); ok (word_from_le bs) } = ok (ws ! i)"
      by simp
  qed
  have "length v = 4 + length ws * 8" "sub_slice v 0 4 = ok (le_bytes 4 (gb_len g))"
    using lc by (simp_all add: v_def sub_slice_def)
  then have "gb_from_bytes v = ok \<lparr>gb_len = gb_len g, gb_data = ws\<rparr>"
    using assms(2) M unfolding gb_from_bytes_def Let_def map_nth by (simp add: csub_def)
  then have "gb_from_bytes v = ok (gb_trim g)" by (simp add: gb_trim_def ws_def)
  then show ?thesis using to lc lw by (simp add: v_def)
qed

lemma linked_chain_len:
  "successively linked b \<Longrightarrow> g \<in> set b \<Longrightarrow> gb_len g \<le> gb_len (last b)"
proof (induction b arbitrary: g rule: induct_list012)
  case (3 x y zs)
  have "gb_len y \<le> gb_len (last (y # zs))" using 3(2) [of y] 3(3) by simp
  moreover have "gb_len x \<le> gb_len y" using 3(3) div_ceil_le [of "gb_len y"] by (simp add: linked_def)
  ultimately show ?case using 3(2) [of g] 3(3,4) by auto
qed simp_all

lemma successively_map_same:
  "(\<And>x. x \<in> set xs \<Longrightarrow> f x = f (g x)) \<Longrightarrow> (\<And>x y. P x y \<longleftrightarrow> Q (f x) (f y)) \<Longrightarrow>
   successively P (map g xs) = successively P xs"
  by (induction xs rule: induct_list012) auto

lemma bb_trim_rep:
  assumes "bb_rep n h F b"
  shows "bb_rep n h F (map gb_trim b)"
proof -
  have ok: "list_all gb_ok b" "b \<noteq> []" using assms by (auto simp: bb_rep_def bb_inv_def)
  note t = gb_trim_ok
  have "successively linked (map gb_trim b) = successively linked b"
    by (rule successively_map_same [where f = "\<lambda>g. (gb_len g, unset g)" and
        Q = "\<lambda>p g. fst p = div_ceil (fst g) 64 \<and> snd p = (\<lambda>i. i div 64) ` snd g"])
      (use ok t in \<open>auto simp: linked_def list_all_iff\<close>)
  then show ?thesis using assms ok t
    by (auto simp: bb_rep_def bb_inv_def bb_size_def free_ids_def hd_map last_map list_all_iff)
qed

lemma bb_round_trip:
  assumes "bb_rep n h F b" "h \<le> 6"
  shows "\<exists>v. bb_to_vec b = ok v \<and> bb_from_bytes v = ok (map gb_trim b)
    \<and> length v \<le> 4 + h * (16 + n div 8)"
proof -
  have b: "list_all gb_ok b" "successively linked b" "length b = h" "gb_len (last b) = n" "n + 64 \<le> 2 ^ 32"
    using assms(1) by (auto simp: bb_rep_def bb_inv_def bb_size_def)
  define enc where "enc g = the (gb_to_vec g)" for g
  have e: "gb_to_vec g = ok (enc g)" "gb_from_bytes (enc g) = ok (gb_trim g)"
    "length (enc g) \<le> 12 + n div 8" if "g \<in> set b" for g
  proof -
    have l: "gb_len g \<le> n" using linked_chain_len [OF b(2) that] b(4) by simp
    have "gb_ok g" "gb_len g < 2 ^ 32" using b(1,5) that l by (auto simp: list_all_iff)
    from gb_round_trip [OF this] obtain v where
      v: "gb_to_vec g = ok v" "gb_from_bytes v = ok (gb_trim g)" "length v = 4 + 8 * required_words (gb_len g)"
      by blast
    moreover have "8 * required_words (gb_len g) \<le> 8 + n div 8"
      using l by (simp add: required_words_def div_ceil_def)
    ultimately show "gb_to_vec g = ok (enc g)" "gb_from_bytes (enc g) = ok (gb_trim g)"
      "length (enc g) \<le> 12 + n div 8" by (simp_all add: enc_def)
  qed
  let ?vs = "map enc b"
  have lc: "length (concat ?vs) \<le> h * (12 + n div 8)"
    using length_concat_le [of ?vs "12 + n div 8"] e(3) b(3) by auto
  also have "\<dots> \<le> 6 * (12 + n div 8)" using assms(2) by (rule mult_le_mono1)
  finally have "4 + h * 4 + length (concat ?vs) < 2 ^ 32" using b(5) assms(2) by simp
  from end_offsets_ok [OF this] obtain ends where
    ends: "end_offsets (4 + h * 4) ?vs = ok ends" "length ends = h" using b(3) by auto
  let ?meta = "concat (map (le_bytes 4) ends)"
  define v where "v = le_bytes 4 h @ ?meta @ concat ?vs"
  have lm: "length ?meta = h * 4" using ends(2) by (subst length_concat_const [where n = 4]) auto
  have "map_rust gb_to_vec b = ok ?vs" using e(1) by (rule map_rust_ok)
  then have "bb_to_vec b = ok v"
    using ends lm b(3) assms(2) by (simp add: bb_to_vec_def try_into_def Let_def v_def)
  moreover have "read_parts gb_from_bytes (length ?vs) v 4 (4 + h * 4) = map_rust gb_from_bytes ?vs"
    by (rule read_parts_ok [where ?r2.0 = "[]", OF ends(1)]) (simp_all add: v_def lm)
  moreover have "map_rust gb_from_bytes ?vs = ok (map gb_trim b)"
    using e(2) by (induction b) auto
  ultimately show ?thesis using lc lm assms(2) b(3)
    by (auto simp: bb_from_bytes_def v_def sub_slice_def Let_def algebra_simps)
qed

subsection \<open>The interface of a free index\<close>

text \<open>
  What the clients of a \<open>BtreeBitmap\<close> (the buddy allocator and the region tracker) rely on: an
  index of \<open>n\<close> ids that can grow to \<open>64 ^ h\<close> ids and of which the ids in \<open>F\<close> are free.  Both
  clients keep a vector of such indexes, one per page order; \<open>reps\<close> relates that vector to
  the free ids of every order.
\<close>

definition reps :: "(nat \<Rightarrow> nat \<Rightarrow> nat set \<Rightarrow> 'b \<Rightarrow> bool) \<Rightarrow> (nat \<Rightarrow> nat) \<Rightarrow> (nat \<Rightarrow> nat) \<Rightarrow> (nat \<Rightarrow> nat set)
    \<Rightarrow> 'b list \<Rightarrow> bool" where
  "reps rep n h F fs \<longleftrightarrow> (\<forall>k<length fs. rep (n k) (h k) (F k) (fs ! k))"

locale free_index =
  fixes rep :: "nat \<Rightarrow> nat \<Rightarrow> nat set \<Rightarrow> 'b \<Rightarrow> bool"
    and get_id :: "'b \<Rightarrow> nat \<Rightarrow> bool rust"
    and set_id clear_id :: "'b \<Rightarrow> nat \<Rightarrow> 'b rust"
    and alloc_id :: "'b \<Rightarrow> (nat option \<times> 'b) rust"
    and len_ids count_free :: "'b \<Rightarrow> nat rust"
    and has_free :: "'b \<Rightarrow> bool rust"
  assumes rep_bound: "rep n h F b \<Longrightarrow> F \<subseteq> {..<n}"
    and get_law: "rep n h F b \<Longrightarrow> i < n \<Longrightarrow> get_id b i = ok (i \<notin> F)"
    and set_law: "rep n h F b \<Longrightarrow> i < n \<Longrightarrow> \<exists>b'. set_id b i = ok b' \<and> rep n h (F - {i}) b'"
    and clear_law: "rep n h F b \<Longrightarrow> i < n \<Longrightarrow> \<exists>b'. clear_id b i = ok b' \<and> rep n h (insert i F) b'"
    and alloc_law: "rep n h F b \<Longrightarrow> \<exists>b'. rep n h (F - {Min F}) b'
        \<and> alloc_id b = ok (if F = {} then None else Some (Min F), b')"
    and len_law: "rep n h F b \<Longrightarrow> len_ids b = ok n"
    and count_law: "rep n h F b \<Longrightarrow> count_free b = ok (card F)"
    and has_law: "rep n h F b \<Longrightarrow> has_free b = ok (F \<noteq> {})"
begin

lemma reps_update:
  assumes "reps rep n h F fs" "k < length fs" "rep (n k) (h k) G b'"
  shows "reps rep n h (F(k := G)) (fs[k := b'])"
  using assms by (auto simp: reps_def nth_list_update)

lemma reps_bound: "reps rep n h F fs \<Longrightarrow> k < length fs \<Longrightarrow> F k \<subseteq> {..<n k}"
  using rep_bound unfolding reps_def by blast

lemma reps_get:
  "reps rep n h F fs \<Longrightarrow> k < length fs \<Longrightarrow> i < n k \<Longrightarrow> index fs k \<bind> (\<lambda>b. get_id b i) = ok (i \<notin> F k)"
  using get_law by (auto simp: reps_def)

lemma reps_len: "reps rep n h F fs \<Longrightarrow> k < length fs \<Longrightarrow> index fs k \<bind> len_ids = ok (n k)"
  using len_law by (auto simp: reps_def)

lemma reps_has: "reps rep n h F fs \<Longrightarrow> k < length fs \<Longrightarrow> index fs k \<bind> has_free = ok (F k \<noteq> {})"
  using has_law by (auto simp: reps_def)

lemma reps_count: "reps rep n h F fs \<Longrightarrow> k < length fs \<Longrightarrow> index fs k \<bind> count_free = ok (card (F k))"
  using count_law by (auto simp: reps_def)

lemma reps_set:
  assumes "reps rep n h F fs" "k < length fs" "i < n k"
  shows "\<exists>fs'. update_at fs k (\<lambda>b. set_id b i) = ok fs' \<and> length fs' = length fs
    \<and> reps rep n h (F(k := F k - {i})) fs'"
proof -
  obtain b' where "set_id (fs ! k) i = ok b'" "rep (n k) (h k) (F k - {i}) b'"
    using assms set_law unfolding reps_def by blast
  then show ?thesis using reps_update [OF assms(1,2)] assms(2) by (auto simp: update_at_def)
qed

lemma reps_clear:
  assumes "reps rep n h F fs" "k < length fs" "i < n k"
  shows "\<exists>fs'. update_at fs k (\<lambda>b. clear_id b i) = ok fs' \<and> length fs' = length fs
    \<and> reps rep n h (F(k := insert i (F k))) fs'"
proof -
  obtain b' where "clear_id (fs ! k) i = ok b'" "rep (n k) (h k) (insert i (F k)) b'"
    using assms clear_law unfolding reps_def by blast
  then show ?thesis using reps_update [OF assms(1,2)] assms(2) by (auto simp: update_at_def)
qed

lemma reps_alloc:
  assumes "reps rep n h F fs" "k < length fs"
  shows "\<exists>b'. index fs k \<bind> alloc_id = ok (if F k = {} then None else Some (Min (F k)), b')
    \<and> reps rep n h (F(k := F k - {Min (F k)})) (fs[k := b'])"
proof -
  obtain b' where "alloc_id (fs ! k) = ok (if F k = {} then None else Some (Min (F k)), b')"
    "rep (n k) (h k) (F k - {Min (F k)}) b'"
    using assms alloc_law unfolding reps_def by blast
  then show ?thesis using reps_update [OF assms(1,2)] assms(2) by auto
qed

end

interpretation bitmap_index: free_index bb_rep bb_get bb_set bb_clear bb_alloc bb_len bb_count_unset bb_has_unset
proof
  fix n h F b i assume r: "bb_rep n h F b"
  then show "F \<subseteq> {..<n}" using free_ids_bound by (auto simp: bb_rep_def)
  show "\<exists>b'. bb_rep n h (F - {Min F}) b' \<and> bb_alloc b = ok (if F = {} then None else Some (Min F), b')"
    using r bb_alloc_ok [of b] unfolding bb_rep_def by metis
  assume "i < n"
  with r show "\<exists>b'. bb_set b i = ok b' \<and> bb_rep n h (F - {i}) b'"
    using bb_set_ok [of b i] unfolding bb_rep_def by metis
  from r \<open>i < n\<close> show "\<exists>b'. bb_clear b i = ok b' \<and> bb_rep n h (insert i F) b'"
    using bb_clear_ok [of b i] unfolding bb_rep_def by metis
qed (auto simp: bb_rep_def bb_get_ok bb_len_ok bb_count_unset_ok bb_has_unset_ok)

subsection \<open>Properties\<close>

text \<open>
  C6. Reading and writing a bit of a \<open>BtreeBitmap\<close> behaves as membership in its set of free
  ids: under the tree invariant \<open>get\<close>, \<open>set\<close> and \<open>clear\<close> never panic on an id in range, they
  test, remove and add that id, they keep the invariant (every inner level is recomputed
  exactly), and \<open>count_unset\<close> and \<open>has_unset\<close> are the cardinality and non-emptiness of the
  set.
\<close>

theorem bitmap_refines_set:
  assumes "bb_rep n h F b" "i < n"
  shows "bb_get b i = ok (i \<notin> F)
    \<and> (\<exists>b'. bb_set b i = ok b' \<and> bb_rep n h (F - {i}) b')
    \<and> (\<exists>b'. bb_clear b i = ok b' \<and> bb_rep n h (insert i F) b')
    \<and> bb_count_unset b = ok (card F) \<and> bb_has_unset b = ok (F \<noteq> {})"
  using bitmap_index.get_law [OF assms] bitmap_index.set_law [OF assms] bitmap_index.clear_law [OF assms]
    bitmap_index.count_law [OF assms(1)] bitmap_index.has_law [OF assms(1)] by simp

text \<open>The tree of 70 ids of height 2, all of them taken.\<close>

lemma bb_rep_70: "bb_rep 70 2 {} (bb_new 70 70)"
proof -
  have "height_for_capacity 70 = 2"
    by (subst height_for_capacity.simps, subst height_for_capacity.simps) (simp add: div_ceil_def)
  then show ?thesis using bb_new_rep [of 70 70] by simp
qed

theorem bitmap_refines_set_witness:
  "bb_rep 70 2 {} (bb_new 70 70) \<and> (69::nat) < 70
   \<and> (\<exists>b'. bb_clear (bb_new 70 70) 69 = ok b' \<and> bb_rep 70 2 {69} b')"
  using bitmap_refines_set [OF bb_rep_70, of 69] bb_rep_70 by simp

text \<open>
  C23. \<open>alloc\<close> returns the least free id and takes it, and returns \<open>None\<close> exactly when no id is
  free; \<open>find_first_unset\<close> returns the same id.  The search from the root through the
  inner levels never panics.
\<close>

theorem bitmap_alloc_least:
  assumes "bb_rep n h F b"
  shows "find_first_unset b = ok (if F = {} then None else Some (Min F))
    \<and> (\<exists>b'. bb_alloc b = ok (if F = {} then None else Some (Min F), b') \<and> bb_rep n h (F - {Min F}) b')"
proof -
  have "bb_inv b" "free_ids b = F" using assms by (simp_all add: bb_rep_def)
  then show ?thesis using bitmap_index.alloc_law [OF assms] find_first_unset_ok [of b] by blast
qed

theorem bitmap_alloc_least_witness:
  "\<exists>b b'. bb_clear (bb_new 70 70) 69 = ok b \<and> bb_rep 70 2 {69} b
     \<and> find_first_unset b = ok (Some 69) \<and> bb_alloc b = ok (Some 69, b') \<and> bb_rep 70 2 {} b'"
proof -
  obtain b where b: "bb_clear (bb_new 70 70) 69 = ok b" "bb_rep 70 2 {69} b"
    using bitmap_index.clear_law [OF bb_rep_70, of 69] by auto
  then show ?thesis using bitmap_alloc_least [OF b(2)] by auto
qed

text \<open>
  A bitmap made by \<open>new_padded\<close> has all its ids taken, and \<open>resize(_, true)\<close> to any length up to
  \<open>max_capacity\<close> that keeps the free ids succeeds without a new tree level: it changes
  the number of ids, keeps the free ones, and the ids it adds are taken.
\<close>

theorem bitmap_new_padded_resize:
  assumes "n \<le> c" "n + 64 \<le> 2 ^ 32" "m \<le> max_capacity" "m + 64 \<le> 2 ^ 32"
  shows "\<exists>b h. bb_new_padded n c max_capacity = ok b \<and> bb_rep n h {} b
    \<and> (\<forall>b\<^sub>1 F. bb_rep n h F b\<^sub>1 \<and> F \<subseteq> {..<m} \<longrightarrow> (\<exists>b\<^sub>2. bb_resize b\<^sub>1 m True = ok b\<^sub>2 \<and> bb_rep m h F b\<^sub>2))"
proof -
  obtain b h where b: "bb_new_padded n c max_capacity = ok b" "bb_rep n h {} b" "max_capacity \<le> 64 ^ h"
    using bb_new_padded_rep [OF assms(1,2)] padded_height_bound by blast
  have "\<exists>b\<^sub>2. bb_resize b\<^sub>1 m True = ok b\<^sub>2 \<and> bb_rep m h F b\<^sub>2" if "bb_rep n h F b\<^sub>1" "F \<subseteq> {..<m}" for b\<^sub>1 F
    using bb_resize_rep [OF that assms(4)] b(3) assms(3) by simp
  then show ?thesis using b by blast
qed

theorem bitmap_new_padded_resize_witness:
  "\<exists>b h b\<^sub>2. bb_new_padded 10 10 5000 = ok b \<and> bb_rep 10 h {} b
     \<and> bb_resize b 4097 True = ok b\<^sub>2 \<and> bb_rep 4097 h {} b\<^sub>2"
  using bitmap_new_padded_resize [of 10 10 4097 5000] by fastforce

text \<open>
  C24. \<open>from_bytes\<close> reads back what \<open>to_vec\<close> writes: for the heights a \<open>u32\<close> capacity can
  have, serialization never panics and the tree read back has the same ids, height and
  free ids.
\<close>

theorem bitmap_serialization_round_trip:
  assumes "bb_rep n h F b" "h \<le> 6"
  shows "\<exists>v b'. bb_to_vec b = ok v \<and> bb_from_bytes v = ok b' \<and> bb_rep n h F b'"
  using bb_round_trip [OF assms] bb_trim_rep [OF assms(1)] by blast

theorem bitmap_serialization_round_trip_witness:
  "\<exists>v b'. bb_to_vec (bb_new 70 70) = ok v \<and> bb_from_bytes v = ok b' \<and> bb_rep 70 2 {} b'"
  using bitmap_serialization_round_trip [OF bb_rep_70] by simp

end
