(* ===== verification/Buddy.thy ===== *)
theory Buddy
  imports Bitmap
begin

text \<open>
  The buddy allocator of a region, \<open>src/tree_store/page_store/buddy_allocator.rs\<close>.

  \<open>buddy\<close> is \<open>BuddyAllocator\<close>: one \<open>BtreeBitmap\<close> per page order, in which an unset bit is a free
  block.  The abstract value is the set of free order-0 pages, \<open>pages\<close>.  The invariant
  \<open>bud_inv\<close> (free blocks do not overlap and buddies are merged) makes the blocks a function of
  that set; every operation keeps it, never panics under its precondition, and acts on the
  set of free pages as a set operation.
\<close>

subsection \<open>The allocator\<close>

definition MAX_MAX_PAGE_ORDER :: nat where "MAX_MAX_PAGE_ORDER = 20"

record buddy =
  bud_free :: "btree_bitmap list"
  bud_len :: nat
  bud_max_order :: nat

definition calculate_usable_order :: "nat \<Rightarrow> nat rust" where
  "calculate_usable_order num = do {
     a \<leftarrow> csub 32 (leading_zeros 32 num);
     a \<leftarrow> csub a 1;
     max_order \<leftarrow> try_into 8 a;
     ok (min MAX_MAX_PAGE_ORDER max_order)
   }"

definition next_higher_order :: "nat \<Rightarrow> nat" where
  "next_higher_order page_number = page_number div 2"

definition buddy_page :: "nat \<Rightarrow> nat" where
  "buddy_page page_number = page_number XOR 1"

fun new_orders :: "nat \<Rightarrow> nat \<Rightarrow> nat \<Rightarrow> btree_bitmap list rust" where
  "new_orders 0 pages_for_order capacity_for_order = ok []"
| "new_orders (Suc k) pages_for_order capacity_for_order = do {
     b \<leftarrow> bb_new_padded pages_for_order pages_for_order capacity_for_order;
     bs \<leftarrow> new_orders k (next_higher_order pages_for_order) (next_higher_order capacity_for_order);
     ok (b # bs)
   }"

text \<open>The loops \<open>while processed + order_size <= limit\<close> shared by \<open>new\<close> and \<open>resize\<close>.\<close>

function chunk_loop :: "('s \<Rightarrow> nat \<Rightarrow> nat \<Rightarrow> 's rust) \<Rightarrow> nat \<Rightarrow> nat \<Rightarrow> nat \<Rightarrow> 's \<Rightarrow> (nat \<times> 's) rust" where
  "chunk_loop f limit order processed s = do {
     order_size \<leftarrow> pow2_u32 order;
     next \<leftarrow> cadd 32 processed order_size;
     if next \<le> limit then do {
       page \<leftarrow> cdiv processed order_size;
       s' \<leftarrow> f s page order;
       chunk_loop f limit order next s'
     } else ok (processed, s)
   }"
  by pat_completeness auto
termination
  by (relation "measure (\<lambda>(f, limit, order, processed, s). limit - processed)")
    (auto simp: pow2_u32_def cadd_def intro: pow2_progress split: if_splits)

declare chunk_loop.simps [simp del]

definition chunk_orders :: "('s \<Rightarrow> nat \<Rightarrow> nat \<Rightarrow> 's rust) \<Rightarrow> nat \<Rightarrow> nat \<Rightarrow> nat \<Rightarrow> 's \<Rightarrow> (nat \<times> 's) rust" where
  "chunk_orders f limit max_order processed s =
     for_each (rev [0..<Suc max_order]) (\<lambda>order (processed, s). chunk_loop f limit order processed s)
       (processed, s)"

definition bud_new :: "nat \<Rightarrow> nat \<Rightarrow> buddy rust" where
  "bud_new num_pages max_page_capacity = do {
     max_order \<leftarrow> calculate_usable_order max_page_capacity;
     free \<leftarrow> new_orders (Suc max_order) num_pages max_page_capacity;
     (accounted_pages, free) \<leftarrow>
       chunk_orders (\<lambda>free page order. update_at free order (\<lambda>b. bb_clear b page)) num_pages max_order 0 free;
     assert_that (accounted_pages = num_pages);
     ok \<lparr>bud_free = free, bud_len = num_pages, bud_max_order = max_order\<rparr>
   }"

definition get_order_free :: "buddy \<Rightarrow> nat \<Rightarrow> btree_bitmap rust" where
  "get_order_free a order = index (bud_free a) order"

definition bud_get :: "buddy \<Rightarrow> nat \<Rightarrow> nat \<Rightarrow> bool rust" where
  "bud_get a order page = get_order_free a order \<bind> (\<lambda>b. bb_get b page)"

definition bud_set :: "buddy \<Rightarrow> nat \<Rightarrow> nat \<Rightarrow> buddy rust" where
  "bud_set a order page = do {
     free \<leftarrow> update_at (bud_free a) order (\<lambda>b. bb_set b page);
     ok (a\<lparr>bud_free := free\<rparr>) }"

definition bud_clear :: "buddy \<Rightarrow> nat \<Rightarrow> nat \<Rightarrow> buddy rust" where
  "bud_clear a order page = do {
     free \<leftarrow> update_at (bud_free a) order (\<lambda>b. bb_clear b page);
     ok (a\<lparr>bud_free := free\<rparr>) }"

definition highest_free_order :: "buddy \<Rightarrow> nat option rust" where
  "highest_free_order a =
     for_each (rev [0..<Suc (bud_max_order a)])
       (\<lambda>order r. case r of Some x \<Rightarrow> ok (Some x)
          | None \<Rightarrow> do { u \<leftarrow> get_order_free a order \<bind> bb_has_unset;
                        ok (if u then Some order else None) }) None"

definition count_free_pages :: "buddy \<Rightarrow> nat rust" where
  "count_free_pages a =
     for_each [0..<Suc (bud_max_order a)]
       (\<lambda>order acc. do {
          c \<leftarrow> get_order_free a order \<bind> bb_count_unset;
          size \<leftarrow> pow2_u32 order;
          m \<leftarrow> cmul 32 c size;
          cadd 32 acc m }) 0"

definition count_allocated_pages :: "buddy \<Rightarrow> nat rust" where
  "count_allocated_pages a = count_free_pages a \<bind> csub (bud_len a)"

function find_free_from :: "buddy \<Rightarrow> nat \<Rightarrow> nat \<Rightarrow> nat option rust" where
  "find_free_from a order page =
     (if order > bud_max_order a then ok None
      else do {
        b \<leftarrow> get_order_free a order;
        len \<leftarrow> bb_len b;
        hit \<leftarrow> (if page < len then do { g \<leftarrow> bb_get b page; ok (\<not> g) } else ok False);
        if hit then ok (Some order)
        else find_free_from a (Suc order) (next_higher_order page)
      })"
  by pat_completeness auto
termination
  by (relation "measure (\<lambda>(a, order, page). Suc (bud_max_order a) - order)") auto

declare find_free_from.simps [simp del]

definition find_free_order :: "buddy \<Rightarrow> nat \<Rightarrow> nat option rust" where
  "find_free_order a page = find_free_from a 0 page"

function trailing_loop :: "buddy \<Rightarrow> nat \<Rightarrow> nat \<Rightarrow> nat rust" where
  "trailing_loop a free_pages next_page = do {
     r \<leftarrow> find_free_order a next_page;
     (case r of None \<Rightarrow> ok free_pages
      | Some order \<Rightarrow> do {
          order_size \<leftarrow> pow2_u32 order;
          free_pages \<leftarrow> cadd 32 free_pages order_size;
          if order_size > next_page then ok free_pages
          else trailing_loop a free_pages (next_page - order_size) })
   }"
  by pat_completeness auto
termination
  by (relation "measure (\<lambda>(a, f, n). n)") (auto simp: pow2_u32_def intro: pow2_progress split: if_splits)

declare trailing_loop.simps [simp del]

definition trailing_free_pages :: "buddy \<Rightarrow> nat rust" where
  "trailing_free_pages a = csub (bud_len a) 1 \<bind> trailing_loop a 0"

subsection \<open>Allocating and freeing\<close>

function alloc_inner :: "buddy \<Rightarrow> nat \<Rightarrow> (nat option \<times> buddy) rust" where
  "alloc_inner a order =
     (if order > bud_max_order a then ok (None, a)
      else do {
        (r, b) \<leftarrow> get_order_free a order \<bind> bb_alloc;
        let a = a\<lparr>bud_free := (bud_free a)[order := b]\<rparr>;
        (case r of Some x \<Rightarrow> ok (Some x, a)
         | None \<Rightarrow> do {
             (upper, a) \<leftarrow> alloc_inner a (Suc order);
             (case upper of None \<Rightarrow> ok (None, a)
              | Some upper_page \<Rightarrow> do {
                  free1 \<leftarrow> cmul 32 upper_page 2;
                  free2 \<leftarrow> cadd 32 free1 1;
                  g1 \<leftarrow> bud_get a order free1;
                  assert_that g1;
                  g2 \<leftarrow> bud_get a order free2;
                  assert_that g2;
                  a \<leftarrow> bud_clear a order free2;
                  ok (Some free1, a) }) })
      })"
  by pat_completeness auto
termination
  by (relation "measure (\<lambda>(a, order). Suc (bud_max_order a) - order)") auto

declare alloc_inner.simps [simp del]

definition bud_alloc :: "buddy \<Rightarrow> nat \<Rightarrow> (nat option \<times> buddy) rust" where
  "bud_alloc a order = alloc_inner a order"

function free_inner :: "buddy \<Rightarrow> nat \<Rightarrow> nat \<Rightarrow> buddy rust" where
  "free_inner a page_number order =
     (if order = bud_max_order a then bud_clear a order page_number
      else do {
        b \<leftarrow> get_order_free a order;
        let buddy = buddy_page page_number;
        len \<leftarrow> bb_len b;
        alone \<leftarrow> (if buddy \<ge> len then ok True else bb_get b buddy);
        if alone then bud_clear a order page_number
        else do {
          a' \<leftarrow> bud_set a order buddy;
          free_inner a' (next_higher_order page_number) (Suc order) }
      })"
  by pat_completeness auto
termination
  by (relation "measure (\<lambda>(a, p, order). if order \<le> length (bud_free a) then Suc (length (bud_free a)) - order else 0)")
    (auto simp: get_order_free_def bud_set_def update_at_def index_def index_set_def bind_ok_iff split: if_splits)

declare free_inner.simps [simp del]

definition bud_free_page :: "buddy \<Rightarrow> nat \<Rightarrow> nat \<Rightarrow> buddy rust" where
  "bud_free_page a page_number order = do {
     g \<leftarrow> bud_get a order page_number;
     assert_that g;
     free_inner a page_number order }"

function record_alloc_inner :: "buddy \<Rightarrow> nat \<Rightarrow> nat \<Rightarrow> buddy rust" where
  "record_alloc_inner a page_number order = do {
     g \<leftarrow> bud_get a order page_number;
     if g then do {
       let upper_page = next_higher_order page_number;
       a \<leftarrow> record_alloc_inner a upper_page (Suc order);
       free1 \<leftarrow> cmul 32 upper_page 2;
       free2 \<leftarrow> cadd 32 free1 1;
       assert_that (free1 = page_number \<or> free2 = page_number);
       bud_clear a order (if free1 = page_number then free2 else free1)
     } else bud_set a order page_number
   }"
  by pat_completeness auto
termination
  by (relation "measure (\<lambda>(a, p, order). length (bud_free a) - order)")
    (auto simp: bud_get_def get_order_free_def index_def bind_ok_iff split: if_splits)

declare record_alloc_inner.simps [simp del]

definition record_alloc :: "buddy \<Rightarrow> nat \<Rightarrow> nat \<Rightarrow> buddy rust" where
  "record_alloc a page_number order = do {
     assert_that (order \<le> bud_max_order a);
     record_alloc_inner a page_number order }"

text \<open>The search and the split of \<open>alloc_lowest\<close>; \<open>best\<close> is the (index, order) held so far.\<close>

definition lowest_step :: "nat \<Rightarrow> nat \<times> nat \<times> nat \<times> nat \<times> buddy \<Rightarrow> (nat \<times> nat \<times> nat \<times> nat \<times> buddy) rust" where
  "lowest_step i st =
     (case st of (multiplier, best_index_at_order, best_index, best_order, a) \<Rightarrow> do {
        (r, a) \<leftarrow> alloc_inner a i;
        (best_index_at_order, best_index, best_order, a) \<leftarrow> (case r of
           None \<Rightarrow> ok (best_index_at_order, best_index, best_order, a)
         | Some ix \<Rightarrow> do {
             index_at_order \<leftarrow> cmul 32 ix multiplier;
             if index_at_order < best_index_at_order then do {
               a \<leftarrow> free_inner a best_index best_order;
               ok (index_at_order, ix, i, a) }
             else do {
               a \<leftarrow> free_inner a ix i;
               ok (best_index_at_order, best_index, best_order, a) } });
        multiplier \<leftarrow> cmul 32 multiplier 2;
        ok (multiplier, best_index_at_order, best_index, best_order, a) })"

function split_loop :: "nat \<Rightarrow> nat \<Rightarrow> nat \<Rightarrow> buddy \<Rightarrow> (nat \<times> buddy) rust" where
  "split_loop order best_index best_order a =
     (if best_order > order then do {
        free1 \<leftarrow> cmul 32 best_index 2;
        free2 \<leftarrow> cadd 32 free1 1;
        g1 \<leftarrow> bud_get a (best_order - 1) free1;
        assert_that g1;
        g2 \<leftarrow> bud_get a (best_order - 1) free2;
        assert_that g2;
        a \<leftarrow> bud_clear a (best_order - 1) free2;
        split_loop order free1 (best_order - 1) a
      } else ok (best_index, a))"
  by pat_completeness auto
termination
  by (relation "measure (\<lambda>(order, bi, bo, a). bo)") auto

declare split_loop.simps [simp del]

definition alloc_lowest :: "buddy \<Rightarrow> nat \<Rightarrow> (nat option \<times> buddy) rust" where
  "alloc_lowest a order = do {
     (r, a) \<leftarrow> alloc_inner a order;
     (case r of None \<Rightarrow> ok (None, a)
      | Some best_index_at_order \<Rightarrow> do {
          (m, best_index_at_order, best_index, best_order, a) \<leftarrow>
            for_each [Suc order..<Suc (bud_max_order a)] lowest_step
              (2, best_index_at_order, best_index_at_order, order, a);
          (best_index, a) \<leftarrow> split_loop order best_index best_order a;
          assert_that (best_index = best_index_at_order);
          ok (Some best_index, a) })
   }"

subsection \<open>Consistency check, resizing and serialization\<close>

function check_page :: "btree_bitmap list \<Rightarrow> nat \<Rightarrow> nat \<Rightarrow> nat \<Rightarrow> bool \<Rightarrow> unit rust" where
  "check_page free max_order order page found =
     (if order > max_order then ok ()
      else do {
        allocator \<leftarrow> index free order;
        len \<leftarrow> bb_len allocator;
        if len \<le> page then ok ()
        else do {
          g \<leftarrow> bb_get allocator page;
          found \<leftarrow> (if \<not> g then do { assert_that (\<not> found); ok True } else ok found);
          check_page free max_order (Suc order) (next_higher_order page) found }
      })"
  by pat_completeness auto
termination
  by (relation "measure (\<lambda>(free, max_order, order, page, found). Suc max_order - order)") auto

declare check_page.simps [simp del]

definition check_merged :: "btree_bitmap list \<Rightarrow> nat \<Rightarrow> nat \<Rightarrow> unit rust" where
  "check_merged free order page = do {
     allocator \<leftarrow> index free order;
     g \<leftarrow> bb_get allocator page;
     if \<not> g then do {
       let buddy = buddy_page page;
       len \<leftarrow> bb_len allocator;
       if buddy < len then bb_get allocator buddy \<bind> assert_that else ok () }
     else ok () }"

definition debug_check_consistency :: "buddy \<Rightarrow> unit rust" where
  "debug_check_consistency a = do {
     for_each [0..<bud_len a] (\<lambda>page u. check_page (bud_free a) (bud_max_order a) 0 page False) ();
     for_each (rev [0..<bud_max_order a]) (\<lambda>order u. do {
       size \<leftarrow> pow2_u32 order;
       order_len \<leftarrow> cdiv (bud_len a) size;
       for_each [0..<order_len] (\<lambda>page u. check_merged (bud_free a) order page) () }) ()
   }"

fun resize_orders :: "btree_bitmap list \<Rightarrow> nat \<Rightarrow> btree_bitmap list rust" where
  "resize_orders [] pages_for_order = ok []"
| "resize_orders (b # bs) pages_for_order = do {
     b' \<leftarrow> bb_resize b pages_for_order True;
     bs' \<leftarrow> resize_orders bs (next_higher_order pages_for_order);
     ok (b' # bs') }"

text \<open>The loops \<open>Align to the highest order possible\<close> of the two directions.\<close>

function grow_align :: "nat \<Rightarrow> nat \<Rightarrow> buddy \<Rightarrow> (nat \<times> buddy) rust" where
  "grow_align new_size processed a =
     (if processed < new_size then do {
        order \<leftarrow> try_into 8 (trailing_zeros 32 processed);
        order_size \<leftarrow> pow2_u32 order;
        page \<leftarrow> cdiv processed order_size;
        assert_that (processed mod order_size = 0);
        next \<leftarrow> (if order \<ge> bud_max_order a then ok 0 else cadd 32 processed order_size);
        if order \<ge> bud_max_order a \<or> next > new_size then ok (processed, a)
        else do {
          a' \<leftarrow> free_inner a page order;
          grow_align new_size next a' }
      } else ok (processed, a))"
  by pat_completeness auto
termination
  by (relation "measure (\<lambda>(new_size, processed, a). new_size - processed)")
    (auto simp: pow2_u32_def cadd_def intro: pow2_progress split: if_splits)

function shrink_align :: "nat \<Rightarrow> nat \<Rightarrow> buddy \<Rightarrow> (nat \<times> buddy) rust" where
  "shrink_align len processed a =
     (if processed < len then do {
        order \<leftarrow> try_into 8 (trailing_zeros 32 processed);
        if order \<ge> bud_max_order a then ok (processed, a)
        else do {
          order_size \<leftarrow> pow2_u32 order;
          page \<leftarrow> cdiv processed order_size;
          assert_that (processed mod order_size = 0);
          next \<leftarrow> cadd 32 processed order_size;
          if next > len then ok (processed, a)
          else do {
            a' \<leftarrow> record_alloc_inner a page order;
            shrink_align len next a' } }
      } else ok (processed, a))"
  by pat_completeness auto
termination
  by (relation "measure (\<lambda>(len, processed, a). len - processed)")
    (auto simp: pow2_u32_def cadd_def intro: pow2_progress split: if_splits)

declare grow_align.simps [simp del] shrink_align.simps [simp del]

definition bud_resize :: "buddy \<Rightarrow> nat \<Rightarrow> buddy rust" where
  "bud_resize a new_size = do {
     debug_check_consistency a;
     a \<leftarrow> (if new_size > bud_len a then do {
            free \<leftarrow> resize_orders (bud_free a) new_size;
            let len = bud_len a;
            (processed, a) \<leftarrow> grow_align new_size len (a\<lparr>bud_free := free\<rparr>);
            (processed, a) \<leftarrow> chunk_orders free_inner new_size (bud_max_order a) processed a;
            assert_that (processed = new_size);
            ok a }
          else do {
            (processed, a) \<leftarrow> shrink_align (bud_len a) new_size a;
            (processed, a) \<leftarrow> chunk_orders record_alloc_inner (bud_len a) (bud_max_order a) processed a;
            assert_that (processed = bud_len a);
            free \<leftarrow> resize_orders (bud_free a) new_size;
            ok (a\<lparr>bud_free := free\<rparr>) });
     let a = a\<lparr>bud_len := new_size\<rparr>;
     debug_check_consistency a;
     ok a
   }"

definition bud_to_vec :: "buddy \<Rightarrow> byte list rust" where
  "bud_to_vec a = do {
     serialized \<leftarrow> map_rust bb_to_vec (bud_free a);
     let header_bytes = 1 + 3 + 4;
     let offsets_bytes = (bud_max_order a + 1) * 4;
     ends \<leftarrow> end_offsets (header_bytes + offsets_bytes) serialized;
     ok (le_bytes 1 (bud_max_order a) @ [0, 0, 0] @ le_bytes 4 (bud_len a)
         @ concat (map (le_bytes 4) ends) @ concat serialized)
   }"

definition bud_from_bytes :: "byte list \<Rightarrow> buddy rust" where
  "bud_from_bytes dat = do {
     mo \<leftarrow> index dat 0;
     let max_order = unat mo;
     nb \<leftarrow> sub_slice dat 4 8;
     free \<leftarrow> read_parts bb_from_bytes (Suc max_order) dat 8 (8 + (max_order + 1) * 4);
     ok \<lparr>bud_free = free, bud_len = le_nat nb, bud_max_order = max_order\<rparr>
   }"

subsection \<open>Families of free blocks\<close>

text \<open>
  \<open>block k i\<close> is the set of pages of the \<open>i\<close>-th block of order \<open>k\<close>, \<open>pages mo F\<close> the set of free
  pages when \<open>F k\<close> holds the free blocks of order \<open>k\<close>.  In a family no page is free at two
  orders and, below the maximal order, no two buddies are free.
\<close>

definition block :: "nat \<Rightarrow> nat \<Rightarrow> nat set" where
  "block k i = {x. x div 2 ^ k = i}"

definition pages :: "nat \<Rightarrow> (nat \<Rightarrow> nat set) \<Rightarrow> nat set" where
  "pages mo F = {x. \<exists>k\<le>mo. x div 2 ^ k \<in> F k}"

definition fam :: "nat \<Rightarrow> nat \<Rightarrow> (nat \<Rightarrow> nat set) \<Rightarrow> bool" where
  "fam mo L F \<longleftrightarrow> (\<forall>k\<le>mo. F k \<subseteq> {..<L div 2 ^ k})
     \<and> (\<forall>x. \<forall>k\<le>mo. \<forall>l\<le>mo. x div 2 ^ k \<in> F k \<longrightarrow> x div 2 ^ l \<in> F l \<longrightarrow> k = l)
     \<and> (\<forall>k<mo. \<forall>i\<in>F k. buddy_page i \<notin> F k)"

lemma famD:
  assumes "fam mo L F"
  shows "k \<le> mo \<Longrightarrow> i \<in> F k \<Longrightarrow> i < L div 2 ^ k"
    "k \<le> mo \<Longrightarrow> l \<le> mo \<Longrightarrow> x div 2 ^ k \<in> F k \<Longrightarrow> x div 2 ^ l \<in> F l \<Longrightarrow> k = l"
    "k < mo \<Longrightarrow> i \<in> F k \<Longrightarrow> buddy_page i \<notin> F k"
  using assms unfolding fam_def by blast+

lemma buddy_page_eq: "buddy_page i = (if even i then i + 1 else i - 1)"
  by (simp add: buddy_page_def xor_Suc_0_eq)

lemma buddy_page_facts [simp]:
  "buddy_page (buddy_page i) = i" "buddy_page i \<noteq> i" "buddy_page i div 2 = i div 2"
  "buddy_page (2 * i) = Suc (2 * i)" "buddy_page (Suc (2 * i)) = 2 * i"
  by (auto simp: buddy_page_eq elim!: evenE oddE)

lemma div_Suc_power: "x div 2 ^ Suc k = x div 2 ^ k div 2" for x :: nat
  by (simp only: power_Suc2 div_mult2_eq)

lemma div_power_le: "k \<le> l \<Longrightarrow> x div 2 ^ l = x div 2 ^ k div 2 ^ (l - k)" for x :: nat
  by (metis div_mult2_eq le_add_diff_inverse power_add)

lemma block_mem [simp]: "x \<in> block k i \<longleftrightarrow> x div 2 ^ k = i"
  by (simp add: block_def)

lemma pages_mem: "x \<in> pages mo F \<longleftrightarrow> (\<exists>k\<le>mo. x div 2 ^ k \<in> F k)"
  by (simp add: pages_def)

lemma block_first: "i * 2 ^ k \<in> block k i"
  by simp

lemma block_split: "block (Suc k) i = block k (2 * i) \<union> block k (Suc (2 * i))"
  by (auto simp: div_Suc_power simp del: power_Suc)

lemma half_eq: "y div 2 = i div 2 \<longleftrightarrow> y = i \<or> y = buddy_page i"
  by (cases "even i"; cases "even y"; auto elim!: evenE oddE simp: buddy_page_eq)

lemma pair_bound: "p < n \<Longrightarrow> buddy_page p < n \<Longrightarrow> p div 2 < n div 2" "p div 2 < n div 2 \<Longrightarrow> buddy_page p < n"
  by (cases "even p"; auto elim!: evenE oddE simp: buddy_page_eq)+

lemma block_buddy: "block (Suc k) (i div 2) = block k i \<union> block k (buddy_page i)"
  by (auto simp: div_Suc_power half_eq simp del: power_Suc)

lemma block_subset: "k \<le> l \<Longrightarrow> block k i \<subseteq> block l (i div 2 ^ (l - k))"
  by (auto simp: div_power_le)

lemma block_in_pages: "k \<le> mo \<Longrightarrow> i \<in> F k \<Longrightarrow> block k i \<subseteq> pages mo F"
  by (auto simp: pages_mem)

lemma pages_insert: "k \<le> mo \<Longrightarrow> pages mo (F(k := insert i (F k))) = pages mo F \<union> block k i"
  by (auto simp: pages_mem split: if_splits)

lemma pages_remove:
  assumes "fam mo L F" "k \<le> mo" "i \<in> F k"
  shows "pages mo (F(k := F k - {i})) = pages mo F - block k i"
proof (intro set_eqI)
  fix x
  show "x \<in> pages mo (F(k := F k - {i})) \<longleftrightarrow> x \<in> pages mo F - block k i"
  proof (cases "x div 2 ^ k = i")
    case True
    then have "x div 2 ^ l \<notin> F l" if "l \<le> mo" "l \<noteq> k" for l
      using famD(2) [OF assms(1) that(1) assms(2), of x] assms(3) that by blast
    then show ?thesis using True by (auto simp: pages_mem)
  next
    case False
    then show ?thesis by (auto simp: pages_mem split: if_splits)
  qed
qed

lemma fam_insert:
  assumes "fam mo L F" "k \<le> mo" "i < L div 2 ^ k" "block k i \<inter> pages mo F = {}"
    "k < mo \<Longrightarrow> buddy_page i \<notin> F k"
  shows "fam mo L (F(k := insert i (F k)))"
proof -
  have new: "x div 2 ^ k = i \<Longrightarrow> l \<le> mo \<Longrightarrow> x div 2 ^ l \<notin> F l" for x l
    using assms(4) by (auto simp: pages_mem disjoint_iff)
  have "i \<noteq> buddy_page j" if "k < mo" "j \<in> F k" for j
    using assms(5) that by (metis buddy_page_facts(1))
  then show ?thesis
    using assms(1-3,5) new unfolding fam_def by (auto split: if_splits)
qed

lemma fam_remove: "fam mo L F \<Longrightarrow> fam mo L (F(k := F k - {i}))"
  unfolding fam_def by (auto split: if_splits)

text \<open>A set of free pages that contains a block has a free block around it.\<close>

lemma covered:
  assumes "fam mo L F" "k \<le> mo" "block k i \<subseteq> pages mo F"
  shows "\<exists>l. k \<le> l \<and> l \<le> mo \<and> i div 2 ^ (l - k) \<in> F l"
  using assms(2,3)
proof (induction k arbitrary: i)
  case 0
  then show ?case by (auto simp: pages_mem)
next
  case (Suc k)
  then have sub: "block k (2 * i) \<subseteq> pages mo F" "block k (Suc (2 * i)) \<subseteq> pages mo F" "k \<le> mo"
    by (auto simp: block_split)
  obtain l m where l: "k \<le> l" "l \<le> mo" "2 * i div 2 ^ (l - k) \<in> F l"
    and m: "k \<le> m" "m \<le> mo" "Suc (2 * i) div 2 ^ (m - k) \<in> F m"
    using Suc.IH [OF sub(3,1)] Suc.IH [OF sub(3,2)] by blast
  have half: "j div 2 ^ (n - k) = i div 2 ^ (n - Suc k)" if "j div 2 = i" "Suc k \<le> n" for j n
    using that by (metis Suc_diff_le diff_Suc_Suc div_mult2_eq power_Suc)
  show ?case
  proof (cases "l = k \<and> m = k")
    case True
    then show ?thesis using l m famD(3) [OF assms(1), of k "2 * i"] Suc.prems(1) by simp
  next
    case False
    then consider "Suc k \<le> l" | "Suc k \<le> m" using l(1) m(1) by linarith
    then show ?thesis using l m half [of "2 * i" l] half [of "Suc (2 * i)" m] by cases auto
  qed
qed

lemma covered_bound:
  assumes "fam mo L F" "k \<le> l" "l \<le> mo" "i div 2 ^ (l - k) \<in> F l"
  shows "i < L div 2 ^ k"
proof -
  have "i div 2 ^ (l - k) < L div 2 ^ k div 2 ^ (l - k)"
    using famD(1) [OF assms(1,3,4)] div_power_le [OF assms(2)] by simp
  then show ?thesis by (meson div_le_mono not_le)
qed

subsection \<open>The allocator as a family\<close>

text \<open>
  \<open>bud_rep len L mo h F a\<close>: the bitmaps of \<open>a\<close> hold the blocks \<open>F\<close> over \<open>L\<close> pages, with height
  \<open>h k\<close> at order \<open>k\<close>; \<open>len\<close> is the recorded number of pages, which differs from \<open>L\<close> only
  inside \<open>resize\<close>.
\<close>

definition bud_rep :: "nat \<Rightarrow> nat \<Rightarrow> nat \<Rightarrow> (nat \<Rightarrow> nat) \<Rightarrow> (nat \<Rightarrow> nat set) \<Rightarrow> buddy \<Rightarrow> bool" where
  "bud_rep len L mo h F a \<longleftrightarrow> bud_len a = len \<and> bud_max_order a = mo \<and> length (bud_free a) = Suc mo
     \<and> mo \<le> 20 \<and> L \<le> 2 ^ 31 \<and> reps bb_rep (\<lambda>k. L div 2 ^ k) h F (bud_free a)"

definition bud_inv :: "nat \<Rightarrow> nat \<Rightarrow> nat \<Rightarrow> (nat \<Rightarrow> nat) \<Rightarrow> (nat \<Rightarrow> nat set) \<Rightarrow> buddy \<Rightarrow> bool" where
  "bud_inv len L mo h F a \<longleftrightarrow> bud_rep len L mo h F a \<and> fam mo L F"

lemma bud_repD:
  assumes "bud_rep len L mo h F a"
  shows "bud_len a = len" "bud_max_order a = mo" "length (bud_free a) = Suc mo" "mo \<le> 20" "L \<le> 2 ^ 31"
    "reps bb_rep (\<lambda>k. L div 2 ^ k) h F (bud_free a)"
  using assms by (auto simp: bud_rep_def)

lemma bud_get_ok:
  "bud_rep len L mo h F a \<Longrightarrow> k \<le> mo \<Longrightarrow> i < L div 2 ^ k \<Longrightarrow> bud_get a k i = ok (i \<notin> F k)"
  using bitmap_index.reps_get [of "\<lambda>k. L div 2 ^ k" h F "bud_free a" k i]
  by (simp add: bud_rep_def bud_get_def get_order_free_def)

lemma bud_set_ok:
  assumes "bud_rep len L mo h F a" "k \<le> mo" "i < L div 2 ^ k"
  shows "\<exists>a'. bud_set a k i = ok a' \<and> bud_rep len L mo h (F(k := F k - {i})) a'"
  using bitmap_index.reps_set [of "\<lambda>k. L div 2 ^ k" h F "bud_free a" k i] assms
  by (auto simp: bud_rep_def bud_set_def)

lemma bud_clear_ok:
  assumes "bud_rep len L mo h F a" "k \<le> mo" "i < L div 2 ^ k"
  shows "\<exists>a'. bud_clear a k i = ok a' \<and> bud_rep len L mo h (F(k := insert i (F k))) a'"
  using bitmap_index.reps_clear [of "\<lambda>k. L div 2 ^ k" h F "bud_free a" k i] assms
  by (auto simp: bud_rep_def bud_clear_def)

lemma bud_alloc_at:
  assumes "bud_rep len L mo h F a" "k \<le> mo"
  shows "\<exists>b'. get_order_free a k \<bind> bb_alloc = ok (if F k = {} then None else Some (Min (F k)), b')
    \<and> bud_rep len L mo h (F(k := F k - {Min (F k)})) (a\<lparr>bud_free := (bud_free a)[k := b']\<rparr>)"
  using bitmap_index.reps_alloc [of "\<lambda>k. L div 2 ^ k" h F "bud_free a" k] assms
  by (simp add: bud_rep_def get_order_free_def)

text \<open>Clearing the bit of an allocated block whose buddy is not free.\<close>

lemma bud_clear_inv:
  assumes "bud_inv len L mo h F a" "k \<le> mo" "i < L div 2 ^ k" "block k i \<inter> pages mo F = {}"
    "k < mo \<Longrightarrow> buddy_page i \<notin> F k"
  shows "\<exists>a' F'. bud_clear a k i = ok a' \<and> bud_inv len L mo h F' a' \<and> pages mo F' = pages mo F \<union> block k i"
  using assms bud_clear_ok [of len L mo h F a k i] fam_insert [of mo L F k i] pages_insert [of k mo F i]
  unfolding bud_inv_def by blast

lemma bud_set_inv:
  assumes "bud_inv len L mo h F a" "k \<le> mo" "i \<in> F k"
  shows "\<exists>a'. bud_set a k i = ok a' \<and> bud_inv len L mo h (F(k := F k - {i})) a'"
  using assms bud_set_ok [of len L mo h F a k i] fam_remove [of mo L F k i] famD(1) [of mo L F k i]
  unfolding bud_inv_def by blast

text \<open>Splitting a block that has just been taken: its second half becomes free.\<close>

lemma split_taken:
  assumes "bud_inv len L mo h F a" "k < mo" "u < L div 2 ^ Suc k" "block (Suc k) u \<inter> pages mo F = {}"
  shows "u * 2 < 2 ^ 32" "Suc (u * 2) < 2 ^ 32" "2 * u < L div 2 ^ k"
    "bud_get a k (u * 2) = ok True" "bud_get a k (Suc (u * 2)) = ok True"
    "\<exists>a' F'. bud_clear a k (Suc (u * 2)) = ok a' \<and> bud_inv len L mo h F' a'
       \<and> pages mo F' = pages mo F \<union> block k (Suc (u * 2))"
proof -
  have rep: "bud_rep len L mo h F a" and f: "fam mo L F" using assms(1) by (simp_all add: bud_inv_def)
  have u: "u < L div 2 ^ k div 2" using assms(3) unfolding div_Suc_power .
  then have b: "Suc (u * 2) < L div 2 ^ k" "u * 2 < L div 2 ^ k" by linarith+
  have "L div 2 ^ k \<le> L" by simp
  also have "L \<le> 2 ^ 31" using rep by (rule bud_repD)
  finally show "u * 2 < 2 ^ 32" "Suc (u * 2) < 2 ^ 32" using b by simp_all
  show "2 * u < L div 2 ^ k" using b(2) by simp
  have d: "block k (u * 2) \<inter> pages mo F = {}" "block k (Suc (u * 2)) \<inter> pages mo F = {}"
    using assms(4) by (auto simp: block_split mult.commute [of u])
  have nf: "u * 2 \<notin> F k" "Suc (u * 2) \<notin> F k"
    using d assms(2) block_in_pages [of k mo _ F] block_first by (metis disjoint_iff less_imp_le subsetD)+
  then show "bud_get a k (u * 2) = ok True" "bud_get a k (Suc (u * 2)) = ok True"
    using bud_get_ok [OF rep _ b(1)] bud_get_ok [OF rep _ b(2)] assms(2) by simp_all
  show "\<exists>a' F'. bud_clear a k (Suc (u * 2)) = ok a' \<and> bud_inv len L mo h F' a'
       \<and> pages mo F' = pages mo F \<union> block k (Suc (u * 2))"
    using nf d assms(2) b(1)
    by (intro bud_clear_inv [OF assms(1)]) (simp_all add: mult.commute [of u])
qed

definition alloc_post :: "nat \<Rightarrow> nat \<Rightarrow> nat \<Rightarrow> (nat \<Rightarrow> nat set) \<Rightarrow> nat option \<Rightarrow> (nat \<Rightarrow> nat set) \<Rightarrow> bool" where
  "alloc_post mo L k F r F' \<longleftrightarrow> (case r of
      None \<Rightarrow> F' = F \<and> (\<forall>l. k \<le> l \<and> l \<le> mo \<longrightarrow> F l = {})
    | Some p \<Rightarrow> k \<le> mo \<and> p < L div 2 ^ k \<and> block k p \<subseteq> pages mo F \<and> pages mo F' = pages mo F - block k p
        \<and> (\<exists>l. k \<le> l \<and> l \<le> mo \<and> F l \<noteq> {} \<and> (\<forall>m. k \<le> m \<and> m < l \<longrightarrow> F m = {}) \<and> p = Min (F l) * 2 ^ (l - k)))"

lemma fam_finite: "fam mo L F \<Longrightarrow> k \<le> mo \<Longrightarrow> finite (F k)"
  using finite_subset [of "F k" "{..<L div 2 ^ k}"] by (auto simp: fam_def)

lemma alloc_post_here:
  assumes "fam mo L F" "k \<le> mo" "F k \<noteq> {}"
  shows "alloc_post mo L k F (Some (Min (F k))) (F(k := F k - {Min (F k)}))"
proof -
  have m: "Min (F k) \<in> F k" using fam_finite [OF assms(1,2)] assms(3) by simp
  show ?thesis unfolding alloc_post_def option.case
  proof (intro conjI exI [of _ k])
    show "Min (F k) < L div 2 ^ k" using famD(1) [OF assms(1,2) m] .
    show "block k (Min (F k)) \<subseteq> pages mo F" using block_in_pages [of k mo _ F] assms(2) m by blast
    show "pages mo (F(k := F k - {Min (F k)})) = pages mo F - block k (Min (F k))"
      using pages_remove [OF assms(1,2) m] .
  qed (use assms in auto)
qed

lemma alloc_post_split:
  assumes "alloc_post mo L (Suc k) F (Some u) F1" "F k = {}" "pages mo F' = pages mo F1 \<union> block k (Suc (u * 2))"
    "u * 2 < L div 2 ^ k"
  shows "alloc_post mo L k F (Some (u * 2)) F'"
proof -
  obtain l where l: "Suc k \<le> l" "l \<le> mo" "F l \<noteq> {}" "\<forall>m. Suc k \<le> m \<and> m < l \<longrightarrow> F m = {}"
    "u = Min (F l) * 2 ^ (l - Suc k)"
    and p: "block (Suc k) u \<subseteq> pages mo F" "pages mo F1 = pages mo F - block (Suc k) u" "Suc k \<le> mo"
    using assms(1) unfolding alloc_post_def option.case by blast
  have "2 ^ (l - k) = 2 ^ (l - Suc k) * (2::nat)"
    using l(1) by (metis Suc_diff_le diff_Suc_Suc power_Suc2)
  then have e: "u * 2 = Min (F l) * 2 ^ (l - k)" using l(5) by simp
  have g: "\<forall>m. k \<le> m \<and> m < l \<longrightarrow> F m = {}" using l(4) assms(2) by (metis Suc_leI le_neq_implies_less)
  have s: "block (Suc k) u = block k (u * 2) \<union> block k (Suc (u * 2))"
    using block_split [of k u] by (simp add: mult.commute)
  have "block k (u * 2) \<inter> block k (Suc (u * 2)) = {}" by auto
  then have pg: "pages mo F' = pages mo F - block k (u * 2)" "block k (u * 2) \<subseteq> pages mo F"
    using p assms(3) s by blast+
  show ?thesis unfolding alloc_post_def option.case using pg p(3) assms(4) l(1-3) e g
    by (metis Suc_leD)
qed

lemma alloc_inner_ok:
  assumes "bud_inv len L mo h F a"
  shows "\<exists>r a' F'. alloc_inner a k = ok (r, a') \<and> bud_inv len L mo h F' a' \<and> alloc_post mo L k F r F'"
  using assms
proof (induction "Suc mo - k" arbitrary: a k F)
  case 0
  then show ?case
    by (subst alloc_inner.simps) (auto simp: bud_inv_def bud_rep_def alloc_post_def)
next
  case (Suc n)
  have rep: "bud_rep len L mo h F a" and f: "fam mo L F" using Suc.prems by (simp_all add: bud_inv_def)
  have k: "k \<le> mo" "\<not> bud_max_order a < k" using Suc.hyps(2) bud_repD(2) [OF rep] by simp_all
  obtain b' where b': "get_order_free a k \<bind> bb_alloc = ok (if F k = {} then None else Some (Min (F k)), b')"
    and rep': "bud_rep len L mo h (F(k := F k - {Min (F k)})) (a\<lparr>bud_free := (bud_free a)[k := b']\<rparr>)"
    (is "bud_rep _ _ _ _ ?F' ?a'")
    using bud_alloc_at [OF rep k(1)] by blast
  show ?case
  proof (cases "F k = {}")
    case False
    then have "alloc_inner a k = ok (Some (Min (F k)), ?a')"
      using b' k by (subst alloc_inner.simps) (simp add: Let_def)
    then show ?thesis using alloc_post_here [OF f k(1) False] rep' fam_remove [OF f] bud_inv_def by blast
  next
    case True
    then have "?F' = F" by (simp add: fun_upd_idem_iff)
    then have inv': "bud_inv len L mo h F ?a'" using rep' f by (simp add: bud_inv_def)
    have "n = Suc mo - Suc k" using Suc.hyps(2) by simp
    from Suc.hyps(1) [OF this inv'] obtain r a1 F1 where
      IH: "alloc_inner ?a' (Suc k) = ok (r, a1)" "bud_inv len L mo h F1 a1" "alloc_post mo L (Suc k) F r F1"
      by blast
    show ?thesis
    proof (cases r)
      case None
      have "alloc_inner a k = ok (None, a1)"
        using b' k True IH(1) None by (subst alloc_inner.simps) (simp add: Let_def)
      moreover have "alloc_post mo L k F None F1"
        using IH(3) None True by (auto simp: alloc_post_def) (metis le_neq_implies_less Suc_leI all_not_in_conv)
      ultimately show ?thesis using IH(2) by blast
    next
      case (Some u)
      have post: "Suc k \<le> mo" "u < L div 2 ^ Suc k" "block (Suc k) u \<inter> pages mo F1 = {}"
        using IH(3) unfolding Some alloc_post_def by auto
      note sp = split_taken [OF IH(2) Suc_le_lessD [OF post(1)] post(2,3)]
      obtain a' F' where a': "bud_clear a1 k (Suc (u * 2)) = ok a'" "bud_inv len L mo h F' a'"
        "pages mo F' = pages mo F1 \<union> block k (Suc (u * 2))" using sp(6) by blast
      have "alloc_inner a k = ok (Some (u * 2), a')"
        using b' k True IH(1) Some sp(1-5) a'(1)
        by (subst alloc_inner.simps) (simp add: Let_def cmul_def cadd_def)
      moreover have "alloc_post mo L k F (Some (u * 2)) F'"
        using alloc_post_split [of mo L k F u F1 F'] True a'(3) IH(3) Some sp(3) by (simp add: mult.commute)
      ultimately show ?thesis using a'(2) by blast
    qed
  qed
qed

lemma free_inner_ok:
  assumes "bud_inv len L mo h F a" "k \<le> mo" "p < L div 2 ^ k" "block k p \<inter> pages mo F = {}"
  shows "\<exists>a' F'. free_inner a p k = ok a' \<and> bud_inv len L mo h F' a' \<and> pages mo F' = pages mo F \<union> block k p"
  using assms
proof (induction "mo - k" arbitrary: a k F p)
  case 0
  then have "k = bud_max_order a" by (simp add: bud_inv_def bud_rep_def)
  then have "free_inner a p k = bud_clear a k p" by (subst free_inner.simps) simp
  then show ?case using bud_clear_inv [OF "0.prems"] 0 by simp
next
  case (Suc n)
  have rep: "bud_rep len L mo h F a" and f: "fam mo L F" using Suc.prems by (simp_all add: bud_inv_def)
  have k: "k < mo" "k \<noteq> bud_max_order a" using Suc.hyps(2) bud_repD(2) [OF rep] by simp_all
  obtain b where b: "get_order_free a k = ok b" "bb_rep (L div 2 ^ k) (h k) (F k) b"
    using bud_repD(3,6) [OF rep] k(1) by (auto simp: get_order_free_def reps_def)
  have len: "bb_len b = ok (L div 2 ^ k)" using bitmap_index.len_law [OF b(2)] .
  let ?b = "buddy_page p"
  show ?case
  proof (cases "?b \<in> F k")
    case False
    have "(if ?b \<ge> L div 2 ^ k then ok True else bb_get b ?b) = ok True"
      using False bitmap_index.get_law [OF b(2), of ?b] by simp
    then have "free_inner a p k = bud_clear a k p"
      using b(1) len k(2) by (subst free_inner.simps) (simp add: Let_def)
    then show ?thesis using bud_clear_inv [OF Suc.prems] False by simp
  next
    case True
    have bl: "?b < L div 2 ^ k" using famD(1) [OF f _ True] k(1) by simp
    have get: "bb_get b ?b = ok False" using bitmap_index.get_law [OF b(2) bl] True by simp
    obtain a1 where a1: "bud_set a k ?b = ok a1" "bud_inv len L mo h (F(k := F k - {?b})) a1"
      (is "bud_inv _ _ _ _ ?F1 _")
      using bud_set_inv [OF Suc.prems(1) _ True] k(1) by auto
    have pg: "pages mo ?F1 = pages mo F - block k ?b" using pages_remove [OF f _ True] k(1) by simp
    have bb: "block (Suc k) (p div 2) = block k p \<union> block k ?b" by (rule block_buddy)
    have "\<exists>a' F'. free_inner a1 (p div 2) (Suc k) = ok a' \<and> bud_inv len L mo h F' a'
      \<and> pages mo F' = pages mo ?F1 \<union> block (Suc k) (p div 2)"
    proof (rule Suc.hyps(1))
      show "p div 2 < L div 2 ^ Suc k" unfolding div_Suc_power by (rule pair_bound(1) [OF Suc.prems(3) bl])
      show "block (Suc k) (p div 2) \<inter> pages mo ?F1 = {}" using pg bb Suc.prems(4) by blast
    qed (use Suc.hyps(2) k(1) a1(2) in auto)
    moreover have "free_inner a p k = free_inner a1 (p div 2) (Suc k)"
      using b(1) len k(2) bl get a1(1) by (subst free_inner.simps) (simp add: Let_def next_higher_order_def)
    moreover have "pages mo ?F1 \<union> block (Suc k) (p div 2) = pages mo F \<union> block k p"
      using pg bb block_in_pages [of k mo ?b F] True k(1) by auto
    ultimately show ?thesis by simp
  qed
qed

lemma record_alloc_inner_ok:
  assumes "bud_inv len L mo h F a" "k \<le> mo" "block k p \<subseteq> pages mo F"
  shows "\<exists>a' F'. record_alloc_inner a p k = ok a' \<and> bud_inv len L mo h F' a' \<and> pages mo F' = pages mo F - block k p"
  using assms
proof (induction "mo - k" arbitrary: a k F p rule: less_induct)
  case less
  have rep: "bud_rep len L mo h F a" and f: "fam mo L F" using less.prems by (simp_all add: bud_inv_def)
  obtain l where l: "k \<le> l" "l \<le> mo" "p div 2 ^ (l - k) \<in> F l" using covered [OF f less.prems(2,3)] by blast
  have pL: "p < L div 2 ^ k" using covered_bound [OF f l] .
  have get: "bud_get a k p = ok (p \<notin> F k)" using bud_get_ok [OF rep less.prems(2) pL] .
  show ?case
  proof (cases "p \<in> F k")
    case True
    then show ?thesis using get bud_set_inv [OF less.prems(1,2) True] pages_remove [OF f less.prems(2) True]
      by (subst record_alloc_inner.simps) auto
  next
    case False
    then have k: "k < l" using l by (cases "k = l") auto
    let ?u = "p div 2"
    have "?u div 2 ^ (l - Suc k) = p div 2 ^ (l - k)"
      using k by (metis Suc_diff_Suc div_mult2_eq power_Suc)
    then have sub: "block (Suc k) ?u \<subseteq> pages mo F"
      using block_subset [of "Suc k" l ?u] block_in_pages [of l mo _ F] k l by auto
    have "mo - Suc k < mo - k" "Suc k \<le> mo" using k l by simp_all
    from less.hyps [OF this(1) less.prems(1) this(2) sub] obtain a1 F1 where IH: "record_alloc_inner a ?u (Suc k) = ok a1" "bud_inv len L mo h F1 a1"
      "pages mo F1 = pages mo F - block (Suc k) ?u" by blast
    have bb: "block (Suc k) ?u = block k p \<union> block k (buddy_page p)" by (rule block_buddy)
    let ?o = "if ?u * 2 = p then Suc (?u * 2) else ?u * 2"
    have o: "?o = buddy_page p" by (simp add: buddy_page_eq) presburger
    have "?u div 2 ^ (l - Suc k) \<in> F l" using l(3) \<open>?u div 2 ^ (l - Suc k) = p div 2 ^ (l - k)\<close> by simp
    then have "?u < L div 2 ^ Suc k" using covered_bound [OF f Suc_leI [OF k] l(2)] by blast
    then have bl: "buddy_page p < L div 2 ^ k" unfolding div_Suc_power by (rule pair_bound(2))
    have "?u * 2 \<le> p" "p < L" using pL div_le_dividend [of L "2 ^ k"] by linarith+
    then have small: "Suc (?u * 2) < 2 ^ 32" using bud_repD(5) [OF rep] by simp
    have nf: "p \<notin> F1 k" using block_in_pages [of k mo p F1] less.prems(2) IH(3) bb block_first [of p k] by blast
    obtain a' F' where a': "bud_clear a1 k (buddy_page p) = ok a'" "bud_inv len L mo h F' a'"
      "pages mo F' = pages mo F1 \<union> block k (buddy_page p)"
      using bud_clear_inv [OF IH(2) less.prems(2) bl] nf IH(3) bb by auto
    have asr: "?u * 2 = p \<or> Suc (?u * 2) = p" by presburger
    have "record_alloc_inner a p k = bud_clear a1 k ?o"
      using get False IH(1) small asr
      by (subst record_alloc_inner.simps) (simp add: Let_def next_higher_order_def cmul_def cadd_def)
    then have "record_alloc_inner a p k = ok a'" unfolding o a'(1) .
    moreover have "block k p \<inter> block k (buddy_page p) = {}"
      by (simp add: disjoint_iff) (metis buddy_page_facts(2))
    then have "pages mo F' = pages mo F - block k p" using a'(3) IH(3) bb sub by blast
    ultimately show ?thesis using a'(2) by blast
  qed
qed

subsection \<open>The chunk loops\<close>

text \<open>
  The loops cover the pages from \<open>processed\<close> to \<open>limit\<close> with blocks, largest first.  \<open>chunk_pos mo
  limit k n\<close>: at the start of order \<open>k\<close> either nothing has been cut off (\<open>k\<close> is the maximal order and
  \<open>n\<close> is aligned to it), or less than one block of the alignment of \<open>n\<close> is left.
\<close>

definition chunk_pos :: "nat \<Rightarrow> nat \<Rightarrow> nat \<Rightarrow> nat \<Rightarrow> bool" where
  "chunk_pos mo limit k n \<longleftrightarrow> (k = mo \<and> 2 ^ mo dvd n) \<or> (\<exists>t\<le>Suc k. 2 ^ t dvd n \<and> limit < n + 2 ^ t)"

definition chunk_step :: "nat \<Rightarrow> nat \<Rightarrow> (nat \<Rightarrow> 's \<Rightarrow> bool) \<Rightarrow> ('s \<Rightarrow> nat \<Rightarrow> nat \<Rightarrow> 's rust) \<Rightarrow> bool" where
  "chunk_step mo limit Inv f \<longleftrightarrow> (\<forall>k n s. k \<le> mo \<and> Inv n s \<and> 2 ^ k dvd n \<and> (k < mo \<longrightarrow> 2 ^ Suc k dvd n)
     \<and> n + 2 ^ k \<le> limit \<longrightarrow> (\<exists>s'. f s (n div 2 ^ k) k = ok s' \<and> Inv (n + 2 ^ k) s'))"

lemma chunk_stepD:
  "chunk_step mo limit Inv f \<Longrightarrow> k \<le> mo \<Longrightarrow> Inv n s \<Longrightarrow> 2 ^ k dvd n \<Longrightarrow> (k < mo \<Longrightarrow> 2 ^ Suc k dvd n) \<Longrightarrow>
   n + 2 ^ k \<le> limit \<Longrightarrow> \<exists>s'. f s (n div 2 ^ k) k = ok s' \<and> Inv (n + 2 ^ k) s'"
  unfolding chunk_step_def by blast

lemma chunk_loop_unfold:
  assumes "k < 32" "limit + 2 ^ k < 2 ^ 32" "n \<le> limit"
  shows "chunk_loop f limit k n s = (if n + 2 ^ k \<le> limit
    then do { s' \<leftarrow> f s (n div 2 ^ k) k; chunk_loop f limit k (n + 2 ^ k) s' } else ok (n, s))"
  using assms by (subst chunk_loop.simps) (simp add: pow2_u32_def cadd_def cdiv_def)

lemma chunk_loop_top:
  assumes "chunk_step mo limit Inv f" "mo < 32" "limit + 2 ^ mo < 2 ^ 32"
  shows "n \<le> limit \<Longrightarrow> 2 ^ mo dvd n \<Longrightarrow> Inv n s \<Longrightarrow>
    \<exists>n' s'. chunk_loop f limit mo n s = ok (n', s') \<and> Inv n' s' \<and> n' \<le> limit \<and> 2 ^ mo dvd n' \<and> limit < n' + 2 ^ mo"
proof (induction "limit - n" arbitrary: n s rule: less_induct)
  case less
  show ?case
  proof (cases "n + 2 ^ mo \<le> limit")
    case True
    obtain s' where s': "f s (n div 2 ^ mo) mo = ok s'" "Inv (n + 2 ^ mo) s'"
      using chunk_stepD [OF assms(1) order_refl less.prems(3,2) _ True] by auto
    have "2 ^ mo dvd n + 2 ^ mo" using less.prems(2) by simp
    from less.hyps [OF pow2_progress(1) [OF True] True this s'(2)]
    show ?thesis using s'(1) True chunk_loop_unfold [OF assms(2,3) less.prems(1), of f s] by simp
  next
    case False
    then show ?thesis using less.prems chunk_loop_unfold [OF assms(2,3) less.prems(1), of f s] by simp
  qed
qed

lemma chunk_loop_ok:
  assumes "chunk_step mo limit Inv f" "k \<le> mo" "mo < 32" "limit + 2 ^ mo < 2 ^ 32"
    "n \<le> limit" "Inv n s" "chunk_pos mo limit k n"
  shows "\<exists>n' s'. chunk_loop f limit k n s = ok (n', s') \<and> Inv n' s' \<and> n' \<le> limit
    \<and> (\<exists>t\<le>k. 2 ^ t dvd n' \<and> limit < n' + 2 ^ t)"
proof (cases "k = mo \<and> 2 ^ mo dvd n")
  case True
  then show ?thesis using chunk_loop_top [OF assms(1,3,4,5) _ assms(6)] by blast
next
  case False
  then obtain t where t: "t \<le> Suc k" "2 ^ t dvd n" "limit < n + 2 ^ t"
    using assms(7) by (auto simp: chunk_pos_def)
  have "(2::nat) ^ k \<le> 2 ^ mo" using assms(2) by simp
  then have k: "k < 32" "limit + 2 ^ k < 2 ^ 32" using assms(2-4) by linarith+
  note unf = chunk_loop_unfold [OF k]
  show ?thesis
  proof (cases "n + 2 ^ k \<le> limit")
    case no: False
    have "\<exists>t\<le>k. 2 ^ t dvd n \<and> limit < n + 2 ^ t"
    proof (cases "t = Suc k")
      case True
      then have "2 ^ k dvd n" using t(2) by (auto intro: dvd_mult_right)
      then show ?thesis using no by (intro exI [of _ k]) simp
    next
      case False
      then show ?thesis using t by (intro exI [of _ t]) simp
    qed
    moreover have "chunk_loop f limit k n s = ok (n, s)" using no unf [OF assms(5), of f s] by simp
    ultimately show ?thesis using assms(5,6) by blast
  next
    case go: True
    have ts: "t = Suc k"
    proof (rule ccontr)
      assume "t \<noteq> Suc k"
      then have "(2::nat) ^ t \<le> 2 ^ k" using t(1) by simp
      then show False using go t(3) by linarith
    qed
    then have d: "2 ^ k dvd n" "2 ^ Suc k dvd n" using t(2) by (auto intro: dvd_mult_right)
    obtain s' where s': "f s (n div 2 ^ k) k = ok s'" "Inv (n + 2 ^ k) s'"
      using chunk_stepD [OF assms(1,2,6) d(1) _ go] d(2) by blast
    have "\<not> n + 2 ^ k + 2 ^ k \<le> limit" using t(3) ts by simp
    then have "chunk_loop f limit k n s = ok (n + 2 ^ k, s')" "limit < (n + 2 ^ k) + 2 ^ k"
      using unf [OF assms(5), of f s] unf [OF go, of f s'] go s'(1) by simp_all
    moreover have "2 ^ k dvd n + 2 ^ k" using d(1) by simp
    ultimately show ?thesis using s'(2) go by blast
  qed
qed

lemma chunk_orders_ok:
  assumes "chunk_step mo limit Inv f" "mo < 32" "limit + 2 ^ mo < 2 ^ 32"
    "n \<le> limit" "Inv n s" "chunk_pos mo limit mo n"
  shows "\<exists>s'. chunk_orders f limit mo n s = ok (limit, s') \<and> Inv limit s'"
proof -
  have "k \<le> mo \<Longrightarrow> n \<le> limit \<Longrightarrow> Inv n s \<Longrightarrow> chunk_pos mo limit k n \<Longrightarrow>
    \<exists>s'. for_each (rev [0..<Suc k]) (\<lambda>order (processed, s). chunk_loop f limit order processed s) (n, s)
      = ok (limit, s') \<and> Inv limit s'" for k n s
  proof (induction k arbitrary: n s)
    case 0
    obtain n' s' where r: "chunk_loop f limit 0 n s = ok (n', s')" "Inv n' s'" "n' \<le> limit" "limit < n' + 1"
      using chunk_loop_ok [OF assms(1) 0(1) assms(2,3) "0.prems"(2-4)] by auto
    from r(3,4) have "n' = limit" by simp
    then show ?case using r(1,2) by simp
  next
    case (Suc k)
    obtain n' s' where r: "chunk_loop f limit (Suc k) n s = ok (n', s')" "Inv n' s'" "n' \<le> limit"
      "\<exists>t\<le>Suc k. 2 ^ t dvd n' \<and> limit < n' + 2 ^ t"
      using chunk_loop_ok [OF assms(1) Suc.prems(1) assms(2,3) Suc.prems(2-4)] by blast
    have "chunk_pos mo limit k n'" using r(4) by (auto simp: chunk_pos_def)
    from Suc.IH [OF _ r(3,2) this] show ?case using r(1) Suc.prems(1) by simp
  qed
  from this [OF order_refl assms(4-6)] show ?thesis by (simp add: chunk_orders_def)
qed

end
