(* ===== verification/Buddy_Ops.thy ===== *)
theory Buddy_Ops
  imports Buddy
begin

text \<open>
  Correctness of the operations of the buddy allocator on the set of free pages: construction,
  counting, searching, resizing, \<open>alloc_lowest\<close> and serialization.
\<close>

subsection \<open>Construction\<close>

definition bud_height :: "nat \<Rightarrow> nat \<Rightarrow> nat \<Rightarrow> nat" where
  "bud_height num cap k = padded_height (num div 2 ^ k) (cap div 2 ^ k)"

lemma bud_height_Suc: "bud_height num cap (Suc k) = bud_height (num div 2) (cap div 2) k"
  by (simp add: bud_height_def div_mult2_eq)

lemma new_orders_ok:
  assumes "num \<le> 2 ^ 31"
  shows "\<exists>fs. new_orders k num cap = ok fs \<and> length fs = k
    \<and> reps bb_rep (\<lambda>j. num div 2 ^ j) (bud_height num cap) (\<lambda>j. {}) fs"
  using assms
proof (induction k arbitrary: num cap)
  case (Suc k)
  obtain b where b: "bb_new_padded num num cap = ok b" "bb_rep num (bud_height num cap 0) {} b"
    using bb_new_padded_rep [of num num cap] Suc.prems by (auto simp: bud_height_def)
  have "num div 2 \<le> 2 ^ 31" using Suc.prems by linarith
  from Suc.IH [OF this, of "cap div 2"] obtain fs where fs: "new_orders k (num div 2) (cap div 2) = ok fs" "length fs = k"
    "reps bb_rep (\<lambda>j. num div 2 div 2 ^ j) (bud_height (num div 2) (cap div 2)) (\<lambda>j. {}) fs" by blast
  have "reps bb_rep (\<lambda>j. num div 2 ^ j) (bud_height num cap) (\<lambda>j. {}) (b # fs)"
    unfolding reps_def
  proof (intro allI impI)
    fix j assume "j < length (b # fs)"
    then show "bb_rep (num div 2 ^ j) (bud_height num cap j) {} ((b # fs) ! j)"
      using b(2) fs(3) by (cases j) (simp_all add: reps_def bud_height_Suc div_mult2_eq)
  qed
  then show ?case using b fs by (simp add: next_higher_order_def)
qed (simp add: reps_def)

lemma calculate_usable_order_ok:
  assumes "0 < cap" "cap < 2 ^ 32"
  shows "calculate_usable_order cap = ok (min 20 (bit_len cap - 1))"
proof -
  have "bit_len cap \<le> 32"
  proof (rule ccontr)
    assume "\<not> bit_len cap \<le> 32"
    then have "(2::nat) ^ 33 \<le> 2 ^ bit_len cap" by (intro power_increasing) auto
    then show False using bit_len_le [OF assms(1)] assms(2) by simp
  qed
  then show ?thesis using bit_len_pos [OF assms(1)]
    by (simp add: calculate_usable_order_def leading_zeros_def csub_def try_into_def MAX_MAX_PAGE_ORDER_def)
qed

lemma block_interval: "block k i = {i * 2 ^ k..<i * 2 ^ k + 2 ^ k}"
proof (intro set_eqI iffI)
  fix x assume "x \<in> block k i"
  then show "x \<in> {i * 2 ^ k..<i * 2 ^ k + 2 ^ k}"
    using div_times_less_eq_dividend [of x "2 ^ k"] dividend_less_div_times [of "2 ^ k" x] by auto
next
  fix x assume "x \<in> {i * 2 ^ k..<i * 2 ^ k + 2 ^ k}"
  then show "x \<in> block k i" using div_nat_eqI [of "2 ^ k" i x] by (simp add: mult.commute)
qed

text \<open>The block that starts at a multiple of its size.\<close>

lemma block_at: "2 ^ k dvd n \<Longrightarrow> block k (n div 2 ^ k) = {n..<n + 2 ^ k}"
  by (simp add: block_interval)

lemma finite_block [simp]: "finite (block k i)"
  by (simp add: block_interval)

lemma card_block [simp]: "card (block k i) = 2 ^ k"
  by (simp add: block_interval)

lemma chunk_bound: "2 ^ k dvd n \<Longrightarrow> n + 2 ^ k \<le> L \<Longrightarrow> n div 2 ^ k < L div 2 ^ k" for n L :: nat
proof -
  assume "2 ^ k dvd n" "n + 2 ^ k \<le> L"
  then have "(n + 2 ^ k) div 2 ^ k \<le> L div 2 ^ k" by (intro div_le_mono)
  moreover have "(n + 2 ^ k) div 2 ^ k = n div 2 ^ k + 1" by (rule div_add_self2) simp
  ultimately show "n div 2 ^ k < L div 2 ^ k" by simp
qed

lemma new_chunk_step:
  "chunk_step mo num (\<lambda>n fs. \<exists>F. bud_inv num num mo h F \<lparr>bud_free = fs, bud_len = num, bud_max_order = mo\<rparr>
       \<and> pages mo F = {..<n}) (\<lambda>free page order. update_at free order (\<lambda>b. bb_clear b page))"
  unfolding chunk_step_def
proof (intro allI impI, elim conjE exE)
  fix k n fs F
  let ?a = "\<lparr>bud_free = fs, bud_len = num, bud_max_order = mo\<rparr>"
  assume k: "k \<le> mo" and F: "bud_inv num num mo h F ?a" "pages mo F = {..<n}"
    and d: "2 ^ k dvd n" "k < mo \<longrightarrow> 2 ^ Suc k dvd n" and n: "n + 2 ^ k \<le> num"
  have nb: "buddy_page (n div 2 ^ k) \<notin> F k" if lt: "k < mo"
  proof
    assume b: "buddy_page (n div 2 ^ k) \<in> F k"
    obtain m where "n = 2 ^ Suc k * m" using d(2) lt by blast
    then have "n div 2 ^ k = 2 * m" by simp
    then have "Suc (n div 2 ^ k) \<in> F k" using b by simp
    then have "Suc (n div 2 ^ k) * 2 ^ k \<in> {..<n}" using block_in_pages [OF k] F(2) block_first by blast
    then show False using d(1) by simp
  qed
  have dis: "block k (n div 2 ^ k) \<inter> pages mo F = {}" by (auto simp: block_at [OF d(1)] F(2) simp del: block_mem)
  obtain a' F' where a': "bud_clear ?a k (n div 2 ^ k) = ok a'" "bud_inv num num mo h F' a'"
    "pages mo F' = pages mo F \<union> block k (n div 2 ^ k)"
    using bud_clear_inv [OF F(1) k chunk_bound [OF d(1) n] dis nb] by blast
  have "{..<n} \<union> {n..<n + 2 ^ k} = {..<n + 2 ^ k}" by auto
  then have "pages mo F' = {..<n + 2 ^ k}" using a'(3) by (simp add: block_at [OF d(1)] F(2))
  then show "\<exists>s'. update_at fs k (\<lambda>b. bb_clear b (n div 2 ^ k)) = ok s' \<and>
      (\<exists>F. bud_inv num num mo h F \<lparr>bud_free = s', bud_len = num, bud_max_order = mo\<rparr> \<and> pages mo F = {..<n + 2 ^ k})"
    using a'(1,2) by (auto simp: bud_clear_def bind_ok_iff)
qed

lemma bud_new_ok:
  assumes "0 < cap" "num \<le> cap" "cap \<le> 2 ^ 31" "mo = min 20 (bit_len cap - 1)"
  shows "\<exists>a F. bud_new num cap = ok a \<and> bud_inv num num mo (bud_height num cap) F a \<and> pages mo F = {..<num}"
proof -
  let ?f = "\<lambda>free page order. update_at free order (\<lambda>b. bb_clear b page)"
  let ?a = "\<lambda>fs. \<lparr>bud_free = fs, bud_len = num, bud_max_order = mo\<rparr>"
  obtain fs where fs: "new_orders (Suc mo) num cap = ok fs" "length fs = Suc mo"
    "reps bb_rep (\<lambda>j. num div 2 ^ j) (bud_height num cap) (\<lambda>j. {}) fs"
    using new_orders_ok [of num "Suc mo" cap] assms(2,3) by auto
  have mo: "mo \<le> 20" using assms(4) by simp
  then have "(2::nat) ^ mo \<le> 2 ^ 20" by (intro power_increasing) auto
  then have b: "num + 2 ^ mo < 2 ^ 32" using assms by simp
  have "fam mo num (\<lambda>j. {})" "pages mo (\<lambda>j. {}) = {..<0}" by (auto simp: fam_def pages_def)
  then have "\<exists>F. bud_inv num num mo (bud_height num cap) F (?a fs) \<and> pages mo F = {..<0}"
    using fs assms mo by (auto simp: bud_inv_def bud_rep_def intro!: exI [of _ "\<lambda>j. {}"])
  from chunk_orders_ok [OF new_chunk_step _ b _ this] obtain fs' where
    ch: "chunk_orders ?f num mo 0 fs = ok (num, fs')"
    "\<exists>F. bud_inv num num mo (bud_height num cap) F (?a fs') \<and> pages mo F = {..<num}"
    using mo by (auto simp: chunk_pos_def)
  moreover have "calculate_usable_order cap = ok mo" using calculate_usable_order_ok [of cap] assms by simp
  then have "bud_new num cap = ok (?a fs')" using fs(1) ch by (simp add: bud_new_def del: new_orders.simps)
  ultimately show ?thesis by blast
qed

subsection \<open>Counting and searching\<close>

lemma for_each_upt_Suc: "for_each [0..<Suc n] f s = for_each [0..<n] f s \<bind> f n"
proof -
  have "for_each [n] f x = f n x" for x by (cases "f n x") simp_all
  then have "for_each [n] f = f n" by (rule ext)
  then show ?thesis by (simp add: for_each_append)
qed

lemma pages_bound: "fam mo L F \<Longrightarrow> pages mo F \<subseteq> {..<L}"
proof
  fix x assume "fam mo L F" "x \<in> pages mo F"
  then obtain k where "x div 2 ^ k < L div 2 ^ k" using famD(1) unfolding pages_mem by blast
  then show "x \<in> {..<L}" by (metis div_le_mono lessThan_iff not_le)
qed

lemma fam_mono: "fam mo L F \<Longrightarrow> k \<le> mo \<Longrightarrow> fam k L F"
  unfolding fam_def by (meson le_trans less_le_trans)

lemma pages_Suc: "pages (Suc k) F = pages k F \<union> (\<Union>i\<in>F (Suc k). block (Suc k) i)"
  by (auto simp: pages_def le_Suc_eq)

lemma pages_0: "pages 0 F = F 0"
  by (simp add: pages_def)

lemma card_blocks: "finite A \<Longrightarrow> card (\<Union>i\<in>A. block k i) = card A * 2 ^ k"
  by (subst card_UN_disjoint) auto

lemma card_pages_Suc:
  assumes "fam (Suc k) L F"
  shows "card (pages (Suc k) F) = card (pages k F) + card (F (Suc k)) * 2 ^ Suc k"
proof -
  have f: "finite (F (Suc k))" using fam_finite [OF assms] by simp
  have "finite (pages k F)"
    using pages_bound [OF fam_mono [OF assms, of k]] finite_subset by auto
  moreover have "pages k F \<inter> (\<Union>i\<in>F (Suc k). block (Suc k) i) = {}"
  proof (rule ccontr)
    assume "pages k F \<inter> (\<Union>i\<in>F (Suc k). block (Suc k) i) \<noteq> {}"
    then obtain x j where "j \<le> k" "x div 2 ^ j \<in> F j" "x div 2 ^ Suc k \<in> F (Suc k)" by (auto simp: pages_mem)
    then show False using famD(2) [OF assms, of j "Suc k" x] by simp
  qed
  ultimately show ?thesis
    using f card_blocks [OF f, of "Suc k"] by (subst pages_Suc, subst card_Un_disjoint) auto
qed

lemma bud_order:
  assumes "bud_rep len L mo h F a" "k \<le> mo"
  obtains b where "get_order_free a k = ok b" "bb_rep (L div 2 ^ k) (h k) (F k) b"
  using bud_repD(3,6) [OF assms(1)] assms(2) by (auto simp: get_order_free_def reps_def)

lemma count_free_pages_ok:
  assumes "bud_inv len L mo h F a"
  shows "count_free_pages a = ok (card (pages mo F))"
proof -
  have rep: "bud_rep len L mo h F a" and f: "fam mo L F" using assms by (simp_all add: bud_inv_def)
  have bnd: "card (pages k F) < 2 ^ 32" if "k \<le> mo" for k
    using card_mono [OF _ pages_bound [OF fam_mono [OF f that]]] bud_repD(5) [OF rep] by simp
  define body where "body order acc = do { c \<leftarrow> get_order_free a order \<bind> bb_count_unset;
     size \<leftarrow> pow2_u32 order; m \<leftarrow> cmul 32 c size; cadd 32 acc m }" for order acc
  have body: "body k acc = ok (acc + card (F k) * 2 ^ k)" if k: "k \<le> mo" and "acc + card (F k) * 2 ^ k < 2 ^ 32" for k acc
  proof -
    obtain b where "get_order_free a k = ok b" "bb_count_unset b = ok (card (F k))"
      using bud_order [OF rep k] bitmap_index.count_law by metis
    moreover have "k < 32" using k bud_repD(4) [OF rep] by simp
    ultimately show ?thesis using that(2) by (simp add: body_def pow2_u32_def cmul_def cadd_def)
  qed
  have "k \<le> mo \<Longrightarrow> for_each [0..<Suc k] body 0 = ok (card (pages k F))" for k
  proof (induction k)
    case 0
    then show ?case using body [of 0 0] bnd [of 0] by (simp add: pages_0)
  next
    case (Suc k)
    then show ?case using body [of "Suc k" "card (pages k F)"] bnd [of "Suc k"]
        card_pages_Suc [OF fam_mono [OF f Suc.prems]]
      by (subst for_each_upt_Suc) simp
  qed
  from this [OF order_refl] show ?thesis unfolding count_free_pages_def body_def bud_repD(2) [OF rep] .
qed

lemma highest_free_order_ok:
  assumes "bud_rep len L mo h F a"
  shows "\<exists>r. highest_free_order a = ok r \<and> (case r of None \<Rightarrow> \<forall>j\<le>mo. F j = {}
    | Some j \<Rightarrow> j \<le> mo \<and> F j \<noteq> {} \<and> (\<forall>l. j < l \<and> l \<le> mo \<longrightarrow> F l = {}))"
proof -
  define body where "body order r = (case r of Some x \<Rightarrow> ok (Some x)
     | None \<Rightarrow> do { u \<leftarrow> get_order_free a order \<bind> bb_has_unset; ok (if u then Some order else None) })"
    for order and r :: "nat option"
  have body: "body k None = ok (if F k \<noteq> {} then Some k else None)" if k: "k \<le> mo" for k
  proof -
    obtain b where "get_order_free a k = ok b" "bb_has_unset b = ok (F k \<noteq> {})"
      using bud_order [OF assms k] bitmap_index.has_law by metis
    then show ?thesis by (simp add: body_def)
  qed
  have keep: "for_each xs body (Some x) = ok (Some x)" for xs x
    by (induction xs) (simp_all add: body_def)
  have "k \<le> mo \<Longrightarrow> \<exists>r. for_each (rev [0..<Suc k]) body None = ok r \<and> (case r of None \<Rightarrow> \<forall>j\<le>k. F j = {}
    | Some j \<Rightarrow> j \<le> k \<and> F j \<noteq> {} \<and> (\<forall>l. j < l \<and> l \<le> k \<longrightarrow> F l = {}))" for k
  proof (induction k)
    case 0
    then show ?case using body [of 0] by auto
  next
    case (Suc k)
    have e: "for_each (rev [0..<Suc (Suc k)]) body None = body (Suc k) None \<bind> for_each (rev [0..<Suc k]) body"
      by simp
    show ?case
    proof (cases "F (Suc k) = {}")
      case False
      then show ?thesis unfolding e using body [OF Suc.prems] keep by auto
    next
      case True
      have le: "l \<le> Suc k \<longleftrightarrow> l \<le> k \<or> l = Suc k" for l by (simp add: le_Suc_eq)
      have "k \<le> mo" using Suc.prems by simp
      from Suc.IH [OF this] obtain r where r: "for_each (rev [0..<Suc k]) body None = ok r"
        "case r of None \<Rightarrow> \<forall>j\<le>k. F j = {}
         | Some j \<Rightarrow> j \<le> k \<and> F j \<noteq> {} \<and> (\<forall>l. j < l \<and> l \<le> k \<longrightarrow> F l = {})" by blast
      have "case r of None \<Rightarrow> \<forall>j\<le>Suc k. F j = {}
         | Some j \<Rightarrow> j \<le> Suc k \<and> F j \<noteq> {} \<and> (\<forall>l. j < l \<and> l \<le> Suc k \<longrightarrow> F l = {})"
        using r(2) True by (cases r) (auto simp: le)
      then show ?thesis unfolding e using body [OF Suc.prems] r(1) True by simp
    qed
  qed
  from this [OF order_refl] show ?thesis unfolding highest_free_order_def body_def bud_repD(2) [OF assms] .
qed

lemma find_free_from_ok:
  assumes "bud_rep len L mo h F a"
  shows "\<exists>r. find_free_from a k (x div 2 ^ k) = ok r \<and> (case r of
      None \<Rightarrow> \<forall>j. k \<le> j \<and> j \<le> mo \<longrightarrow> x div 2 ^ j \<notin> F j
    | Some j \<Rightarrow> k \<le> j \<and> j \<le> mo \<and> x div 2 ^ j \<in> F j)"
proof (induction "Suc mo - k" arbitrary: k)
  case 0
  then show ?case using bud_repD(2) [OF assms] by (subst find_free_from.simps) auto
next
  case (Suc n)
  then have k: "k \<le> mo" "\<not> mo < k" by simp_all
  obtain b where b: "get_order_free a k = ok b" "bb_rep (L div 2 ^ k) (h k) (F k) b"
    using bud_order [OF assms k(1)] by blast
  have "(if x div 2 ^ k < L div 2 ^ k then do { g \<leftarrow> bb_get b (x div 2 ^ k); ok (\<not> g) } else ok False)
    = ok (x div 2 ^ k \<in> F k)"
    using bitmap_index.get_law [OF b(2)] bitmap_index.rep_bound [OF b(2)] by auto
  then have e: "find_free_from a k (x div 2 ^ k) = (if x div 2 ^ k \<in> F k then ok (Some k)
      else find_free_from a (Suc k) (x div 2 ^ k div 2))"
    using b(1) bitmap_index.len_law [OF b(2)] k bud_repD(2) [OF assms]
    by (subst find_free_from.simps) (simp add: next_higher_order_def)
  show ?case
  proof (cases "x div 2 ^ k \<in> F k")
    case True
    then show ?thesis using e k by simp
  next
    case False
    have "n = Suc mo - Suc k" using Suc.hyps(2) by simp
    from Suc.hyps(1) [OF this] obtain r where r: "find_free_from a (Suc k) (x div 2 ^ Suc k) = ok r"
      "case r of None \<Rightarrow> \<forall>j. Suc k \<le> j \<and> j \<le> mo \<longrightarrow> x div 2 ^ j \<notin> F j
       | Some j \<Rightarrow> Suc k \<le> j \<and> j \<le> mo \<and> x div 2 ^ j \<in> F j" by blast
    have "case r of None \<Rightarrow> \<forall>j. k \<le> j \<and> j \<le> mo \<longrightarrow> x div 2 ^ j \<notin> F j
       | Some j \<Rightarrow> k \<le> j \<and> j \<le> mo \<and> x div 2 ^ j \<in> F j"
      using r(2) False by (auto split: option.splits) (metis Suc_leI le_neq_implies_less)
    then show ?thesis using e False r(1) unfolding div_Suc_power by auto
  qed
qed

lemma find_free_order_ok:
  assumes "bud_rep len L mo h F a"
  shows "\<exists>r. find_free_order a x = ok r \<and> (case r of
      None \<Rightarrow> x \<notin> pages mo F | Some j \<Rightarrow> j \<le> mo \<and> x div 2 ^ j \<in> F j)"
  using find_free_from_ok [OF assms, of 0 x]
  by (auto simp: find_free_order_def pages_mem split: option.splits)

text \<open>The free block of the last page before a free block (or before the end) ends at that page.\<close>

lemma block_end:
  assumes f: "fam mo L F" and k: "k \<le> mo" "n div 2 ^ k \<in> F k" "n < L"
    and st: "Suc n = L \<or> (\<exists>j\<le>mo. \<exists>i\<in>F j. i * 2 ^ j = Suc n)"
  shows "n div 2 ^ k * 2 ^ k + 2 ^ k = Suc n"
proof (rule ccontr)
  let ?i = "n div 2 ^ k"
  assume "?i * 2 ^ k + 2 ^ k \<noteq> Suc n"
  moreover have "n < ?i * 2 ^ k + 2 ^ k" using dividend_less_div_times [of "2 ^ k" n] by (simp add: add.commute)
  ultimately have lt: "Suc n < ?i * 2 ^ k + 2 ^ k" by linarith
  have ge: "?i * 2 ^ k \<le> n" by simp
  have "Suc n \<in> block k ?i" using lt ge unfolding block_interval atLeastLessThan_iff by linarith
  then have sn: "Suc n div 2 ^ k = ?i" by simp
  have "Suc n \<in> pages mo F" using sn k by (auto simp: pages_mem)
  then have "Suc n \<noteq> L" using pages_bound [OF f] by auto
  then obtain j i where j: "j \<le> mo" "i \<in> F j" "i * 2 ^ j = Suc n" using st by blast
  then have "Suc n div 2 ^ j \<in> F j" by (metis nonzero_mult_div_cancel_right power_not_zero zero_neq_numeral)
  then have "j = k" using famD(2) [OF f j(1) k(1)] sn k(2) by metis
  then show False using j(3) sn ge by (metis Suc_n_not_le_n nonzero_mult_div_cancel_right power_not_zero zero_neq_numeral)
qed

lemma trailing_loop_ok:
  assumes "bud_inv len L mo h F a" "f + Suc n = L" "{Suc n..<L} \<subseteq> pages mo F"
    "Suc n = L \<or> (\<exists>j\<le>mo. \<exists>i\<in>F j. i * 2 ^ j = Suc n)"
  shows "\<exists>t. trailing_loop a f n = ok t \<and> t \<le> L \<and> {L - t..<L} \<subseteq> pages mo F
    \<and> (t < L \<longrightarrow> L - t - 1 \<notin> pages mo F)"
  using assms(2-)
proof (induction n arbitrary: f rule: less_induct)
  case (less n)
  have rep: "bud_rep len L mo h F a" and fa: "fam mo L F" using assms(1) by (simp_all add: bud_inv_def)
  obtain r where r: "find_free_order a n = ok r" "case r of None \<Rightarrow> n \<notin> pages mo F | Some j \<Rightarrow> j \<le> mo \<and> n div 2 ^ j \<in> F j"
    using find_free_order_ok [OF rep] by blast
  show ?case
  proof (cases r)
    case None
    then show ?thesis using r less.prems(1,2) by (subst trailing_loop.simps) auto
  next
    case (Some k)
    let ?i = "n div 2 ^ k"
    have k: "k \<le> mo" "?i \<in> F k" using r(2) Some by simp_all
    have k32: "k < 32" using k(1) bud_repD(4) [OF rep] by simp
    have e: "?i * 2 ^ k + 2 ^ k = Suc n" using block_end [OF fa k _ less.prems(3)] less.prems(1) by simp
    have blk: "{?i * 2 ^ k..<Suc n} \<subseteq> pages mo F"
      using block_in_pages [of k mo ?i F, OF k] unfolding block_interval e .
    have "f + 2 ^ k \<le> L" using e less.prems(1) by linarith
    then have L: "f + 2 ^ k < 2 ^ 32" using bud_repD(5) [OF rep] by simp
    have un: "trailing_loop a f n = (if 2 ^ k > n then ok (f + 2 ^ k) else trailing_loop a (f + 2 ^ k) (n - 2 ^ k))"
      using r(1) Some k32 L by (subst trailing_loop.simps) (simp add: pow2_u32_def cadd_def)
    show ?thesis
    proof (cases "2 ^ k > n")
      case True
      then have "?i * 2 ^ k = 0" "2 ^ k = Suc n" using e by auto
      then have "{0..<L} \<subseteq> pages mo F" "f + 2 ^ k = L" using blk less.prems(1,2)
        by (auto, metis atLeastLessThan_iff leI le0 not_less_eq subsetD)
      then show ?thesis using un True by simp
    next
      case False
      have s: "Suc (n - 2 ^ k) = ?i * 2 ^ k" using e False by linarith
      have "\<exists>t. trailing_loop a (f + 2 ^ k) (n - 2 ^ k) = ok t \<and> t \<le> L \<and> {L - t..<L} \<subseteq> pages mo F
        \<and> (t < L \<longrightarrow> L - t - 1 \<notin> pages mo F)"
      proof (rule less.IH)
        show "n - 2 ^ k < n" using False by (rule pow2_progress)
        show "f + 2 ^ k + Suc (n - 2 ^ k) = L" using less.prems(1) False by linarith
        show "{Suc (n - 2 ^ k)..<L} \<subseteq> pages mo F"
          using blk less.prems(2) unfolding s by (auto, metis atLeastLessThan_iff leI not_less_eq subsetD)
      qed (use s k in auto)
      then show ?thesis using un False by simp
    qed
  qed
qed

subsection \<open>The consistency check\<close>

lemma check_page_ok:
  assumes "bud_inv len L mo h F a" "found \<Longrightarrow> \<exists>i<k. x div 2 ^ i \<in> F i"
  shows "check_page (bud_free a) mo k (x div 2 ^ k) found = ok ()"
  using assms(2)
proof (induction "Suc mo - k" arbitrary: k found)
  case 0
  then show ?case by (subst check_page.simps) simp
next
  case (Suc n)
  then have k: "k \<le> mo" by simp
  have rep: "bud_rep len L mo h F a" and f: "fam mo L F" using assms(1) by (simp_all add: bud_inv_def)
  obtain b where b: "index (bud_free a) k = ok b" "bb_rep (L div 2 ^ k) (h k) (F k) b"
    using bud_order [OF rep k] unfolding get_order_free_def by blast
  have nf: "\<not> found" if hit: "x div 2 ^ k \<in> F k"
  proof
    assume found
    then obtain i where "i < k" "x div 2 ^ i \<in> F i" using Suc.prems by blast
    then show False using famD(2) [OF f _ k _ hit, of i] k by simp
  qed
  show ?case
  proof (cases "L div 2 ^ k \<le> x div 2 ^ k")
    case True
    then show ?thesis using b(1) bitmap_index.len_law [OF b(2)] k by (subst check_page.simps) simp
  next
    case False
    have "n = Suc mo - Suc k" using Suc.hyps(2) by simp
    from Suc.hyps(1) [OF this, of "found \<or> x div 2 ^ k \<in> F k"] Suc.prems
    have "check_page (bud_free a) mo (Suc k) (x div 2 ^ k div 2) (found \<or> x div 2 ^ k \<in> F k) = ok ()"
      unfolding div_Suc_power by (metis lessI less_Suc_eq)
    then show ?thesis using b(1) bitmap_index.len_law [OF b(2)] bitmap_index.get_law [OF b(2), of "x div 2 ^ k"] False k nf
      by (subst check_page.simps) (auto simp: next_higher_order_def)
  qed
qed

lemma debug_check_consistency_ok:
  assumes "bud_inv L L mo h F a"
  shows "debug_check_consistency a = ok ()"
proof -
  have rep: "bud_rep L L mo h F a" and f: "fam mo L F" using assms by (simp_all add: bud_inv_def)
  have merged: "check_merged (bud_free a) k p = ok ()" if k: "k < mo" and p: "p < L div 2 ^ k" for k p
  proof -
    obtain b where b: "index (bud_free a) k = ok b" "bb_rep (L div 2 ^ k) (h k) (F k) b"
      using bud_order [OF rep less_imp_le [OF k]] unfolding get_order_free_def by blast
    have len: "bb_len b = ok (L div 2 ^ k)" and get: "bb_get b p = ok (p \<notin> F k)"
      using bitmap_index.len_law [OF b(2)] bitmap_index.get_law [OF b(2) p] by simp_all
    show ?thesis
    proof (cases "p \<in> F k \<and> buddy_page p < L div 2 ^ k")
      case True
      then have "bb_get b (buddy_page p) = ok True"
        using bitmap_index.get_law [OF b(2), of "buddy_page p"] famD(3) [OF f k, of p] by simp
      then show ?thesis using b(1) len get True by (simp add: check_merged_def Let_def assert_that_def)
    next
      case False
      then show ?thesis using b(1) len get by (simp add: check_merged_def Let_def)
    qed
  qed
  have "for_each [0..<L] (\<lambda>page u. check_page (bud_free a) mo 0 page False) () = ok ()"
    using check_page_ok [OF assms, of False 0] by (intro for_each_unchanged) simp
  moreover have "for_each (rev [0..<mo]) (\<lambda>order u. do { size \<leftarrow> pow2_u32 order; order_len \<leftarrow> cdiv L size;
      for_each [0..<order_len] (\<lambda>page u. check_merged (bud_free a) order page) () }) () = ok ()"
    using merged bud_repD(4) [OF rep]
    by (intro for_each_unchanged) (auto simp: pow2_u32_def cdiv_def intro!: for_each_unchanged)
  ultimately show ?thesis by (simp add: debug_check_consistency_def bud_repD(1,2) [OF rep])
qed

subsection \<open>Resizing\<close>

lemma resize_orders_ok:
  assumes "reps bb_rep n h F fs" "\<forall>j<length fs. F j \<subseteq> {..<m div 2 ^ j} \<and> m div 2 ^ j \<le> 64 ^ h j" "m \<le> 2 ^ 31"
  shows "\<exists>fs'. resize_orders fs m = ok fs' \<and> length fs' = length fs \<and> reps bb_rep (\<lambda>j. m div 2 ^ j) h F fs'"
  using assms
proof (induction fs arbitrary: n h F m)
  case Nil
  then show ?case by (simp add: reps_def)
next
  case (Cons b fs)
  have r: "bb_rep (n 0) (h 0) (F 0) b" "reps bb_rep (\<lambda>j. n (Suc j)) (\<lambda>j. h (Suc j)) (\<lambda>j. F (Suc j)) fs"
    using Cons.prems(1) unfolding reps_def by (auto dest: spec [of _ 0] spec [of _ "Suc _"])
  have z: "F 0 \<subseteq> {..<m}" "m \<le> 64 ^ h 0" using Cons.prems(2) [rule_format, of 0] by simp_all
  obtain b' where b': "bb_resize b m True = ok b'" "bb_rep m (h 0) (F 0) b'"
    using bb_resize_rep [OF r(1) z(1) _ z(2)] Cons.prems(3) by auto
  have "m div 2 \<le> 2 ^ 31" using Cons.prems(3) by linarith
  moreover have "\<forall>j<length fs. F (Suc j) \<subseteq> {..<m div 2 div 2 ^ j} \<and> m div 2 div 2 ^ j \<le> 64 ^ h (Suc j)"
  proof (intro allI impI)
    fix j assume "j < length fs"
    then show "F (Suc j) \<subseteq> {..<m div 2 div 2 ^ j} \<and> m div 2 div 2 ^ j \<le> 64 ^ h (Suc j)"
      using Cons.prems(2) [rule_format, of "Suc j"] by (simp add: div_mult2_eq)
  qed
  ultimately obtain fs' where fs': "resize_orders fs (m div 2) = ok fs'" "length fs' = length fs"
    "reps bb_rep (\<lambda>j. m div 2 div 2 ^ j) (\<lambda>j. h (Suc j)) (\<lambda>j. F (Suc j)) fs'"
    using Cons.IH [OF r(2)] by blast
  have "reps bb_rep (\<lambda>j. m div 2 ^ j) h F (b' # fs')" unfolding reps_def
  proof (intro allI impI)
    fix j assume "j < length (b' # fs')"
    then show "bb_rep (m div 2 ^ j) (h j) (F j) ((b' # fs') ! j)"
      using b'(2) fs'(3) by (cases j) (simp_all add: reps_def div_mult2_eq)
  qed
  then show ?case using b' fs' by (simp add: next_higher_order_def)
qed

lemma fam_resize: "fam mo L F \<Longrightarrow> pages mo F \<subseteq> {..<m} \<Longrightarrow> fam mo m F"
proof -
  assume f: "fam mo L F" and p: "pages mo F \<subseteq> {..<m}"
  have "i < m div 2 ^ k" if "k \<le> mo" "i \<in> F k" for k i
  proof -
    have "0 < (2::nat) ^ k" by simp
    then have "i * 2 ^ k + 2 ^ k - 1 \<in> block k i" unfolding block_interval atLeastLessThan_iff by linarith
    then have "i * 2 ^ k + 2 ^ k \<le> m" using block_in_pages [of k mo i F, OF that] p by fastforce
    then show ?thesis using chunk_bound [of k "i * 2 ^ k" m] by simp
  qed
  then show ?thesis using f unfolding fam_def by blast
qed

text \<open>The state of the loops: the pages from the old end to \<open>n\<close> are free, or taken.\<close>

definition grown :: "nat \<Rightarrow> nat \<Rightarrow> nat \<Rightarrow> (nat \<Rightarrow> nat) \<Rightarrow> nat set \<Rightarrow> nat \<Rightarrow> buddy \<Rightarrow> bool" where
  "grown len L mo h P n a \<longleftrightarrow> (\<exists>F. bud_inv len L mo h F a \<and> pages mo F = P \<union> {len..<n}) \<and> len \<le> n"

definition shrunk :: "nat \<Rightarrow> nat \<Rightarrow> (nat \<Rightarrow> nat) \<Rightarrow> nat set \<Rightarrow> nat \<Rightarrow> nat \<Rightarrow> buddy \<Rightarrow> bool" where
  "shrunk L mo h P m n a \<longleftrightarrow> (\<exists>F. bud_inv L L mo h F a \<and> pages mo F = P - {m..<n}) \<and> m \<le> n"

lemma grown_step:
  assumes "P \<subseteq> {..<len}" "grown len L mo h P n a" "k \<le> mo" "2 ^ k dvd n" "n + 2 ^ k \<le> L"
  shows "\<exists>a'. free_inner a (n div 2 ^ k) k = ok a' \<and> grown len L mo h P (n + 2 ^ k) a'"
proof -
  obtain F where F: "bud_inv len L mo h F a" "pages mo F = P \<union> {len..<n}" "len \<le> n"
    using assms(2) by (auto simp: grown_def)
  have "block k (n div 2 ^ k) \<inter> pages mo F = {}"
    unfolding block_at [OF assms(4)] F(2) using assms(1) F(3) by auto
  from free_inner_ok [OF F(1) assms(3) chunk_bound [OF assms(4,5)] this] obtain a' F' where
    a': "free_inner a (n div 2 ^ k) k = ok a'" "bud_inv len L mo h F' a'" "pages mo F' = pages mo F \<union> {n..<n + 2 ^ k}"
    unfolding block_at [OF assms(4)] by blast
  moreover have "P \<union> {len..<n} \<union> {n..<n + 2 ^ k} = P \<union> {len..<n + 2 ^ k}" using F(3) by auto
  ultimately show ?thesis using F(2,3) by (auto simp: grown_def)
qed

lemma shrunk_step:
  assumes "{m..<L} \<subseteq> P" "shrunk L mo h P m n a" "k \<le> mo" "2 ^ k dvd n" "n + 2 ^ k \<le> L"
  shows "\<exists>a'. record_alloc_inner a (n div 2 ^ k) k = ok a' \<and> shrunk L mo h P m (n + 2 ^ k) a'"
proof -
  obtain F where F: "bud_inv L L mo h F a" "pages mo F = P - {m..<n}" "m \<le> n"
    using assms(2) by (auto simp: shrunk_def)
  have "{n..<n + 2 ^ k} \<subseteq> {m..<L}" using F(3) assms(5) by auto
  then have "block k (n div 2 ^ k) \<subseteq> pages mo F"
    unfolding block_at [OF assms(4)] F(2) using assms(1) by auto
  from record_alloc_inner_ok [OF F(1) assms(3) this] obtain a' F' where
    a': "record_alloc_inner a (n div 2 ^ k) k = ok a'" "bud_inv L L mo h F' a'" "pages mo F' = pages mo F - {n..<n + 2 ^ k}"
    unfolding block_at [OF assms(4)] by blast
  moreover have "P - {m..<n} - {n..<n + 2 ^ k} = P - {m..<n + 2 ^ k}" using F(3) by auto
  ultimately show ?thesis using F(2,3) by (auto simp: shrunk_def)
qed

lemma factors_bound: "0 < n \<Longrightarrow> n < 2 ^ 32 \<Longrightarrow> factors_of_two n < 32"
proof (rule ccontr)
  assume n: "0 < n" "n < 2 ^ 32" and "\<not> factors_of_two n < 32"
  then have "(2::nat) ^ 32 \<le> 2 ^ factors_of_two n" by (intro power_increasing) auto
  also have "\<dots> \<le> n" using factors_of_two_dvd n(1) by (rule dvd_imp_le)
  finally show False using n(2) by simp
qed

lemma chunk_pos_end: "chunk_pos mo limit mo limit"
  unfolding chunk_pos_def by (intro disjI2 exI [of _ 0]) simp

lemma grow_align_ok:
  assumes "P \<subseteq> {..<len}" "0 < len" "L \<le> 2 ^ 31"
  shows "grown len L mo h P n a \<Longrightarrow> n \<le> L \<Longrightarrow>
    \<exists>n' a'. grow_align L n a = ok (n', a') \<and> grown len L mo h P n' a' \<and> n' \<le> L \<and> chunk_pos mo L mo n'"
proof (induction "L - n" arbitrary: n a rule: less_induct)
  case less
  have mo: "bud_max_order a = mo" using less.prems(1) by (auto simp: grown_def bud_inv_def bud_rep_def)
  show ?case
  proof (cases "n < L")
    case False
    then have "n = L" "grow_align L n a = ok (n, a)" using less.prems(2) by (auto simp: grow_align.simps)
    then show ?thesis using less.prems chunk_pos_end by blast
  next
    case True
    have n0: "0 < n" using less.prems(1) assms(2) by (auto simp: grown_def)
    let ?k = "factors_of_two n"
    have n32: "n < 2 ^ 32" using True assms(3) by simp
    have k32: "?k < 32" using factors_bound [OF n0 n32] .
    have "2 ^ ?k \<le> n" using factors_of_two_dvd n0 by (rule dvd_imp_le)
    then have s: "n + 2 ^ ?k < 2 ^ 32" using True assms(3) by simp
    have un: "grow_align L n a = (if mo \<le> ?k \<or> L < n + 2 ^ ?k then ok (n, a)
        else do { a' \<leftarrow> free_inner a (n div 2 ^ ?k) ?k; grow_align L (n + 2 ^ ?k) a' })"
      using True n0 k32 s factors_of_two_dvd [of n]
      by (subst grow_align.simps) (simp add: trailing_zeros_def try_into_def pow2_u32_def cdiv_def cadd_def mo)
    show ?thesis
    proof (cases "mo \<le> ?k \<or> L < n + 2 ^ ?k")
      case stop: True
      have "chunk_pos mo L mo n"
        using stop factors_of_two_dvd [of n] power_le_dvd unfolding chunk_pos_def
        by (metis dual_order.trans linorder_not_le less_Suc_eq_le less_imp_le_nat)
      then show ?thesis using un stop less.prems by auto
    next
      case go: False
      then have b: "?k \<le> mo" "n + 2 ^ ?k \<le> L" by auto
      obtain a' where a': "free_inner a (n div 2 ^ ?k) ?k = ok a'" "grown len L mo h P (n + 2 ^ ?k) a'"
        using grown_step [OF assms(1) less.prems(1) b(1) factors_of_two_dvd b(2)] by blast
      then show ?thesis using less.hyps [OF pow2_progress(1) [OF b(2)] a'(2) b(2)] un go by simp
    qed
  qed
qed

lemma shrink_align_ok:
  assumes "{m..<L} \<subseteq> P" "L \<le> 2 ^ 31" "mo \<le> 20"
  shows "shrunk L mo h P m n a \<Longrightarrow> n \<le> L \<Longrightarrow>
    \<exists>n' a'. shrink_align L n a = ok (n', a') \<and> shrunk L mo h P m n' a' \<and> n' \<le> L \<and> chunk_pos mo L mo n'"
proof (induction "L - n" arbitrary: n a rule: less_induct)
  case less
  have mo: "bud_max_order a = mo" using less.prems(1) by (auto simp: shrunk_def bud_inv_def bud_rep_def)
  let ?k = "trailing_zeros 32 n"
  show ?case
  proof (cases "n < L")
    case False
    then have "n = L" "shrink_align L n a = ok (n, a)" using less.prems(2) by (auto simp: shrink_align.simps)
    then show ?thesis using less.prems chunk_pos_end by blast
  next
    case True
    have dvd: "2 ^ ?k dvd n" using factors_of_two_dvd by (auto simp: trailing_zeros_def)
    have k8: "?k < 2 ^ 8" using factors_bound [of n] True assms(2) by (cases "n = 0") (auto simp: trailing_zeros_def)
    show ?thesis
    proof (cases "mo \<le> ?k")
      case stop: True
      then have "2 ^ mo dvd n" using dvd power_le_dvd by blast
      then have "chunk_pos mo L mo n" by (simp add: chunk_pos_def)
      moreover have "shrink_align L n a = ok (n, a)"
        using True stop k8 by (subst shrink_align.simps) (simp add: try_into_def mo)
      ultimately show ?thesis using less.prems by auto
    next
      case lt: False
      then have k32: "?k < 32" "n \<noteq> 0" using assms(3) by (auto simp: trailing_zeros_def split: if_splits)
      have "2 ^ ?k \<le> n" using dvd k32(2) by (intro dvd_imp_le) auto
      then have s: "n + 2 ^ ?k < 2 ^ 32" using True assms(2) by simp
      have un: "shrink_align L n a = (if L < n + 2 ^ ?k then ok (n, a)
          else do { a' \<leftarrow> record_alloc_inner a (n div 2 ^ ?k) ?k; shrink_align L (n + 2 ^ ?k) a' })"
        using True lt k8 k32 s dvd
        by (subst shrink_align.simps) (simp add: try_into_def pow2_u32_def cdiv_def cadd_def mo)
      show ?thesis
      proof (cases "L < n + 2 ^ ?k")
        case stop: True
        then have "chunk_pos mo L mo n" using dvd lt unfolding chunk_pos_def
          by (intro disjI2 exI [of _ ?k]) simp
        then show ?thesis using un stop less.prems by auto
      next
        case go: False
        then have b: "?k \<le> mo" "n + 2 ^ ?k \<le> L" using lt by auto
        obtain a' where a': "record_alloc_inner a (n div 2 ^ ?k) ?k = ok a'" "shrunk L mo h P m (n + 2 ^ ?k) a'"
          using shrunk_step [OF assms(1) less.prems(1) b(1) dvd b(2)] by blast
        then show ?thesis using less.hyps [OF pow2_progress(1) [OF b(2)] a'(2) b(2)] un go by simp
      qed
    qed
  qed
qed

lemma pow_20: "mo \<le> 20 \<Longrightarrow> (2::nat) ^ mo \<le> 2 ^ 20"
  by (rule power_increasing) auto

lemma bud_rep_free:
  "bud_rep len L mo h F a \<Longrightarrow> reps bb_rep (\<lambda>k. m div 2 ^ k) h F fs \<Longrightarrow> length fs = Suc mo \<Longrightarrow> m \<le> 2 ^ 31 \<Longrightarrow>
   bud_rep len m mo h F (a\<lparr>bud_free := fs\<rparr>)"
  by (simp add: bud_rep_def)

lemma bud_rep_set_len: "bud_rep len L mo h F a \<Longrightarrow> bud_rep m L mo h F (a\<lparr>bud_len := m\<rparr>)"
  by (simp add: bud_rep_def)

lemma resize_grow:
  assumes inv: "bud_inv L L mo h F a" and m: "L < m" "m \<le> 2 ^ 31" "0 < L" and cap: "\<forall>k\<le>mo. m div 2 ^ k \<le> 64 ^ h k"
  shows "\<exists>a' F'. bud_resize a m = ok a' \<and> bud_inv m m mo h F' a' \<and> pages mo F' = pages mo F \<union> {L..<m}"
proof -
  have rep: "bud_rep L L mo h F a" and f: "fam mo L F" using inv by (simp_all add: bud_inv_def)
  have P: "pages mo F \<subseteq> {..<L}" using pages_bound [OF f] .
  have "pages mo F \<subseteq> {..<m}" using P m(1) by auto
  then have fm: "fam mo m F" using fam_resize [OF f] by blast
  have "\<forall>j<length (bud_free a). F j \<subseteq> {..<m div 2 ^ j} \<and> m div 2 ^ j \<le> 64 ^ h j"
    using fm cap bud_repD(3) [OF rep] by (auto simp: fam_def)
  from resize_orders_ok [OF bud_repD(6) [OF rep] this m(2)] obtain fs where
    fs: "resize_orders (bud_free a) m = ok fs" "length fs = Suc mo" "reps bb_rep (\<lambda>j. m div 2 ^ j) h F fs"
    using bud_repD(3) [OF rep] by auto
  let ?a = "a\<lparr>bud_free := fs\<rparr>"
  have "grown L m mo h (pages mo F) L ?a"
    using bud_rep_free [OF rep fs(3,2) m(2)] fm by (auto simp: grown_def bud_inv_def)
  from grow_align_ok [OF P m(3,2) this] m(1) obtain n a1 where
    a1: "grow_align m L ?a = ok (n, a1)" "grown L m mo h (pages mo F) n a1" "n \<le> m" "chunk_pos mo m mo n"
    by auto
  have step: "chunk_step mo m (grown L m mo h (pages mo F)) free_inner"
    using grown_step [OF P] unfolding chunk_step_def by blast
  have mo: "mo \<le> 20" using bud_repD(4) [OF rep] .
  have b: "mo < 32" "m + 2 ^ mo < 2 ^ 32" using mo pow_20 [OF mo] m(2) by simp_all
  obtain a2 where a2: "chunk_orders free_inner m mo n a1 = ok (m, a2)" "grown L m mo h (pages mo F) m a2"
    using chunk_orders_ok [OF step b a1(3,2,4)] by blast
  then obtain F' where F': "bud_inv L m mo h F' a2" "pages mo F' = pages mo F \<union> {L..<m}"
    by (auto simp: grown_def)
  let ?r = "a2\<lparr>bud_len := m\<rparr>"
  have r: "bud_inv m m mo h F' ?r" using F'(1) bud_rep_set_len by (auto simp: bud_inv_def)
  have "bud_max_order a1 = mo" using a1(2) by (auto simp: grown_def bud_inv_def bud_rep_def)
  then have "bud_resize a m = ok ?r"
    using debug_check_consistency_ok [OF inv] debug_check_consistency_ok [OF r] fs(1) a1(1) a2(1) m(1)
    by (simp add: bud_resize_def bud_repD(1) [OF rep] Let_def)
  then show ?thesis using r F'(2) by blast
qed

lemma resize_shrink:
  assumes inv: "bud_inv L L mo h F a" and m: "m \<le> L" "{m..<L} \<subseteq> pages mo F" and cap: "\<forall>k\<le>mo. m div 2 ^ k \<le> 64 ^ h k"
  shows "\<exists>a' F'. bud_resize a m = ok a' \<and> bud_inv m m mo h F' a' \<and> pages mo F' = pages mo F - {m..<L}"
proof -
  have rep: "bud_rep L L mo h F a" and f: "fam mo L F" using inv by (simp_all add: bud_inv_def)
  have L: "L \<le> 2 ^ 31" "m \<le> 2 ^ 31" and mo: "mo \<le> 20" using bud_repD(4,5) [OF rep] m(1) by simp_all
  have "shrunk L mo h (pages mo F) m m a" using inv by (auto simp: shrunk_def)
  from shrink_align_ok [OF m(2) L(1) mo this m(1)] obtain n a1 where
    a1: "shrink_align L m a = ok (n, a1)" "shrunk L mo h (pages mo F) m n a1" "n \<le> L" "chunk_pos mo L mo n" by blast
  have step: "chunk_step mo L (shrunk L mo h (pages mo F) m) record_alloc_inner"
    using shrunk_step [OF m(2)] unfolding chunk_step_def by blast
  have b: "mo < 32" "L + 2 ^ mo < 2 ^ 32" using mo pow_20 [OF mo] L(1) by simp_all
  obtain a2 where a2: "chunk_orders record_alloc_inner L mo n a1 = ok (L, a2)" "shrunk L mo h (pages mo F) m L a2"
    using chunk_orders_ok [OF step b a1(3,2,4)] by blast
  then obtain F' where F': "bud_inv L L mo h F' a2" "pages mo F' = pages mo F - {m..<L}"
    by (auto simp: shrunk_def)
  have rep2: "bud_rep L L mo h F' a2" and f2: "fam mo L F'" using F'(1) by (simp_all add: bud_inv_def)
  have "pages mo F' \<subseteq> {..<m}" using F'(2) pages_bound [OF f] by force
  then have fm: "fam mo m F'" using fam_resize [OF f2] by blast
  have "\<forall>j<length (bud_free a2). F' j \<subseteq> {..<m div 2 ^ j} \<and> m div 2 ^ j \<le> 64 ^ h j"
    using fm cap bud_repD(3) [OF rep2] by (auto simp: fam_def)
  from resize_orders_ok [OF bud_repD(6) [OF rep2] this L(2)] obtain fs where
    fs: "resize_orders (bud_free a2) m = ok fs" "length fs = Suc mo" "reps bb_rep (\<lambda>j. m div 2 ^ j) h F' fs"
    using bud_repD(3) [OF rep2] by auto
  let ?r = "a2\<lparr>bud_free := fs, bud_len := m\<rparr>"
  have r: "bud_inv m m mo h F' ?r"
    using bud_rep_set_len [OF bud_rep_free [OF rep2 fs(3,2) L(2)]] fm by (simp add: bud_inv_def)
  have "bud_max_order a1 = mo" "bud_len a1 = L" using a1(2) by (auto simp: shrunk_def bud_inv_def bud_rep_def)
  then have "bud_resize a m = ok ?r"
    using debug_check_consistency_ok [OF inv] debug_check_consistency_ok [OF r] fs(1) a1(1) a2(1) m(1)
    by (simp add: bud_resize_def bud_repD(1) [OF rep] bud_repD(1) [OF rep2] Let_def)
  then show ?thesis using r F'(2) by blast
qed

subsection \<open>Allocation at the lowest index\<close>

lemma block_nested:
  assumes "k \<le> l" "block k i \<inter> block l j \<noteq> {}"
  shows "block k i \<subseteq> block l j"
proof -
  from assms(2) obtain x where "x \<in> block k i" "x \<in> block l j" by blast
  then have "x div 2 ^ k = i" "x div 2 ^ l = j" by simp_all
  then have "i div 2 ^ (l - k) = j" using div_power_le [OF assms(1), of x] by simp
  then show ?thesis using block_subset [OF assms(1), of i] by simp
qed

text \<open>
  \<open>lowest k i F0 (bi, bo) F\<close>: the block \<open>bi\<close> of order \<open>bo\<close> is held, the other free pages of \<open>F0\<close> are
  free in \<open>F\<close>, the held block starts a free block of \<open>F0\<close>, and no free block of \<open>F0\<close> of an order from
  \<open>k\<close> up to but excluding \<open>i\<close> starts before it.
\<close>

definition lowest :: "nat \<Rightarrow> nat \<Rightarrow> nat \<Rightarrow> nat \<Rightarrow> (nat \<Rightarrow> nat set) \<Rightarrow> nat \<Rightarrow> nat \<Rightarrow> (nat \<Rightarrow> nat set) \<Rightarrow> bool" where
  "lowest mo L k i F0 bi bo F \<longleftrightarrow> k \<le> bo \<and> bo < i \<and> bo \<le> mo \<and> bi < L div 2 ^ bo \<and> block bo bi \<subseteq> pages mo F0
     \<and> pages mo F = pages mo F0 - block bo bi
     \<and> (\<exists>l j. bo \<le> l \<and> l \<le> mo \<and> j \<in> F0 l \<and> bi * 2 ^ bo = j * 2 ^ l)
     \<and> (\<forall>l j. k \<le> l \<and> l < i \<and> l \<le> mo \<and> j \<in> F0 l \<longrightarrow> bi * 2 ^ bo \<le> j * 2 ^ l)"

lemma start_in_block: "bo \<le> l \<Longrightarrow> bi * 2 ^ bo = j * 2 ^ l \<Longrightarrow> block bo bi \<subseteq> block l j" for bi j :: nat
proof -
  assume "bo \<le> l" "bi * 2 ^ bo = j * 2 ^ l"
  moreover from this have "bi * 2 ^ bo \<in> block bo bi \<inter> block l j" using block_first [of bi bo] block_first [of j l] by simp
  ultimately show ?thesis using block_nested by blast
qed

text \<open>A free block of \<open>F0\<close> is still free, unless the held block is its start.\<close>

lemma lowest_stays:
  assumes f0: "fam mo L F0" and f: "fam mo L F" and low: "lowest mo L k i F0 bi bo F"
    and j: "i \<le> l" "l \<le> mo" "j \<in> F0 l"
  shows "bi * 2 ^ bo = j * 2 ^ l \<or> j \<in> F l"
proof (cases "block bo bi \<inter> block l j = {}")
  case False
  obtain l' j' where lj: "bo \<le> l'" "l' \<le> mo" "j' \<in> F0 l'" "bi * 2 ^ bo = j' * 2 ^ l'"
    using low by (auto simp: lowest_def)
  obtain x where x: "x \<in> block bo bi" "x \<in> block l j" using False by blast
  then have "x \<in> block l' j'" using start_in_block [OF lj(1,4)] by blast
  then have "l' = l" using famD(2) [OF f0 lj(2) j(2), of x] x lj(3) j(3) by simp
  then show ?thesis using lj(4) x(2) \<open>x \<in> block l' j'\<close> by simp
next
  case True
  then have "block l j \<subseteq> pages mo F" using low block_in_pages [of l mo j F0, OF j(2,3)] by (auto simp: lowest_def)
  from covered [OF f j(2) this] obtain m where m: "l \<le> m" "m \<le> mo" "j div 2 ^ (m - l) \<in> F m" by blast
  have "block m (j div 2 ^ (m - l)) \<subseteq> pages mo F0"
    using block_in_pages [of m mo _ F, OF m(2,3)] low by (auto simp: lowest_def)
  from covered [OF f0 m(2) this] obtain n where n: "m \<le> n" "n \<le> mo" "j div 2 ^ (m - l) div 2 ^ (n - m) \<in> F0 n" by blast
  have "j * 2 ^ l div 2 ^ n = j div 2 ^ (m - l) div 2 ^ (n - m)"
    using div_power_le [OF n(1), of "j * 2 ^ l"] div_power_le [OF m(1), of "j * 2 ^ l"] by simp
  then have "n = l" using famD(2) [OF f0 n(2) j(2), of "j * 2 ^ l"] n(3) j(3) by simp
  then show ?thesis using m n(1) by simp
qed

text \<open>A free block of \<open>F\<close> that starts before the held block is a free block of \<open>F0\<close>.\<close>

lemma lowest_original:
  assumes f0: "fam mo L F0" and f: "fam mo L F" and low: "lowest mo L k i F0 bi bo F"
    and m: "i \<le> l" "l \<le> mo" "m \<in> F l" "m * 2 ^ l < bi * 2 ^ bo"
  shows "m \<in> F0 l"
proof -
  have "block l m \<subseteq> pages mo F0"
    using block_in_pages [of l mo m F, OF m(2,3)] low by (auto simp: lowest_def)
  from covered [OF f0 m(2) this] obtain n where n: "l \<le> n" "n \<le> mo" "m div 2 ^ (n - l) \<in> F0 n" by blast
  have nm: "m * 2 ^ l div 2 ^ n = m div 2 ^ (n - l)" using div_power_le [OF n(1), of "m * 2 ^ l"] by simp
  from lowest_stays [OF f0 f low _ n(2,3)] m(1) n(1)
  have "bi * 2 ^ bo = m div 2 ^ (n - l) * 2 ^ n \<or> m div 2 ^ (n - l) \<in> F n" by simp
  moreover have "bi * 2 ^ bo \<noteq> m div 2 ^ (n - l) * 2 ^ n"
    unfolding nm [symmetric] using m(4) div_times_less_eq_dividend [of "m * 2 ^ l" "2 ^ n"] by linarith
  ultimately have "m * 2 ^ l div 2 ^ n \<in> F n" using nm by simp
  then have "n = l" using famD(2) [OF f n(2) m(2), of "m * 2 ^ l"] m(3) by simp
  then show ?thesis using n(3) by simp
qed

lemma lowest_first:
  assumes "fam mo L F0" "alloc_post mo L k F0 (Some p) F"
  shows "lowest mo L k (Suc k) F0 p k F"
proof -
  obtain l where l: "k \<le> l" "l \<le> mo" "F0 l \<noteq> {}" "\<forall>m. k \<le> m \<and> m < l \<longrightarrow> F0 m = {}" "p = Min (F0 l) * 2 ^ (l - k)"
    and p: "k \<le> mo" "p < L div 2 ^ k" "block k p \<subseteq> pages mo F0" "pages mo F = pages mo F0 - block k p"
    using assms(2) unfolding alloc_post_def option.case by blast
  have fin: "finite (F0 l)" using fam_finite [OF assms(1) l(2)] .
  have e: "p * 2 ^ k = Min (F0 l) * 2 ^ l" using l(1,5) by (simp add: mult.assoc flip: power_add)
  have "p * 2 ^ k \<le> j * 2 ^ l'" if "k \<le> l'" "l' < Suc k" "j \<in> F0 l'" for j l'
  proof -
    have "l' = k" using that by simp
    moreover have "l = k" using l(1,4) that(3) \<open>l' = k\<close> by (metis empty_iff le_neq_implies_less order_refl)
    ultimately show ?thesis using e that(3) fin by auto
  qed
  moreover have "\<exists>l j. k \<le> l \<and> l \<le> mo \<and> j \<in> F0 l \<and> p * 2 ^ k = j * 2 ^ l" using l e fin by (metis Min_in)
  ultimately show ?thesis using p unfolding lowest_def by blast
qed

lemma lowest_keep:
  assumes "fam mo L F0" "fam mo L F" "lowest mo L k i F0 bi bo F" "i \<le> mo" "k \<le> i"
    "\<And>j. j \<in> F i \<Longrightarrow> bi * 2 ^ bo \<le> j * 2 ^ i" "pages mo F' = pages mo F"
  shows "lowest mo L k (Suc i) F0 bi bo F'"
proof -
  have "bi * 2 ^ bo \<le> j * 2 ^ l" if "k \<le> l" "l < Suc i" "l \<le> mo" "j \<in> F0 l" for l j
  proof (cases "l = i")
    case True
    then show ?thesis using lowest_stays [OF assms(1-3), of i j] assms(4,6) that by fastforce
  next
    case False
    then show ?thesis using assms(3) that unfolding lowest_def by (metis less_antisym)
  qed
  then show ?thesis using assms(3,7) unfolding lowest_def by auto
qed

lemma block_disj: "block bo bi \<inter> pages mo F = {} \<Longrightarrow> block i ix \<subseteq> pages mo F \<Longrightarrow> block bo bi \<inter> block i ix = {}"
  by blast

lemma lowest_switch:
  assumes f0: "fam mo L F0" and f: "fam mo L F" and low: "lowest mo L k i F0 bi bo F" and k: "k \<le> i"
    and post: "alloc_post mo L i F (Some ix) F'" and less: "ix * 2 ^ i < bi * 2 ^ bo"
    and pg: "pages mo F'' = pages mo F' \<union> block bo bi"
  shows "lowest mo L k (Suc i) F0 ix i F''"
proof -
  obtain l where l: "i \<le> l" "l \<le> mo" "F l \<noteq> {}" "\<forall>m. i \<le> m \<and> m < l \<longrightarrow> F m = {}" "ix = Min (F l) * 2 ^ (l - i)"
    and p: "i \<le> mo" "ix < L div 2 ^ i" "block i ix \<subseteq> pages mo F" "pages mo F' = pages mo F - block i ix"
    using post unfolding alloc_post_def option.case by blast
  have fin: "finite (F l)" using fam_finite [OF f l(2)] .
  have e: "ix * 2 ^ i = Min (F l) * 2 ^ l" using l(1,5) by (simp add: mult.assoc flip: power_add)
  have low': "pages mo F = pages mo F0 - block bo bi" "block bo bi \<subseteq> pages mo F0"
    "\<And>l j. k \<le> l \<Longrightarrow> l < i \<Longrightarrow> l \<le> mo \<Longrightarrow> j \<in> F0 l \<Longrightarrow> bi * 2 ^ bo \<le> j * 2 ^ l"
    using low unfolding lowest_def by blast+
  have orig: "Min (F l) \<in> F0 l" using lowest_original [OF f0 f low l(1,2)] Min_in [OF fin l(3)] less e by simp
  have below: "ix * 2 ^ i \<le> j * 2 ^ l'" if A: "k \<le> l'" "l' < Suc i" "l' \<le> mo" "j \<in> F0 l'" for l' j
  proof (cases "l' = i")
    case False
    then show ?thesis using low'(3) [of l' j] less A by simp
  next
    case True
    then consider "bi * 2 ^ bo = j * 2 ^ i" | "j \<in> F i"
      using lowest_stays [OF f0 f low, of i j] A by blast
    then show ?thesis
    proof cases
      case 1
      then show ?thesis using less True by simp
    next
      case 2
      then have "l = i" using l(1,4) by (metis empty_iff le_neq_implies_less order_refl)
      then show ?thesis using 2 fin e True by simp
    qed
  qed
  have "pages mo F'' = pages mo F0 - block i ix" using pg p(3,4) low'(1,2) by blast
  then show ?thesis unfolding lowest_def using p k orig l(1,2) e low'(1) below by blast
qed

lemma mult_pow_less: "k \<le> i \<Longrightarrow> k \<le> j \<Longrightarrow> a * 2 ^ (i - k) < b * 2 ^ (j - k) \<longleftrightarrow> a * 2 ^ i < b * 2 ^ j" for a b :: nat
proof -
  assume "k \<le> i" "k \<le> j"
  then have "(2::nat) ^ i = 2 ^ (i - k) * 2 ^ k" "(2::nat) ^ j = 2 ^ (j - k) * 2 ^ k"
    by (simp_all flip: power_add)
  then have e: "a * 2 ^ i = a * 2 ^ (i - k) * 2 ^ k" "b * 2 ^ j = b * 2 ^ (j - k) * 2 ^ k"
    by (simp_all only: mult.assoc)
  show ?thesis unfolding e by simp
qed

lemma index_small:
  "i < L div 2 ^ l \<Longrightarrow> k \<le> l \<Longrightarrow> L \<le> 2 ^ 31 \<Longrightarrow> i * 2 ^ (l - k) < 2 ^ 31" for i L :: nat
proof -
  assume i: "i < L div 2 ^ l" and "k \<le> l" and L: "L \<le> 2 ^ 31"
  have "(2::nat) ^ (l - k) \<le> 2 ^ l" by (rule power_increasing) auto
  then have "i * 2 ^ (l - k) \<le> i * 2 ^ l" by simp
  also have "i * 2 ^ l < L" using i by (metis less_mult_imp_div_less div_le_mono leD leI nonzero_mult_div_cancel_right power_not_zero zero_neq_numeral)
  finally show ?thesis using L by simp
qed

lemma lowest_step_ok:
  assumes f0: "fam mo L F0" and inv: "bud_inv len L mo h F a" and low: "lowest mo L k i F0 bi bo F"
    and i: "i \<le> mo" "k < i"
  shows "\<exists>bi' bo' a' F'. lowest_step i (2 ^ (i - k), bi * 2 ^ (bo - k), bi, bo, a)
      = ok (2 ^ (Suc i - k), bi' * 2 ^ (bo' - k), bi', bo', a')
    \<and> bud_inv len L mo h F' a' \<and> lowest mo L k (Suc i) F0 bi' bo' F'"
proof -
  have rep: "bud_rep len L mo h F a" and f: "fam mo L F" using inv by (simp_all add: bud_inv_def)
  have L: "L \<le> 2 ^ 31" and mo: "mo \<le> 20" using bud_repD(4,5) [OF rep] by auto
  have bo: "k \<le> bo" "bo < i" "bo \<le> mo" "bi < L div 2 ^ bo" "block bo bi \<inter> pages mo F = {}"
    using low by (auto simp: lowest_def)
  have "(2::nat) ^ (i - k) \<le> 2 ^ 20" by (rule power_increasing) (use i mo in auto)
  then have mul: "(2::nat) ^ (i - k) * 2 < 2 ^ 32" "2 ^ (Suc i - k) = (2::nat) ^ (i - k) * 2"
    using i(2) by (simp_all add: Suc_diff_le)
  obtain r a1 F1 where A: "alloc_inner a i = ok (r, a1)" "bud_inv len L mo h F1 a1" "alloc_post mo L i F r F1"
    using alloc_inner_ok [OF inv] by blast
  show ?thesis
  proof (cases r)
    case None
    then have "F1 = F" "F i = {}" using A(3) i by (auto simp: alloc_post_def)
    then have "lowest mo L k (Suc i) F0 bi bo F1" using lowest_keep [OF f0 f low i(1), of F] i(2) by auto
    moreover have "lowest_step i (2 ^ (i - k), bi * 2 ^ (bo - k), bi, bo, a)
      = ok (2 ^ (Suc i - k), bi * 2 ^ (bo - k), bi, bo, a1)"
      using A(1) None mul by (simp add: lowest_step_def cmul_def)
    ultimately show ?thesis using A(2) by blast
  next
    case (Some ix)
    have f1: "fam mo L F1" using A(2) by (simp add: bud_inv_def)
    have ix: "ix < L div 2 ^ i" "block i ix \<subseteq> pages mo F" "pages mo F1 = pages mo F - block i ix"
      using A(3) Some by (auto simp: alloc_post_def)
    have small: "ix * 2 ^ (i - k) < 2 ^ 32" using index_small [OF ix(1) _ L, of k] i(2) by simp
    note cmp = mult_pow_less [of k i bo ix bi]
    show ?thesis
    proof (cases "ix * 2 ^ i < bi * 2 ^ bo")
      case True
      have "block bo bi \<inter> pages mo F1 = {}" using ix(3) bo(5) by blast
      from free_inner_ok [OF A(2) bo(3,4) this] obtain a2 F2 where
        B: "free_inner a1 bi bo = ok a2" "bud_inv len L mo h F2 a2" "pages mo F2 = pages mo F1 \<union> block bo bi" by blast
      have "lowest mo L k (Suc i) F0 ix i F2"
        using lowest_switch [OF f0 f low _ _ True B(3)] A(3) Some i(2) by simp
      moreover have "lowest_step i (2 ^ (i - k), bi * 2 ^ (bo - k), bi, bo, a)
        = ok (2 ^ (Suc i - k), ix * 2 ^ (i - k), ix, i, a2)"
        using A(1) Some small True cmp i(2) bo(1) B(1) mul by (simp add: lowest_step_def cmul_def)
      ultimately show ?thesis using B(2) by blast
    next
      case False
      have "block i ix \<inter> pages mo F1 = {}" using ix(3) by blast
      from free_inner_ok [OF A(2) i(1) ix(1) this] obtain a2 F2 where
        B: "free_inner a1 ix i = ok a2" "bud_inv len L mo h F2 a2" "pages mo F2 = pages mo F1 \<union> block i ix" by blast
      have pg: "pages mo F2 = pages mo F" using B(3) ix(2,3) by blast
      have "bi * 2 ^ bo \<le> j * 2 ^ i" if "j \<in> F i" for j
      proof -
        obtain l where l: "i \<le> l" "\<forall>m. i \<le> m \<and> m < l \<longrightarrow> F m = {}" "ix = Min (F l) * 2 ^ (l - i)"
          using A(3) unfolding Some alloc_post_def option.case by blast
        then have "l = i" using that by (metis empty_iff le_neq_implies_less order_refl)
        then have "ix \<le> j" using l(3) that fam_finite [OF f i(1)] by simp
        then have "ix * 2 ^ i \<le> j * 2 ^ i" by simp
        then show ?thesis using False by linarith
      qed
      then have "lowest mo L k (Suc i) F0 bi bo F2" using lowest_keep [OF f0 f low i(1) _ _ pg] i(2) by simp
      moreover have "lowest_step i (2 ^ (i - k), bi * 2 ^ (bo - k), bi, bo, a)
        = ok (2 ^ (Suc i - k), bi * 2 ^ (bo - k), bi, bo, a2)"
        using A(1) Some small False cmp i(2) bo(1) B(1) mul by (simp add: lowest_step_def cmul_def)
      ultimately show ?thesis using B(2) by blast
    qed
  qed
qed

lemma lowest_loop_ok:
  assumes "fam mo L F0" "bud_inv len L mo h F a" "lowest mo L k i F0 bi bo F" "k < i" "i \<le> Suc mo"
  shows "\<exists>m bi' bo' a' F'. for_each [i..<Suc mo] lowest_step (2 ^ (i - k), bi * 2 ^ (bo - k), bi, bo, a)
      = ok (m, bi' * 2 ^ (bo' - k), bi', bo', a')
    \<and> bud_inv len L mo h F' a' \<and> lowest mo L k (Suc mo) F0 bi' bo' F'"
  using assms(2-)
proof (induction "Suc mo - i" arbitrary: i bi bo a F)
  case 0
  then have "i = Suc mo" by simp
  then show ?case using 0 by auto
next
  case (Suc n)
  then have i: "i \<le> mo" "n = Suc mo - Suc i" by simp_all
  obtain bi' bo' a' F' where st: "lowest_step i (2 ^ (i - k), bi * 2 ^ (bo - k), bi, bo, a)
      = ok (2 ^ (Suc i - k), bi' * 2 ^ (bo' - k), bi', bo', a')"
    "bud_inv len L mo h F' a'" "lowest mo L k (Suc i) F0 bi' bo' F'"
    using lowest_step_ok [OF assms(1) Suc.prems(1,2) i(1) Suc.prems(3)] by blast
  have "[i..<Suc mo] = i # [Suc i..<Suc mo]" using i(1) by (simp add: upt_conv_Cons del: upt_Suc)
  then show ?case using st(1) Suc.hyps(1) [OF i(2) st(2,3)] Suc.prems(3) i(1) by simp
qed

lemma split_loop_ok:
  assumes "bud_inv len L mo h F a" "k \<le> bo" "bo \<le> mo" "bi < L div 2 ^ bo" "block bo bi \<inter> pages mo F = {}"
  shows "\<exists>a' F'. split_loop k bi bo a = ok (bi * 2 ^ (bo - k), a') \<and> bud_inv len L mo h F' a'
    \<and> pages mo F' = (pages mo F \<union> block bo bi) - block k (bi * 2 ^ (bo - k))"
  using assms
proof (induction "bo - k" arbitrary: bi bo a F)
  case 0
  then show ?case by (subst split_loop.simps) auto
next
  case (Suc n)
  then obtain b where b: "bo = Suc b" "k \<le> b" "n = b - k" by (cases bo) auto
  note sp = split_taken [OF Suc.prems(1) _ _ , of b bi]
  have pre: "b < mo" "bi < L div 2 ^ Suc b" "block (Suc b) bi \<inter> pages mo F = {}" using Suc.prems b(1) by simp_all
  note sp = split_taken [OF Suc.prems(1) pre]
  obtain a1 F1 where a1: "bud_clear a b (Suc (bi * 2)) = ok a1" "bud_inv len L mo h F1 a1"
    "pages mo F1 = pages mo F \<union> block b (Suc (bi * 2))" using sp(6) by blast
  have un: "split_loop k bi bo a = split_loop k (bi * 2) b a1"
    using b sp(1,2,4,5) a1(1) by (subst split_loop.simps) (simp add: cmul_def cadd_def)
  have sb: "block (Suc b) bi = block b (bi * 2) \<union> block b (Suc (bi * 2))" "block b (bi * 2) \<inter> block b (Suc (bi * 2)) = {}"
    using block_split [of b bi] by (auto simp: mult.commute [of bi])
  have dis: "block b (bi * 2) \<inter> pages mo F1 = {}" using a1(3) pre(3) sb by blast
  have e: "bi * 2 ^ (bo - k) = bi * 2 * 2 ^ (b - k)" using b(1,2) by (simp add: Suc_diff_le)
  have "b \<le> mo" "bi * 2 < L div 2 ^ b" using pre(1) sp(3) by simp_all
  from Suc.hyps(1) [OF b(3) a1(2) b(2) this dis] obtain a' F' where
    "split_loop k (bi * 2) b a1 = ok (bi * 2 * 2 ^ (b - k), a')" "bud_inv len L mo h F' a'"
    "pages mo F' = (pages mo F1 \<union> block b (bi * 2)) - block k (bi * 2 * 2 ^ (b - k))" by blast
  moreover have "pages mo F1 \<union> block b (bi * 2) = pages mo F \<union> block bo bi" using a1(3) sb b(1) by blast
  ultimately show ?case using un e by auto
qed

lemma alloc_lowest_ok:
  assumes "bud_inv len L mo h F0 a"
  shows "\<exists>r a' F'. alloc_lowest a k = ok (r, a') \<and> bud_inv len L mo h F' a' \<and> (case r of
      None \<Rightarrow> F' = F0 \<and> (\<forall>l. k \<le> l \<and> l \<le> mo \<longrightarrow> F0 l = {})
    | Some p \<Rightarrow> k \<le> mo \<and> block k p \<subseteq> pages mo F0 \<and> pages mo F' = pages mo F0 - block k p
        \<and> (\<forall>q. block k q \<subseteq> pages mo F0 \<longrightarrow> p \<le> q))"
proof -
  have f0: "fam mo L F0" using assms by (simp add: bud_inv_def)
  obtain r a1 F1 where A: "alloc_inner a k = ok (r, a1)" "bud_inv len L mo h F1 a1" "alloc_post mo L k F0 r F1"
    using alloc_inner_ok [OF assms] by blast
  show ?thesis
  proof (cases r)
    case None
    then show ?thesis using A by (auto simp: alloc_lowest_def alloc_post_def)
  next
    case (Some p)
    have k: "k \<le> mo" using A(3) Some by (auto simp: alloc_post_def)
    have mo: "bud_max_order a1 = mo" using A(2) by (simp add: bud_inv_def bud_rep_def)
    have low: "lowest mo L k (Suc k) F0 p k F1" using lowest_first [OF f0] A(3) Some by simp
    obtain m bi bo a2 F2 where B: "for_each [Suc k..<Suc mo] lowest_step (2, p, p, k, a1) = ok (m, bi * 2 ^ (bo - k), bi, bo, a2)"
      "bud_inv len L mo h F2 a2" and low2: "lowest mo L k (Suc mo) F0 bi bo F2"
      using lowest_loop_ok [OF f0 A(2) low] k by auto
    have bo: "k \<le> bo" "bo \<le> mo" "bi < L div 2 ^ bo" "block bo bi \<subseteq> pages mo F0"
      "pages mo F2 = pages mo F0 - block bo bi"
      "\<And>l j. k \<le> l \<Longrightarrow> l \<le> mo \<Longrightarrow> j \<in> F0 l \<Longrightarrow> bi * 2 ^ bo \<le> j * 2 ^ l"
      using low2 unfolding lowest_def by (auto simp: less_Suc_eq_le)
    let ?p = "bi * 2 ^ (bo - k)"
    obtain a3 F3 where D: "split_loop k bi bo a2 = ok (?p, a3)" "bud_inv len L mo h F3 a3"
      "pages mo F3 = (pages mo F2 \<union> block bo bi) - block k ?p"
      using split_loop_ok [OF B(2) bo(1-3)] bo(5) by auto
    have run: "alloc_lowest a k = ok (Some ?p, a3)" using A(1) Some B(1) D(1) mo by (simp add: alloc_lowest_def del: upt_Suc)
    have e: "?p * 2 ^ k = bi * 2 ^ bo" using bo(1) by (simp add: mult.assoc flip: power_add)
    have "?p div 2 ^ (bo - k) = bi" by simp
    then have "block k ?p \<subseteq> block bo bi" using block_subset [OF bo(1), of ?p] by simp
    moreover have "?p \<le> q" if q: "block k q \<subseteq> pages mo F0" for q
    proof -
      obtain l where l: "k \<le> l" "l \<le> mo" "q div 2 ^ (l - k) \<in> F0 l" using covered [OF f0 k q] by blast
      have "?p * 2 ^ k \<le> q div 2 ^ (l - k) * 2 ^ l" unfolding e by (rule bo(6) [OF l])
      also have "\<dots> = q div 2 ^ (l - k) * 2 ^ (l - k) * 2 ^ k" using l(1) by (simp add: mult.assoc flip: power_add)
      also have "\<dots> \<le> q * 2 ^ k" by (intro mult_le_mono1) simp
      finally show ?thesis by simp
    qed
    moreover have "pages mo F3 = pages mo F0 - block k ?p" using D(3) bo(4,5) by blast
    ultimately show ?thesis using run D(2) k bo(4) by (intro exI [of _ "Some ?p"] exI [of _ a3] exI [of _ F3]) auto
  qed
qed

subsection \<open>Serialization\<close>

lemma bud_round_trip:
  assumes inv: "bud_inv L L mo h F a" and h: "\<forall>k\<le>mo. h k \<le> 6" and L: "L \<le> 2 ^ 20"
  shows "\<exists>v a'. bud_to_vec a = ok v \<and> bud_from_bytes v = ok a' \<and> bud_inv L L mo h F a'"
proof -
  have rep: "bud_rep L L mo h F a" and f: "fam mo L F" using inv by (simp_all add: bud_inv_def)
  note r = bud_repD [OF rep]
  let ?fs = "bud_free a"
  define enc where "enc b = the (bb_to_vec b)" for b
  have e: "bb_to_vec b = ok (enc b)" "bb_from_bytes (enc b) = ok (map gb_trim b)" "length (enc b) \<le> 4 + 6 * (16 + 2 ^ 17)"
    if mem: "b \<in> set ?fs" for b
  proof -
    obtain k where k: "k \<le> mo" "b = ?fs ! k" using mem r(3) by (auto simp: in_set_conv_nth less_Suc_eq_le)
    then have b: "bb_rep (L div 2 ^ k) (h k) (F k) b" using r(3,6) by (auto simp: reps_def)
    obtain v where v: "bb_to_vec b = ok v" "bb_from_bytes v = ok (map gb_trim b)"
      "length v \<le> 4 + h k * (16 + L div 2 ^ k div 8)" using bb_round_trip [OF b] h k(1) by auto
    have "L div 2 ^ k \<le> 2 ^ 20" using L div_le_dividend [of L "2 ^ k"] by linarith
    then have "L div 2 ^ k div 8 \<le> 2 ^ 17" by simp
    then have "h k * (16 + L div 2 ^ k div 8) \<le> 6 * (16 + 2 ^ 17)" using h k(1) by (intro mult_le_mono) auto
    then show "bb_to_vec b = ok (enc b)" "bb_from_bytes (enc b) = ok (map gb_trim b)" "length (enc b) \<le> 4 + 6 * (16 + 2 ^ 17)"
      using v by (simp_all add: enc_def)
  qed
  let ?vs = "map enc ?fs"
  have "length (concat ?vs) \<le> length ?vs * (4 + 6 * (16 + 2 ^ 17))" using e(3) by (intro length_concat_le) auto
  also have "\<dots> \<le> 21 * (4 + 6 * (16 + 2 ^ 17))" using r(3,4) by simp
  finally have "8 + (mo + 1) * 4 + length (concat ?vs) < 2 ^ 32" using r(4) by simp
  from end_offsets_ok [OF this] obtain ends where
    ends: "end_offsets (8 + (mo + 1) * 4) ?vs = ok ends" "length ends = Suc mo" using r(3) by auto
  let ?meta = "concat (map (le_bytes 4) ends)"
  define hdr where "hdr = le_bytes 1 mo @ [0, 0, 0] @ le_bytes 4 L"
  have lh: "length hdr = 8" by (simp add: hdr_def)
  define v where "v = hdr @ ?meta @ concat ?vs"
  have lm: "length ?meta = Suc mo * 4" using ends(2) by (subst length_concat_const [where n = 4]) auto
  have "map_rust bb_to_vec ?fs = ok ?vs" using e(1) by (rule map_rust_ok)
  then have to: "bud_to_vec a = ok v"
    using ends r(1,2) by (simp add: bud_to_vec_def Let_def v_def hdr_def)
  have "read_parts bb_from_bytes (length ?vs) v 8 (8 + (mo + 1) * 4) = map_rust bb_from_bytes ?vs"
    by (rule read_parts_ok [where ?r2.0 = "[]", OF ends(1)]) (simp_all add: v_def lh lm)
  moreover have "map_rust bb_from_bytes ?vs = ok (map (map gb_trim) ?fs)"
    using e(2) by (rule map_rust_map)
  ultimately have rd: "read_parts bb_from_bytes (Suc mo) v 8 (8 + (mo + 1) * 4) = ok (map (map gb_trim) ?fs)"
    using r(3) by simp
  have "index v 0 = ok (word_of_nat mo)" "sub_slice v 4 8 = ok (le_bytes 4 L)" "unat (word_of_nat mo :: byte) = mo"
    using r(4) by (simp_all add: v_def hdr_def index_def sub_slice_def unat_of_nat)
  then have "bud_from_bytes v = ok \<lparr>bud_free = map (map gb_trim) ?fs, bud_len = L, bud_max_order = mo\<rparr>"
    using rd L by (simp add: bud_from_bytes_def Let_def del: read_parts.simps)
  moreover have "reps bb_rep (\<lambda>k. L div 2 ^ k) h F (map (map gb_trim) ?fs)"
    using r(6) bb_trim_rep by (simp add: reps_def)
  then have "bud_inv L L mo h F \<lparr>bud_free = map (map gb_trim) ?fs, bud_len = L, bud_max_order = mo\<rparr>"
    using f r(3-5) by (simp add: bud_inv_def bud_rep_def)
  ultimately show ?thesis using to by blast
qed

subsection \<open>The allocator as a heap of pages\<close>

text \<open>
  \<open>buddy_ok cap P a\<close>: the allocator \<open>a\<close> is consistent, its free pages are the pages in \<open>P\<close>, and it can grow
  to \<open>cap\<close> pages.  The number of pages is at most \<open>2 ^ 31\<close>; a region has at most \<open>2 ^ 20\<close>.
\<close>

definition buddy_ok :: "nat \<Rightarrow> nat set \<Rightarrow> buddy \<Rightarrow> bool" where
  "buddy_ok cap P a \<longleftrightarrow> (\<exists>h F. bud_inv (bud_len a) (bud_len a) (bud_max_order a) h F a
     \<and> pages (bud_max_order a) F = P \<and> (\<forall>k\<le>bud_max_order a. cap div 2 ^ k \<le> 64 ^ h k \<and> h k \<le> 6))"

lemma buddy_okI:
  "bud_inv L L mo h F a \<Longrightarrow> pages mo F = P \<Longrightarrow> \<forall>k\<le>mo. cap div 2 ^ k \<le> 64 ^ h k \<and> h k \<le> 6 \<Longrightarrow>
   buddy_ok cap P a \<and> bud_len a = L \<and> bud_max_order a = mo"
  by (auto simp: buddy_ok_def bud_inv_def bud_rep_def)

lemma buddy_okE:
  assumes "buddy_ok cap P a"
  obtains L mo h F where "bud_len a = L" "bud_max_order a = mo" "bud_inv L L mo h F a" "pages mo F = P"
    "\<forall>k\<le>mo. cap div 2 ^ k \<le> 64 ^ h k \<and> h k \<le> 6" "fam mo L F"
  using assms by (auto simp: buddy_ok_def bud_inv_def)

lemma bud_height_ok:
  assumes "num \<le> 2 ^ 32" "cap \<le> 2 ^ 32"
  shows "cap div 2 ^ k \<le> 64 ^ bud_height num cap k \<and> bud_height num cap k \<le> 6"
proof
  show "cap div 2 ^ k \<le> 64 ^ bud_height num cap k" unfolding bud_height_def by (rule padded_height_bound)
  have "num div 2 ^ k \<le> 2 ^ 32" "cap div 2 ^ k \<le> 2 ^ 32"
    using order_trans [OF div_le_dividend assms(1)] order_trans [OF div_le_dividend assms(2)] by simp_all
  then show "bud_height num cap k \<le> 6" unfolding bud_height_def by (rule padded_height_le)
qed

lemma buddy_new_ok:
  assumes "0 < cap" "num \<le> cap" "cap \<le> 2 ^ 31"
  shows "\<exists>a. bud_new num cap = ok a \<and> buddy_ok cap {..<num} a \<and> bud_len a = num
    \<and> bud_max_order a = min 20 (bit_len cap - 1) \<and> 2 ^ bud_max_order a \<le> cap"
proof -
  let ?mo = "min 20 (bit_len cap - 1)"
  obtain a F where a: "bud_new num cap = ok a" "bud_inv num num ?mo (bud_height num cap) F a" "pages ?mo F = {..<num}"
    using bud_new_ok [OF assms refl] by blast
  have "\<forall>k\<le>?mo. cap div 2 ^ k \<le> 64 ^ bud_height num cap k \<and> bud_height num cap k \<le> 6"
    using bud_height_ok [of num cap] assms by simp
  from buddy_okI [OF a(2,3) this] have "buddy_ok cap {..<num} a" "bud_len a = num" "bud_max_order a = ?mo" by blast+
  moreover have "(2::nat) ^ ?mo \<le> 2 ^ (bit_len cap - 1)" by (rule power_increasing) auto
  moreover have "(2::nat) ^ (bit_len cap - 1) \<le> cap"
    using bit_len_le [OF assms(1)] bit_len_pos [OF assms(1)] by (cases "bit_len cap") auto
  ultimately show ?thesis using a(1) by (metis order_trans)
qed

lemma buddy_alloc_ok:
  assumes "buddy_ok cap P a"
  shows "\<exists>r a'. bud_alloc a order = ok (r, a') \<and> bud_len a' = bud_len a \<and> bud_max_order a' = bud_max_order a \<and> (case r of
      Some p \<Rightarrow> order \<le> bud_max_order a \<and> block order p \<subseteq> P \<and> buddy_ok cap (P - block order p) a'
    | None \<Rightarrow> buddy_ok cap P a' \<and> (order \<le> bud_max_order a \<longrightarrow> (\<forall>q. \<not> block order q \<subseteq> P)))"
proof -
  obtain L mo h F where a: "bud_len a = L" "bud_max_order a = mo" "bud_inv L L mo h F a" "pages mo F = P"
    "\<forall>k\<le>mo. cap div 2 ^ k \<le> 64 ^ h k \<and> h k \<le> 6" "fam mo L F" using buddy_okE [OF assms] by metis
  obtain r a' F' where A: "alloc_inner a order = ok (r, a')" "bud_inv L L mo h F' a'" "alloc_post mo L order F r F'"
    using alloc_inner_ok [OF a(3)] by blast
  note ok = buddy_okI [OF A(2) refl a(5)]
  show ?thesis
  proof (cases r)
    case None
    then have "F' = F" "\<forall>l. order \<le> l \<and> l \<le> mo \<longrightarrow> F l = {}" using A(3) by (auto simp: alloc_post_def)
    moreover from this have "\<not> block order q \<subseteq> P" if "order \<le> mo" for q
      using covered [OF a(6) that, of q] a(4) by auto
    ultimately show ?thesis using A(1) None ok a(1,2,4) by (auto simp: bud_alloc_def)
  next
    case (Some p)
    then show ?thesis using A(1,3) ok a(1,2,4) by (auto simp: bud_alloc_def alloc_post_def)
  qed
qed

lemma buddy_lowest_ok:
  assumes "buddy_ok cap P a" "order \<le> bud_max_order a"
  shows "\<exists>r a'. alloc_lowest a order = ok (r, a') \<and> bud_len a' = bud_len a \<and> bud_max_order a' = bud_max_order a \<and> (case r of
      Some p \<Rightarrow> block order p \<subseteq> P \<and> (\<forall>q. block order q \<subseteq> P \<longrightarrow> p \<le> q) \<and> buddy_ok cap (P - block order p) a'
    | None \<Rightarrow> buddy_ok cap P a' \<and> (\<forall>q. \<not> block order q \<subseteq> P))"
proof -
  obtain L mo h F where a: "bud_len a = L" "bud_max_order a = mo" "bud_inv L L mo h F a" "pages mo F = P"
    "\<forall>k\<le>mo. cap div 2 ^ k \<le> 64 ^ h k \<and> h k \<le> 6" "fam mo L F" using buddy_okE [OF assms(1)] by metis
  obtain r a' F' where A: "alloc_lowest a order = ok (r, a')" "bud_inv L L mo h F' a'" "case r of
      None \<Rightarrow> F' = F \<and> (\<forall>l. order \<le> l \<and> l \<le> mo \<longrightarrow> F l = {})
    | Some p \<Rightarrow> order \<le> mo \<and> block order p \<subseteq> pages mo F \<and> pages mo F' = pages mo F - block order p
        \<and> (\<forall>q. block order q \<subseteq> pages mo F \<longrightarrow> p \<le> q)"
    using alloc_lowest_ok [OF a(3)] by blast
  note ok = buddy_okI [OF A(2) refl a(5)]
  show ?thesis
  proof (cases r)
    case None
    then have "F' = F" "\<forall>l. order \<le> l \<and> l \<le> mo \<longrightarrow> F l = {}" using A(3) by auto
    moreover from this have "\<not> block order q \<subseteq> P" for q
      using covered [OF a(6), of order q] assms(2) a(2,4) by auto
    ultimately show ?thesis using A(1) None ok a(1,2,4) by auto
  next
    case (Some p)
    then show ?thesis using A(1,3) ok a(1,2,4) by auto
  qed
qed

lemma buddy_record_ok:
  assumes "buddy_ok cap P a" "order \<le> bud_max_order a" "block order p \<subseteq> P"
  shows "\<exists>a'. record_alloc a p order = ok a' \<and> buddy_ok cap (P - block order p) a'
    \<and> bud_len a' = bud_len a \<and> bud_max_order a' = bud_max_order a"
proof -
  obtain L mo h F where a: "bud_len a = L" "bud_max_order a = mo" "bud_inv L L mo h F a" "pages mo F = P"
    "\<forall>k\<le>mo. cap div 2 ^ k \<le> 64 ^ h k \<and> h k \<le> 6" "fam mo L F" using buddy_okE [OF assms(1)] by metis
  have o: "order \<le> mo" using assms(2) a(2) by simp
  obtain a1 F1 where A: "record_alloc_inner a p order = ok a1" "bud_inv L L mo h F1 a1" "pages mo F1 = P - block order p"
    using record_alloc_inner_ok [OF a(3) o assms(3) [folded a(4)]] a(4) by blast
  then show ?thesis using o a(1,2) buddy_okI [OF A(2,3) a(5)] by (simp add: record_alloc_def)
qed

lemma buddy_free_ok:
  assumes "buddy_ok cap P a" "order \<le> bud_max_order a" "block order p \<subseteq> {..<bud_len a}" "block order p \<inter> P = {}"
  shows "\<exists>a'. bud_free_page a p order = ok a' \<and> buddy_ok cap (P \<union> block order p) a'
    \<and> bud_len a' = bud_len a \<and> bud_max_order a' = bud_max_order a"
proof -
  obtain L mo h F where a: "bud_len a = L" "bud_max_order a = mo" "bud_inv L L mo h F a" "pages mo F = P"
    "\<forall>k\<le>mo. cap div 2 ^ k \<le> 64 ^ h k \<and> h k \<le> 6" "fam mo L F" using buddy_okE [OF assms(1)] by metis
  have o: "order \<le> mo" using assms(2) a(2) by simp
  have "(p * 2 ^ order + r) div 2 ^ order = p" if "r < 2 ^ order" for r using that by simp
  from this [of "2 ^ order - 1"] have "p * 2 ^ order + (2 ^ order - 1) \<in> block order p" by (simp del: add_diff_assoc)
  then have "(p + 1) * 2 ^ order \<le> L" using assms(3) a(1) by fastforce
  then have p: "p < L div 2 ^ order" by (simp add: less_eq_div_iff_mult_less_eq Suc_le_eq [symmetric])
  have dis: "block order p \<inter> pages mo F = {}" using assms(4) a(4) by blast
  then have "p \<notin> F order" using block_in_pages [of order mo p F, OF o] block_first [of p order] by blast
  then have get: "bud_get a order p = ok True" using bud_get_ok [of L L mo h F a order p] a(3) o p by (simp add: bud_inv_def)
  obtain a2 F2 where B: "free_inner a p order = ok a2" "bud_inv L L mo h F2 a2" "pages mo F2 = pages mo F \<union> block order p"
    using free_inner_ok [OF a(3) o p dis] by blast
  then show ?thesis using get a(1,2,4) buddy_okI [OF B(2,3) a(5)] by (simp add: bud_free_page_def)
qed

lemma buddy_resize_ok:
  assumes "buddy_ok cap P a" "0 < bud_len a" "new_size \<le> cap" "cap \<le> 2 ^ 31" "{new_size..<bud_len a} \<subseteq> P"
  shows "\<exists>a'. bud_resize a new_size = ok a' \<and> bud_len a' = new_size \<and> bud_max_order a' = bud_max_order a
    \<and> buddy_ok cap ((P - {new_size..<bud_len a}) \<union> {bud_len a..<new_size}) a'"
proof -
  obtain L mo h F where a: "bud_len a = L" "bud_max_order a = mo" "bud_inv L L mo h F a" "pages mo F = P"
    "\<forall>k\<le>mo. cap div 2 ^ k \<le> 64 ^ h k \<and> h k \<le> 6" "fam mo L F" using buddy_okE [OF assms(1)] by metis
  have cap: "\<forall>k\<le>mo. new_size div 2 ^ k \<le> 64 ^ h k"
    using a(5) div_le_mono [OF assms(3)] by (meson order_trans)
  have "\<exists>a' F'. bud_resize a new_size = ok a' \<and> bud_inv new_size new_size mo h F' a'
    \<and> pages mo F' = (P - {new_size..<L}) \<union> {L..<new_size}"
  proof (cases "L < new_size")
    case True
    then show ?thesis using resize_grow [OF a(3) True _ _ cap] assms(2-4) a(1,4) by simp
  next
    case False
    then show ?thesis using resize_shrink [OF a(3) _ _ cap] assms(5) a(1,4) by simp
  qed
  then show ?thesis using buddy_okI [OF _ _ a(5)] a(1,2) by blast
qed

lemma buddy_queries_ok:
  assumes "buddy_ok cap P a" "0 < bud_len a"
  shows "count_allocated_pages a = ok (card ({..<bud_len a} - P))
    \<and> (\<exists>t. trailing_free_pages a = ok t \<and> t \<le> bud_len a \<and> {bud_len a - t..<bud_len a} \<subseteq> P
        \<and> (t < bud_len a \<longrightarrow> bud_len a - t - 1 \<notin> P))
    \<and> (\<exists>r. highest_free_order a = ok r \<and> (case r of None \<Rightarrow> P = {}
        | Some k \<Rightarrow> k \<le> bud_max_order a \<and> (\<exists>i. block k i \<subseteq> P)
            \<and> (\<forall>l i. k < l \<and> l \<le> bud_max_order a \<longrightarrow> \<not> block l i \<subseteq> P)))"
proof (intro conjI)
  obtain L mo h F where a: "bud_len a = L" "bud_max_order a = mo" "bud_inv L L mo h F a" "pages mo F = P" "fam mo L F"
    using buddy_okE [OF assms(1)] by metis
  have P: "P \<subseteq> {..<L}" using pages_bound [OF a(5)] a(4) by simp
  then have "card P \<le> L" "card ({..<L} - P) = L - card P"
    using card_mono [of "{..<L}" P] card_Diff_subset [of P "{..<L}"] finite_subset [of P "{..<L}"] by auto
  then show "count_allocated_pages a = ok (card ({..<bud_len a} - P))"
    using count_free_pages_ok [OF a(3)] a(1,4) by (simp add: count_allocated_pages_def csub_def)
  show "\<exists>t. trailing_free_pages a = ok t \<and> t \<le> bud_len a \<and> {bud_len a - t..<bud_len a} \<subseteq> P
        \<and> (t < bud_len a \<longrightarrow> bud_len a - t - 1 \<notin> P)"
    using trailing_loop_ok [OF a(3), of 0 "L - 1"] assms(2) a(1,4) by (simp add: trailing_free_pages_def csub_def)
  have rep: "bud_rep L L mo h F a" using a(3) by (simp add: bud_inv_def)
  obtain r where r: "highest_free_order a = ok r" "case r of None \<Rightarrow> \<forall>j\<le>mo. F j = {}
    | Some j \<Rightarrow> j \<le> mo \<and> F j \<noteq> {} \<and> (\<forall>l. j < l \<and> l \<le> mo \<longrightarrow> F l = {})"
    using highest_free_order_ok [OF rep] by blast
  have "case r of None \<Rightarrow> P = {} | Some k \<Rightarrow> k \<le> mo \<and> (\<exists>i. block k i \<subseteq> P)
            \<and> (\<forall>l i. k < l \<and> l \<le> mo \<longrightarrow> \<not> block l i \<subseteq> P)"
  proof (cases r)
    case None
    then show ?thesis using r(2) a(4) by (auto simp: pages_def)
  next
    case (Some k)
    then have k: "k \<le> mo" "F k \<noteq> {}" "\<forall>l. k < l \<and> l \<le> mo \<longrightarrow> F l = {}" using r(2) by auto
    have "\<not> block l i \<subseteq> P" if l: "k < l" "l \<le> mo" for l i
      using covered [OF a(5) l(2), of i] k(3) l a(4) by (metis empty_iff less_le_trans)
    then show ?thesis using k block_in_pages [of k mo _ F] a(4) Some by auto
  qed
  then show "\<exists>r. highest_free_order a = ok r \<and> (case r of None \<Rightarrow> P = {}
        | Some k \<Rightarrow> k \<le> bud_max_order a \<and> (\<exists>i. block k i \<subseteq> P)
            \<and> (\<forall>l i. k < l \<and> l \<le> bud_max_order a \<longrightarrow> \<not> block l i \<subseteq> P))"
    using r(1) a(2) by blast
qed

lemma buddy_serialize_ok:
  assumes "buddy_ok cap P a" "bud_len a \<le> 2 ^ 20"
  shows "\<exists>v a'. bud_to_vec a = ok v \<and> bud_from_bytes v = ok a' \<and> buddy_ok cap P a'
    \<and> bud_len a' = bud_len a \<and> bud_max_order a' = bud_max_order a"
proof -
  obtain L mo h F where a: "bud_len a = L" "bud_max_order a = mo" "bud_inv L L mo h F a" "pages mo F = P"
    "\<forall>k\<le>mo. cap div 2 ^ k \<le> 64 ^ h k \<and> h k \<le> 6" using buddy_okE [OF assms(1)] by metis
  then show ?thesis using bud_round_trip [OF a(3)] assms(2) buddy_okI [OF _ a(4,5)] by metis
qed

lemma buddy_ok_bound: "buddy_ok cap P a \<Longrightarrow> P \<subseteq> {..<bud_len a}"
  by (erule buddy_okE) (use pages_bound in blast)

text \<open>
  What the layers above rely on: a heap of pages, of which the set \<open>P\<close> is free, that can hand out
  aligned blocks of \<open>2 ^ order\<close> pages up to its maximal order, take them back, and change its length.
  The lemmas inside lift the laws to the vector of the heaps of all regions.
\<close>

locale page_heap =
  fixes rep :: "nat \<Rightarrow> nat set \<Rightarrow> 'h \<Rightarrow> bool"
    and len_pages max_ord :: "'h \<Rightarrow> nat"
    and alloc_block alloc_low :: "'h \<Rightarrow> nat \<Rightarrow> (nat option \<times> 'h) rust"
    and record_block free_block :: "'h \<Rightarrow> nat \<Rightarrow> nat \<Rightarrow> 'h rust"
    and resize_pages :: "'h \<Rightarrow> nat \<Rightarrow> 'h rust"
  assumes rep_bound: "rep cap P a \<Longrightarrow> P \<subseteq> {..<len_pages a}"
    and alloc_law: "rep cap P a \<Longrightarrow> \<exists>r a'. alloc_block a order = ok (r, a') \<and> len_pages a' = len_pages a
      \<and> max_ord a' = max_ord a \<and> (case r of
          Some p \<Rightarrow> order \<le> max_ord a \<and> block order p \<subseteq> P \<and> rep cap (P - block order p) a'
        | None \<Rightarrow> rep cap P a' \<and> (order \<le> max_ord a \<longrightarrow> (\<forall>q. \<not> block order q \<subseteq> P)))"
    and low_law: "rep cap P a \<Longrightarrow> order \<le> max_ord a \<Longrightarrow> \<exists>r a'. alloc_low a order = ok (r, a')
      \<and> len_pages a' = len_pages a \<and> max_ord a' = max_ord a \<and> (case r of
          Some p \<Rightarrow> block order p \<subseteq> P \<and> (\<forall>q. block order q \<subseteq> P \<longrightarrow> p \<le> q) \<and> rep cap (P - block order p) a'
        | None \<Rightarrow> rep cap P a' \<and> (\<forall>q. \<not> block order q \<subseteq> P))"
    and record_law: "rep cap P a \<Longrightarrow> order \<le> max_ord a \<Longrightarrow> block order p \<subseteq> P \<Longrightarrow>
      \<exists>a'. record_block a p order = ok a' \<and> rep cap (P - block order p) a' \<and> len_pages a' = len_pages a \<and> max_ord a' = max_ord a"
    and free_law: "rep cap P a \<Longrightarrow> order \<le> max_ord a \<Longrightarrow> block order p \<subseteq> {..<len_pages a} \<Longrightarrow> block order p \<inter> P = {} \<Longrightarrow>
      \<exists>a'. free_block a p order = ok a' \<and> rep cap (P \<union> block order p) a' \<and> len_pages a' = len_pages a \<and> max_ord a' = max_ord a"
    and resize_law: "rep cap P a \<Longrightarrow> 0 < len_pages a \<Longrightarrow> n \<le> cap \<Longrightarrow> cap \<le> 2 ^ 31 \<Longrightarrow> {n..<len_pages a} \<subseteq> P \<Longrightarrow>
      \<exists>a'. resize_pages a n = ok a' \<and> len_pages a' = n \<and> max_ord a' = max_ord a
        \<and> rep cap ((P - {n..<len_pages a}) \<union> {len_pages a..<n}) a'"
begin

lemma record_free:
  assumes "rep cap P a" "order \<le> max_ord a" "block order p \<subseteq> P"
  shows "\<exists>a' a''. record_block a p order = ok a' \<and> rep cap (P - block order p) a'
    \<and> free_block a' p order = ok a'' \<and> rep cap P a'' \<and> len_pages a'' = len_pages a"
proof -
  obtain a' where a': "record_block a p order = ok a'" "rep cap (P - block order p) a'" "len_pages a' = len_pages a"
    "max_ord a' = max_ord a" using record_law [OF assms] by blast
  obtain a'' where "free_block a' p order = ok a''" "rep cap (P - block order p \<union> block order p) a''" "len_pages a'' = len_pages a'"
    using free_law [OF a'(2), of order p] assms a'(3,4) rep_bound [OF assms(1)] by auto
  moreover have "P - block order p \<union> block order p = P" using assms(3) by blast
  ultimately show ?thesis using a' by auto
qed

text \<open>One heap per region, region \<open>i\<close> with \<open>n i\<close> pages, the free ones \<open>P i\<close>, all of maximal order \<open>mo\<close>.\<close>

definition heaps :: "nat \<Rightarrow> nat \<Rightarrow> (nat \<Rightarrow> nat) \<Rightarrow> (nat \<Rightarrow> nat set) \<Rightarrow> 'h list \<Rightarrow> bool" where
  "heaps cap mo n P hs \<longleftrightarrow> (\<forall>i<length hs. rep cap (P i) (hs ! i) \<and> len_pages (hs ! i) = n i \<and> max_ord (hs ! i) = mo)"

lemma heaps_update:
  "heaps cap mo n P hs \<Longrightarrow> i < length hs \<Longrightarrow> rep cap Q h \<Longrightarrow> len_pages h = m \<Longrightarrow> max_ord h = mo \<Longrightarrow>
   heaps cap mo (n(i := m)) (P(i := Q)) (hs[i := h])"
  by (auto simp: heaps_def nth_list_update)

lemma heaps_same_len:
  "heaps cap mo n P hs \<Longrightarrow> i < length hs \<Longrightarrow> rep cap Q h \<Longrightarrow> len_pages h = n i \<Longrightarrow> max_ord h = mo \<Longrightarrow>
   heaps cap mo n (P(i := Q)) (hs[i := h])"
  by (auto simp: heaps_def nth_list_update)

lemma heaps_free:
  assumes "heaps cap mo n P hs" "i < length hs" "order \<le> mo" "block order p \<subseteq> {..<n i}" "block order p \<inter> P i = {}"
  shows "\<exists>hs'. update_at hs i (\<lambda>h. free_block h p order) = ok hs' \<and> length hs' = length hs
    \<and> heaps cap mo n (P(i := P i \<union> block order p)) hs'"
proof -
  have h: "rep cap (P i) (hs ! i)" "len_pages (hs ! i) = n i" "max_ord (hs ! i) = mo"
    using assms(1,2) by (auto simp: heaps_def)
  obtain h' where "free_block (hs ! i) p order = ok h'" "rep cap (P i \<union> block order p) h'" "len_pages h' = n i" "max_ord h' = mo"
    using free_law [OF h(1), of order p] assms(3-5) h(2,3) by auto
  then show ?thesis using heaps_same_len [OF assms(1,2)] assms(2) by (simp add: update_at_def)
qed

lemma heaps_record:
  assumes "heaps cap mo n P hs" "i < length hs" "order \<le> mo" "block order p \<subseteq> P i"
  shows "\<exists>hs'. update_at hs i (\<lambda>h. record_block h p order) = ok hs' \<and> length hs' = length hs
    \<and> heaps cap mo n (P(i := P i - block order p)) hs'"
proof -
  have h: "rep cap (P i) (hs ! i)" "len_pages (hs ! i) = n i" "max_ord (hs ! i) = mo"
    using assms(1,2) by (auto simp: heaps_def)
  obtain h' where "record_block (hs ! i) p order = ok h'" "rep cap (P i - block order p) h'" "len_pages h' = n i" "max_ord h' = mo"
    using record_law [OF h(1), of order p] assms(3-4) h(2,3) by auto
  then show ?thesis using heaps_same_len [OF assms(1,2)] assms(2) by (simp add: update_at_def)
qed

lemma heaps_resize:
  assumes "heaps cap mo n P hs" "i < length hs" "0 < n i" "m \<le> cap" "cap \<le> 2 ^ 31" "{m..<n i} \<subseteq> P i"
  shows "\<exists>hs'. update_at hs i (\<lambda>h. resize_pages h m) = ok hs' \<and> length hs' = length hs
    \<and> heaps cap mo (n(i := m)) (P(i := (P i - {m..<n i}) \<union> {n i..<m})) hs'"
proof -
  have h: "rep cap (P i) (hs ! i)" "len_pages (hs ! i) = n i" "max_ord (hs ! i) = mo"
    using assms(1,2) by (auto simp: heaps_def)
  obtain h' where "resize_pages (hs ! i) m = ok h'" "len_pages h' = m" "max_ord h' = mo" "rep cap ((P i - {m..<n i}) \<union> {n i..<m}) h'"
    using resize_law [OF h(1), of m] assms(3-6) h(2,3) by auto
  then show ?thesis using heaps_update [OF assms(1,2)] assms(2) by (simp add: update_at_def)
qed

end

interpretation buddy_heap: page_heap buddy_ok bud_len bud_max_order bud_alloc alloc_lowest record_alloc bud_free_page bud_resize
  by unfold_locales (fact buddy_ok_bound buddy_alloc_ok buddy_lowest_ok buddy_record_ok buddy_free_ok buddy_resize_ok)+

subsection \<open>Properties\<close>

text \<open>A small allocator for the witnesses: five pages of a region of ten.\<close>

lemma buddy_five: "\<exists>a. bud_new 5 10 = ok a \<and> buddy_ok 10 {..<5} a \<and> bud_len a = 5 \<and> bud_max_order a = 3"
proof -
  have b: "bit_len 10 = 4" by (simp add: bit_len.simps)
  obtain a F where a: "bud_new 5 10 = ok a" "bud_inv 5 5 3 (bud_height 5 10) F a" "pages 3 F = {..<5}"
    using bud_new_ok [of 10 5 3] b by auto
  have "\<forall>k\<le>3. (10::nat) div 2 ^ k \<le> 64 ^ bud_height 5 10 k \<and> bud_height 5 10 k \<le> 6"
    using bud_height_ok [of 5 10] by simp
  then show ?thesis using a buddy_okI [OF a(2,3)] by blast
qed

text \<open>
  A new allocator has all its pages free, merged into blocks of the highest possible order, and
  its maximal order is the order of the largest block that fits the region, capped by
  \<open>MAX_MAX_PAGE_ORDER\<close>.
\<close>

theorem buddy_new_all_free:
  assumes "0 < cap" "num \<le> cap" "cap \<le> 2 ^ 31"
  shows "\<exists>a. bud_new num cap = ok a \<and> buddy_ok cap {..<num} a \<and> bud_len a = num
    \<and> bud_max_order a = min 20 (bit_len cap - 1) \<and> 2 ^ bud_max_order a \<le> cap"
  by (rule buddy_new_ok [OF assms])

theorem buddy_new_all_free_witness:
  "\<exists>a. bud_new 5 10 = ok a \<and> buddy_ok 10 {..<5} a \<and> bud_len a = 5 \<and> bud_max_order a = 3"
proof -
  have "bit_len 10 = 4" by (simp add: bit_len.simps)
  then show ?thesis using buddy_new_all_free [of 10 5] by auto
qed

text \<open>
  C19. \<open>alloc\<close> never panics.  It returns a block of the requested order whose pages are all free and
  takes exactly those pages; it returns \<open>None\<close>, changing nothing, only when no aligned block of
  that order is free.
\<close>

theorem buddy_alloc_correct:
  assumes "buddy_ok cap P a"
  shows "\<exists>r a'. bud_alloc a order = ok (r, a') \<and> bud_len a' = bud_len a \<and> (case r of
      Some p \<Rightarrow> order \<le> bud_max_order a \<and> block order p \<subseteq> P \<and> buddy_ok cap (P - block order p) a'
    | None \<Rightarrow> buddy_ok cap P a' \<and> (order \<le> bud_max_order a \<longrightarrow> (\<forall>q. \<not> block order q \<subseteq> P)))"
  using buddy_heap.alloc_law [OF assms, of order] by blast

theorem buddy_alloc_correct_witness:
  "\<exists>a. bud_new 5 10 = ok a \<and> buddy_ok 10 {..<5} a
     \<and> (\<exists>p a'. bud_alloc a 2 = ok (Some p, a') \<and> block 2 p \<subseteq> {..<5} \<and> buddy_ok 10 ({..<5} - block 2 p) a')"
proof -
  obtain a where a: "bud_new 5 10 = ok a" "buddy_ok 10 {..<5} a" "bud_max_order a = 3" using buddy_five by blast
  obtain r a' where r: "bud_alloc a 2 = ok (r, a')" "case r of
      Some p \<Rightarrow> 2 \<le> bud_max_order a \<and> block 2 p \<subseteq> {..<5} \<and> buddy_ok 10 ({..<5} - block 2 p) a'
    | None \<Rightarrow> buddy_ok 10 {..<5} a' \<and> (2 \<le> bud_max_order a \<longrightarrow> (\<forall>q. \<not> block 2 q \<subseteq> {..<5}))"
    using buddy_alloc_correct [OF a(2), of 2] by blast
  have "block 2 0 \<subseteq> {..<5}" by (auto simp: block_interval simp del: block_mem)
  then show ?thesis using a r by (cases r) auto
qed

text \<open>
  C20. \<open>alloc_lowest\<close> takes the free block of the requested order with the lowest index, splitting
  a larger block if that is lower than every free block of the requested order; it never panics and
  fails only when no block of that order is free.
\<close>

theorem buddy_alloc_lowest_minimal:
  assumes "buddy_ok cap P a" "order \<le> bud_max_order a"
  shows "\<exists>r a'. alloc_lowest a order = ok (r, a') \<and> bud_len a' = bud_len a \<and> (case r of
      Some p \<Rightarrow> block order p \<subseteq> P \<and> (\<forall>q. block order q \<subseteq> P \<longrightarrow> p \<le> q) \<and> buddy_ok cap (P - block order p) a'
    | None \<Rightarrow> buddy_ok cap P a' \<and> (\<forall>q. \<not> block order q \<subseteq> P))"
  using buddy_heap.low_law [OF assms] by blast

theorem buddy_alloc_lowest_minimal_witness:
  "\<exists>a. bud_new 5 10 = ok a \<and> buddy_ok 10 {..<5} a \<and> 2 \<le> bud_max_order a
     \<and> (\<exists>a'. alloc_lowest a 2 = ok (Some 0, a') \<and> buddy_ok 10 ({..<5} - block 2 0) a')"
proof -
  obtain a where a: "bud_new 5 10 = ok a" "buddy_ok 10 {..<5} a" "bud_max_order a = 3" using buddy_five by blast
  obtain r a' where r: "alloc_lowest a 2 = ok (r, a')" "case r of
      Some p \<Rightarrow> block 2 p \<subseteq> {..<5} \<and> (\<forall>q. block 2 q \<subseteq> {..<5} \<longrightarrow> p \<le> q) \<and> buddy_ok 10 ({..<5} - block 2 p) a'
    | None \<Rightarrow> buddy_ok 10 {..<5} a' \<and> (\<forall>q. \<not> block 2 q \<subseteq> {..<5})"
    using buddy_alloc_lowest_minimal [OF a(2), of 2] a(3) by auto
  have "block 2 0 \<subseteq> {..<5}" by (auto simp: block_interval simp del: block_mem)
  then show ?thesis using a r by (cases r) auto
qed

text \<open>
  C5. \<open>record_alloc\<close> of a block of free pages takes exactly those pages, splitting the larger blocks
  around it, and \<open>free\<close> gives them back, merging buddies: after both, the free pages are
  the same as before.  Neither panics, so the assertions about buddies in both hold.
\<close>

theorem buddy_record_free:
  assumes "buddy_ok cap P a" "order \<le> bud_max_order a" "block order p \<subseteq> P"
  shows "\<exists>a' a''. record_alloc a p order = ok a' \<and> buddy_ok cap (P - block order p) a'
    \<and> bud_free_page a' p order = ok a'' \<and> buddy_ok cap P a'' \<and> bud_len a'' = bud_len a"
  by (rule buddy_heap.record_free [OF assms])

theorem buddy_record_free_witness:
  "\<exists>a a' a''. bud_new 5 10 = ok a \<and> buddy_ok 10 {..<5} a \<and> block 0 3 \<subseteq> {..<5}
     \<and> record_alloc a 3 0 = ok a' \<and> buddy_ok 10 ({..<5} - block 0 3) a'
     \<and> bud_free_page a' 3 0 = ok a'' \<and> buddy_ok 10 {..<5} a''"
proof -
  obtain a where a: "bud_new 5 10 = ok a" "buddy_ok 10 {..<5} a" using buddy_five by blast
  have "block 0 3 \<subseteq> {..<5}" by auto
  then show ?thesis using a buddy_record_free [OF a(2), of 0 3] by blast
qed

text \<open>
  C25. \<open>resize\<close> of a non-empty allocator never panics, up to the capacity it was made for.  Growing
  makes exactly the new pages free; shrinking, which requires the dropped pages to be free,
  removes exactly those.  The consistency checks at entry and exit hold.
\<close>

theorem buddy_resize_correct:
  assumes "buddy_ok cap P a" "0 < bud_len a" "new_size \<le> cap" "cap \<le> 2 ^ 31" "{new_size..<bud_len a} \<subseteq> P"
  shows "\<exists>a'. bud_resize a new_size = ok a' \<and> bud_len a' = new_size
    \<and> buddy_ok cap ((P - {new_size..<bud_len a}) \<union> {bud_len a..<new_size}) a'"
  using buddy_heap.resize_law [OF assms] by blast

theorem buddy_resize_correct_witness:
  "\<exists>a a'. bud_new 5 10 = ok a \<and> buddy_ok 10 {..<5} a \<and> bud_resize a 9 = ok a' \<and> bud_len a' = 9
     \<and> buddy_ok 10 ({..<5} \<union> {5..<9}) a'"
proof -
  obtain a where a: "bud_new 5 10 = ok a" "buddy_ok 10 {..<5} a" "bud_len a = 5" using buddy_five by blast
  then show ?thesis using buddy_resize_correct [OF a(2), of 9] by simp
qed

text \<open>
  C26. The queries agree with the set of free pages: \<open>count_allocated_pages\<close> counts the pages that
  are not free, \<open>trailing_free_pages\<close> is the length of the longest free run at the end, and
  \<open>highest_free_order\<close> is the largest order of a free block (\<open>None\<close> when no page is free).
\<close>

theorem buddy_queries_correct:
  assumes "buddy_ok cap P a" "0 < bud_len a"
  shows "count_allocated_pages a = ok (card ({..<bud_len a} - P))
    \<and> (\<exists>t. trailing_free_pages a = ok t \<and> t \<le> bud_len a \<and> {bud_len a - t..<bud_len a} \<subseteq> P
        \<and> (t < bud_len a \<longrightarrow> bud_len a - t - 1 \<notin> P))
    \<and> (\<exists>r. highest_free_order a = ok r \<and> (case r of None \<Rightarrow> P = {}
        | Some k \<Rightarrow> k \<le> bud_max_order a \<and> (\<exists>i. block k i \<subseteq> P)
            \<and> (\<forall>l i. k < l \<and> l \<le> bud_max_order a \<longrightarrow> \<not> block l i \<subseteq> P)))"
  by (rule buddy_queries_ok [OF assms])

theorem buddy_queries_correct_witness:
  "\<exists>a. bud_new 5 10 = ok a \<and> buddy_ok 10 {..<5} a \<and> 0 < bud_len a
     \<and> count_allocated_pages a = ok 0 \<and> (\<exists>t. trailing_free_pages a = ok t \<and> t \<le> 5)"
proof -
  obtain a where a: "bud_new 5 10 = ok a" "buddy_ok 10 {..<5} a" "bud_len a = 5" using buddy_five by blast
  then show ?thesis using buddy_queries_correct [OF a(2)] by auto
qed

text \<open>
  C27. The allocator state of a region (at most \<open>2 ^ 20\<close> pages) survives serialization: \<open>to_vec\<close> never
  panics and \<open>from_bytes\<close> restores an allocator with the same length and free pages.
\<close>

theorem buddy_serialization_round_trip:
  assumes "buddy_ok cap P a" "bud_len a \<le> 2 ^ 20"
  shows "\<exists>v a'. bud_to_vec a = ok v \<and> bud_from_bytes v = ok a' \<and> buddy_ok cap P a'
    \<and> bud_len a' = bud_len a \<and> bud_max_order a' = bud_max_order a"
  by (rule buddy_serialize_ok [OF assms])

theorem buddy_serialization_round_trip_witness:
  "\<exists>a v a'. bud_new 5 10 = ok a \<and> buddy_ok 10 {..<5} a \<and> bud_to_vec a = ok v
     \<and> bud_from_bytes v = ok a' \<and> buddy_ok 10 {..<5} a' \<and> bud_len a' = 5"
proof -
  obtain a where a: "bud_new 5 10 = ok a" "buddy_ok 10 {..<5} a" "bud_len a = 5" using buddy_five by blast
  then show ?thesis using buddy_serialization_round_trip [OF a(2)] by auto
qed

end
