(* ===== verification/Layout.thy ===== *)
theory Layout
  imports Redb_Prelude
begin

text \<open>
  The layout of the database file, \<open>src/tree_store/page_store/layout.rs\<close>: a super-header page
  followed by equally sized regions, the last of which may be shorter.  All arithmetic is the checked
  \<open>u64\<close> and \<open>u32\<close> arithmetic of the code, so that the theorems about a returned layout also
  say that no computation overflows.
\<close>

subsection \<open>\<open>RegionLayout\<close>\<close>

definition is_multiple_of :: "nat \<Rightarrow> nat \<Rightarrow> bool" where
  "is_multiple_of a m = (if m = 0 then a = 0 else a mod m = 0)"

definition round_up_to_multiple_of :: "nat \<Rightarrow> nat \<Rightarrow> nat rust" where
  "round_up_to_multiple_of value multiple =
     (if is_multiple_of value multiple then ok value
      else do { s \<leftarrow> cadd 64 value multiple; r \<leftarrow> cmod value multiple; csub s r })"

record region_layout =
  rl_num_pages :: nat
  rl_header_pages :: nat
  rl_page_size :: nat

definition rl_new :: "nat \<Rightarrow> nat \<Rightarrow> nat \<Rightarrow> region_layout rust" where
  "rl_new num header page_size = do {
     assert_that (num > 0);
     ok \<lparr>rl_num_pages = num, rl_header_pages = header, rl_page_size = page_size\<rparr> }"

definition rl_calculate :: "nat \<Rightarrow> nat \<Rightarrow> nat \<Rightarrow> nat \<Rightarrow> region_layout rust" where
  "rl_calculate desired_usable_bytes page_capacity region_header_pages page_size = do {
     cap \<leftarrow> cmul 64 page_capacity page_size;
     assert_that (desired_usable_bytes \<le> cap);
     up \<leftarrow> round_up_to_multiple_of desired_usable_bytes page_size;
     num \<leftarrow> cdiv up page_size;
     num \<leftarrow> try_into 32 num;
     ok \<lparr>rl_num_pages = num, rl_header_pages = region_header_pages, rl_page_size = page_size\<rparr> }"

definition rl_usable_bytes :: "region_layout \<Rightarrow> nat rust" where
  "rl_usable_bytes r = cmul 64 (rl_page_size r) (rl_num_pages r)"

definition rl_data_section :: "region_layout \<Rightarrow> (nat \<times> nat) rust" where
  "rl_data_section r = do {
     header_bytes \<leftarrow> cmul 64 (rl_header_pages r) (rl_page_size r);
     u \<leftarrow> rl_usable_bytes r;
     e \<leftarrow> cadd 64 header_bytes u;
     ok (header_bytes, e) }"

definition rl_len :: "region_layout \<Rightarrow> nat rust" where
  "rl_len r = do {
     header_bytes \<leftarrow> cmul 64 (rl_header_pages r) (rl_page_size r);
     u \<leftarrow> rl_usable_bytes r;
     cadd 64 header_bytes u }"

subsection \<open>\<open>DatabaseLayout\<close>\<close>

record db_layout =
  dl_full :: region_layout
  dl_num_full :: nat
  dl_trailing :: "region_layout option"

definition dl_new :: "nat \<Rightarrow> region_layout \<Rightarrow> region_layout option \<Rightarrow> db_layout" where
  "dl_new full_regions full_region trailing =
     \<lparr>dl_full = full_region, dl_num_full = full_regions, dl_trailing = trailing\<rparr>"

definition reduce_last_region :: "db_layout \<Rightarrow> nat \<Rightarrow> db_layout rust" where
  "reduce_last_region l num = (case dl_trailing l of
      Some trailing \<Rightarrow> do {
        assert_that (num \<le> rl_num_pages trailing);
        n \<leftarrow> csub (rl_num_pages trailing) num;
        ok (l\<lparr>dl_trailing := if n = 0 then None else Some (trailing\<lparr>rl_num_pages := n\<rparr>)\<rparr>) }
    | None \<Rightarrow> do {
        f \<leftarrow> csub (dl_num_full l) 1;
        let l = l\<lparr>dl_num_full := f\<rparr>;
        let full = dl_full l;
        if rl_num_pages full > num then do {
          t \<leftarrow> rl_new (rl_num_pages full - num) (rl_header_pages full) (rl_page_size full);
          ok (l\<lparr>dl_trailing := Some t\<rparr>) }
        else ok l })"

definition dl_recalculate :: "nat \<Rightarrow> nat \<Rightarrow> nat \<Rightarrow> nat \<Rightarrow> db_layout rust" where
  "dl_recalculate file_len region_header_pages region_max_data_pages page_size = do {
     remaining \<leftarrow> csub file_len page_size;
     region_pages \<leftarrow> cadd 64 region_header_pages region_max_data_pages;
     full_region_size \<leftarrow> cmul 64 region_pages page_size;
     full_regions \<leftarrow> cdiv remaining full_region_size;
     used \<leftarrow> cmul 64 full_regions full_region_size;
     remaining \<leftarrow> csub remaining used;
     h1 \<leftarrow> cadd 64 region_header_pages 1;
     minimum \<leftarrow> cmul 64 h1 page_size;
     trailing \<leftarrow> (if remaining \<ge> minimum then do {
         hb \<leftarrow> cmul 64 region_header_pages page_size;
         r \<leftarrow> csub remaining hb;
         r \<leftarrow> try_into 32 r;
         data_pages \<leftarrow> cdiv r page_size;
         assert_that (data_pages < region_max_data_pages);
         t \<leftarrow> rl_new data_pages region_header_pages page_size;
         ok (Some t) }
       else ok None);
     full \<leftarrow> rl_new region_max_data_pages region_header_pages page_size;
     n \<leftarrow> try_into 32 full_regions;
     ok \<lparr>dl_full = full, dl_num_full = n, dl_trailing = trailing\<rparr> }"

definition dl_calculate :: "nat \<Rightarrow> nat \<Rightarrow> nat \<Rightarrow> nat \<Rightarrow> db_layout rust" where
  "dl_calculate desired_usable_bytes page_capacity region_header_pages page_size = do {
     full \<leftarrow> rl_new page_capacity region_header_pages page_size;
     usable \<leftarrow> rl_usable_bytes full;
     if desired_usable_bytes \<le> usable then do {
       r \<leftarrow> rl_calculate desired_usable_bytes page_capacity region_header_pages page_size;
       ok \<lparr>dl_full = full, dl_num_full = 0, dl_trailing = Some r\<rparr> }
     else do {
       full_regions \<leftarrow> cdiv desired_usable_bytes usable;
       used \<leftarrow> cmul 64 full_regions usable;
       remaining_desired \<leftarrow> csub desired_usable_bytes used;
       assert_that (full_regions > 0);
       trailing \<leftarrow> (if remaining_desired > 0 then do {
           r \<leftarrow> rl_calculate remaining_desired page_capacity region_header_pages page_size;
           ok (Some r) }
         else ok None);
       assert_that (case trailing of None \<Rightarrow> True | Some r \<Rightarrow> rl_header_pages r = rl_header_pages full);
       n \<leftarrow> try_into 32 full_regions;
       ok \<lparr>dl_full = full, dl_num_full = n, dl_trailing = trailing\<rparr> } }"

definition num_regions :: "db_layout \<Rightarrow> nat rust" where
  "num_regions l = (case dl_trailing l of Some r \<Rightarrow> cadd 32 (dl_num_full l) 1 | None \<Rightarrow> ok (dl_num_full l))"

definition region_base_address :: "db_layout \<Rightarrow> nat \<Rightarrow> nat rust" where
  "region_base_address l region = do {
     n \<leftarrow> num_regions l;
     assert_that (region < n);
     len \<leftarrow> rl_len (dl_full l);
     off \<leftarrow> cmul 64 region len;
     cadd 64 (rl_page_size (dl_full l)) off }"

definition get_region_layout :: "db_layout \<Rightarrow> nat \<Rightarrow> region_layout rust" where
  "get_region_layout l region = do {
     n \<leftarrow> num_regions l;
     assert_that (region < n);
     if region = dl_num_full l then dl_trailing l else ok (dl_full l) }"

definition dl_len :: "db_layout \<Rightarrow> nat rust" where
  "dl_len l = do {
     n \<leftarrow> num_regions l;
     last \<leftarrow> csub n 1;
     base \<leftarrow> region_base_address l last;
     r \<leftarrow> get_region_layout l last;
     len \<leftarrow> rl_len r;
     cadd 64 base len }"

definition dl_usable_bytes :: "db_layout \<Rightarrow> nat rust" where
  "dl_usable_bytes l = do {
     trailing \<leftarrow> (case dl_trailing l of Some r \<Rightarrow> rl_usable_bytes r | None \<Rightarrow> ok 0);
     full \<leftarrow> rl_usable_bytes (dl_full l);
     m \<leftarrow> cmul 64 (dl_num_full l) full;
     cadd 64 m trailing }"

subsection \<open>Well-formed layouts\<close>

text \<open>
  All regions share the header size and the page size, and the trailing region is shorter than a
  full one.  \<open>dl_bounded\<close> says that one more full region would still fit in the \<open>u64\<close> address space.
\<close>

definition rl_size :: "region_layout \<Rightarrow> nat" where
  "rl_size r = (rl_header_pages r + rl_num_pages r) * rl_page_size r"

definition dl_wf :: "db_layout \<Rightarrow> bool" where
  "dl_wf l \<longleftrightarrow> 0 < rl_num_pages (dl_full l) \<and> 0 < rl_page_size (dl_full l)
     \<and> (case dl_trailing l of None \<Rightarrow> 0 < dl_num_full l
        | Some t \<Rightarrow> 0 < rl_num_pages t \<and> rl_num_pages t < rl_num_pages (dl_full l)
            \<and> rl_header_pages t = rl_header_pages (dl_full l) \<and> rl_page_size t = rl_page_size (dl_full l))"

definition dl_bounded :: "db_layout \<Rightarrow> bool" where
  "dl_bounded l \<longleftrightarrow> rl_page_size (dl_full l) + (dl_num_full l + 1) * rl_size (dl_full l) < 2 ^ 64
     \<and> dl_num_full l + 1 < 2 ^ 32"

definition dl_regions :: "db_layout \<Rightarrow> nat" where
  "dl_regions l = dl_num_full l + (if dl_trailing l = None then 0 else 1)"

definition dl_size :: "db_layout \<Rightarrow> nat" where
  "dl_size l = rl_page_size (dl_full l) + dl_num_full l * rl_size (dl_full l)
     + (case dl_trailing l of None \<Rightarrow> 0 | Some t \<Rightarrow> rl_size t)"

lemma rl_len_ok: "rl_size r < 2 ^ 64 \<Longrightarrow> rl_len r = ok (rl_size r)"
  by (simp add: rl_len_def rl_usable_bytes_def rl_size_def cmul_def cadd_def algebra_simps)

lemma num_regions_ok: "dl_bounded l \<Longrightarrow> num_regions l = ok (dl_regions l)"
  by (simp add: num_regions_def dl_bounded_def dl_regions_def cadd_def split: option.splits)

lemma dl_boundedD:
  assumes "dl_bounded l" "i \<le> dl_num_full l + 1"
  shows "rl_page_size (dl_full l) + i * rl_size (dl_full l) < 2 ^ 64"
proof -
  have "i * rl_size (dl_full l) \<le> (dl_num_full l + 1) * rl_size (dl_full l)" using assms(2) by (rule mult_le_mono1)
  then show ?thesis using assms(1) by (simp add: dl_bounded_def)
qed

lemma rl_size_bound: "dl_bounded l \<Longrightarrow> rl_size (dl_full l) < 2 ^ 64"
  using dl_boundedD [of l 1] by simp

lemma full_len_ok: "dl_bounded l \<Longrightarrow> rl_len (dl_full l) = ok (rl_size (dl_full l))"
  by (rule rl_len_ok [OF rl_size_bound])

lemma dl_regions_pos: "dl_wf l \<Longrightarrow> 0 < dl_regions l"
  by (auto simp: dl_wf_def dl_regions_def split: option.splits)

lemma region_base_address_ok:
  assumes "dl_bounded l" "i < dl_regions l"
  shows "region_base_address l i = ok (rl_page_size (dl_full l) + i * rl_size (dl_full l))"
proof -
  have "i \<le> dl_num_full l + 1" using assms(2) by (simp add: dl_regions_def split: if_splits)
  from dl_boundedD [OF assms(1) this] show ?thesis
    using assms by (simp add: region_base_address_def num_regions_ok full_len_ok cmul_def cadd_def)
qed

lemma get_region_layout_ok:
  assumes "dl_bounded l" "i < dl_regions l"
  shows "get_region_layout l i = (if i = dl_num_full l then dl_trailing l else ok (dl_full l))"
  using assms by (simp add: get_region_layout_def num_regions_ok)

lemma trailing_smaller: "dl_wf l \<Longrightarrow> dl_trailing l = Some t \<Longrightarrow> rl_size t < rl_size (dl_full l)"
  by (auto simp: dl_wf_def rl_size_def)

lemma region_size_le:
  assumes "dl_wf l" "i < dl_regions l"
  obtains r where "(if i = dl_num_full l then dl_trailing l else ok (dl_full l)) = ok r" "rl_size r \<le> rl_size (dl_full l)"
proof (cases "i = dl_num_full l")
  case True
  then obtain t where t: "dl_trailing l = Some t" using assms(2) by (cases "dl_trailing l") (auto simp: dl_regions_def)
  show ?thesis using that [of t] True t trailing_smaller [OF assms(1) t] by simp
next
  case False
  then show ?thesis using that [of "dl_full l"] by simp
qed

text \<open>Enough for the length of the file to be computed: there is a region, and the trailing region is not longer
  than a full one.\<close>

definition dl_shape :: "db_layout \<Rightarrow> bool" where
  "dl_shape l \<longleftrightarrow> (case dl_trailing l of None \<Rightarrow> 0 < dl_num_full l | Some t \<Rightarrow> rl_size t \<le> rl_size (dl_full l))"

lemma dl_wf_shape: "dl_wf l \<Longrightarrow> dl_shape l"
  using trailing_smaller [of l] by (fastforce simp: dl_shape_def dl_wf_def split: option.splits)

lemma dl_len_ok:
  assumes "dl_shape l" "dl_bounded l"
  shows "dl_len l = ok (dl_size l)"
proof (cases "dl_trailing l")
  case None
  then have n: "dl_regions l = dl_num_full l" "0 < dl_num_full l" using assms(1) by (auto simp: dl_regions_def dl_shape_def)
  let ?p = "rl_page_size (dl_full l)" and ?s = "rl_size (dl_full l)"
  have e: "?p + (dl_num_full l - 1) * ?s + ?s = ?p + dl_num_full l * ?s"
    using n(2) by (cases "dl_num_full l") auto
  have "?p + dl_num_full l * ?s < 2 ^ 64" using dl_boundedD [OF assms(2)] by simp
  then show ?thesis using n assms(2) None e
    by (simp add: dl_len_def num_regions_ok csub_def region_base_address_ok get_region_layout_ok full_len_ok
        cadd_def dl_size_def)
next
  case (Some t)
  then have n: "dl_regions l = Suc (dl_num_full l)" by (simp add: dl_regions_def)
  let ?p = "rl_page_size (dl_full l)" and ?s = "rl_size (dl_full l)"
  have "rl_size t \<le> ?s" using assms(1) Some by (simp add: dl_shape_def)
  moreover have "?p + (dl_num_full l + 1) * ?s < 2 ^ 64" using dl_boundedD [OF assms(2), of "dl_num_full l + 1"] by simp
  ultimately have "?p + dl_num_full l * ?s + rl_size t < 2 ^ 64" by (simp add: algebra_simps)
  then show ?thesis using n assms(2) Some
    by (simp add: dl_len_def num_regions_ok csub_def region_base_address_ok get_region_layout_ok rl_len_ok
        cadd_def dl_size_def)
qed

definition dl_pages :: "db_layout \<Rightarrow> nat" where
  "dl_pages l = dl_num_full l * rl_num_pages (dl_full l) + (case dl_trailing l of None \<Rightarrow> 0 | Some t \<Rightarrow> rl_num_pages t)"

definition dl_last_pages :: "db_layout \<Rightarrow> nat" where
  "dl_last_pages l = (case dl_trailing l of None \<Rightarrow> rl_num_pages (dl_full l) | Some t \<Rightarrow> rl_num_pages t)"

lemma div_ceil_cases: "0 < p \<Longrightarrow> div_ceil d p = (if d mod p = 0 then d div p else d div p + 1)"
proof -
  assume p: "0 < p"
  obtain q r where d: "d = q * p + r" "r < p" "q = d div p" "r = d mod p"
    using p by (metis div_mult_mod_eq mod_less_divisor)
  have e: "d + p - 1 = (r + p - 1) + q * p" using p d(1) by simp
  have "div_ceil d p = q + (r + p - 1) div p" unfolding div_ceil_def e using p by (intro div_mult_self1) simp
  moreover have "(r + p - 1) div p = (if r = 0 then 0 else 1)"
    using d(2) p div_nat_eqI [of p 1 "r + p - 1"] by auto
  ultimately show ?thesis by (simp only: d(3,4) if_distrib [of "\<lambda>x. d div p + x"] add_0_right)
qed

lemma div_ceil_0 [simp]: "div_ceil 0 p = 0"
  by (cases p) (simp_all add: div_ceil_def)

lemma div_ceil_bounds: "0 < p \<Longrightarrow> d \<le> div_ceil d p * p" "0 < p \<Longrightarrow> 0 < d \<Longrightarrow> div_ceil d p * p < d + p"
proof -
  show "0 < p \<Longrightarrow> d \<le> div_ceil d p * p" using div_ceil_le_iff [of p d "div_ceil d p"] by simp
  assume p: "0 < p" "0 < d"
  have "d div p * p \<le> d" by simp
  moreover have "d div p * p < d" if "d mod p \<noteq> 0" using that mod_eq_self_iff_div_eq_0 div_mult_mod_eq [of d p] by linarith
  ultimately show "div_ceil d p * p < d + p" using p by (auto simp: div_ceil_cases)
qed

lemma rl_calculate_ok:
  assumes "0 < p" "d \<le> M * p" "M < 2 ^ 32" "(M + 1) * p < 2 ^ 64"
  shows "rl_calculate d M H p = ok \<lparr>rl_num_pages = div_ceil d p, rl_header_pages = H, rl_page_size = p\<rparr>"
proof -
  have c: "div_ceil d p \<le> M" using assms(1,2) by (simp add: div_ceil_le_iff)
  have s: "M * p < 2 ^ 64" "d + p < 2 ^ 64" using assms(2,4) by simp_all
  show ?thesis
  proof (cases "d mod p = 0")
    case True
    then show ?thesis using assms c s div_ceil_cases [OF assms(1), of d]
      by (simp add: rl_calculate_def round_up_to_multiple_of_def is_multiple_of_def cmul_def cdiv_def try_into_def)
  next
    case False
    have "d + p - d mod p = (d div p + 1) * p" using div_mult_mod_eq [of d p] unfolding add_mult_distrib by linarith
    then have "(d + p - d mod p) div p = d div p + 1" using assms(1) by (metis bot_nat_0.not_eq_extremum nonzero_mult_div_cancel_right)
    moreover have "d mod p \<le> d + p" by (simp add: le_add1 order_trans [OF mod_less_eq_dividend])
    ultimately show ?thesis using False assms c s div_ceil_cases [OF assms(1), of d]
      by (simp add: rl_calculate_def round_up_to_multiple_of_def is_multiple_of_def cmul_def cadd_def cmod_def csub_def
          cdiv_def try_into_def)
  qed
qed

text \<open>Recalculating a layout from any file length between one page of data and \<open>R\<close> full regions.\<close>

lemma dl_recalculate_ok:
  assumes "0 < M" "0 < p" "M * p \<le> 2 ^ 32" "p + (R + 1) * ((H + M) * p) < 2 ^ 64" "R + 1 < 2 ^ 32"
    "p + (H + 1) * p \<le> len" "len \<le> p + R * ((H + M) * p)"
  shows "\<exists>l. dl_recalculate len H M p = ok l \<and> dl_wf l \<and> dl_bounded l
    \<and> dl_full l = \<lparr>rl_num_pages = M, rl_header_pages = H, rl_page_size = p\<rparr> \<and> dl_num_full l \<le> R"
proof -
  define s where "s = (H + M) * p"
  define x where "x = len - p"
  define n where "n = x div s"
  define r where "r = x - n * s"
  have s0: "0 < s" using assms(1,2) by (simp add: s_def)
  have hp: "(H + 1) * p \<le> s" unfolding s_def using assms(1) by (intro mult_le_mono1) simp
  have x: "x \<le> R * s" "(H + 1) * p \<le> x" using assms(6,7) unfolding x_def s_def by linarith+
  have nR: "n \<le> R" unfolding n_def using x(1) s0 by (metis div_le_mono nonzero_mult_div_cancel_right less_numeral_extra(3))
  have "n * s \<le> x" unfolding n_def by (rule div_times_less_eq_dividend)
  moreover have "x mod s = r" unfolding r_def n_def by (simp add: minus_div_mult_eq_mod)
  ultimately have nr: "n * s \<le> x" "r < s" using s0 mod_less_divisor by auto
  have "n * s \<le> R * s" using nR by (rule mult_le_mono1)
  moreover have "p + R * s + s < 2 ^ 64" using assms(4) unfolding s_def by simp
  ultimately have "p + n * s + s < 2 ^ 64" "x < 2 ^ 64" "n * s < 2 ^ 64" "s < 2 ^ 64" using x(1) by linarith+
  then have b: "p + (n + 1) * s < 2 ^ 64" "x < 2 ^ 64" "n * s < 2 ^ 64" "s < 2 ^ 64" "n + 1 < 2 ^ 32"
    using assms(5) nR by simp_all
  have hm: "H + M \<le> s" unfolding s_def using assms(2) by simp
  have t: "if (H + 1) * p \<le> r then 0 < (r - H * p) div p \<and> (r - H * p) div p < M \<and> r - H * p < 2 ^ 32 else True"
  proof (cases "(H + 1) * p \<le> r")
    case True
    have lt: "r - H * p < M * p" using nr(2) True unfolding s_def by (simp add: add_mult_distrib)
    then have "(r - H * p) div p < M" using assms(2) by (simp add: div_less_iff_less_mult)
    moreover have "1 * p \<le> r - H * p" using True by (simp add: add_mult_distrib)
    then have "0 < (r - H * p) div p" using assms(2) by (metis div_greater_zero_iff mult_1)
    ultimately show ?thesis using True lt assms(3) by simp
  qed simp
  have pos: "n = 0 \<Longrightarrow> (H + 1) * p \<le> r" using x(2) by (simp add: r_def)
  have c: "csub len p = ok x" "cadd 64 H M = ok (H + M)" "cmul 64 (H + M) p = ok s" "cdiv x s = ok n" "cmul 64 n s = ok (n * s)"
    "csub x (n * s) = ok r" "cadd 64 H 1 = ok (H + 1)" "cmul 64 (H + 1) p = ok ((H + 1) * p)" "try_into 32 n = ok n"
    "(H + 1) * p \<le> r \<Longrightarrow> cmul 64 H p = ok (H * p)" "(H + 1) * p \<le> r \<Longrightarrow> csub r (H * p) = ok (r - H * p)"
    using assms(1,6) s0 nr b hp hm
    by (simp_all add: csub_def cadd_def cmul_def cdiv_def try_into_def x_def [symmetric] s_def [symmetric] n_def [symmetric] r_def [symmetric])
  let ?full = "\<lparr>rl_num_pages = M, rl_header_pages = H, rl_page_size = p\<rparr>"
  let ?l = "\<lparr>dl_full = ?full, dl_num_full = n, dl_trailing = if (H + 1) * p \<le> r
      then Some \<lparr>rl_num_pages = (r - H * p) div p, rl_header_pages = H, rl_page_size = p\<rparr> else None\<rparr>"
  have "dl_recalculate len H M p = ok ?l"
  proof (cases "(H + 1) * p \<le> r")
    case True
    then have "try_into 32 (r - H * p) = ok (r - H * p)" "cdiv (r - H * p) p = ok ((r - H * p) div p)"
      "0 < (r - H * p) div p" "(r - H * p) div p < M" using t assms(2) by (simp_all add: try_into_def cdiv_def)
    then show ?thesis unfolding dl_recalculate_def c(1-9) bind.bind_lunit using True assms(1) by (simp add: c(10,11) rl_new_def)
  next
    case False
    then show ?thesis unfolding dl_recalculate_def c(1-9) bind.bind_lunit using assms(1) by (simp add: rl_new_def c(9))
  qed
  moreover have "dl_wf ?l" using t pos assms(1,2) by (auto simp: dl_wf_def)
  moreover have "dl_bounded ?l" using b by (simp add: dl_bounded_def rl_size_def s_def [symmetric])
  ultimately show ?thesis using nR by (intro exI [of _ ?l]) simp
qed

subsection \<open>Properties\<close>

text \<open>
  C28. The layout is determined by the length of the file: recalculating it from the length
  of a well-formed layout (regions of at most 4 GiB) gives back that layout, and neither computation
  overflows.
\<close>

theorem layout_recalculate_len:
  assumes "dl_wf l" "dl_bounded l" "rl_num_pages (dl_full l) * rl_page_size (dl_full l) \<le> 2 ^ 32"
    "rl_num_pages (dl_full l) < 2 ^ 32" "rl_header_pages (dl_full l) < 2 ^ 32"
  shows "\<exists>len. dl_len l = ok len \<and>
    dl_recalculate len (rl_header_pages (dl_full l)) (rl_num_pages (dl_full l)) (rl_page_size (dl_full l)) = ok l"
proof -
  obtain M H p where full: "dl_full l = \<lparr>rl_num_pages = M, rl_header_pages = H, rl_page_size = p\<rparr>"
    by (cases "dl_full l") auto
  define n where "n = dl_num_full l"
  define r where "r = (case dl_trailing l of None \<Rightarrow> 0 | Some t \<Rightarrow> rl_size t)"
  let ?s = "(H + M) * p"
  have M: "0 < M" "0 < p" "M * p \<le> 2 ^ 32" "M < 2 ^ 32" "H < 2 ^ 32" using assms by (auto simp: dl_wf_def full)
  have S: "rl_size (dl_full l) = ?s" by (simp add: rl_size_def full)
  have r: "r < ?s" using trailing_smaller [OF assms(1)] M S by (auto simp: r_def split: option.splits)
  have len: "dl_len l = ok (p + n * ?s + r)" using dl_len_ok [OF dl_wf_shape [OF assms(1)] assms(2)] unfolding dl_size_def S by (simp add: r_def n_def full)
  have b: "p + (n + 1) * ?s < 2 ^ 64" "n < 2 ^ 32" using assms(2) unfolding dl_bounded_def S by (auto simp: n_def full)
  have s64: "?s < 2 ^ 64" "n * ?s < 2 ^ 64" using b(1) by simp_all
  have d: "(n * ?s + r) div ?s = n" using r M by (simp add: div_mult_self3 mult.commute)
  have h64: "(H + 1) * p < 2 ^ 64"
  proof -
    have "(H + 1) * p \<le> ?s" using M(1) by (intro mult_le_mono1) simp
    then show ?thesis using s64(1) by linarith
  qed
  have "dl_recalculate (p + n * ?s + r) H M p = ok l"
  proof (cases "dl_trailing l")
    case None
    then have "r = 0" "l = \<lparr>dl_full = dl_full l, dl_num_full = n, dl_trailing = None\<rparr>"
      by (simp_all add: r_def n_def)
    then show ?thesis using M b s64 d h64 full
      by (simp add: dl_recalculate_def csub_def cadd_def cmul_def cdiv_def rl_new_def try_into_def)
  next
    case (Some t)
    then have t: "rl_header_pages t = H" "rl_page_size t = p" "0 < rl_num_pages t" "rl_num_pages t < M"
      using assms(1) by (auto simp: dl_wf_def full)
    define q where "q = rl_num_pages t"
    have rq: "r = (H + q) * p" using Some t by (simp add: r_def rl_size_def q_def)
    have l: "l = \<lparr>dl_full = dl_full l, dl_num_full = n,
        dl_trailing = Some \<lparr>rl_num_pages = q, rl_header_pages = H, rl_page_size = p\<rparr>\<rparr>"
      using Some t by (simp add: n_def q_def)
    have "q * p < M * p" using t(4) M(2) by (simp add: q_def)
    then have "q * p < 2 ^ 32" using M(3) by (rule less_le_trans)
    moreover have "(H + 1) * p \<le> (H + q) * p" using t(3) by (intro mult_le_mono1) (simp add: q_def)
    ultimately show ?thesis using M b s64 d h64 full l t(3,4) rq
      by (simp add: dl_recalculate_def csub_def cadd_def cmul_def cdiv_def rl_new_def try_into_def q_def add_mult_distrib)
  qed
  then show ?thesis using len by (simp add: full)
qed

theorem layout_recalculate_len_witness:
  "\<exists>len. dl_len \<lparr>dl_full = \<lparr>rl_num_pages = 4, rl_header_pages = 1, rl_page_size = 512\<rparr>, dl_num_full = 2,
         dl_trailing = Some \<lparr>rl_num_pages = 3, rl_header_pages = 1, rl_page_size = 512\<rparr>\<rparr> = ok len
     \<and> dl_recalculate len 1 4 512 = ok \<lparr>dl_full = \<lparr>rl_num_pages = 4, rl_header_pages = 1, rl_page_size = 512\<rparr>,
         dl_num_full = 2, dl_trailing = Some \<lparr>rl_num_pages = 3, rl_header_pages = 1, rl_page_size = 512\<rparr>\<rparr>"
  using layout_recalculate_len [of "\<lparr>dl_full = \<lparr>rl_num_pages = 4, rl_header_pages = 1, rl_page_size = 512\<rparr>,
      dl_num_full = 2, dl_trailing = Some \<lparr>rl_num_pages = 3, rl_header_pages = 1, rl_page_size = 512\<rparr>\<rparr>"]
  by (simp add: dl_wf_def dl_bounded_def rl_size_def)

text \<open>
  C29. The regions of a well-formed layout are disjoint, in order, and inside the file: every region
  ends before the next one begins, the first begins after the super-header page, and the last ends at
  the file length.  No address computation overflows.
\<close>

theorem layout_regions_disjoint:
  assumes "dl_wf l" "dl_bounded l" "i < dl_regions l"
  shows "\<exists>base r len file_len. region_base_address l i = ok base \<and> get_region_layout l i = ok r \<and> rl_len r = ok len
    \<and> dl_len l = ok file_len \<and> rl_page_size (dl_full l) \<le> base \<and> base + len \<le> file_len
    \<and> (\<forall>j<dl_regions l. i < j \<longrightarrow> (\<exists>base'. region_base_address l j = ok base' \<and> base + len \<le> base'))
    \<and> (i + 1 = dl_regions l \<longrightarrow> base + len = file_len)"
proof -
  let ?p = "rl_page_size (dl_full l)" and ?s = "rl_size (dl_full l)"
  obtain r where r: "(if i = dl_num_full l then dl_trailing l else ok (dl_full l)) = ok r" "rl_size r \<le> ?s"
    using region_size_le [OF assms(1,3)] by blast
  have len: "rl_len r = ok (rl_size r)" using rl_len_ok [of r] r(2) rl_size_bound [OF assms(2)] by simp
  have next_base: "?p + i * ?s + rl_size r \<le> ?p + j * ?s" if "i < j" for j
  proof -
    have "Suc i * ?s \<le> j * ?s" using that by (intro mult_le_mono1) simp
    then show ?thesis using r(2) by simp
  qed
  have last: "?p + i * ?s + rl_size r = dl_size l" if "i + 1 = dl_regions l"
  proof (cases "dl_trailing l")
    case None
    then have "i + 1 = dl_num_full l" using that by (simp add: dl_regions_def)
    moreover from this have "r = dl_full l" using r(1) by auto
    ultimately show ?thesis using None by (simp add: dl_size_def flip: \<open>i + 1 = dl_num_full l\<close>)
  next
    case (Some t)
    then have "i = dl_num_full l" using that by (simp add: dl_regions_def)
    then show ?thesis using Some r(1) by (simp add: dl_size_def)
  qed
  have "?p + i * ?s + rl_size r \<le> dl_size l"
  proof (cases "i + 1 = dl_regions l")
    case False
    then have "i < dl_num_full l" using assms(3) by (simp add: dl_regions_def split: if_splits)
    from next_base [OF this] show ?thesis by (simp add: dl_size_def)
  qed (use last in simp)
  then show ?thesis
    using region_base_address_ok [OF assms(2)] get_region_layout_ok [OF assms(2,3)] r(1) len dl_len_ok [OF dl_wf_shape [OF assms(1)] assms(2)]
      next_base last assms(3) by auto
qed

theorem layout_regions_disjoint_witness:
  "\<exists>base r len. region_base_address \<lparr>dl_full = \<lparr>rl_num_pages = 4, rl_header_pages = 1, rl_page_size = 512\<rparr>,
        dl_num_full = 2, dl_trailing = None\<rparr> 0 = ok base
     \<and> get_region_layout \<lparr>dl_full = \<lparr>rl_num_pages = 4, rl_header_pages = 1, rl_page_size = 512\<rparr>,
        dl_num_full = 2, dl_trailing = None\<rparr> 0 = ok r \<and> rl_len r = ok len \<and> 512 \<le> base"
  using layout_regions_disjoint [of "\<lparr>dl_full = \<lparr>rl_num_pages = 4, rl_header_pages = 1, rl_page_size = 512\<rparr>,
      dl_num_full = 2, dl_trailing = None\<rparr>" 0]
  by (simp add: dl_wf_def dl_bounded_def rl_size_def dl_regions_def) blast

text \<open>
  C30. \<open>calculate\<close> gives a layout that holds the desired number of bytes and wastes less than one page:
  its usable bytes are the desired bytes rounded up to whole pages.  \<open>reduce_last_region\<close> removes exactly
  the given number of pages from the last region, dropping the region when nothing is left.
\<close>

theorem layout_calculate_reduce:
  assumes "0 < d" "0 < M" "0 < p" "M < 2 ^ 32" "(M + 1) * p < 2 ^ 64" "d < 2 ^ 64" "d div (M * p) < 2 ^ 32"
  shows "\<exists>l. dl_calculate d M H p = ok l \<and> d \<le> dl_pages l * p \<and> dl_pages l * p < d + p
    \<and> dl_full l = \<lparr>rl_num_pages = M, rl_header_pages = H, rl_page_size = p\<rparr> \<and> 0 < dl_regions l
    \<and> (\<forall>num. 0 < num \<and> num \<le> dl_last_pages l \<longrightarrow>
         (\<exists>l'. reduce_last_region l num = ok l' \<and> dl_pages l' + num = dl_pages l \<and> dl_full l' = dl_full l))"
proof -
  let ?f = "\<lparr>rl_num_pages = M, rl_header_pages = H, rl_page_size = p\<rparr>"
  let ?t = "\<lambda>d. \<lparr>rl_num_pages = div_ceil d p, rl_header_pages = H, rl_page_size = p\<rparr>"
  have mp: "M * p < 2 ^ 64" "0 < M * p" using assms by simp_all
  have red: "\<exists>l'. reduce_last_region l num = ok l' \<and> dl_pages l' + num = dl_pages l \<and> dl_full l' = dl_full l"
    if A: "dl_full l = ?f" "0 < dl_regions l" "0 < num" "num \<le> dl_last_pages l" for l num
  proof (cases "dl_trailing l")
    case None
    then obtain n where "dl_num_full l = Suc n" using A(2) by (cases "dl_num_full l") (auto simp: dl_regions_def)
    then show ?thesis using None A assms(2)
      by (auto simp: reduce_last_region_def csub_def rl_new_def dl_pages_def dl_last_pages_def Let_def)
  next
    case (Some t)
    then show ?thesis using A
      by (auto simp: reduce_last_region_def csub_def dl_pages_def dl_last_pages_def)
  qed
  show ?thesis
  proof (cases "d \<le> M * p")
    case True
    let ?l = "\<lparr>dl_full = ?f, dl_num_full = 0, dl_trailing = Some (?t d)\<rparr>"
    have "dl_calculate d M H p = ok ?l"
      using True rl_calculate_ok [OF assms(3) True assms(4,5), of H] mp assms(2)
      by (simp add: dl_calculate_def rl_new_def rl_usable_bytes_def cmul_def mult.commute)
    then show ?thesis using div_ceil_bounds [OF assms(3), of d] assms(1) red [of ?l]
      by (auto simp: dl_pages_def dl_regions_def)
  next
    case False
    define k where "k = d div (M * p)"
    define r where "r = d mod (M * p)"
    have d: "d = k * (M * p) + r" "r < M * p" using mp(2) unfolding k_def r_def by (simp_all only: div_mult_mod_eq mod_less_divisor)
    have k: "0 < k" using False mp(2) by (simp add: k_def div_greater_zero_iff)
    have kb: "k * (M * p) < 2 ^ 64" using d(1) assms(6) by simp
    let ?l = "\<lparr>dl_full = ?f, dl_num_full = k, dl_trailing = if 0 < r then Some (?t r) else None\<rparr>"
    have "dl_calculate d M H p = ok ?l"
      using False rl_calculate_ok [OF assms(3) less_imp_le [OF d(2)] assms(4,5), of H] mp assms(2,7) k kb d
      by (simp add: dl_calculate_def rl_new_def rl_usable_bytes_def cmul_def cdiv_def csub_def try_into_def
          mult.commute [of p M] flip: k_def)
    moreover have "dl_pages ?l * p = k * (M * p) + div_ceil r p * p"
      by (cases "r = 0") (simp_all add: dl_pages_def algebra_simps)
    moreover have "r \<le> div_ceil r p * p" "div_ceil r p * p < r + p"
      using div_ceil_bounds [OF assms(3), of r] assms(3) by (cases "r = 0"; simp)+
    ultimately show ?thesis using d(1) k red [of ?l] by (intro exI [of _ ?l]) (auto simp: dl_regions_def)
  qed
qed

theorem layout_calculate_reduce_witness:
  "\<exists>l. dl_calculate 5000 4 1 512 = ok l \<and> 5000 \<le> dl_pages l * 512 \<and> dl_pages l * 512 < 5512"
  using layout_calculate_reduce [of 5000 4 512 1] by auto

end
