(* ===== verification/Page_Number.thy ===== *)
theory Page_Number
  imports Redb_Prelude Buddy
begin

text \<open>
  Page numbers (\<open>tree_store/page_store/base.rs\<close>), the hasher used for maps keyed by them
  (\<open>fast_hash.rs\<close>), and the set of pages tracked by a write transaction
  (\<open>PageTrackerPolicy\<close>).

  A page number is the region, the index of the page among the pages of its order in that
  region, and the order.  On disk it is one \<open>u64\<close> with reserved bits.  The lemmas show that
  decoding ignores exactly the reserved bits and inverts encoding, that hashing cannot
  confuse two page numbers, and that the address ranges of pages that do not overlap as
  blocks of the buddy allocator do not overlap in the file, in the order given by \<open>cmp\<close>.
\<close>

subsection \<open>Comparison results\<close>

datatype cmp_result = Less | Equal | Greater

definition cmp_nat :: "nat \<Rightarrow> nat \<Rightarrow> cmp_result" where
  "cmp_nat a b = (if a < b then Less else if a = b then Equal else Greater)"

fun cmp_then :: "cmp_result \<Rightarrow> cmp_result \<Rightarrow> cmp_result" where
  "cmp_then Equal r = r"
| "cmp_then r _ = r"

fun cmp_reverse :: "cmp_result \<Rightarrow> cmp_result" where
  "cmp_reverse Less = Greater"
| "cmp_reverse Equal = Equal"
| "cmp_reverse Greater = Less"

lemma cmp_nat_simps [simp]:
  "cmp_nat a b = Less \<longleftrightarrow> a < b" "cmp_nat a b = Equal \<longleftrightarrow> a = b" "cmp_nat a b = Greater \<longleftrightarrow> b < a"
  "Less = cmp_nat a b \<longleftrightarrow> a < b" "Equal = cmp_nat a b \<longleftrightarrow> a = b" "Greater = cmp_nat a b \<longleftrightarrow> b < a"
  by (auto simp: cmp_nat_def)

subsection \<open>The page number\<close>

definition MAX_PAGE_INDEX :: nat where "MAX_PAGE_INDEX = 0xFFFFF"
definition MAX_REGIONS :: nat where "MAX_REGIONS = 0x100000"

record page_number =
  pn_region :: nat
  pn_index :: nat
  pn_order :: nat

definition pn_new :: "nat \<Rightarrow> nat \<Rightarrow> nat \<Rightarrow> page_number rust" where
  "pn_new region page_index page_order = do {
     assert_that (region \<le> 0xFFFFF);
     assert_that (page_index \<le> MAX_PAGE_INDEX);
     assert_that (page_order \<le> MAX_MAX_PAGE_ORDER);
     ok \<lparr>pn_region = region, pn_index = page_index, pn_order = page_order\<rparr>
   }"

definition pn_bits :: "page_number \<Rightarrow> u64" where
  "pn_bits p =
     (let temp = 0xFFFFF AND word_of_nat (pn_index p);
          temp = temp OR push_bit 20 (0xFFFFF AND word_of_nat (pn_region p));
          temp = temp OR push_bit 59 (0x1F AND word_of_nat (pn_order p))
      in temp)"

definition pn_to_le_bytes :: "page_number \<Rightarrow> byte list" where
  "pn_to_le_bytes p = word_to_le 8 (pn_bits p)"

definition pn_from_le_bytes :: "byte list \<Rightarrow> page_number rust" where
  "pn_from_le_bytes bytes = (let temp = (word_from_le bytes :: u64) in do {
     let order = unat (drop_bit 59 temp) mod 2 ^ 8;
     index \<leftarrow> try_into 32 (unat (temp AND drop_bit order 0xFFFFF));
     let region = unat (drop_bit 20 temp AND 0xFFFFF) mod 2 ^ 32;
     ok \<lparr>pn_region = region, pn_index = index, pn_order = order\<rparr>
   })"

definition pn_cmp :: "page_number \<Rightarrow> page_number \<Rightarrow> cmp_result rust" where
  "pn_cmp p q = (case cmp_nat (pn_region p) (pn_region q) of
       Less \<Rightarrow> ok Less
     | Equal \<Rightarrow> do {
         sp \<leftarrow> pow2_u32 (pn_order p);
         self_order0 \<leftarrow> cmul 32 (pn_index p) sp;
         op \<leftarrow> pow2_u32 (pn_order q);
         other_order0 \<leftarrow> cmul 32 (pn_index q) op;
         assert_that (self_order0 \<noteq> other_order0 \<or> pn_order p = pn_order q);
         ok (cmp_nat self_order0 other_order0)
       }
     | Greater \<Rightarrow> ok Greater)"

definition pn_page_size_bytes :: "page_number \<Rightarrow> nat \<Rightarrow> nat rust" where
  "pn_page_size_bytes p page_size = do {
     assert_that (pn_order p < 64);
     cmul 64 (2 ^ pn_order p) page_size
   }"

definition pn_address_range :: "page_number \<Rightarrow> nat \<Rightarrow> nat \<Rightarrow> nat \<Rightarrow> nat \<Rightarrow> (nat \<times> nat) rust" where
  "pn_address_range p data_section_offset region_size region_pages_start page_size = do {
     size \<leftarrow> pn_page_size_bytes p page_size;
     off \<leftarrow> cmul 64 (pn_index p) size;
     regional_start \<leftarrow> cadd 64 region_pages_start off;
     assert_that (regional_start < region_size);
     region_base \<leftarrow> cmul 64 (pn_region p) region_size;
     start \<leftarrow> cadd 64 data_section_offset region_base;
     start \<leftarrow> cadd 64 start regional_start;
     stop \<leftarrow> cadd 64 start size;
     ok (start, stop)
   }"

subsection \<open>The hasher\<close>

definition FAST_HASH_K :: u64 where "FAST_HASH_K = 0xf1357aea2e62a9c5"

definition fh_write_u64 :: "u64 \<Rightarrow> u64 \<Rightarrow> u64 rust" where
  "fh_write_u64 h x = do { assert_that (h = 0); ok (x * FAST_HASH_K) }"

definition fh_finish :: "u64 \<Rightarrow> u64" where
  "fh_finish h = word_rotl 26 h"

definition pn_hash :: "page_number \<Rightarrow> u64 \<Rightarrow> u64 rust" where
  "pn_hash p state = fh_write_u64 state (pn_bits p)"

subsection \<open>The tracked pages of a transaction\<close>

datatype page_tracker_policy = Ignore | Track "page_number set" | Closed

definition ptp_new_tracking :: page_tracker_policy where
  "ptp_new_tracking = Track {}"

fun ptp_is_empty :: "page_tracker_policy \<Rightarrow> bool" where
  "ptp_is_empty (Track x) = (x = {})"
| "ptp_is_empty _ = True"

fun ptp_remove :: "page_tracker_policy \<Rightarrow> page_number \<Rightarrow> page_tracker_policy rust" where
  "ptp_remove Ignore page = ok Ignore"
| "ptp_remove (Track x) page = do { assert_that (page \<in> x); ok (Track (x - {page})) }"
| "ptp_remove Closed page = panic"

fun ptp_remove_if_present :: "page_tracker_policy \<Rightarrow> page_number \<Rightarrow> (bool \<times> page_tracker_policy) rust" where
  "ptp_remove_if_present Ignore page = ok (False, Ignore)"
| "ptp_remove_if_present (Track x) page = ok (page \<in> x, Track (x - {page}))"
| "ptp_remove_if_present Closed page = panic"

fun ptp_contains :: "page_tracker_policy \<Rightarrow> page_number \<Rightarrow> bool rust" where
  "ptp_contains Ignore page = ok False"
| "ptp_contains (Track x) page = ok (page \<in> x)"
| "ptp_contains Closed page = panic"

fun ptp_insert :: "page_tracker_policy \<Rightarrow> page_number \<Rightarrow> page_tracker_policy rust" where
  "ptp_insert Ignore page = ok Ignore"
| "ptp_insert (Track x) page = do { assert_that (page \<notin> x); ok (Track (insert page x)) }"
| "ptp_insert Closed page = panic"

fun ptp_close :: "page_tracker_policy \<Rightarrow> (page_number set \<times> page_tracker_policy) rust" where
  "ptp_close Ignore = ok ({}, Closed)"
| "ptp_close (Track x) = ok (x, Closed)"
| "ptp_close Closed = panic"

fun ptp_reset :: "page_tracker_policy \<Rightarrow> (page_number set \<times> page_tracker_policy) rust" where
  "ptp_reset Ignore = ok ({}, Ignore)"
| "ptp_reset (Track x) = ok (x, Track {})"
| "ptp_reset Closed = panic"

subsection \<open>Encoding\<close>

text \<open>A page number the allocator can hand out: the bits it needs fit in the encoding.\<close>

definition pn_wf :: "page_number \<Rightarrow> bool" where
  "pn_wf p \<longleftrightarrow> pn_region p < 2 ^ 20 \<and> pn_order p \<le> 20 \<and> pn_index p < 2 ^ (20 - pn_order p)"

text \<open>The bits that the format reserves: the top \<open>order\<close> bits of the index field and the 19
  bits between the region and the order.\<close>

definition pn_reserved :: "nat \<Rightarrow> u64" where
  "pn_reserved order = push_bit (20 - order) (mask order) OR push_bit 40 (mask 19)"

lemma masks:
  "(0xFFFFF :: u64) = mask 20" "(0x1F :: u64) = mask 5"
  by (simp_all add: mask_eq_exp_minus_1)

lemma bit_of_small: "n < 2 ^ k \<Longrightarrow> bit (word_of_nat n :: 'a::len word) i \<longleftrightarrow> i < LENGTH('a) \<and> i < k \<and> bit n i"
  using bit_take_bit_iff [of k n i] by (auto simp: bit_of_nat_iff take_bit_nat_eq_self)

lemma pn_bits_bit:
  assumes "pn_wf p"
  shows "bit (pn_bits p) i \<longleftrightarrow>
    i < 20 - pn_order p \<and> bit (pn_index p) i \<or>
    20 \<le> i \<and> i < 40 \<and> bit (pn_region p) (i - 20) \<or>
    59 \<le> i \<and> i < 64 \<and> bit (pn_order p) (i - 59)"
proof -
  have o: "pn_order p < 2 ^ 5" using assms by (simp add: pn_wf_def)
  have x: "pn_index p < 2 ^ (20 - pn_order p)" and r: "pn_region p < 2 ^ 20" using assms by (simp_all add: pn_wf_def)
  show ?thesis
    unfolding pn_bits_def Let_def masks
    by (auto simp: bit_or_iff bit_and_iff bit_mask_iff bit_push_bit_iff bit_of_small [OF x]
        bit_of_small [OF r] bit_of_small [OF o])
qed

lemma pn_reserved_bit:
  "order \<le> 20 \<Longrightarrow> bit (pn_reserved order) i \<longleftrightarrow> 20 - order \<le> i \<and> i < 20 \<or> 40 \<le> i \<and> i < 59"
  by (auto simp: pn_reserved_def bit_or_iff bit_push_bit_iff bit_mask_iff)

lemma unat_mod: "k < 64 \<Longrightarrow> (\<And>i. k \<le> i \<Longrightarrow> \<not> bit w i) \<Longrightarrow> unat (w :: u64) < 2 ^ k"
proof -
  assume k: "k < 64" and b: "\<And>i. k \<le> i \<Longrightarrow> \<not> bit w i"
  have "bit w n \<Longrightarrow> n < k" for n using b by (meson not_le)
  then have "take_bit k w = w"
    by (intro bit_eqI) (auto simp: bit_take_bit_iff)
  then have "unat w = take_bit k (unat w)" by (metis unsigned_take_bit_eq)
  then show ?thesis by (metis take_bit_nat_less_exp)
qed

lemma pn_decode_ok:
  fixes w :: u64
  shows "pn_from_le_bytes (word_to_le 8 w) =
    ok \<lparr>pn_region = unat (take_bit 20 (drop_bit 20 w)),
       pn_index = unat (take_bit (20 - unat (drop_bit 59 w)) w),
       pn_order = unat (drop_bit 59 w)\<rparr>"
    and "unat (drop_bit 59 w) < 32"
proof -
  have o: "unat (drop_bit 59 w) < 2 ^ 5"
    by (rule unat_mod) (auto simp: bit_drop_bit_eq dest: bit_imp_le_length)
  then show "unat (drop_bit 59 w) < 32" by simp
  have e: "w AND drop_bit k (mask 20) = take_bit (20 - k) w" for k
    by (rule bit_eqI) (auto simp: bit_and_iff bit_drop_bit_eq bit_mask_iff bit_take_bit_iff)
  have i: "unat (take_bit (20 - k) w) < 2 ^ 20" for k
    by (rule unat_mod) (auto simp: bit_take_bit_iff)
  have r: "unat (take_bit 20 (drop_bit 20 w)) < 2 ^ 20"
    by (rule unat_mod) (auto simp: bit_take_bit_iff)
  have x: "drop_bit 20 w AND mask 20 = take_bit 20 (drop_bit 20 w)"
    by (simp add: take_bit_eq_mask)
  have "unat (drop_bit 59 w) mod 2 ^ 8 = unat (drop_bit 59 w)" using o by simp
  moreover have "unat (take_bit 20 (drop_bit 20 w)) mod 2 ^ 32 = unat (take_bit 20 (drop_bit 20 w))" using r by simp
  moreover have "try_into 32 (unat (take_bit (20 - k) w)) = ok (unat (take_bit (20 - k) w))" for k
    using i [of k] by (simp add: try_into_def)
  ultimately show "pn_from_le_bytes (word_to_le 8 w) = ok \<lparr>pn_region = unat (take_bit 20 (drop_bit 20 w)),
       pn_index = unat (take_bit (20 - unat (drop_bit 59 w)) w), pn_order = unat (drop_bit 59 w)\<rparr>"
    unfolding pn_from_le_bytes_def masks Let_def by (simp add: x e del: unsigned_take_bit_eq)
qed

lemma pn_decode_bytes:
  assumes "length bs = 8"
  shows "\<exists>p. pn_from_le_bytes bs = ok p \<and> pn_region p < 2 ^ 20 \<and> pn_order p < 32 \<and> pn_index p < 2 ^ (20 - pn_order p)"
proof -
  let ?w = "word_from_le bs :: u64"
  have "le_nat bs < 2 ^ 64" using le_nat_bound [of bs] by (simp add: assms)
  then have bs: "bs = word_to_le 8 ?w"
    using le_bytes_le_nat [of bs] assms by (simp add: word_to_le_def word_from_le_def unat_of_nat)
  have "unat (take_bit k w) < 2 ^ k" if "k < 64" for k and w :: u64
    by (rule unat_mod [OF that]) (auto simp: bit_take_bit_iff)
  from this [of 20 "drop_bit 20 ?w"] this [of "20 - unat (drop_bit 59 ?w)" ?w]
  show ?thesis using pn_decode_ok [of ?w] by (subst bs) (simp del: unsigned_take_bit_eq)
qed

lemma pn_decode_junk:
  assumes p: "pn_wf p"
  shows "pn_from_le_bytes (word_to_le 8 (pn_bits p XOR (junk AND pn_reserved (pn_order p)))) = ok p"
proof -
  let ?w = "pn_bits p XOR (junk AND pn_reserved (pn_order p))"
  have o: "pn_order p \<le> 20" and o': "pn_order p < 2 ^ 5" using p by (simp_all add: pn_wf_def)
  have x: "pn_index p < 2 ^ (20 - pn_order p)" and r: "pn_region p < 2 ^ 20" using p by (simp_all add: pn_wf_def)
  have un: "unat (word_of_nat n :: u64) = n" if "n < 2 ^ k" "k < 64" for n k :: nat
  proof -
    have "(2::nat) ^ k \<le> 2 ^ 64" using that(2) by (intro power_increasing) auto
    then show ?thesis using that(1) by (simp add: unat_of_nat)
  qed
  note b = bit_xor_iff bit_and_iff pn_bits_bit [OF p] pn_reserved_bit [OF o] bit_drop_bit_eq bit_take_bit_iff
  have 1: "drop_bit 59 ?w = word_of_nat (pn_order p)"
    by (rule bit_eqI) (auto simp: b bit_of_small [OF o'] dest: bit_imp_le_length)
  have 2: "take_bit 20 (drop_bit 20 ?w) = word_of_nat (pn_region p)"
    by (rule bit_eqI) (auto simp: b bit_of_small [OF r])
  have 3: "take_bit (20 - pn_order p) ?w = word_of_nat (pn_index p)"
    by (rule bit_eqI) (auto simp: b bit_of_small [OF x])
  have u: "unat (word_of_nat (pn_order p) :: u64) = pn_order p" "unat (word_of_nat (pn_region p) :: u64) = pn_region p"
    "unat (word_of_nat (pn_index p) :: u64) = pn_index p"
    using un [OF o'] un [OF r] un [OF x] by simp_all
  show ?thesis unfolding pn_decode_ok(1) 1 2 u 3 by simp
qed

subsection \<open>Addresses\<close>

text \<open>The page is inside a region of \<open>n\<close> order-0 pages.\<close>

definition pn_fits :: "nat \<Rightarrow> page_number \<Rightarrow> bool" where
  "pn_fits n p \<longleftrightarrow> pn_region p < MAX_REGIONS \<and> pn_order p \<le> MAX_MAX_PAGE_ORDER \<and>
     (pn_index p + 1) * 2 ^ pn_order p \<le> n"

definition pn_overlap :: "page_number \<Rightarrow> page_number \<Rightarrow> bool" where
  "pn_overlap p q \<longleftrightarrow> pn_region p = pn_region q \<and> block (pn_order p) (pn_index p) \<inter> block (pn_order q) (pn_index q) \<noteq> {}"

text \<open>The file offset of the first byte of a page, in mathematical integers.\<close>

definition pn_start :: "nat \<Rightarrow> nat \<Rightarrow> nat \<Rightarrow> nat \<Rightarrow> page_number \<Rightarrow> nat" where
  "pn_start off rs hs ps p = off + pn_region p * rs + (hs + pn_index p * 2 ^ pn_order p * ps)"

lemma pn_address_range_ok:
  assumes p: "pn_fits n p" and ps: "0 < ps" and b: "off + MAX_REGIONS * (hs + n * ps) < 2 ^ 64"
  shows "pn_address_range p off (hs + n * ps) hs ps =
      ok (pn_start off (hs + n * ps) hs ps p, pn_start off (hs + n * ps) hs ps p + 2 ^ pn_order p * ps)"
    and "pn_start off (hs + n * ps) hs ps p + 2 ^ pn_order p * ps \<le> off + (pn_region p + 1) * (hs + n * ps)"
proof -
  let ?k = "2 ^ pn_order p" let ?r = "pn_region p" let ?rs = "hs + n * ps"
  have fit: "pn_index p * ?k + ?k \<le> n" and r: "?r < MAX_REGIONS" and o: "pn_order p < 64"
    using p by (auto simp: pn_fits_def MAX_MAX_PAGE_ORDER_def)
  have e: "pn_index p * ?k * ps + ?k * ps \<le> n * ps"
    using mult_le_mono1 [OF fit, of ps] by (simp add: add_mult_distrib)
  have pos: "0 < ?k * ps" using ps by simp
  have "(?r + 1) * ?rs \<le> MAX_REGIONS * ?rs" using r by (intro mult_le_mono1) simp
  then have rr: "?r * ?rs + ?rs \<le> MAX_REGIONS * ?rs" by simp
  have comm: "pn_index p * (?k * ps) = pn_index p * ?k * ps" by simp
  define x where "x = pn_index p * ?k * ps"
  define y where "y = ?k * ps"
  define z where "z = ?r * ?rs"
  have xy: "x + y \<le> n * ps" "0 < y" "z + ?rs \<le> MAX_REGIONS * ?rs" using e pos rr by (simp_all add: x_def y_def z_def)
  have 1: "pn_page_size_bytes p ps = ok y"
    using xy b o by (simp add: pn_page_size_bytes_def cmul_def y_def [symmetric])
  have 2: "cmul 64 (pn_index p) y = ok x"
    unfolding cmul_def using xy b by (simp add: comm y_def x_def [symmetric])
  have 3: "cadd 64 hs x = ok (hs + x)" "cmul 64 ?r ?rs = ok z" "cadd 64 off z = ok (off + z)"
    "cadd 64 (off + z) (hs + x) = ok (off + z + (hs + x))" "cadd 64 (off + z + (hs + x)) y = ok (off + z + (hs + x) + y)"
    unfolding cadd_def cmul_def z_def [symmetric] using xy b by simp_all
  have 4: "hs + x < ?rs" using xy by simp
  show "pn_address_range p off ?rs hs ps = ok (pn_start off ?rs hs ps p, pn_start off ?rs hs ps p + ?k * ps)"
    unfolding pn_address_range_def pn_start_def x_def [symmetric] y_def [symmetric] z_def [symmetric]
    using 4 by (simp add: 1 2 3)
  show "pn_start off ?rs hs ps p + ?k * ps \<le> off + (?r + 1) * ?rs"
    using xy(1) by (simp add: pn_start_def x_def y_def)
qed

lemma block_order: "block j a \<inter> block k b = {} \<Longrightarrow> a * 2 ^ j < b * 2 ^ k \<Longrightarrow> (a + 1) * 2 ^ j \<le> b * 2 ^ k"
proof (rule ccontr)
  assume d: "block j a \<inter> block k b = {}" and l: "a * 2 ^ j < b * 2 ^ k" and n: "\<not> (a + 1) * 2 ^ j \<le> b * 2 ^ k"
  have "b * 2 ^ k div 2 ^ j = a" using l n by (intro div_nat_eqI) (simp_all add: mult.commute)
  then have "b * 2 ^ k \<in> block j a" by (simp add: block_def)
  moreover have "b * 2 ^ k \<in> block k b" by (simp add: block_def)
  ultimately show False using d by blast
qed

lemma block_start: "a * 2 ^ j \<in> block j a"
  by (simp add: block_def)

lemma pn_start_mono:
  assumes p: "pn_fits n p" and ps: "0 < ps" and b: "off + MAX_REGIONS * (hs + n * ps) < 2 ^ 64"
    and d: "\<not> pn_overlap p q"
    and l: "pn_region p < pn_region q \<or> pn_region p = pn_region q \<and> pn_index p * 2 ^ pn_order p < pn_index q * 2 ^ pn_order q"
  shows "pn_start off (hs + n * ps) hs ps p + 2 ^ pn_order p * ps \<le> pn_start off (hs + n * ps) hs ps q"
  using l
proof
  assume "pn_region p < pn_region q"
  then have "(pn_region p + 1) * (hs + n * ps) \<le> pn_region q * (hs + n * ps)" by (intro mult_le_mono1) simp
  then show ?thesis using pn_address_range_ok(2) [OF p ps b] by (simp add: pn_start_def)
next
  assume e: "pn_region p = pn_region q \<and> pn_index p * 2 ^ pn_order p < pn_index q * 2 ^ pn_order q"
  then have "(pn_index p + 1) * 2 ^ pn_order p \<le> pn_index q * 2 ^ pn_order q"
    using d by (intro block_order) (auto simp: pn_overlap_def)
  then have "(pn_index p + 1) * 2 ^ pn_order p * ps \<le> pn_index q * 2 ^ pn_order q * ps" by (rule mult_le_mono1)
  then show ?thesis using e by (simp add: pn_start_def algebra_simps)
qed

lemma pn_cmp_ok:
  assumes p: "pn_fits n p" "pn_fits n q" and n: "n \<le> 2 ^ 20" and d: "\<not> pn_overlap p q"
  shows "pn_cmp p q = ok (if pn_region p = pn_region q
      then cmp_nat (pn_index p * 2 ^ pn_order p) (pn_index q * 2 ^ pn_order q)
      else cmp_nat (pn_region p) (pn_region q))"
    and "pn_region p = pn_region q \<Longrightarrow> pn_index p * 2 ^ pn_order p \<noteq> pn_index q * 2 ^ pn_order q"
proof -
  have ne: False if r: "pn_region p = pn_region q" and e: "pn_index p * 2 ^ pn_order p = pn_index q * 2 ^ pn_order q"
  proof -
    have "pn_index p * 2 ^ pn_order p \<in> block (pn_order q) (pn_index q)" unfolding e by (rule block_start)
    then show False using block_start [of "pn_index p" "pn_order p"] d r unfolding pn_overlap_def by blast
  qed
  then show "pn_index p * 2 ^ pn_order p \<noteq> pn_index q * 2 ^ pn_order q" if "pn_region p = pn_region q" using that by blast
  have b: "pow2_u32 (pn_order x) = ok (2 ^ pn_order x)" "cmul 32 (pn_index x) (2 ^ pn_order x) = ok (pn_index x * 2 ^ pn_order x)"
    if "pn_fits n x" for x
    using that n by (auto simp: pn_fits_def pow2_u32_def cmul_def MAX_MAX_PAGE_ORDER_def)
  show "pn_cmp p q = ok (if pn_region p = pn_region q
      then cmp_nat (pn_index p * 2 ^ pn_order p) (pn_index q * 2 ^ pn_order q)
      else cmp_nat (pn_region p) (pn_region q))"
  proof (cases "pn_region p = pn_region q")
    case True
    define x y where "x = pn_index p * 2 ^ pn_order p" and "y = pn_index q * 2 ^ pn_order q"
    have "x \<noteq> y" using ne [OF True] by (auto simp: x_def y_def)
    then show ?thesis using b [OF p(1)] b [OF p(2)] True
      unfolding pn_cmp_def x_def [symmetric] y_def [symmetric] by (simp add: cmp_nat_def [of "pn_region q"])
  next
    case False
    then show ?thesis by (simp add: pn_cmp_def cmp_nat_def)
  qed
qed

subsection \<open>Hashing\<close>

text \<open>The multiplier is odd, so it has an inverse modulo \<open>2 ^ 64\<close>.\<close>

lemma fast_hash_inj:
  assumes "x * FAST_HASH_K = y * FAST_HASH_K" shows "x = y"
proof -
  have k: "FAST_HASH_K * 0x781494a55daaed0d = 1" by (simp add: FAST_HASH_K_def)
  have "x * (FAST_HASH_K * 0x781494a55daaed0d) = y * (FAST_HASH_K * 0x781494a55daaed0d)"
    using arg_cong [OF assms, of "\<lambda>z. z * 0x781494a55daaed0d"] by (simp only: mult.assoc)
  then show ?thesis by (simp only: k mult_1_right)
qed

lemma pn_bits_inj: "pn_wf p \<Longrightarrow> pn_wf q \<Longrightarrow> pn_bits p = pn_bits q \<Longrightarrow> p = q"
  using pn_decode_junk [of p 0] pn_decode_junk [of q 0] by simp

subsection \<open>Properties\<close>

text \<open>
  C31. Decoding inverts encoding for every page number the allocator can produce, and it
  ignores the reserved bits: whatever a later version of the format stores there, the same
  page number is read back.
\<close>

theorem page_number_round_trip:
  assumes "pn_wf p"
  shows "pn_from_le_bytes (pn_to_le_bytes p) = ok p \<and>
    pn_from_le_bytes (word_to_le 8 (pn_bits p XOR (junk AND pn_reserved (pn_order p)))) = ok p"
  using pn_decode_junk [OF assms, of junk] pn_decode_junk [OF assms, of 0] by (simp add: pn_to_le_bytes_def)

lemma page_number_round_trip_witness:
  "pn_from_le_bytes (pn_to_le_bytes \<lparr>pn_region = 7, pn_index = 200, pn_order = 12\<rparr>) =
    ok \<lparr>pn_region = 7, pn_index = 200, pn_order = 12\<rparr>"
  using page_number_round_trip [where p = "\<lparr>pn_region = 7, pn_index = 200, pn_order = 12\<rparr>" and junk = "0xFF00"]
  by (simp add: pn_wf_def)

text \<open>
  Decoding is total: any eight bytes, corrupted or not, decode to a page number whose
  fields are within the format's ranges.  In particular the conversion of the index to
  \<open>u32\<close> cannot fail.
\<close>

theorem page_number_decode_total:
  assumes "length bs = 8"
  shows "\<exists>p. pn_from_le_bytes bs = ok p \<and> pn_region p < 2 ^ 20 \<and> pn_order p < 32 \<and> pn_index p < 2 ^ (20 - pn_order p)"
  by (rule pn_decode_bytes [OF assms])

lemma page_number_decode_total_witness:
  "\<exists>p. pn_from_le_bytes (replicate 8 0xFF) = ok p \<and> pn_region p < 2 ^ 20 \<and> pn_order p < 32 \<and> pn_index p < 2 ^ (20 - pn_order p)"
  by (rule page_number_decode_total) simp

text \<open>
  C32. Pages that do not overlap as blocks of their region occupy disjoint ranges of the
  file, inside the data section of their region, and \<open>cmp\<close> orders them by file address
  (without tripping its overlap assertion); no address computation overflows.
\<close>

theorem page_addresses_disjoint:
  assumes "pn_fits n p" "pn_fits n q" "n \<le> 2 ^ 20" "0 < ps" "off + MAX_REGIONS * (hs + n * ps) < 2 ^ 64"
    "\<not> pn_overlap p q"
  shows "\<exists>s e s' e'. pn_address_range p off (hs + n * ps) hs ps = ok (s, e) \<and>
    pn_address_range q off (hs + n * ps) hs ps = ok (s', e') \<and>
    off + pn_region p * (hs + n * ps) + hs \<le> s \<and> s < e \<and> e \<le> off + (pn_region p + 1) * (hs + n * ps) \<and>
    (e \<le> s' \<or> e' \<le> s) \<and> pn_cmp p q = ok (cmp_nat s s')"
proof -
  let ?S = "pn_start off (hs + n * ps) hs ps" let ?E = "\<lambda>p. ?S p + 2 ^ pn_order p * ps"
  let ?lt = "\<lambda>p q. pn_region p < pn_region q \<or>
    pn_region p = pn_region q \<and> pn_index p * 2 ^ pn_order p < pn_index q * 2 ^ pn_order q"
  note r = pn_address_range_ok [OF assms(1,4,5)] and r' = pn_address_range_ok [OF assms(2,4,5)]
  note c = pn_cmp_ok [OF assms(1,2,3,6)]
  have ov: "\<not> pn_overlap q p" using assms(6) by (auto simp: pn_overlap_def)
  have pos: "0 < 2 ^ pn_order x * ps" for x using assms(4) by simp
  have in_region: "off + pn_region p * (hs + n * ps) + hs \<le> ?S p" by (simp add: pn_start_def)
  consider "?lt p q" | "?lt q p" using c(2) by fastforce
  then have "(?E p \<le> ?S q \<and> pn_cmp p q = ok Less) \<or> (?E q \<le> ?S p \<and> pn_cmp p q = ok Greater)"
  proof cases
    case 1
    then show ?thesis using pn_start_mono [OF assms(1,4,5,6)] c(1) by auto
  next
    case 2
    then show ?thesis using pn_start_mono [OF assms(2,4,5) ov] c(1) by auto
  qed
  then have "(?E p \<le> ?S q \<or> ?E q \<le> ?S p) \<and> pn_cmp p q = ok (cmp_nat (?S p) (?S q))"
    using pos [of p] pos [of q] by (elim disjE conjE) (simp_all del: nat_0_less_mult_iff)
  then show ?thesis using r r' in_region pos [of p] by simp
qed

lemma page_addresses_disjoint_witness:
  "\<exists>s e s' e'. pn_address_range \<lparr>pn_region = 1, pn_index = 1, pn_order = 2\<rparr> 4096 (8192 + 16 * 4096) 8192 4096 = ok (s, e) \<and>
    pn_address_range \<lparr>pn_region = 1, pn_index = 3, pn_order = 0\<rparr> 4096 (8192 + 16 * 4096) 8192 4096 = ok (s', e') \<and>
    (e \<le> s' \<or> e' \<le> s)"
proof -
  have fit: "pn_fits 16 \<lparr>pn_region = 1, pn_index = 1, pn_order = 2\<rparr>" "pn_fits 16 \<lparr>pn_region = 1, pn_index = 3, pn_order = 0\<rparr>"
    by (simp_all add: pn_fits_def MAX_REGIONS_def MAX_MAX_PAGE_ORDER_def)
  have ov: "\<not> pn_overlap \<lparr>pn_region = 1, pn_index = 1, pn_order = 2\<rparr> \<lparr>pn_region = 1, pn_index = 3, pn_order = 0\<rparr>"
    by (simp add: pn_overlap_def block_def set_eq_iff)
  have b: "(16::nat) \<le> 2 ^ 20" "0 < (4096::nat)" "4096 + MAX_REGIONS * (8192 + 16 * 4096) < 2 ^ 64"
    by (simp_all add: MAX_REGIONS_def)
  show ?thesis
    by (rule exE [OF page_addresses_disjoint [OF fit b ov]], elim exE conjE) (intro exI conjI; assumption)
qed

text \<open>
  The hash of page numbers is collision free: hashing starts from the empty state
  without tripping its assertion, and page numbers with equal hash are equal.
\<close>

theorem page_number_hash_injective:
  assumes "pn_wf p" "pn_wf q"
  shows "\<exists>h h'. pn_hash p 0 = ok h \<and> pn_hash q 0 = ok h' \<and> (fh_finish h = fh_finish h' \<longrightarrow> p = q)"
proof -
  have fin: "h = h'" if "fh_finish h = fh_finish h'" for h h'
    using arg_cong [OF that, of "word_rotr 26"] by (simp add: fh_finish_def)
  have "p = q" if "fh_finish (pn_bits p * FAST_HASH_K) = fh_finish (pn_bits q * FAST_HASH_K)"
    by (rule pn_bits_inj [OF assms fast_hash_inj [OF fin [OF that]]])
  then show ?thesis by (simp add: pn_hash_def fh_write_u64_def)
qed

lemma page_number_hash_injective_witness:
  "\<exists>h h'. pn_hash \<lparr>pn_region = 0, pn_index = 1, pn_order = 0\<rparr> 0 = ok h \<and>
    pn_hash \<lparr>pn_region = 1, pn_index = 0, pn_order = 0\<rparr> 0 = ok h' \<and> fh_finish h \<noteq> fh_finish h'"
  using page_number_hash_injective [of "\<lparr>pn_region = 0, pn_index = 1, pn_order = 0\<rparr>" "\<lparr>pn_region = 1, pn_index = 0, pn_order = 0\<rparr>"]
  by (auto simp: pn_wf_def)

end
