(* ===== verification/Xxh3.thy ===== *)
theory Xxh3
  imports Redb_Prelude
begin

text \<open>
  The checksum function, \<open>src/tree_store/page_store/xxh3.rs\<close>: XXH3 with 64 and 128 bits of
  output, for inputs of every length, in its portable, AVX2 and NEON variants.  The
  vector instructions of \<open>std::arch\<close> that the code uses are modelled on their 64 bit
  lanes.  A slice or a vector load outside its buffer is a panic, so that the
  lemmas about returned values also say that no variant reads out of bounds.

  The lemmas show that the hash of any input is defined and that the three variants compute the same
  value, so a database file written on one machine can be verified on another.
\<close>

type_synonym u32 = "32 word"

definition STRIPE_LENGTH :: nat where "STRIPE_LENGTH = 64"
definition SECRET_CONSUME_RATE :: nat where "SECRET_CONSUME_RATE = 8"
definition MIN_SECRET_SIZE :: nat where "MIN_SECRET_SIZE = 136"

definition DEFAULT_SECRET :: "byte list" where
  "DEFAULT_SECRET = [
   0xb8, 0xfe, 0x6c, 0x39, 0x23, 0xa4, 0x4b, 0xbe, 0x7c, 0x01, 0x81, 0x2c, 0xf7, 0x21, 0xad, 0x1c,
   0xde, 0xd4, 0x6d, 0xe9, 0x83, 0x90, 0x97, 0xdb, 0x72, 0x40, 0xa4, 0xa4, 0xb7, 0xb3, 0x67, 0x1f,
   0xcb, 0x79, 0xe6, 0x4e, 0xcc, 0xc0, 0xe5, 0x78, 0x82, 0x5a, 0xd0, 0x7d, 0xcc, 0xff, 0x72, 0x21,
   0xb8, 0x08, 0x46, 0x74, 0xf7, 0x43, 0x24, 0x8e, 0xe0, 0x35, 0x90, 0xe6, 0x81, 0x3a, 0x26, 0x4c,
   0x3c, 0x28, 0x52, 0xbb, 0x91, 0xc3, 0x00, 0xcb, 0x88, 0xd0, 0x65, 0x8b, 0x1b, 0x53, 0x2e, 0xa3,
   0x71, 0x64, 0x48, 0x97, 0xa2, 0x0d, 0xf9, 0x4e, 0x38, 0x19, 0xef, 0x46, 0xa9, 0xde, 0xac, 0xd8,
   0xa8, 0xfa, 0x76, 0x3f, 0xe3, 0x9c, 0x34, 0x3f, 0xf9, 0xdc, 0xbb, 0xc7, 0xc7, 0x0b, 0x4f, 0x1d,
   0x8a, 0x51, 0xe0, 0x4b, 0xcd, 0xb4, 0x59, 0x31, 0xc8, 0x9f, 0x7e, 0xc9, 0xd9, 0x78, 0x73, 0x64,
   0xea, 0xc5, 0xac, 0x83, 0x34, 0xd3, 0xeb, 0xc3, 0xc5, 0x81, 0xa0, 0xff, 0xfa, 0x13, 0x63, 0xeb,
   0x17, 0x0d, 0xdd, 0x51, 0xb7, 0xf0, 0xda, 0x49, 0xd3, 0x16, 0x55, 0x26, 0x29, 0xd4, 0x68, 0x9e,
   0x2b, 0x16, 0xbe, 0x58, 0x7d, 0x47, 0xa1, 0xfc, 0x8f, 0xf8, 0xb8, 0xd1, 0x7a, 0xd0, 0x31, 0xce,
   0x45, 0xcb, 0x3a, 0x8f, 0x95, 0x16, 0x04, 0x28, 0xaf, 0xd7, 0xfb, 0xca, 0xbb, 0x4b, 0x40, 0x7e]"

definition PRIME32 :: "u64 list" where
  "PRIME32 = [0x9E3779B1, 0x85EBCA77, 0xC2B2AE3D]"

definition PRIME64 :: "u64 list" where
  "PRIME64 = [0x9E3779B185EBCA87, 0xC2B2AE3D27D4EB4F, 0x165667B19E3779F9, 0x85EBCA77C2B2AE63, 0x27D4EB2F165667C5]"

definition INIT_ACCUMULATORS :: "u64 list" where
  "INIT_ACCUMULATORS =
     [PRIME32 ! 2, PRIME64 ! 0, PRIME64 ! 1, PRIME64 ! 2, PRIME64 ! 3, PRIME32 ! 1, PRIME64 ! 4, PRIME32 ! 0]"

subsection \<open>Scalar building blocks\<close>

definition get_u32 :: "byte list \<Rightarrow> nat \<Rightarrow> u32 rust" where
  "get_u32 dat i = do { b \<leftarrow> sub_slice dat (i * 4) ((i + 1) * 4); ok (word_from_le b) }"

definition get_u64 :: "byte list \<Rightarrow> nat \<Rightarrow> u64 rust" where
  "get_u64 dat i = do { b \<leftarrow> sub_slice dat (i * 8) ((i + 1) * 8); ok (word_from_le b) }"

definition swap_bytes :: "nat \<Rightarrow> 'a::len word \<Rightarrow> 'a word" where
  "swap_bytes n w = word_from_le (rev (word_to_le n w))"

definition xorshift :: "u64 \<Rightarrow> nat \<Rightarrow> u64" where
  "xorshift x shift = x XOR drop_bit shift x"

definition xxh64_avalanche :: "u64 \<Rightarrow> u64" where
  "xxh64_avalanche x =
     (let x = x XOR drop_bit 33 x;
          x = x * PRIME64 ! 1;
          x = x XOR drop_bit 29 x;
          x = x * PRIME64 ! 2
      in x XOR drop_bit 32 x)"

definition xxh3_avalanche :: "u64 \<Rightarrow> u64" where
  "xxh3_avalanche x =
     (let x = xorshift x 37;
          x = x * 0x165667919E3779F9
      in xorshift x 32)"

definition rrmxmx :: "u64 \<Rightarrow> u64 \<Rightarrow> u64" where
  "rrmxmx x y =
     (let x = x XOR (word_rotl 49 x XOR word_rotl 24 x);
          x = x * 0x9FB21C651E98DF25;
          x = x XOR (drop_bit 35 x + y);
          x = x * 0x9FB21C651E98DF25
      in xorshift x 28)"

definition mul128_and_xor :: "u64 \<Rightarrow> u64 \<Rightarrow> u64 rust" where
  "mul128_and_xor x y = do {
     z \<leftarrow> cmul 128 (unat x) (unat y);
     let z = (word_of_nat z :: u128);
     ok (ucast z XOR ucast (drop_bit 64 z)) }"

definition mix16 :: "byte list \<Rightarrow> byte list \<Rightarrow> u64 \<Rightarrow> u64 rust" where
  "mix16 dat secret seed = do {
     x1 \<leftarrow> get_u64 dat 0;
     x2 \<leftarrow> get_u64 dat 1;
     s1 \<leftarrow> get_u64 secret 0;
     let s1 = s1 + seed;
     s2 \<leftarrow> get_u64 secret 1;
     let s2 = s2 - seed;
     mul128_and_xor (x1 XOR s1) (x2 XOR s2) }"

definition mix32 :: "u64 \<times> u64 \<Rightarrow> byte list \<Rightarrow> byte list \<Rightarrow> byte list \<Rightarrow> u64 \<Rightarrow> (u64 \<times> u64) rust" where
  "mix32 state data1 data2 secret seed = (case state of (r_low, r_high) \<Rightarrow> do {
     m \<leftarrow> mix16 data1 secret seed;
     let r_low = r_low + m;
     a \<leftarrow> get_u64 data2 0;
     b \<leftarrow> get_u64 data2 1;
     let r_low = r_low XOR (a + b);
     secret' \<leftarrow> slice_from secret 16;
     m \<leftarrow> mix16 data2 secret' seed;
     let r_high = r_high + m;
     a \<leftarrow> get_u64 data1 0;
     b \<leftarrow> get_u64 data1 1;
     let r_high = r_high XOR (a + b);
     ok (r_low, r_high) })"

definition merge_accumulators :: "u64 list \<Rightarrow> byte list \<Rightarrow> u64 \<Rightarrow> u64 rust" where
  "merge_accumulators accumulators secret init = do {
     result \<leftarrow> for_each [0..<4] (\<lambda>i result. do {
       a1 \<leftarrow> index accumulators (2 * i);
       a2 \<leftarrow> index accumulators (2 * i + 1);
       t \<leftarrow> slice_from secret (16 * i);
       s1 \<leftarrow> get_u64 t 0;
       s2 \<leftarrow> get_u64 t 1;
       m \<leftarrow> mul128_and_xor (a1 XOR s1) (a2 XOR s2);
       ok (result + m) }) init;
     ok (xxh3_avalanche result) }"

definition pack128 :: "u64 \<Rightarrow> u64 \<Rightarrow> u128" where
  "pack128 high low = push_bit 64 (ucast high) OR ucast low"

subsection \<open>The portable variant\<close>

definition scramble_accumulators_generic :: "u64 list \<Rightarrow> byte list \<Rightarrow> u64 list rust" where
  "scramble_accumulators_generic accumulators secret =
     map_rust (\<lambda>(i, x). do {
       s \<leftarrow> get_u64 secret i;
       let x = xorshift x 47;
       let x = x XOR s;
       ok (x * PRIME32 ! 0) }) (enumerate 0 accumulators)"

definition gen_secret_generic :: "u64 \<Rightarrow> byte list rust" where
  "gen_secret_generic seed = do {
     let secret = replicate (length DEFAULT_SECRET) 0;
     let iterations = length DEFAULT_SECRET div 16;
     for_each [0..<iterations] (\<lambda>i secret. do {
       x \<leftarrow> get_u64 DEFAULT_SECRET (2 * i);
       secret \<leftarrow> write_at secret (16 * i) (word_to_le 8 (x + seed));
       x \<leftarrow> get_u64 DEFAULT_SECRET (2 * i + 1);
       write_at secret (16 * i + 8) (word_to_le 8 (x - seed)) }) secret }"

definition accumulate_stripe_generic :: "u64 list \<Rightarrow> byte list \<Rightarrow> byte list \<Rightarrow> u64 list rust" where
  "accumulate_stripe_generic accumulators dat secret =
     for_each [0..<length accumulators] (\<lambda>i accumulators. do {
       d \<leftarrow> slice_from dat (i * 8);
       x \<leftarrow> get_u64 d 0;
       t \<leftarrow> slice_from secret (i * 8);
       s \<leftarrow> get_u64 t 0;
       let y = x XOR s;
       a \<leftarrow> index accumulators (i XOR 1);
       accumulators \<leftarrow> index_set accumulators (i XOR 1) (a + x);
       z \<leftarrow> cmul 64 (unat (y AND 0xFFFFFFFF)) (unat (drop_bit 32 y));
       a \<leftarrow> index accumulators i;
       index_set accumulators i (a + word_of_nat z) }) accumulators"

subsection \<open>Vector instructions\<close>

definition lo32 :: "u64 \<Rightarrow> u32" where "lo32 w = ucast w"
definition hi32 :: "u64 \<Rightarrow> u32" where "hi32 w = ucast (drop_bit 32 w)"
definition join32 :: "u32 \<Rightarrow> u32 \<Rightarrow> u64" where
  "join32 lo hi = push_bit 32 (ucast hi) OR ucast lo"

text \<open>AVX2: a register is four lanes of 64 bits.\<close>

datatype m256 = M256 (lane0: u64) (lane1: u64) (lane2: u64) (lane3: u64)

fun mm256_map :: "(u64 \<Rightarrow> u64) \<Rightarrow> m256 \<Rightarrow> m256" where
  "mm256_map f (M256 a b c d) = M256 (f a) (f b) (f c) (f d)"

fun mm256_map2 :: "(u64 \<Rightarrow> u64 \<Rightarrow> u64) \<Rightarrow> m256 \<Rightarrow> m256 \<Rightarrow> m256" where
  "mm256_map2 f (M256 a b c d) (M256 a' b' c' d') = M256 (f a a') (f b b') (f c c') (f d d')"

abbreviation "mm256_xor_si256 \<equiv> mm256_map2 (XOR)"
abbreviation "mm256_add_epi64 \<equiv> mm256_map2 (+)"
abbreviation "mm256_srli_epi64 n \<equiv> mm256_map (drop_bit n)"
abbreviation "mm256_slli_epi64 n \<equiv> mm256_map (push_bit n)"

definition mm256_set1_epi32 :: "u32 \<Rightarrow> m256" where
  "mm256_set1_epi32 x = (let l = join32 x x in M256 l l l l)"

definition mm256_set_epi64x :: "u64 \<Rightarrow> u64 \<Rightarrow> u64 \<Rightarrow> u64 \<Rightarrow> m256" where
  "mm256_set_epi64x e3 e2 e1 e0 = M256 e0 e1 e2 e3"

definition mm256_mul_epu32 :: "m256 \<Rightarrow> m256 \<Rightarrow> m256" where
  "mm256_mul_epu32 = mm256_map2 (\<lambda>a b. ucast (lo32 a) * ucast (lo32 b))"

definition shuffle_half :: "nat \<Rightarrow> u64 \<Rightarrow> u64 \<Rightarrow> u64 \<times> u64" where
  "shuffle_half imm a b =
     (let s = [lo32 a, hi32 a, lo32 b, hi32 b]
      in (join32 (s ! (imm mod 4)) (s ! (imm div 4 mod 4)), join32 (s ! (imm div 16 mod 4)) (s ! (imm div 64 mod 4))))"

fun mm256_shuffle_epi32 :: "nat \<Rightarrow> m256 \<Rightarrow> m256" where
  "mm256_shuffle_epi32 imm (M256 a b c d) =
     (case shuffle_half imm a b of (x0, x1) \<Rightarrow> case shuffle_half imm c d of (x2, x3) \<Rightarrow> M256 x0 x1 x2 x3)"

definition mm256_load_bytes :: "byte list \<Rightarrow> nat \<Rightarrow> m256 rust" where
  "mm256_load_bytes bs i = do {
     b \<leftarrow> sub_slice bs (32 * i) (32 * i + 32);
     ok (M256 (word_from_le (take 8 b)) (word_from_le (take 8 (drop 8 b)))
           (word_from_le (take 8 (drop 16 b))) (word_from_le (drop 24 b))) }"

definition mm256_load_u64 :: "u64 list \<Rightarrow> nat \<Rightarrow> m256 rust" where
  "mm256_load_u64 xs i = do {
     b \<leftarrow> sub_slice xs (4 * i) (4 * i + 4);
     ok (M256 (b ! 0) (b ! 1) (b ! 2) (b ! 3)) }"

definition mm256_store_u64 :: "u64 list \<Rightarrow> nat \<Rightarrow> m256 \<Rightarrow> u64 list rust" where
  "mm256_store_u64 xs i v = write_at xs (4 * i) [lane0 v, lane1 v, lane2 v, lane3 v]"

definition mm256_store_bytes :: "byte list \<Rightarrow> nat \<Rightarrow> m256 \<Rightarrow> byte list rust" where
  "mm256_store_bytes bs i v =
     write_at bs (32 * i) (word_to_le 8 (lane0 v) @ word_to_le 8 (lane1 v) @ word_to_le 8 (lane2 v) @ word_to_le 8 (lane3 v))"

text \<open>NEON: a register is two lanes of 64 bits.\<close>

type_synonym u64x2 = "u64 \<times> u64"
type_synonym u32x2 = "u32 \<times> u32"

definition vld1q_u64 :: "u64 list \<Rightarrow> nat \<Rightarrow> u64x2 rust" where
  "vld1q_u64 xs off = do { b \<leftarrow> sub_slice xs off (off + 2); ok (b ! 0, b ! 1) }"

definition vst1q_u64 :: "u64 list \<Rightarrow> nat \<Rightarrow> u64x2 \<Rightarrow> u64 list rust" where
  "vst1q_u64 xs off v = write_at xs off [fst v, snd v]"

definition vld1q_u8 :: "byte list \<Rightarrow> nat \<Rightarrow> u64x2 rust" where
  "vld1q_u8 bs off = do {
     b \<leftarrow> sub_slice bs off (off + 16);
     ok (word_from_le (take 8 b), word_from_le (drop 8 b)) }"

abbreviation "vmap f v \<equiv> map_prod f f v"

fun vmap2 :: "('a \<Rightarrow> 'b \<Rightarrow> 'c) \<Rightarrow> 'a \<times> 'a \<Rightarrow> 'b \<times> 'b \<Rightarrow> 'c \<times> 'c" where
  "vmap2 f (a, b) (a', b') = (f a a', f b b')"

definition vmull_u32 :: "u32x2 \<Rightarrow> u32x2 \<Rightarrow> u64x2" where
  "vmull_u32 = vmap2 (\<lambda>a b. ucast a * ucast b)"

definition vmlal_u32 :: "u64x2 \<Rightarrow> u32x2 \<Rightarrow> u32x2 \<Rightarrow> u64x2" where
  "vmlal_u32 acc a b = vmap2 (+) acc (vmull_u32 a b)"

definition vextq_u64_1 :: "u64x2 \<Rightarrow> u64x2 \<Rightarrow> u64x2" where
  "vextq_u64_1 a b = (snd a, fst b)"

subsection \<open>The AVX2 variant\<close>

definition scramble_accumulators_avx2 :: "u64 list \<Rightarrow> byte list \<Rightarrow> u64 list rust" where
  "scramble_accumulators_avx2 accumulators secret = (let simd_prime = mm256_set1_epi32 (ucast (PRIME32 ! 0)) in
     for_each [0..<STRIPE_LENGTH div 32] (\<lambda>i accumulators. do {
       a \<leftarrow> mm256_load_u64 accumulators i;
       let shifted = mm256_srli_epi64 47 a;
       let b = mm256_xor_si256 a shifted;
       s \<leftarrow> mm256_load_bytes secret i;
       let c = mm256_xor_si256 b s;
       let c_high = mm256_shuffle_epi32 49 c;
       let low = mm256_mul_epu32 c simd_prime;
       let high = mm256_mul_epu32 c_high simd_prime;
       let high = mm256_slli_epi64 32 high;
       let result = mm256_add_epi64 low high;
       mm256_store_u64 accumulators i result }) accumulators)"

definition gen_secret_avx2 :: "u64 \<Rightarrow> byte list rust" where
  "gen_secret_avx2 seed = (let xxh_i64 = 0 - seed; simd_seed = mm256_set_epi64x xxh_i64 seed xxh_i64 seed in
     for_each [0..<6] (\<lambda>i output. do {
       s \<leftarrow> mm256_load_bytes DEFAULT_SECRET i;
       let x = mm256_add_epi64 s simd_seed;
       mm256_store_bytes output i x }) (replicate (length DEFAULT_SECRET) 0))"

definition accumulate_stripe_avx2 :: "u64 list \<Rightarrow> byte list \<Rightarrow> byte list \<Rightarrow> u64 list rust" where
  "accumulate_stripe_avx2 accumulators dat secret = do {
     assert_that (length dat \<ge> STRIPE_LENGTH);
     assert_that (length secret \<ge> STRIPE_LENGTH);
     for_each [0..<STRIPE_LENGTH div 32] (\<lambda>i accumulators. do {
       x \<leftarrow> mm256_load_bytes dat i;
       s \<leftarrow> mm256_load_bytes secret i;
       let z = mm256_xor_si256 x s;
       let z_low = mm256_shuffle_epi32 49 z;
       let product = mm256_mul_epu32 z z_low;
       let shuffled = mm256_shuffle_epi32 78 x;
       result \<leftarrow> mm256_load_u64 accumulators i;
       let result = mm256_add_epi64 result shuffled;
       let result = mm256_add_epi64 result product;
       mm256_store_u64 accumulators i result }) accumulators }"

subsection \<open>The NEON variant\<close>

definition scramble_accumulators_neon :: "u64 list \<Rightarrow> byte list \<Rightarrow> u64 list rust" where
  "scramble_accumulators_neon accumulators secret = do {
     assert_that (PRIME32 ! 0 < 2 ^ 32);
     let prime = ((ucast (PRIME32 ! 0), ucast (PRIME32 ! 0)) :: u32x2);
     assert_that (length secret \<ge> STRIPE_LENGTH);
     for_each [0..<STRIPE_LENGTH div 16] (\<lambda>i accumulators. do {
       accum \<leftarrow> vld1q_u64 accumulators (i * 2);
       let shifted = vmap (drop_bit 47) accum;
       let accum = vmap2 (XOR) accum shifted;
       s \<leftarrow> vld1q_u8 secret (i * 16);
       let accum = vmap2 (XOR) accum s;
       let accum_low = vmap lo32 accum;
       let accum_high = vmap hi32 accum;
       let prod_high = vmap (push_bit 32) (vmull_u32 accum_high prime);
       let accum = vmlal_u32 prod_high accum_low prime;
       vst1q_u64 accumulators (i * 2) accum }) accumulators }"

definition accumulate_stripe_neon :: "u64 list \<Rightarrow> byte list \<Rightarrow> byte list \<Rightarrow> u64 list rust" where
  "accumulate_stripe_neon accumulators dat secret = do {
     assert_that (length dat \<ge> STRIPE_LENGTH);
     assert_that (length secret \<ge> STRIPE_LENGTH);
     for_each [0..<STRIPE_LENGTH div 16] (\<lambda>i accumulators. do {
       x64 \<leftarrow> vld1q_u8 dat (i * 16);
       s \<leftarrow> vld1q_u8 secret (i * 16);
       let y = vextq_u64_1 x64 x64;
       result \<leftarrow> vld1q_u64 accumulators (i * 2);
       let result = vmap2 (+) result y;
       let z = vmap2 (XOR) x64 s;
       let z_low = vmap lo32 z;
       let z_high = vmap hi32 z;
       let result = vmlal_u32 result z_low z_high;
       vst1q_u64 accumulators (i * 2) result }) accumulators }"

subsection \<open>Long inputs\<close>

type_synonym accum_fn = "u64 list \<Rightarrow> byte list \<Rightarrow> byte list \<Rightarrow> u64 list rust"
type_synonym scramble_fn = "u64 list \<Rightarrow> byte list \<Rightarrow> u64 list rust"

definition accumulate_block :: "accum_fn \<Rightarrow> u64 list \<Rightarrow> byte list \<Rightarrow> byte list \<Rightarrow> nat \<Rightarrow> u64 list rust" where
  "accumulate_block accum_stripe accumulators dat secret stripes =
     for_each [0..<stripes] (\<lambda>i accumulators. do {
       d \<leftarrow> slice_from dat (i * STRIPE_LENGTH);
       t \<leftarrow> slice_from secret (i * SECRET_CONSUME_RATE);
       accum_stripe accumulators d t }) accumulators"

definition hash_large_helper :: "byte list \<Rightarrow> byte list \<Rightarrow> scramble_fn \<Rightarrow> accum_fn \<Rightarrow> u64 list rust" where
  "hash_large_helper dat secret scramble accum_stripe = do {
     let accumulators = INIT_ACCUMULATORS;
     sl \<leftarrow> csub (length secret) STRIPE_LENGTH;
     stripes_per_block \<leftarrow> cdiv sl SECRET_CONSUME_RATE;
     let block_len = STRIPE_LENGTH * stripes_per_block;
     dl \<leftarrow> csub (length dat) 1;
     blocks \<leftarrow> cdiv dl block_len;
     accumulators \<leftarrow> for_each [0..<blocks] (\<lambda>i accumulators. do {
       d \<leftarrow> slice_from dat (i * block_len);
       accumulators \<leftarrow> accumulate_block accum_stripe accumulators d secret stripes_per_block;
       t \<leftarrow> slice_from secret sl;
       scramble accumulators t }) accumulators;
     rest \<leftarrow> csub dl (block_len * blocks);
     let stripes = rest div STRIPE_LENGTH;
     d \<leftarrow> slice_from dat (blocks * block_len);
     accumulators \<leftarrow> accumulate_block accum_stripe accumulators d secret stripes;
     off \<leftarrow> csub (length dat) STRIPE_LENGTH;
     d \<leftarrow> slice_from dat off;
     toff \<leftarrow> csub sl 7;
     t \<leftarrow> slice_from secret toff;
     accum_stripe accumulators d t }"

definition hash64_large_generic :: "byte list \<Rightarrow> u64 \<Rightarrow> (u64 \<Rightarrow> byte list rust) \<Rightarrow> scramble_fn \<Rightarrow> accum_fn \<Rightarrow> u64 rust" where
  "hash64_large_generic dat seed gen scramble accum_stripe = do {
     secret \<leftarrow> gen seed;
     accumulators \<leftarrow> hash_large_helper dat secret scramble accum_stripe;
     t \<leftarrow> slice_from secret 11;
     merge_accumulators accumulators t (PRIME64 ! 0 * word_of_nat (length dat)) }"

definition hash128_large_generic :: "byte list \<Rightarrow> u64 \<Rightarrow> (u64 \<Rightarrow> byte list rust) \<Rightarrow> scramble_fn \<Rightarrow> accum_fn \<Rightarrow> u128 rust" where
  "hash128_large_generic dat seed gen scramble accum_stripe = do {
     secret \<leftarrow> gen seed;
     accumulators \<leftarrow> hash_large_helper dat secret scramble accum_stripe;
     t \<leftarrow> slice_from secret 11;
     low \<leftarrow> merge_accumulators accumulators t (PRIME64 ! 0 * word_of_nat (length dat));
     off \<leftarrow> csub (length secret) (64 + 11);
     t \<leftarrow> slice_from secret off;
     high \<leftarrow> merge_accumulators accumulators t (NOT (PRIME64 ! 1 * word_of_nat (length dat)));
     ok (pack128 high low) }"

definition hash64_large_avx2 :: "byte list \<Rightarrow> u64 \<Rightarrow> u64 rust" where
  "hash64_large_avx2 dat seed =
     hash64_large_generic dat seed gen_secret_avx2 scramble_accumulators_avx2 accumulate_stripe_avx2"

definition hash64_large_neon :: "byte list \<Rightarrow> u64 \<Rightarrow> u64 rust" where
  "hash64_large_neon dat seed =
     hash64_large_generic dat seed gen_secret_generic scramble_accumulators_neon accumulate_stripe_neon"

definition hash128_large_avx2 :: "byte list \<Rightarrow> u64 \<Rightarrow> u128 rust" where
  "hash128_large_avx2 dat seed =
     hash128_large_generic dat seed gen_secret_avx2 scramble_accumulators_avx2 accumulate_stripe_avx2"

definition hash128_large_neon :: "byte list \<Rightarrow> u64 \<Rightarrow> u128 rust" where
  "hash128_large_neon dat seed =
     hash128_large_generic dat seed gen_secret_generic scramble_accumulators_neon accumulate_stripe_neon"

subsection \<open>Short inputs, 64 bits\<close>

definition hash64_0 :: "byte list \<Rightarrow> u64 \<Rightarrow> u64 rust" where
  "hash64_0 secret seed = do {
     s7 \<leftarrow> get_u64 secret 7;
     s8 \<leftarrow> get_u64 secret 8;
     ok (xxh64_avalanche ((seed XOR s7) XOR s8)) }"

text \<open>The four bytes that \<open>hash64_1to3\<close> and \<open>hash128_1to3\<close> combine.\<close>

definition combined_1to3 :: "byte list \<Rightarrow> u32 rust" where
  "combined_1to3 dat = do {
     x1 \<leftarrow> index dat 0;
     x2 \<leftarrow> index dat (length dat div 2);
     l \<leftarrow> csub (length dat) 1;
     x3 \<leftarrow> index dat l;
     let x4 = word_of_nat (length dat);
     ok (((push_bit 16 (ucast x1) OR push_bit 24 (ucast x2)) OR ucast x3) OR push_bit 8 x4) }"

definition hash64_1to3 :: "byte list \<Rightarrow> byte list \<Rightarrow> u64 \<Rightarrow> u64 rust" where
  "hash64_1to3 dat secret seed = do {
     c \<leftarrow> combined_1to3 dat;
     let combined = (ucast c :: u64);
     s0 \<leftarrow> get_u32 secret 0;
     s1 \<leftarrow> get_u32 secret 1;
     let result = (ucast (s0 XOR s1) :: u64) + seed;
     ok (xxh64_avalanche (result XOR combined)) }"

definition hash64_4to8 :: "byte list \<Rightarrow> byte list \<Rightarrow> u64 \<Rightarrow> u64 rust" where
  "hash64_4to8 dat secret seed = do {
     let truncate_seed = (ucast seed :: u32);
     let seed = seed XOR push_bit 32 (ucast (swap_bytes 4 truncate_seed));
     x1 \<leftarrow> get_u32 dat 0;
     off \<leftarrow> csub (length dat) 4;
     d \<leftarrow> slice_from dat off;
     x2 \<leftarrow> get_u32 d 0;
     let x = ucast x2 OR push_bit 32 (ucast x1);
     s1 \<leftarrow> get_u64 secret 1;
     s2 \<leftarrow> get_u64 secret 2;
     let s = (s1 XOR s2) - seed;
     ok (rrmxmx (x XOR s) (word_of_nat (length dat))) }"

definition hash64_9to16 :: "byte list \<Rightarrow> byte list \<Rightarrow> u64 \<Rightarrow> u64 rust" where
  "hash64_9to16 dat secret seed = do {
     s3 \<leftarrow> get_u64 secret 3;
     s4 \<leftarrow> get_u64 secret 4;
     let s1 = (s3 XOR s4) + seed;
     s5 \<leftarrow> get_u64 secret 5;
     s6 \<leftarrow> get_u64 secret 6;
     let s2 = (s5 XOR s6) - seed;
     x1 \<leftarrow> get_u64 dat 0;
     let x1 = x1 XOR s1;
     off \<leftarrow> csub (length dat) 8;
     d \<leftarrow> slice_from dat off;
     x2 \<leftarrow> get_u64 d 0;
     let x2 = x2 XOR s2;
     let result = word_of_nat (length dat) + swap_bytes 8 x1;
     let result = result + x2;
     m \<leftarrow> mul128_and_xor x1 x2;
     ok (xxh3_avalanche (result + m)) }"

definition hash64_0to16 :: "byte list \<Rightarrow> byte list \<Rightarrow> u64 \<Rightarrow> u64 rust" where
  "hash64_0to16 dat secret seed =
     (if dat = [] then hash64_0 secret seed
      else if length dat < 4 then hash64_1to3 dat secret seed
      else if length dat \<le> 8 then hash64_4to8 dat secret seed
      else hash64_9to16 dat secret seed)"

definition hash64_17to128 :: "byte list \<Rightarrow> byte list \<Rightarrow> u64 \<Rightarrow> u64 rust" where
  "hash64_17to128 dat secret seed = do {
     let result = PRIME64 ! 0 * word_of_nat (length dat);
     l \<leftarrow> csub (length dat) 1;
     let iterations = l div 32;
     result \<leftarrow> for_each (rev [0..<Suc iterations]) (\<lambda>i result. do {
       d \<leftarrow> slice_from dat (16 * i);
       t \<leftarrow> slice_from secret (32 * i);
       m \<leftarrow> mix16 d t seed;
       let result = result + m;
       off \<leftarrow> csub (length dat) (16 * (i + 1));
       d \<leftarrow> slice_from dat off;
       t \<leftarrow> slice_from secret (32 * i + 16);
       m \<leftarrow> mix16 d t seed;
       ok (result + m) }) result;
     ok (xxh3_avalanche result) }"

definition hash64_129to240 :: "byte list \<Rightarrow> byte list \<Rightarrow> u64 \<Rightarrow> u64 rust" where
  "hash64_129to240 dat secret seed = do {
     let result = PRIME64 ! 0 * word_of_nat (length dat);
     result \<leftarrow> for_each [0..<8] (\<lambda>i result. do {
       d \<leftarrow> slice_from dat (16 * i);
       t \<leftarrow> slice_from secret (16 * i);
       m \<leftarrow> mix16 d t seed;
       ok (result + m) }) result;
     let result = xxh3_avalanche result;
     let iterations = length dat div 16;
     result \<leftarrow> for_each [8..<iterations] (\<lambda>i result. do {
       d \<leftarrow> slice_from dat (16 * i);
       t \<leftarrow> slice_from secret (16 * (i - 8) + 3);
       m \<leftarrow> mix16 d t seed;
       ok (result + m) }) result;
     off \<leftarrow> csub (length dat) 16;
     d \<leftarrow> slice_from dat off;
     t \<leftarrow> slice_from secret (MIN_SECRET_SIZE - 17);
     m \<leftarrow> mix16 d t seed;
     ok (xxh3_avalanche (result + m)) }"

definition hash64_0to240 :: "byte list \<Rightarrow> byte list \<Rightarrow> u64 \<Rightarrow> u64 rust" where
  "hash64_0to240 dat secret seed =
     (if length dat \<le> 16 then hash64_0to16 dat secret seed
      else if length dat \<le> 128 then hash64_17to128 dat secret seed
      else hash64_129to240 dat secret seed)"

subsection \<open>Short inputs, 128 bits\<close>

definition hash128_0 :: "byte list \<Rightarrow> u64 \<Rightarrow> u128 rust" where
  "hash128_0 secret seed = do {
     t \<leftarrow> slice_from secret (3 * 8);
     high \<leftarrow> hash64_0 t seed;
     t \<leftarrow> slice_from secret 8;
     low \<leftarrow> hash64_0 t seed;
     ok (pack128 high low) }"

definition hash128_1to3 :: "byte list \<Rightarrow> byte list \<Rightarrow> u64 \<Rightarrow> u128 rust" where
  "hash128_1to3 dat secret seed = do {
     combined_low \<leftarrow> combined_1to3 dat;
     let combined_high = (ucast (word_rotl 13 (swap_bytes 4 combined_low)) :: u64);
     s0 \<leftarrow> get_u32 secret 0;
     s1 \<leftarrow> get_u32 secret 1;
     let s_low = ucast (s0 XOR s1) + seed;
     s2 \<leftarrow> get_u32 secret 2;
     s3 \<leftarrow> get_u32 secret 3;
     let s_high = ucast (s2 XOR s3) - seed;
     let high = xxh64_avalanche (combined_high XOR s_high);
     let low = xxh64_avalanche (ucast combined_low XOR s_low);
     ok (pack128 high low) }"

definition hash128_4to8 :: "byte list \<Rightarrow> byte list \<Rightarrow> u64 \<Rightarrow> u128 rust" where
  "hash128_4to8 dat secret seed = do {
     let truncate_seed = (ucast seed :: u32);
     let seed = seed XOR push_bit 32 (ucast (swap_bytes 4 truncate_seed));
     x_low \<leftarrow> get_u32 dat 0;
     off \<leftarrow> csub (length dat) 4;
     d \<leftarrow> slice_from dat off;
     assert_that (length d = 4);
     let x_high = (word_from_le d :: u32);
     let x = ucast x_low OR push_bit 32 (ucast x_high);
     s2 \<leftarrow> get_u64 secret 2;
     s3 \<leftarrow> get_u64 secret 3;
     let s = (s2 XOR s3) + seed;
     let y = (ucast (x XOR s) :: u128);
     let y = y * ucast (PRIME64 ! 0 + word_of_nat (length dat * 4));
     let r_low = (ucast y :: u64);
     let r_high = (ucast (drop_bit 64 y) :: u64);
     let r_high = r_high + push_bit 1 r_low;
     let r_low = r_low XOR drop_bit 3 r_high;
     let r_low = xorshift r_low 35;
     let r_low = r_low * 0x9FB21C651E98DF25;
     let r_low = xorshift r_low 28;
     let r_high = xxh3_avalanche r_high;
     ok (pack128 r_high r_low) }"

definition hash128_9to16 :: "byte list \<Rightarrow> byte list \<Rightarrow> u64 \<Rightarrow> u128 rust" where
  "hash128_9to16 dat secret seed = do {
     s4 \<leftarrow> get_u64 secret 4;
     s5 \<leftarrow> get_u64 secret 5;
     let s_low = (s4 XOR s5) - seed;
     s6 \<leftarrow> get_u64 secret 6;
     s7 \<leftarrow> get_u64 secret 7;
     let s_high = (s6 XOR s7) + seed;
     x_low \<leftarrow> get_u64 dat 0;
     off \<leftarrow> csub (length dat) 8;
     d \<leftarrow> slice_from dat off;
     assert_that (length d = 8);
     let x_high = (word_from_le d :: u64);
     let mixed = x_low XOR x_high XOR s_low;
     let x_high = x_high XOR s_high;
     let result = (ucast mixed :: u128) * ucast (PRIME64 ! 0);
     let r_low = (ucast result :: u64);
     let r_high = (ucast (drop_bit 64 result) :: u64);
     l \<leftarrow> csub (length dat) 1;
     let r_low = r_low + push_bit 54 (word_of_nat l);
     let r_high = r_high + x_high;
     let r_high = r_high + (x_high AND 0xFFFFFFFF) * (PRIME32 ! 1 - 1);
     let r_low = r_low XOR swap_bytes 8 r_high;
     let result2 = (ucast r_low :: u128) * ucast (PRIME64 ! 1);
     let r2_low = (ucast result2 :: u64);
     let r2_high = (ucast (drop_bit 64 result2) :: u64);
     let r2_high = r2_high + r_high * PRIME64 ! 1;
     let r2_low = xxh3_avalanche r2_low;
     let r2_high = xxh3_avalanche r2_high;
     ok (pack128 r2_high r2_low) }"

definition hash128_0to16 :: "byte list \<Rightarrow> byte list \<Rightarrow> u64 \<Rightarrow> u128 rust" where
  "hash128_0to16 dat secret seed =
     (if dat = [] then hash128_0 secret seed
      else if length dat < 4 then hash128_1to3 dat secret seed
      else if length dat \<le> 8 then hash128_4to8 dat secret seed
      else hash128_9to16 dat secret seed)"

text \<open>A call of \<open>mix32\<close> on slices that start at the given offsets.\<close>

definition mix32_at :: "u64 \<times> u64 \<Rightarrow> byte list \<Rightarrow> nat \<Rightarrow> nat \<Rightarrow> byte list \<Rightarrow> nat \<Rightarrow> u64 \<Rightarrow> (u64 \<times> u64) rust" where
  "mix32_at state dat a b secret c seed = do {
     d1 \<leftarrow> slice_from dat a;
     d2 \<leftarrow> slice_from dat b;
     t \<leftarrow> slice_from secret c;
     mix32 state d1 d2 t seed }"

text \<open>The last step of \<open>hash128_17to128\<close> and \<open>hash128_129to240\<close>.\<close>

definition finish128 :: "u64 \<times> u64 \<Rightarrow> nat \<Rightarrow> u64 \<Rightarrow> u128" where
  "finish128 state len seed =
     (let r_low = fst state + snd state;
          r_high = fst state * PRIME64 ! 0;
          r_high = r_high + snd state * PRIME64 ! 3;
          r_high = r_high + (word_of_nat len - seed) * PRIME64 ! 1;
          r_low = xxh3_avalanche r_low;
          r_high = 0 - xxh3_avalanche r_high
      in pack128 r_high r_low)"

definition hash128_17to128 :: "byte list \<Rightarrow> byte list \<Rightarrow> u64 \<Rightarrow> u128 rust" where
  "hash128_17to128 dat secret seed = do {
     let len = length dat;
     let state = (PRIME64 ! 0 * word_of_nat len, 0);
     state \<leftarrow> (if len > 32 then do {
         state \<leftarrow> (if len > 64 then do {
             state \<leftarrow> (if len > 96 then mix32_at state dat 48 (len - 64) secret 96 seed else ok state);
             mix32_at state dat 32 (len - 48) secret 64 seed }
           else ok state);
         mix32_at state dat 16 (len - 32) secret 32 seed }
       else ok state);
     off \<leftarrow> csub len 16;
     state \<leftarrow> mix32_at state dat 0 off secret 0 seed;
     ok (finish128 state len seed) }"

definition hash128_129to240 :: "byte list \<Rightarrow> byte list \<Rightarrow> u64 \<Rightarrow> u128 rust" where
  "hash128_129to240 dat secret seed = do {
     let len = length dat;
     let iterations = len div 32;
     let state = (PRIME64 ! 0 * word_of_nat len, 0);
     state \<leftarrow> for_each [0..<4]
       (\<lambda>i state. mix32_at state dat (32 * i) (32 * i + 16) secret (32 * i) seed) state;
     let state = map_prod xxh3_avalanche xxh3_avalanche state;
     state \<leftarrow> for_each [4..<iterations]
       (\<lambda>i state. mix32_at state dat (32 * i) (32 * i + 16) secret (3 + 32 * (i - 4)) seed) state;
     o1 \<leftarrow> csub len 16;
     o2 \<leftarrow> csub len 32;
     state \<leftarrow> mix32_at state dat o1 o2 secret (MIN_SECRET_SIZE - 33) (0 - seed);
     ok (finish128 state len seed) }"

definition hash128_0to240 :: "byte list \<Rightarrow> byte list \<Rightarrow> u64 \<Rightarrow> u128 rust" where
  "hash128_0to240 dat secret seed =
     (if length dat \<le> 16 then hash128_0to16 dat secret seed
      else if length dat \<le> 128 then hash128_17to128 dat secret seed
      else hash128_129to240 dat secret seed)"

subsection \<open>Dispatch\<close>

text \<open>The target of the build and, on x86, the feature that the running CPU reports.\<close>

datatype target = X86 (avx2_detected: bool) | Aarch64 | Portable

definition hash64_with_seed :: "target \<Rightarrow> byte list \<Rightarrow> u64 \<Rightarrow> u64 rust" where
  "hash64_with_seed t dat seed =
     (if length dat \<le> 240 then hash64_0to240 dat DEFAULT_SECRET seed
      else case t of
        X86 True \<Rightarrow> hash64_large_avx2 dat seed
      | Aarch64 \<Rightarrow> hash64_large_neon dat seed
      | _ \<Rightarrow> hash64_large_generic dat seed gen_secret_generic scramble_accumulators_generic accumulate_stripe_generic)"

definition hash128_with_seed :: "target \<Rightarrow> byte list \<Rightarrow> u64 \<Rightarrow> u128 rust" where
  "hash128_with_seed t dat seed =
     (if length dat \<le> 240 then hash128_0to240 dat DEFAULT_SECRET seed
      else case t of
        X86 True \<Rightarrow> hash128_large_avx2 dat seed
      | Aarch64 \<Rightarrow> hash128_large_neon dat seed
      | _ \<Rightarrow> hash128_large_generic dat seed gen_secret_generic scramble_accumulators_generic accumulate_stripe_generic)"

subsection \<open>Reading and multiplying\<close>

named_theorems xxh_simps "values of the reads and of the vector instructions"

definition u64_at :: "byte list \<Rightarrow> nat \<Rightarrow> u64" where
  "u64_at bs i = word_from_le (take 8 (drop (8 * i) bs))"

lemma length_DEFAULT_SECRET [simp]: "length DEFAULT_SECRET = 192"
  by (simp add: DEFAULT_SECRET_def)

lemma get_u64_ok [simp]: "8 * i + 8 \<le> length bs \<Longrightarrow> get_u64 bs i = ok (u64_at bs i)"
  by (simp add: get_u64_def sub_slice_def u64_at_def mult.commute)

lemma get_u32_ok [simp]: "4 * i + 4 \<le> length bs \<Longrightarrow> get_u32 bs i = ok (word_from_le (take 4 (drop (4 * i) bs)))"
  by (simp add: get_u32_def sub_slice_def mult.commute)

lemma u64_at_drop [xxh_simps]: "u64_at (drop (8 * k) bs) i = u64_at bs (k + i)" "u64_at (drop (k * 8) bs) i = u64_at bs (k + i)"
  by (simp_all add: u64_at_def algebra_simps)

lemma cmul_unat:
  fixes x y :: u64
  shows "cmul 128 (unat x) (unat y) = ok (unat x * unat y)"
    and "unat x < 2 ^ 32 \<Longrightarrow> unat y < 2 ^ 32 \<Longrightarrow> cmul 64 (unat x) (unat y) = ok (unat x * unat y)"
proof -
  have "unat x < 2 ^ 64" "unat y < 2 ^ 64" using unsigned_less [where ?w = x and ?'a = nat] unsigned_less [where ?w = y and ?'a = nat] by simp_all
  then have "unat x * unat y < 2 ^ 64 * 2 ^ 64" by (intro mult_strict_mono) auto
  then show "cmul 128 (unat x) (unat y) = ok (unat x * unat y)" by (simp add: cmul_def)
  assume "unat x < 2 ^ 32" "unat y < 2 ^ 32"
  then have "unat x * unat y < 2 ^ 32 * 2 ^ 32" by (intro mult_strict_mono) auto
  then show "cmul 64 (unat x) (unat y) = ok (unat x * unat y)" by (simp add: cmul_def)
qed

definition mul_fold :: "u64 \<Rightarrow> u64 \<Rightarrow> u64" where
  "mul_fold x y = the (mul128_and_xor x y)"

lemma mul128_ok [simp]: "mul128_and_xor x y = ok (mul_fold x y)"
  by (simp add: mul_fold_def mul128_and_xor_def cmul_unat Let_def)

lemma unat_small: "(\<And>i. 32 \<le> i \<Longrightarrow> \<not> bit w i) \<Longrightarrow> unat (w :: u64) < 2 ^ 32"
proof -
  assume b: "\<And>i. 32 \<le> i \<Longrightarrow> \<not> bit w i"
  have "bit w n \<Longrightarrow> n < 32" for n using b by (meson not_le)
  then have "take_bit 32 w = w" by (intro bit_eqI) (auto simp: bit_take_bit_iff)
  then have "unat w = take_bit 32 (unat w)" by (metis unsigned_take_bit_eq)
  then show ?thesis by (metis take_bit_nat_less_exp)
qed

lemma mask32: "(0xFFFFFFFF :: u64) = mask 32"
  by (simp add: mask_eq_exp_minus_1)

lemma half_mul [xxh_simps]:
  "cmul 64 (unat (y AND 0xFFFFFFFF)) (unat (drop_bit 32 y)) = ok (unat (y AND 0xFFFFFFFF) * unat (drop_bit 32 (y :: u64)))"
  by (intro cmul_unat(2) unat_small)
    (auto simp: mask32 bit_and_iff bit_mask_iff bit_drop_bit_eq dest: bit_imp_le_length)

lemma half_mul_word [xxh_simps]: "word_of_nat (unat a * unat b) = (a * b :: u64)"
  by simp

subsection \<open>Vector lanes\<close>

lemma lanes [simp]:
  "lo32 (join32 a b) = a" "hi32 (join32 a b) = b" "join32 (lo32 w) (hi32 w) = w"
  by (rule bit_eqI; auto simp: lo32_def hi32_def join32_def bit_or_iff bit_push_bit_iff bit_drop_bit_eq
      bit_ucast_iff dest: bit_imp_le_length)+

lemma ucast_lanes:
  "ucast (lo32 w) = w AND 0xFFFFFFFF" "ucast (hi32 w) = drop_bit 32 w"
  by (rule bit_eqI; auto simp: lo32_def hi32_def mask32 bit_and_iff bit_mask_iff bit_drop_bit_eq
      bit_ucast_iff dest: bit_imp_le_length)+

lemma split_word: "(w :: u64) = (w AND 0xFFFFFFFF) + push_bit 32 (drop_bit 32 w)"
  using bits_ident [of 32 w] by (simp only: mask32 take_bit_eq_mask [symmetric] add.commute)

lemma mul_prime [xxh_simps]:
  "(w AND 0xFFFFFFFF) * p + push_bit 32 (drop_bit 32 w * p) = w * (p :: u64)"
proof -
  have "w * p = ((w AND 0xFFFFFFFF) + push_bit 32 (drop_bit 32 w)) * p" using split_word [of w] by simp
  then show ?thesis by (simp add: push_bit_eq_mult algebra_simps)
qed

lemma shuffle_49: "mm256_shuffle_epi32 49 (M256 a b c d) =
    M256 (join32 (hi32 a) (lo32 a)) (join32 (hi32 b) (lo32 a)) (join32 (hi32 c) (lo32 c)) (join32 (hi32 d) (lo32 c))"
  by (simp add: shuffle_half_def Let_def)

lemma shuffle_78: "mm256_shuffle_epi32 78 (M256 a b c d) = M256 b a d c"
  by (simp add: shuffle_half_def Let_def)

lemma load_bytes [xxh_simps]:
  "32 * i + 32 \<le> length bs \<Longrightarrow> mm256_load_bytes bs i =
    ok (M256 (u64_at bs (4 * i)) (u64_at bs (4 * i + 1)) (u64_at bs (4 * i + 2)) (u64_at bs (4 * i + 3)))"
  by (simp add: mm256_load_bytes_def sub_slice_def u64_at_def drop_take algebra_simps)

lemma vld1q_u8_ok [xxh_simps]:
  "16 * i + 16 \<le> length bs \<Longrightarrow> vld1q_u8 bs (i * 16) = ok (u64_at bs (2 * i), u64_at bs (2 * i + 1))"
  by (simp add: vld1q_u8_def sub_slice_def u64_at_def drop_take algebra_simps)

subsection \<open>One stripe, one scramble\<close>

text \<open>The closed forms that the three variants compute, on the eight accumulators.\<close>

definition half_prod :: "u64 \<Rightarrow> u64" where
  "half_prod y = (y AND 0xFFFFFFFF) * drop_bit 32 y"

definition stripe_sum :: "u64 list \<Rightarrow> byte list \<Rightarrow> byte list \<Rightarrow> u64 list" where
  "stripe_sum acc dat secret =
     map (\<lambda>i. acc ! i + u64_at dat (if even i then i + 1 else i - 1) + half_prod (u64_at dat i XOR u64_at secret i)) [0..<8]"

definition scrambled :: "u64 list \<Rightarrow> byte list \<Rightarrow> u64 list" where
  "scrambled acc secret = map (\<lambda>i. (xorshift (acc ! i) 47 XOR u64_at secret i) * PRIME32 ! 0) [0..<8]"

lemma eight: "length xs = 8 \<longleftrightarrow> (\<exists>a b c d e f g h. xs = [a, b, c, d, e, f, g, h])"
  by (auto simp: eval_nat_numeral length_Suc_conv)

lemma eightE:
  assumes "length xs = 8"
  obtains a b c d e f g h where "xs = [a, b, c, d, e, f, g, h]"
  using assms unfolding eight by (elim exE) (rule that)

lemma upto_consts:
  "[0..<8] = [0, 1, 2, 3, 4, 5, 6, 7 :: nat]" "[0..<4] = [0, 1, 2, 3 :: nat]" "[0..<2] = [0, 1 :: nat]"
  by (simp_all add: upt_rec)

lemma xor_1_consts: "0 XOR 1 = (1 :: nat)" "1 XOR 1 = (0 :: nat)" "2 XOR 1 = (3 :: nat)" "3 XOR 1 = (2 :: nat)"
  "4 XOR 1 = (5 :: nat)" "5 XOR 1 = (4 :: nat)" "6 XOR 1 = (7 :: nat)" "7 XOR 1 = (6 :: nat)"
  by simp_all

lemma xor_1_less: "i < 8 \<Longrightarrow> i XOR 1 < (8 :: nat) \<and> i XOR 1 \<noteq> i"
proof -
  assume "i < 8"
  then have "i = 0 \<or> i = 1 \<or> i = 2 \<or> i = 3 \<or> i = 4 \<or> i = 5 \<or> i = 6 \<or> i = 7" by linarith
  then show ?thesis by (elim disjE) simp_all
qed

lemma stripe_fold:
  fixes a b c d e f g h :: u64
  shows "fold (\<lambda>i acc. acc[i XOR 1 := acc ! (i XOR 1) + x i, i := acc ! i + p i]) [0..<8] [a, b, c, d, e, f, g, h] =
    map (\<lambda>i. [a, b, c, d, e, f, g, h] ! i + x (if even i then i + 1 else i - 1) + p i) [0..<8]"
  by (simp add: upto_consts add_ac flip: numeral_2_eq_2 numeral_3_eq_3)

lemma accumulate_generic_ok:
  assumes "length acc = 8" "64 \<le> length dat" "64 \<le> length secret"
  shows "accumulate_stripe_generic acc dat secret = ok (stripe_sum acc dat secret)"
proof -
  let ?x = "u64_at dat" let ?y = "\<lambda>i. u64_at dat i XOR u64_at secret i"
  let ?p = "\<lambda>i. half_prod (?y i)"
  let ?g = "\<lambda>i acc. acc[i XOR 1 := acc ! (i XOR 1) + ?x i, i := acc ! i + ?p i]"
  have "accumulate_stripe_generic acc dat secret = ok (fold ?g [0..<8] acc)"
    unfolding accumulate_stripe_generic_def assms(1)
  proof (rule conjunct1 [OF for_each_fold [where P = "\<lambda>l. length l = 8"]])
    fix i :: nat and u :: "u64 list" assume i: "i \<in> set [0..<8]" and u: "length u = 8"
    have j: "i XOR 1 < 8" "i XOR 1 \<noteq> i" using xor_1_less [of i] i by auto
    have o: "i * 8 \<le> length dat" "i * 8 \<le> length secret" "8 \<le> length dat - i * 8" "8 \<le> length secret - i * 8"
      using i assms(2,3) by auto
    show "(do {
       d \<leftarrow> slice_from dat (i * 8);
       x \<leftarrow> get_u64 d 0;
       t \<leftarrow> slice_from secret (i * 8);
       s \<leftarrow> get_u64 t 0;
       let y = x XOR s;
       a \<leftarrow> index u (i XOR 1);
       accumulators \<leftarrow> index_set u (i XOR 1) (a + x);
       z \<leftarrow> cmul 64 (unat (y AND 0xFFFFFFFF)) (unat (drop_bit 32 y));
       a \<leftarrow> index accumulators i;
       index_set accumulators i (a + word_of_nat z) }) = ok (?g i u) \<and> length (?g i u) = 8"
      using i u j o by (simp add: u64_at_drop half_mul half_prod_def Let_def)
  qed (rule assms(1))
  moreover obtain a b c d e f g h where acc: "acc = [a, b, c, d, e, f, g, h]" by (rule eightE [OF assms(1)])
  have "fold ?g [0..<8] acc = stripe_sum acc dat secret"
    unfolding acc stripe_sum_def by (rule stripe_fold)
  ultimately show ?thesis by (rule trans [OF _ arg_cong])
qed

lemma store_four: "mm256_store_u64 [a, b, c, d, e, f, g, h] 0 (M256 w x y z) = ok [w, x, y, z, e, f, g, h]"
  "mm256_store_u64 [a, b, c, d, e, f, g, h] 1 (M256 w x y z) = ok [a, b, c, d, w, x, y, z]"
  "mm256_load_u64 [a, b, c, d, e, f, g, h] 0 = ok (M256 a b c d)"
  "mm256_load_u64 [a, b, c, d, e, f, g, h] 1 = ok (M256 e f g h)"
  by (simp_all add: mm256_store_u64_def mm256_load_u64_def write_at_def sub_slice_def)

lemma avx2_lanes:
  "mm256_mul_epu32 (M256 a b c d) (mm256_shuffle_epi32 49 (M256 a b c d)) =
    M256 (half_prod a) (half_prod b) (half_prod c) (half_prod d)"
  by (simp add: shuffle_49 mm256_mul_epu32_def del: mm256_shuffle_epi32.simps, simp add: ucast_lanes half_prod_def)

lemma accumulate_avx2_ok:
  assumes "length acc = 8" "64 \<le> length dat" "64 \<le> length secret"
  shows "accumulate_stripe_avx2 acc dat secret = ok (stripe_sum acc dat secret)"
proof -
  obtain a b c d e f g h where acc: "acc = [a, b, c, d, e, f, g, h]" by (rule eightE [OF assms(1)])
  show ?thesis using assms(2,3)
    by (simp add: acc accumulate_stripe_avx2_def stripe_sum_def upto_consts STRIPE_LENGTH_def load_bytes
        store_four [simplified] avx2_lanes shuffle_78 Let_def flip: numeral_2_eq_2 numeral_3_eq_3 del: mm256_shuffle_epi32.simps)
qed

lemma store_two:
  "vld1q_u64 [a, b, c, d, e, f, g, h] 0 = ok (a, b)" "vld1q_u64 [a, b, c, d, e, f, g, h] 2 = ok (c, d)"
  "vld1q_u64 [a, b, c, d, e, f, g, h] 4 = ok (e, f)" "vld1q_u64 [a, b, c, d, e, f, g, h] 6 = ok (g, h)"
  "vst1q_u64 [a, b, c, d, e, f, g, h] 0 (x, y) = ok [x, y, c, d, e, f, g, h]"
  "vst1q_u64 [a, b, c, d, e, f, g, h] 2 (x, y) = ok [a, b, x, y, e, f, g, h]"
  "vst1q_u64 [a, b, c, d, e, f, g, h] 4 (x, y) = ok [a, b, c, d, x, y, g, h]"
  "vst1q_u64 [a, b, c, d, e, f, g, h] 6 (x, y) = ok [a, b, c, d, e, f, x, y]"
  by (simp_all add: vld1q_u64_def vst1q_u64_def sub_slice_def write_at_def)

lemma neon_lanes: "vmull_u32 (lo32 a, lo32 b) (hi32 a, hi32 b) = (half_prod a, half_prod b)"
  by (simp add: vmull_u32_def ucast_lanes half_prod_def)

lemma neon_loads:
  assumes "64 \<le> length bs"
  shows "vld1q_u8 bs 0 = ok (u64_at bs 0, u64_at bs 1)" "vld1q_u8 bs 16 = ok (u64_at bs 2, u64_at bs 3)"
    "vld1q_u8 bs 32 = ok (u64_at bs 4, u64_at bs 5)" "vld1q_u8 bs 48 = ok (u64_at bs 6, u64_at bs 7)"
  using vld1q_u8_ok [of 0 bs] vld1q_u8_ok [of 1 bs] vld1q_u8_ok [of 2 bs] vld1q_u8_ok [of 3 bs] assms
  by (simp_all flip: numeral_2_eq_2 numeral_3_eq_3)

lemma accumulate_neon_ok:
  assumes "length acc = 8" "64 \<le> length dat" "64 \<le> length secret"
  shows "accumulate_stripe_neon acc dat secret = ok (stripe_sum acc dat secret)"
proof -
  obtain a b c d e f g h where acc: "acc = [a, b, c, d, e, f, g, h]" by (rule eightE [OF assms(1)])
  show ?thesis using assms(2,3)
    by (simp add: acc accumulate_stripe_neon_def stripe_sum_def upto_consts STRIPE_LENGTH_def neon_loads store_two
        vmlal_u32_def neon_lanes vextq_u64_1_def Let_def flip: numeral_2_eq_2 numeral_3_eq_3)
qed

lemma scramble_generic_ok:
  assumes "length acc = 8" "64 \<le> length secret"
  shows "scramble_accumulators_generic acc secret = ok (scrambled acc secret)"
proof -
  obtain a b c d e f g h where acc: "acc = [a, b, c, d, e, f, g, h]" by (rule eightE [OF assms(1)])
  show ?thesis using assms(2)
    by (simp add: acc scramble_accumulators_generic_def scrambled_def upto_consts Let_def flip: numeral_2_eq_2 numeral_3_eq_3)
qed

definition prime_mul :: "u64 \<Rightarrow> u64" where
  "prime_mul x = x * PRIME32 ! 0"

lemma prime32_word: "ucast (ucast (PRIME32 ! 0) :: u32) = PRIME32 ! 0"
  by (simp add: PRIME32_def)

lemma avx2_prime:
  "mm256_add_epi64 (mm256_mul_epu32 (M256 a b c d) (mm256_set1_epi32 (ucast (PRIME32 ! 0))))
     (mm256_slli_epi64 32 (mm256_mul_epu32 (mm256_shuffle_epi32 49 (M256 a b c d)) (mm256_set1_epi32 (ucast (PRIME32 ! 0))))) =
   M256 (prime_mul a) (prime_mul b) (prime_mul c) (prime_mul d)"
  by (simp add: shuffle_49 mm256_mul_epu32_def mm256_set1_epi32_def Let_def prime32_word del: mm256_shuffle_epi32.simps,
      simp add: ucast_lanes mul_prime prime_mul_def)

lemma scramble_avx2_ok:
  assumes "length acc = 8" "64 \<le> length secret"
  shows "scramble_accumulators_avx2 acc secret = ok (scrambled acc secret)"
proof -
  obtain a b c d e f g h where acc: "acc = [a, b, c, d, e, f, g, h]" by (rule eightE [OF assms(1)])
  show ?thesis using assms(2)
    by (simp add: acc scramble_accumulators_avx2_def scrambled_def upto_consts STRIPE_LENGTH_def load_bytes
        store_four [simplified] avx2_prime [unfolded Let_def] xorshift_def Let_def prime_mul_def [symmetric] flip: numeral_2_eq_2 numeral_3_eq_3
        del: mm256_shuffle_epi32.simps)
qed

lemma neon_prime:
  "vmlal_u32 (vmap (push_bit 32) (vmull_u32 (hi32 a, hi32 b) (ucast (PRIME32 ! 0), ucast (PRIME32 ! 0))))
     (lo32 a, lo32 b) (ucast (PRIME32 ! 0), ucast (PRIME32 ! 0)) = (prime_mul a, prime_mul b)"
  using mul_prime [of a "PRIME32 ! 0"] mul_prime [of b "PRIME32 ! 0"]
  by (simp add: vmlal_u32_def vmull_u32_def prime32_word ucast_lanes prime_mul_def add.commute)

lemma scramble_neon_ok:
  assumes "length acc = 8" "64 \<le> length secret"
  shows "scramble_accumulators_neon acc secret = ok (scrambled acc secret)"
proof -
  obtain a b c d e f g h where acc: "acc = [a, b, c, d, e, f, g, h]" by (rule eightE [OF assms(1)])
  have "PRIME32 ! 0 < 2 ^ 32" by (simp add: PRIME32_def)
  then show ?thesis using assms(2)
    by (simp add: acc scramble_accumulators_neon_def scrambled_def upto_consts STRIPE_LENGTH_def neon_loads store_two
        neon_prime xorshift_def Let_def prime_mul_def [symmetric] flip: numeral_2_eq_2 numeral_3_eq_3)
qed

lemma length_stripe [simp]: "length (stripe_sum acc dat secret) = 8" "length (scrambled acc secret) = 8"
  by (simp_all add: stripe_sum_def scrambled_def)

subsection \<open>The secret\<close>

lemma write_at_append:
  "write_at b p u \<bind> (\<lambda>b. write_at b (p + length u) v) = write_at b p (u @ v)"
  by (auto simp: write_at_def add_ac)

lemma fill_chunks:
  assumes "\<And>i. i < n \<Longrightarrow> length (g i) = k"
  shows "for_each [0..<n] (\<lambda>i b. write_at b (k * i) (g i)) (replicate (n * k) z) = ok (concat (map g [0..<n]))"
proof -
  have "for_each [0..<m] (\<lambda>i b. write_at b (k * i) (g i)) (replicate (n * k) z) =
      ok (concat (map g [0..<m]) @ replicate ((n - m) * k) z)" if "m \<le> n" for m
    using that
  proof (induction m)
    case (Suc m)
    have "length x = k" if "x \<in> set (map g [0..<m])" for x using that assms Suc.prems by auto
    from length_concat_const [of "map g [0..<m]" k, OF this] have l: "length (concat (map g [0..<m])) = k * m" by (simp add: mult.commute)
    have r: "(n - m) * k = k + (n - Suc m) * k" using Suc.prems by (cases "n - m") (auto simp: Suc_diff_le)
    have "write_at (concat (map g [0..<m]) @ replicate ((n - m) * k) z) (k * m) (g m) =
        ok (concat (map g [0..<m]) @ g m @ replicate ((n - Suc m) * k) z)"
      using assms [of m] Suc.prems l by (simp add: write_at_def r)
    then show ?case using Suc by (simp add: for_each_append)
  qed simp
  from this [of n] show ?thesis by simp
qed

definition secret_pair :: "u64 \<Rightarrow> nat \<Rightarrow> byte list" where
  "secret_pair seed i = word_to_le 8 (u64_at DEFAULT_SECRET (2 * i) + seed) @ word_to_le 8 (u64_at DEFAULT_SECRET (2 * i + 1) - seed)"

lemma gen_secret_generic_ok: "gen_secret_generic seed = ok (concat (map (secret_pair seed) [0..<12]))"
proof -
  have "for_each [0..<12] (\<lambda>i secret. do {
       x \<leftarrow> get_u64 DEFAULT_SECRET (2 * i);
       secret \<leftarrow> write_at secret (16 * i) (word_to_le 8 (x + seed));
       x \<leftarrow> get_u64 DEFAULT_SECRET (2 * i + 1);
       write_at secret (16 * i + 8) (word_to_le 8 (x - seed)) }) s =
     for_each [0..<12] (\<lambda>i secret. write_at secret (16 * i) (secret_pair seed i)) s" for s
  proof (rule for_each_cong [OF refl refl])
    fix i :: nat and u :: "byte list" assume "i \<in> set [0..<12]"
    then have i: "i < 12" by simp
    have "get_u64 DEFAULT_SECRET (2 * i) = ok (u64_at DEFAULT_SECRET (2 * i))"
      "get_u64 DEFAULT_SECRET (2 * i + 1) = ok (u64_at DEFAULT_SECRET (2 * i + 1))"
      using i by (auto intro!: get_u64_ok)
    then show "(do {
       x \<leftarrow> get_u64 DEFAULT_SECRET (2 * i);
       secret \<leftarrow> write_at u (16 * i) (word_to_le 8 (x + seed));
       x \<leftarrow> get_u64 DEFAULT_SECRET (2 * i + 1);
       write_at secret (16 * i + 8) (word_to_le 8 (x - seed)) }) = write_at u (16 * i) (secret_pair seed i)"
      using write_at_append [of u "16 * i" "word_to_le 8 (u64_at DEFAULT_SECRET (2 * i) + seed)"] by (simp add: secret_pair_def)
  qed
  moreover have "length (secret_pair seed i) = 16" for i by (simp add: secret_pair_def)
  ultimately show ?thesis using fill_chunks [of 12 "secret_pair seed" 16 0] by (simp add: gen_secret_generic_def)
qed

lemma gen_secret_avx2_ok: "gen_secret_avx2 seed = gen_secret_generic seed"
proof -
  let ?g = "\<lambda>i. secret_pair seed (2 * i) @ secret_pair seed (2 * i + 1)"
  have "for_each [0..<6] (\<lambda>i output. do {
       s \<leftarrow> mm256_load_bytes DEFAULT_SECRET i;
       let x = mm256_add_epi64 s (mm256_set_epi64x (0 - seed) seed (0 - seed) seed);
       mm256_store_bytes output i x }) s =
     for_each [0..<6] (\<lambda>i output. write_at output (32 * i) (?g i)) s" for s
  proof (rule for_each_cong [OF refl refl])
    fix i :: nat and u :: "byte list" assume "i \<in> set [0..<6]"
    then have "32 * i + 32 \<le> length DEFAULT_SECRET" by simp
    from load_bytes [OF this]
    show "(do {
       s \<leftarrow> mm256_load_bytes DEFAULT_SECRET i;
       let x = mm256_add_epi64 s (mm256_set_epi64x (0 - seed) seed (0 - seed) seed);
       mm256_store_bytes u i x }) = write_at u (32 * i) (?g i)"
      by (simp add: mm256_set_epi64x_def mm256_store_bytes_def secret_pair_def numeral_3_eq_3)
  qed
  moreover have "length (secret_pair seed i) = 16" for i by (simp add: secret_pair_def)
  ultimately have "gen_secret_avx2 seed = ok (concat (map ?g [0..<6]))"
    using fill_chunks [of 6 ?g 32 0] by (simp add: gen_secret_avx2_def Let_def)
  also have "concat (map ?g [0..<6]) = concat (map (secret_pair seed) [0..<12])"
    by (simp add: upt_rec flip: numeral_2_eq_2 numeral_3_eq_3)
  finally show ?thesis by (simp only: gen_secret_generic_ok)
qed

subsection \<open>Long inputs: all variants agree\<close>

text \<open>What the long-input hash needs of a variant: the secret, the scramble and the stripe functions
  return the closed forms above whenever their buffers hold a stripe.\<close>

definition block_sum :: "u64 list \<Rightarrow> byte list \<Rightarrow> byte list \<Rightarrow> nat \<Rightarrow> u64 list" where
  "block_sum acc dat secret stripes =
     fold (\<lambda>i acc. stripe_sum acc (drop (i * 64) dat) (drop (i * 8) secret)) [0..<stripes] acc"

definition large_acc :: "byte list \<Rightarrow> byte list \<Rightarrow> u64 list" where
  "large_acc dat secret =
     (let l = length dat - 1;
          blocks = l div 1024;
          acc = fold (\<lambda>i acc. scrambled (block_sum acc (drop (i * 1024) dat) secret 16) (drop 128 secret)) [0..<blocks] INIT_ACCUMULATORS;
          acc = block_sum acc (drop (blocks * 1024) dat) secret ((l - 1024 * blocks) div 64)
      in stripe_sum acc (drop (length dat - 64) dat) (drop 121 secret))"

lemma length_secret: "gen_secret_generic seed = ok secret \<Longrightarrow> length secret = 192"
proof -
  have "length (secret_pair seed i) = 16" for i by (simp add: secret_pair_def)
  then have "length (concat (map (secret_pair seed) [0..<12])) = 192"
    using length_concat_const [of "map (secret_pair seed) [0..<12]" 16] by force
  then show "gen_secret_generic seed = ok secret \<Longrightarrow> length secret = 192" by (auto simp: gen_secret_generic_ok)
qed

locale stripe_engine =
  fixes gen :: "u64 \<Rightarrow> byte list rust" and scramble :: scramble_fn and accum :: accum_fn
  assumes gen_law: "gen seed = gen_secret_generic seed"
    and scramble_law: "length acc = 8 \<Longrightarrow> 64 \<le> length secret \<Longrightarrow> scramble acc secret = ok (scrambled acc secret)"
    and accum_law: "length acc = 8 \<Longrightarrow> 64 \<le> length dat \<Longrightarrow> 64 \<le> length secret \<Longrightarrow> accum acc dat secret = ok (stripe_sum acc dat secret)"
begin

lemma block_ok:
  assumes "length acc = 8" "stripes * 64 \<le> length dat" "length secret = 192" "stripes \<le> 16"
  shows "accumulate_block accum acc dat secret stripes = ok (block_sum acc dat secret stripes) \<and> length (block_sum acc dat secret stripes) = 8"
  unfolding accumulate_block_def block_sum_def
proof (rule for_each_fold [where P = "\<lambda>l. length l = 8"])
  fix i and u :: "u64 list" assume "i \<in> set [0..<stripes]" and u: "length u = 8"
  then have i: "i < stripes" by simp
  then have "(i + 1) * 64 \<le> stripes * 64" by (intro mult_le_mono1) simp
  then have o: "i * 64 + 64 \<le> length dat" "i \<le> 15" using assms(2,4) i by auto
  then show "(do { d \<leftarrow> slice_from dat (i * STRIPE_LENGTH); t \<leftarrow> slice_from secret (i * SECRET_CONSUME_RATE); accum u d t }) =
      ok (stripe_sum u (drop (i * 64) dat) (drop (i * 8) secret)) \<and> length (stripe_sum u (drop (i * 64) dat) (drop (i * 8) secret)) = 8"
    using u assms(3) by (simp add: STRIPE_LENGTH_def SECRET_CONSUME_RATE_def accum_law)
qed (rule assms(1))

lemma large_ok:
  assumes "240 < length dat" "length secret = 192"
  shows "hash_large_helper dat secret scramble accum = ok (large_acc dat secret)"
proof -
  define l b where "l = length dat - 1" and "b = l div 1024"
  have lb: "b * 1024 \<le> l" "l - b * 1024 < 1024" "length dat = l + 1"
    using assms(1) div_mult_mod_eq [of l 1024] mod_less_divisor [of 1024 l] by (auto simp: l_def b_def)
  let ?f = "\<lambda>i acc. scrambled (block_sum acc (drop (i * 1024) dat) secret 16) (drop 128 secret)"
  have loop: "for_each [0..<b] (\<lambda>i acc. do {
       d \<leftarrow> slice_from dat (i * 1024);
       acc \<leftarrow> accumulate_block accum acc d secret 16;
       t \<leftarrow> slice_from secret 128;
       scramble acc t }) INIT_ACCUMULATORS = ok (fold ?f [0..<b] INIT_ACCUMULATORS) \<and> length (fold ?f [0..<b] INIT_ACCUMULATORS) = 8"
  proof (rule for_each_fold [where P = "\<lambda>l. length l = 8"])
    fix i and u :: "u64 list" assume "i \<in> set [0..<b]" and u: "length u = 8"
    then have "(i + 1) * 1024 \<le> b * 1024" by (intro mult_le_mono1) simp
    then have o: "i * 1024 + 1024 \<le> length dat" using lb by simp
    then show "(do { d \<leftarrow> slice_from dat (i * 1024); acc \<leftarrow> accumulate_block accum u d secret 16; t \<leftarrow> slice_from secret 128; scramble acc t }) =
        ok (?f i u) \<and> length (?f i u) = 8"
      using block_ok [OF u, of 16 "drop (i * 1024) dat" secret] assms(2) by (simp add: scramble_law)
  qed (simp add: INIT_ACCUMULATORS_def)
  define acc where "acc = fold ?f [0..<b] INIT_ACCUMULATORS"
  define r where "r = (l - 1024 * b) div 64"
  have r: "r * 64 \<le> length (drop (b * 1024) dat)" "r \<le> 16"
    using lb div_times_less_eq_dividend [of "l - 1024 * b" 64] by (auto simp: r_def mult.commute)
  have len: "length acc = 8" using loop by (simp add: acc_def)
  note bl = block_ok [OF len r(1) assms(2) r(2)]
  have last: "accum (block_sum acc (drop (b * 1024) dat) secret r) (drop (length dat - 64) dat) (drop 121 secret)
      = ok (stripe_sum (block_sum acc (drop (b * 1024) dat) secret r) (drop (length dat - 64) dat) (drop 121 secret))"
    using bl assms by (intro accum_law) auto
  have c: "csub (length secret) STRIPE_LENGTH = ok 128" "cdiv 128 SECRET_CONSUME_RATE = ok 16" "STRIPE_LENGTH * 16 = 1024"
    "csub (length dat) 1 = ok l" "cdiv l 1024 = ok b" "csub l (1024 * b) = ok (l - 1024 * b)"
    "csub (length dat) STRIPE_LENGTH = ok (length dat - 64)" "csub 128 7 = ok 121"
    using assms lb by (simp_all add: csub_def cdiv_def STRIPE_LENGTH_def SECRET_CONSUME_RATE_def b_def [symmetric] mult.commute)
  have sl: "slice_from dat (b * 1024) = ok (drop (b * 1024) dat)" "slice_from dat (length dat - 64) = ok (drop (length dat - 64) dat)"
    "slice_from secret 121 = ok (drop 121 secret)" "(l - 1024 * b) div STRIPE_LENGTH = r"
    using lb assms by (simp_all add: r_def STRIPE_LENGTH_def)
  show ?thesis
    unfolding hash_large_helper_def large_acc_def Let_def c(1) bind.bind_lunit c(2,3,4,5) loop [THEN conjunct1]
      acc_def [symmetric] c(6) sl(1,4) bl [THEN conjunct1] c(7,8) sl(2,3) last l_def [symmetric] b_def [symmetric] r_def [symmetric]
    by (rule refl)
qed

lemma same_as_generic:
  assumes "240 < length dat"
  shows "hash128_large_generic dat seed gen scramble accum = (do {
     secret \<leftarrow> gen_secret_generic seed;
     t \<leftarrow> slice_from secret 11;
     low \<leftarrow> merge_accumulators (large_acc dat secret) t (PRIME64 ! 0 * word_of_nat (length dat));
     off \<leftarrow> csub (length secret) (64 + 11);
     t \<leftarrow> slice_from secret off;
     high \<leftarrow> merge_accumulators (large_acc dat secret) t (NOT (PRIME64 ! 1 * word_of_nat (length dat)));
     ok (pack128 high low) })"
    and "hash64_large_generic dat seed gen scramble accum = (do {
     secret \<leftarrow> gen_secret_generic seed;
     t \<leftarrow> slice_from secret 11;
     merge_accumulators (large_acc dat secret) t (PRIME64 ! 0 * word_of_nat (length dat)) })"
  unfolding hash128_large_generic_def hash64_large_generic_def gen_law
  using large_ok [OF assms length_secret] by (auto simp: gen_secret_generic_ok)

end

interpretation generic_engine: stripe_engine gen_secret_generic scramble_accumulators_generic accumulate_stripe_generic
  by unfold_locales (simp_all add: scramble_generic_ok accumulate_generic_ok)

interpretation avx2_engine: stripe_engine gen_secret_avx2 scramble_accumulators_avx2 accumulate_stripe_avx2
  by unfold_locales (simp_all add: gen_secret_avx2_ok scramble_avx2_ok accumulate_avx2_ok)

interpretation neon_engine: stripe_engine gen_secret_generic scramble_accumulators_neon accumulate_stripe_neon
  by unfold_locales (simp_all add: scramble_neon_ok accumulate_neon_ok)

subsection \<open>No input makes the hash panic\<close>

lemma merge_ok:
  assumes "length acc = 8" "64 \<le> length secret"
  shows "\<exists>r. merge_accumulators acc secret init = ok r"
  using assms by (simp add: merge_accumulators_def upto_consts)

lemma length_large_acc: "length (large_acc dat secret) = 8"
  by (simp add: large_acc_def Let_def)

lemma large_total:
  assumes "240 < length dat"
  shows "\<exists>h. hash128_large_generic dat seed gen_secret_generic scramble_accumulators_generic accumulate_stripe_generic = ok h"
    and "\<exists>h. hash64_large_generic dat seed gen_secret_generic scramble_accumulators_generic accumulate_stripe_generic = ok h"
proof -
  obtain secret where g: "gen_secret_generic seed = ok secret" by (simp add: gen_secret_generic_ok)
  then have l: "length secret = 192" by (rule length_secret)
  have m: "\<exists>r. merge_accumulators (large_acc dat secret) (drop k secret) init = ok r" if "k \<le> 128" for k init
    using that by (intro merge_ok) (simp_all add: length_large_acc l)
  obtain r1 r2 where "merge_accumulators (large_acc dat secret) (drop 11 secret) (PRIME64 ! 0 * word_of_nat (length dat)) = ok r1"
    "merge_accumulators (large_acc dat secret) (drop 117 secret) (NOT (PRIME64 ! 1 * word_of_nat (length dat))) = ok r2"
    using m [of 11] m [of 117] by fastforce
  then show "\<exists>h. hash128_large_generic dat seed gen_secret_generic scramble_accumulators_generic accumulate_stripe_generic = ok h"
    "\<exists>h. hash64_large_generic dat seed gen_secret_generic scramble_accumulators_generic accumulate_stripe_generic = ok h"
    unfolding generic_engine.same_as_generic [OF assms] g by (simp_all add: l csub_def)
qed

lemma mix16_ok: "16 \<le> length d \<Longrightarrow> 16 \<le> length t \<Longrightarrow> \<exists>m. mix16 d t seed = ok m"
  by (simp add: mix16_def)

lemma mix32_ok:
  assumes "16 \<le> length d1" "16 \<le> length d2" "32 \<le> length t"
  shows "\<exists>r. mix32 state d1 d2 t seed = ok r"
proof -
  have "16 \<le> length t" "16 \<le> length (drop 16 t)" using assms(3) by simp_all
  then obtain m1 m2 where "mix16 d1 t seed = ok m1" "mix16 d2 (drop 16 t) seed = ok m2"
    using mix16_ok assms(1,2) by blast
  then show ?thesis using assms by (cases state) (simp add: mix32_def Let_def)
qed

lemma mix32_at_ok:
  "a + 16 \<le> length dat \<Longrightarrow> b + 16 \<le> length dat \<Longrightarrow> c + 32 \<le> length t \<Longrightarrow> \<exists>r. mix32_at state dat a b t c seed = ok r"
  using mix32_ok [of "drop a dat" "drop b dat" "drop c t" state seed] by (simp add: mix32_at_def)

lemma combined_ok: "dat \<noteq> [] \<Longrightarrow> \<exists>c. combined_1to3 dat = ok c"
  by (cases dat) (simp_all add: combined_1to3_def csub_def index_def)

lemma hash64_0to16_ok: "length dat \<le> 16 \<Longrightarrow> \<exists>h. hash64_0to16 dat DEFAULT_SECRET seed = ok h"
  using combined_ok [of dat]
  by (auto simp: hash64_0to16_def hash64_0_def hash64_1to3_def hash64_4to8_def hash64_9to16_def csub_def Let_def)

lemma hash64_17to128_ok:
  assumes "16 < length dat" "length dat \<le> 128"
  shows "\<exists>h. hash64_17to128 dat DEFAULT_SECRET seed = ok h"
proof -
  have L: "\<exists>t. for_each (rev [0..<Suc ((length dat - 1) div 32)]) (\<lambda>i result. do {
       d \<leftarrow> slice_from dat (16 * i);
       t \<leftarrow> slice_from DEFAULT_SECRET (32 * i);
       m \<leftarrow> mix16 d t seed;
       let result = result + m;
       off \<leftarrow> csub (length dat) (16 * (i + 1));
       d \<leftarrow> slice_from dat off;
       t \<leftarrow> slice_from DEFAULT_SECRET (32 * i + 16);
       m \<leftarrow> mix16 d t seed;
       ok (result + m) }) r = ok t" for r
  proof (rule for_each_total)
    fix i and s :: u64 assume "i \<in> set (rev [0..<Suc ((length dat - 1) div 32)])"
    then have "i \<le> (length dat - 1) div 32" by auto
    then have i: "32 * i + 1 \<le> length dat" using assms by (simp add: less_eq_div_iff_mult_less_eq mult.commute)
    then have o: "16 * (i + 1) \<le> length dat" "i \<le> 3" using assms by (cases i, auto)
    have l: "16 \<le> length (drop (16 * i) dat)" "16 \<le> length (drop (32 * i) DEFAULT_SECRET)"
      "16 \<le> length (drop (length dat - 16 * (i + 1)) dat)" "16 \<le> length (drop (32 * i + 16) DEFAULT_SECRET)"
      unfolding length_drop length_DEFAULT_SECRET by (use o in arith)+
    obtain m1 m2 where m1: "mix16 (drop (16 * i) dat) (drop (32 * i) DEFAULT_SECRET) seed = ok m1"
      and m2: "mix16 (drop (length dat - 16 * (i + 1)) dat) (drop (32 * i + 16) DEFAULT_SECRET) seed = ok m2"
      using mix16_ok [OF l(1,2)] mix16_ok [OF l(3,4)] by blast
    have c: "csub (length dat) (16 * (i + 1)) = ok (length dat - 16 * (i + 1))" using o by (simp add: csub_def)
    show "\<exists>s'. (do {
       d \<leftarrow> slice_from dat (16 * i);
       t \<leftarrow> slice_from DEFAULT_SECRET (32 * i);
       m \<leftarrow> mix16 d t seed;
       let result = s + m;
       off \<leftarrow> csub (length dat) (16 * (i + 1));
       d \<leftarrow> slice_from dat off;
       t \<leftarrow> slice_from DEFAULT_SECRET (32 * i + 16);
       m \<leftarrow> mix16 d t seed;
       ok (result + m) }) = ok s'"
    proof -
      have "slice_from dat (16 * i) = ok (drop (16 * i) dat)" "slice_from DEFAULT_SECRET (32 * i) = ok (drop (32 * i) DEFAULT_SECRET)"
        "slice_from dat (length dat - 16 * (i + 1)) = ok (drop (length dat - 16 * (i + 1)) dat)"
        "slice_from DEFAULT_SECRET (32 * i + 16) = ok (drop (32 * i + 16) DEFAULT_SECRET)"
        using o by (auto intro!: slice_from_ok)
      then show ?thesis by (simp only: c m1 m2 Let_def bind.bind_lunit) blast
    qed
  qed
  have "csub (length dat) 1 = ok (length dat - 1)" using assms by (simp add: csub_def)
  then show ?thesis unfolding hash64_17to128_def Let_def by (simp only: bind.bind_lunit) (intro bind_total L [unfolded Let_def], simp)
qed

lemma hash64_129to240_ok:
  assumes "128 < length dat" "length dat \<le> 240"
  shows "\<exists>h. hash64_129to240 dat DEFAULT_SECRET seed = ok h"
proof -
  have step: "\<exists>s'. (do { d \<leftarrow> slice_from dat a; t \<leftarrow> slice_from DEFAULT_SECRET b; m \<leftarrow> mix16 d t seed; ok (s + m) }) = ok s'"
    if "a + 16 \<le> length dat" "b + 16 \<le> 192" for a b s
  proof -
    have "16 \<le> length (drop a dat)" "16 \<le> length (drop b DEFAULT_SECRET)" using that by simp_all
    then obtain m where "mix16 (drop a dat) (drop b DEFAULT_SECRET) seed = ok m" using mix16_ok by blast
    then show ?thesis using that by simp
  qed
  have 1: "\<exists>t. for_each [0..<8] (\<lambda>i result. do {
       d \<leftarrow> slice_from dat (16 * i); t \<leftarrow> slice_from DEFAULT_SECRET (16 * i); m \<leftarrow> mix16 d t seed; ok (result + m) }) r = ok t" for r
    by (rule for_each_total, rule step) (use assms in auto)
  have 2: "\<exists>t. for_each [8..<length dat div 16] (\<lambda>i result. do {
       d \<leftarrow> slice_from dat (16 * i); t \<leftarrow> slice_from DEFAULT_SECRET (16 * (i - 8) + 3); m \<leftarrow> mix16 d t seed; ok (result + m) }) r = ok t" for r
  proof (rule for_each_total, rule step)
    fix i assume "i \<in> set [8..<length dat div 16]"
    then have "i + 1 \<le> length dat div 16" by simp
    then have "(i + 1) * 16 \<le> length dat" by (simp add: less_eq_div_iff_mult_less_eq)
    then show "16 * i + 16 \<le> length dat" "16 * (i - 8) + 3 + 16 \<le> 192" using assms by auto
  qed
  obtain r1 where r1: "for_each [0..<8] (\<lambda>i result. do {
       d \<leftarrow> slice_from dat (16 * i); t \<leftarrow> slice_from DEFAULT_SECRET (16 * i); m \<leftarrow> mix16 d t seed; ok (result + m) })
       (PRIME64 ! 0 * word_of_nat (length dat)) = ok r1" using 1 by blast
  obtain r2 where r2: "for_each [8..<length dat div 16] (\<lambda>i result. do {
       d \<leftarrow> slice_from dat (16 * i); t \<leftarrow> slice_from DEFAULT_SECRET (16 * (i - 8) + 3); m \<leftarrow> mix16 d t seed; ok (result + m) })
       (xxh3_avalanche r1) = ok r2" using 2 by blast
  have "16 \<le> length (drop (length dat - 16) dat)" "16 \<le> length (drop 119 DEFAULT_SECRET)" using assms by simp_all
  then obtain m where "mix16 (drop (length dat - 16) dat) (drop 119 DEFAULT_SECRET) seed = ok m" using mix16_ok by blast
  then show ?thesis using assms
    unfolding hash64_129to240_def Let_def r1 bind.bind_lunit r2 by (simp add: csub_def MIN_SECRET_SIZE_def)
qed

lemma hash128_0to16_ok: "length dat \<le> 16 \<Longrightarrow> \<exists>h. hash128_0to16 dat DEFAULT_SECRET seed = ok h"
  using combined_ok [of dat]
  by (auto simp: hash128_0to16_def hash128_0_def hash64_0_def hash128_1to3_def hash128_4to8_def hash128_9to16_def csub_def Let_def)

lemma hash128_17to128_ok:
  assumes "16 < length dat" "length dat \<le> 128"
  shows "\<exists>h. hash128_17to128 dat DEFAULT_SECRET seed = ok h"
proof -
  have m: "\<exists>r. mix32_at st dat a b DEFAULT_SECRET c seed = ok r" if "a + 16 \<le> length dat" "b + 16 \<le> length dat" "c + 32 \<le> 192" for st a b c
    using that by (intro mix32_at_ok) auto
  have opt: "\<exists>r. (if P then f else ok st) = ok r" if "P \<Longrightarrow> \<exists>r. f = ok r" for P and f :: "(u64 \<times> u64) rust" and st
    using that by auto
  have "csub (length dat) 16 = ok (length dat - 16)" using assms by (simp add: csub_def)
  then show ?thesis unfolding hash128_17to128_def Let_def
    by (simp only: bind.bind_lunit) (intro bind_total opt m; use assms in simp)
qed

lemma hash128_129to240_ok:
  assumes "128 < length dat" "length dat \<le> 240"
  shows "\<exists>h. hash128_129to240 dat DEFAULT_SECRET seed = ok h"
proof -
  have m: "\<exists>r. mix32_at st dat a b DEFAULT_SECRET c s = ok r" if "a + 16 \<le> length dat" "b + 16 \<le> length dat" "c + 32 \<le> 192" for st a b c s
    using that by (intro mix32_at_ok) auto
  have 1: "\<exists>t. for_each [0..<4] (\<lambda>i st. mix32_at st dat (32 * i) (32 * i + 16) DEFAULT_SECRET (32 * i) seed) r = ok t" for r
    by (rule for_each_total, rule m) (use assms in auto)
  have 2: "\<exists>t. for_each [4..<length dat div 32] (\<lambda>i st. mix32_at st dat (32 * i) (32 * i + 16) DEFAULT_SECRET (3 + 32 * (i - 4)) seed) r = ok t" for r
  proof (rule for_each_total, rule m)
    fix i assume "i \<in> set [4..<length dat div 32]"
    then have "i + 1 \<le> length dat div 32" by simp
    then have "(i + 1) * 32 \<le> length dat" by (simp add: less_eq_div_iff_mult_less_eq)
    then show "32 * i + 16 \<le> length dat" "32 * i + 16 + 16 \<le> length dat" "3 + 32 * (i - 4) + 32 \<le> 192" using assms by auto
  qed
  obtain r1 where r1: "for_each [0..<4] (\<lambda>i st. mix32_at st dat (32 * i) (32 * i + 16) DEFAULT_SECRET (32 * i) seed)
      (PRIME64 ! 0 * word_of_nat (length dat), 0) = ok r1" using 1 by blast
  obtain r2 where r2: "for_each [4..<length dat div 32] (\<lambda>i st. mix32_at st dat (32 * i) (32 * i + 16) DEFAULT_SECRET (3 + 32 * (i - 4)) seed)
      (map_prod xxh3_avalanche xxh3_avalanche r1) = ok r2" using 2 by blast
  obtain r3 where "mix32_at r2 dat (length dat - 16) (length dat - 32) DEFAULT_SECRET 103 (0 - seed) = ok r3"
    using m [of "length dat - 16" "length dat - 32" 103 r2 "0 - seed"] assms by auto
  then show ?thesis using assms
    unfolding hash128_129to240_def Let_def r1 bind.bind_lunit r2 by (simp add: csub_def MIN_SECRET_SIZE_def)
qed

lemma hash_defined: "(\<exists>h. hash64_with_seed t dat seed = ok h) \<and> (\<exists>h. hash128_with_seed t dat seed = ok h)"
proof (cases "length dat \<le> 240")
  case True
  then show ?thesis
    using hash64_0to16_ok [of dat seed] hash64_17to128_ok [of dat seed] hash64_129to240_ok [of dat seed]
      hash128_0to16_ok [of dat seed] hash128_17to128_ok [of dat seed] hash128_129to240_ok [of dat seed]
    by (simp add: hash64_with_seed_def hash128_with_seed_def hash64_0to240_def hash128_0to240_def)
next
  case False
  then have l: "240 < length dat" by simp
  note s = avx2_engine.same_as_generic [OF l] neon_engine.same_as_generic [OF l] generic_engine.same_as_generic [OF l]
  show ?thesis
    using l large_total [OF l, of seed]
    by (auto simp: hash64_with_seed_def hash128_with_seed_def hash64_large_avx2_def hash64_large_neon_def
        hash128_large_avx2_def hash128_large_neon_def s split: target.split bool.split)
qed

lemma hash_same_target:
  "hash64_with_seed t dat seed = hash64_with_seed t' dat seed \<and> hash128_with_seed t dat seed = hash128_with_seed t' dat seed"
proof (cases "240 < length dat")
  case True
  note s = avx2_engine.same_as_generic [OF True] neon_engine.same_as_generic [OF True] generic_engine.same_as_generic [OF True]
  show ?thesis
    by (simp add: hash64_with_seed_def hash128_with_seed_def hash64_large_avx2_def hash64_large_neon_def
        hash128_large_avx2_def hash128_large_neon_def s split: target.split bool.split)
next
  case False
  then show ?thesis by (simp add: hash64_with_seed_def hash128_with_seed_def)
qed

subsection \<open>The page checksum\<close>

text \<open>\<open>xxh3_checksum\<close> of \<open>page_manager.rs\<close>.  The target does not matter, by \<open>hash_same_target\<close>.\<close>

definition xxh3_checksum :: "byte list \<Rightarrow> u128 rust" where
  "xxh3_checksum dat = hash128_with_seed Portable dat 0"

definition checksum_of :: "byte list \<Rightarrow> u128" where
  "checksum_of dat = the (xxh3_checksum dat)"

lemma xxh3_checksum_ok [simp]: "xxh3_checksum dat = ok (checksum_of dat)"
  using hash_defined [of Portable dat 0] by (auto simp: checksum_of_def xxh3_checksum_def)

subsection \<open>Properties\<close>

text \<open>
  C33. The checksum of any byte string, of any length and with any seed, is defined on every target: no
  read leaves the input or the secret, no assertion fails and no checked multiplication
  overflows.
\<close>

theorem xxh3_total: "(\<exists>h. hash64_with_seed t dat seed = ok h) \<and> (\<exists>h. hash128_with_seed t dat seed = ok h)"
  by (rule hash_defined)

text \<open>
  C9. The AVX2, NEON and portable implementations are equivalent: the 64 and 128 bit hashes do not
  depend on the machine.  A file checksummed on one target is accepted on every other.
\<close>

theorem xxh3_target_independent:
  "hash64_with_seed t dat seed = hash64_with_seed t' dat seed \<and> hash128_with_seed t dat seed = hash128_with_seed t' dat seed"
  by (rule hash_same_target)

text \<open>The checksum of the empty input, as in the unit test of the source.\<close>

lemma xxh3_empty: "hash64_with_seed t [] 0 = ok 3244421341483603138"
  by (simp add: hash64_with_seed_def hash64_0to240_def hash64_0to16_def hash64_0_def u64_at_def DEFAULT_SECRET_def
      word_from_le_def xxh64_avalanche_def PRIME64_def Let_def)

end
