(* ===== verification/Header.thy ===== *)
theory Header
  imports Layout Page_Number Xxh3
begin

text \<open>
  The super-header of the database file, \<open>src/tree_store/page_store/header.rs\<close>, with the
  B-tree root records of \<open>btree_base.rs\<close> that its two commit slots hold.

  The header is parsed into \<open>unrepaired_header\<close> and only becomes a \<open>db_header\<close> by
  \<open>finalize\<close>, which reconciles the layout with the length of the file and selects the commit
  slot to start from.  The lemmas show that writing and reading a header are inverse, that opening never
  panics whatever bytes and whatever file length it finds, and which slot it selects.
\<close>

subsection \<open>Root records\<close>

record btree_header =
  bh_root :: page_number
  bh_checksum :: u128
  bh_length :: nat

definition bh_to_le_bytes :: "btree_header \<Rightarrow> byte list" where
  "bh_to_le_bytes h = pn_to_le_bytes (bh_root h) @ word_to_le 16 (bh_checksum h) @ le_bytes 8 (bh_length h)"

definition bh_from_le_bytes :: "byte list \<Rightarrow> btree_header rust" where
  "bh_from_le_bytes bytes = do {
     b \<leftarrow> sub_slice bytes 0 8;
     root \<leftarrow> pn_from_le_bytes b;
     let offset = 8;
     b \<leftarrow> sub_slice bytes offset (offset + 16);
     let checksum = word_from_le b;
     let offset = offset + 16;
     b \<leftarrow> sub_slice bytes offset (offset + 8);
     ok \<lparr>bh_root = root, bh_checksum = checksum, bh_length = le_nat b\<rparr> }"

subsection \<open>Constants of the format\<close>

definition MAGICNUMBER :: "byte list" where
  "MAGICNUMBER = [0x72, 0x65, 0x64, 0x62, 0x1A, 0x0A, 0xA9, 0x0D, 0x0A]"

abbreviation (input) "GOD_BYTE_OFFSET \<equiv> (9 :: nat)"
abbreviation (input) "PAGE_SIZE_OFFSET \<equiv> (12 :: nat)"
abbreviation (input) "REGION_HEADER_PAGES_OFFSET \<equiv> (16 :: nat)"
abbreviation (input) "REGION_MAX_DATA_PAGES_OFFSET \<equiv> (20 :: nat)"
abbreviation (input) "NUM_FULL_REGIONS_OFFSET \<equiv> (24 :: nat)"
abbreviation (input) "TRAILING_REGION_DATA_PAGES_OFFSET \<equiv> (28 :: nat)"
abbreviation (input) "TRANSACTION_SIZE \<equiv> (128 :: nat)"
abbreviation (input) "TRANSACTION_0_OFFSET \<equiv> (64 :: nat)"
abbreviation (input) "TRANSACTION_1_OFFSET \<equiv> (192 :: nat)"
abbreviation (input) "DB_HEADER_SIZE \<equiv> (320 :: nat)"
abbreviation (input) "PRIMARY_BIT \<equiv> (1 :: byte)"
abbreviation (input) "RECOVERY_REQUIRED \<equiv> (2 :: byte)"
abbreviation (input) "TWO_PHASE_COMMIT \<equiv> (4 :: byte)"
abbreviation (input) "VERSION_OFFSET \<equiv> (0 :: nat)"
abbreviation (input) "USER_ROOT_NON_NULL_OFFSET \<equiv> (1 :: nat)"
abbreviation (input) "SYSTEM_ROOT_NON_NULL_OFFSET \<equiv> (2 :: nat)"
abbreviation (input) "USER_ROOT_OFFSET \<equiv> (8 :: nat)"
abbreviation (input) "SYSTEM_ROOT_OFFSET \<equiv> (40 :: nat)"
abbreviation (input) "TRANSACTION_ID_OFFSET \<equiv> (104 :: nat)"
abbreviation (input) "TRANSACTION_LAST_FIELD \<equiv> (112 :: nat)"
abbreviation (input) "SLOT_CHECKSUM_OFFSET \<equiv> (112 :: nat)"
abbreviation (input) "FILE_FORMAT_VERSION1 \<equiv> (1 :: nat)"
abbreviation (input) "FILE_FORMAT_VERSION2 \<equiv> (2 :: nat)"
abbreviation (input) "FILE_FORMAT_VERSION3 \<equiv> (3 :: nat)"

subsection \<open>Errors\<close>

text \<open>The reason carried by \<open>StorageError::Corrupted\<close>, with the values its message shows.\<close>

datatype corruption =
    InvalidMagicNumber
  | PageSizeMismatch nat nat
  | InvalidRegionDataPages nat
  | InvalidRegionHeaderPages nat
  | TrailingExceedsRegion nat nat
  | InvalidRegionCount nat nat
  | UnknownVersion nat
  | FileTruncated nat nat
  | TooManyRegions nat
  | LengthNotALayout nat
  | PrimaryCorruptedDespite2PC
  | BothSlotsCorrupted

datatype db_error = Corrupted corruption | UpgradeRequired nat

subsection \<open>Commit slots\<close>

record transaction_header =
  th_version :: nat
  th_user_root :: "btree_header option"
  th_system_root :: "btree_header option"
  th_transaction_id :: nat

definition th_new :: "nat \<Rightarrow> transaction_header" where
  "th_new transaction_id =
     \<lparr>th_version = FILE_FORMAT_VERSION3, th_user_root = None, th_system_root = None, th_transaction_id = transaction_id\<rparr>"

definition read_root :: "byte list \<Rightarrow> nat \<Rightarrow> nat \<Rightarrow> btree_header option rust" where
  "read_root dat flag_offset offset = do {
     f \<leftarrow> index dat flag_offset;
     if f \<noteq> 0 then do {
       b \<leftarrow> sub_slice dat offset (offset + 32);
       h \<leftarrow> bh_from_le_bytes b;
       ok (Some h) }
     else ok None }"

definition th_from_bytes :: "byte list \<Rightarrow> (db_error + transaction_header \<times> bool) rust" where
  "th_from_bytes dat = do {
     v \<leftarrow> index dat VERSION_OFFSET;
     let version = unat v;
     if version = FILE_FORMAT_VERSION1 \<or> version = FILE_FORMAT_VERSION2 then ok (Inl (UpgradeRequired version))
     else if version \<noteq> FILE_FORMAT_VERSION3 then ok (Inl (Corrupted (UnknownVersion version)))
     else do {
       b \<leftarrow> sub_slice dat SLOT_CHECKSUM_OFFSET (SLOT_CHECKSUM_OFFSET + 16);
       let checksum = word_from_le b;
       b \<leftarrow> sub_slice dat 0 SLOT_CHECKSUM_OFFSET;
       actual \<leftarrow> xxh3_checksum b;
       let corrupted = (checksum \<noteq> actual);
       user_root \<leftarrow> read_root dat USER_ROOT_NON_NULL_OFFSET USER_ROOT_OFFSET;
       system_root \<leftarrow> read_root dat SYSTEM_ROOT_NON_NULL_OFFSET SYSTEM_ROOT_OFFSET;
       b \<leftarrow> sub_slice dat TRANSACTION_ID_OFFSET (TRANSACTION_ID_OFFSET + 8);
       ok (Inr (\<lparr>th_version = version, th_user_root = user_root, th_system_root = system_root,
           th_transaction_id = le_nat b\<rparr>, corrupted)) } }"

definition write_root :: "byte list \<Rightarrow> nat \<Rightarrow> nat \<Rightarrow> btree_header option \<Rightarrow> byte list rust" where
  "write_root result flag_offset offset root = (case root of
       Some header \<Rightarrow> do {
         result \<leftarrow> write_at result flag_offset [1];
         write_at result offset (bh_to_le_bytes header) }
     | None \<Rightarrow> ok result)"

definition th_to_bytes :: "transaction_header \<Rightarrow> byte list rust" where
  "th_to_bytes t = do {
     assert_that (th_version t = FILE_FORMAT_VERSION3);
     let result = replicate TRANSACTION_SIZE 0;
     result \<leftarrow> write_at result VERSION_OFFSET [word_of_nat (th_version t)];
     result \<leftarrow> write_root result USER_ROOT_NON_NULL_OFFSET USER_ROOT_OFFSET (th_user_root t);
     result \<leftarrow> write_root result SYSTEM_ROOT_NON_NULL_OFFSET SYSTEM_ROOT_OFFSET (th_system_root t);
     result \<leftarrow> write_at result TRANSACTION_ID_OFFSET (le_bytes 8 (th_transaction_id t));
     b \<leftarrow> sub_slice result 0 SLOT_CHECKSUM_OFFSET;
     checksum \<leftarrow> xxh3_checksum b;
     write_at result SLOT_CHECKSUM_OFFSET (word_to_le 16 checksum) }"

subsection \<open>The header\<close>

record db_header =
  hd_primary_slot :: nat
  hd_recovery_required :: bool
  hd_two_phase_commit :: bool
  hd_page_size :: nat
  hd_region_header_pages :: nat
  hd_region_max_data_pages :: nat
  hd_full_regions :: nat
  hd_trailing_pages :: nat
  hd_slots :: "transaction_header list"

record unrepaired_header =
  un_inner :: db_header
  un_primary_corrupted :: bool
  un_secondary_corrupted :: bool

definition hd_new :: "db_layout \<Rightarrow> nat \<Rightarrow> db_header rust" where
  "hd_new layout transaction_id = do {
     assert_that (TRANSACTION_LAST_FIELD \<le> SLOT_CHECKSUM_OFFSET);
     let slot = th_new transaction_id;
     ok \<lparr>hd_primary_slot = 0, hd_recovery_required = True, hd_two_phase_commit = False,
         hd_page_size = rl_page_size (dl_full layout),
         hd_region_header_pages = rl_header_pages (dl_full layout),
         hd_region_max_data_pages = rl_num_pages (dl_full layout),
         hd_full_regions = dl_num_full layout,
         hd_trailing_pages = (case dl_trailing layout of Some x \<Rightarrow> rl_num_pages x | None \<Rightarrow> 0),
         hd_slots = [slot, slot]\<rparr> }"

definition hd_layout :: "db_header \<Rightarrow> db_layout rust" where
  "hd_layout h = do {
     full_layout \<leftarrow> rl_new (hd_region_max_data_pages h) (hd_region_header_pages h) (hd_page_size h);
     trailing \<leftarrow> (if hd_trailing_pages h > 0 then do {
         t \<leftarrow> rl_new (hd_trailing_pages h) (hd_region_header_pages h) (hd_page_size h);
         ok (Some t) }
       else ok None);
     ok (dl_new (hd_full_regions h) full_layout trailing) }"

definition hd_set_layout :: "db_header \<Rightarrow> db_layout \<Rightarrow> db_header rust" where
  "hd_set_layout h layout = do {
     old \<leftarrow> hd_layout h;
     assert_that (dl_full old = dl_full layout);
     h \<leftarrow> (case dl_trailing layout of
         Some trailing \<Rightarrow> do {
           assert_that (rl_header_pages trailing = hd_region_header_pages h);
           assert_that (rl_page_size trailing = hd_page_size h);
           ok (h\<lparr>hd_trailing_pages := rl_num_pages trailing\<rparr>) }
       | None \<Rightarrow> ok (h\<lparr>hd_trailing_pages := 0\<rparr>));
     ok (h\<lparr>hd_full_regions := dl_num_full layout\<rparr>) }"

definition primary_slot :: "db_header \<Rightarrow> transaction_header rust" where
  "primary_slot h = index (hd_slots h) (hd_primary_slot h)"

definition secondary_slot :: "db_header \<Rightarrow> transaction_header rust" where
  "secondary_slot h = index (hd_slots h) (hd_primary_slot h XOR 1)"

definition update_secondary_slot :: "db_header \<Rightarrow> (transaction_header \<Rightarrow> transaction_header) \<Rightarrow> db_header rust" where
  "update_secondary_slot h f = do {
     s \<leftarrow> index (hd_slots h) (hd_primary_slot h XOR 1);
     slots \<leftarrow> index_set (hd_slots h) (hd_primary_slot h XOR 1) (f s);
     ok (h\<lparr>hd_slots := slots\<rparr>) }"

definition swap_primary_slot :: "db_header \<Rightarrow> db_header" where
  "swap_primary_slot h = h\<lparr>hd_primary_slot := hd_primary_slot h XOR 1\<rparr>"

definition god_byte :: "db_header \<Rightarrow> byte rust" where
  "god_byte h = do {
     b \<leftarrow> try_into 8 (hd_primary_slot h);
     let b = (word_of_nat b :: byte);
     let b = (if hd_recovery_required h then b OR RECOVERY_REQUIRED else b);
     ok (if hd_two_phase_commit h then b OR TWO_PHASE_COMMIT else b) }"

definition hd_to_bytes :: "db_header \<Rightarrow> bool \<Rightarrow> byte list rust" where
  "hd_to_bytes h include_magic_number = do {
     let result = replicate DB_HEADER_SIZE 0;
     result \<leftarrow> (if include_magic_number then write_at result 0 MAGICNUMBER else ok result);
     g \<leftarrow> god_byte h;
     result \<leftarrow> write_at result GOD_BYTE_OFFSET [g];
     result \<leftarrow> write_at result PAGE_SIZE_OFFSET (le_bytes 4 (hd_page_size h));
     result \<leftarrow> write_at result REGION_HEADER_PAGES_OFFSET (le_bytes 4 (hd_region_header_pages h));
     result \<leftarrow> write_at result REGION_MAX_DATA_PAGES_OFFSET (le_bytes 4 (hd_region_max_data_pages h));
     result \<leftarrow> write_at result NUM_FULL_REGIONS_OFFSET (le_bytes 4 (hd_full_regions h));
     result \<leftarrow> write_at result TRAILING_REGION_DATA_PAGES_OFFSET (le_bytes 4 (hd_trailing_pages h));
     slot0 \<leftarrow> index (hd_slots h) 0 \<bind> th_to_bytes;
     result \<leftarrow> write_at result TRANSACTION_0_OFFSET slot0;
     slot1 \<leftarrow> index (hd_slots h) 1 \<bind> th_to_bytes;
     write_at result TRANSACTION_1_OFFSET slot1 }"

definition hd_get_u32 :: "byte list \<Rightarrow> nat \<Rightarrow> nat rust" where
  "hd_get_u32 dat offset = do { b \<leftarrow> sub_slice dat offset (offset + 4); ok (le_nat b) }"

definition un_from_bytes :: "byte list \<Rightarrow> nat \<Rightarrow> (db_error + unrepaired_header) rust" where
  "un_from_bytes dat expected_page_size = do {
     magic \<leftarrow> sub_slice dat 0 (length MAGICNUMBER);
     if magic \<noteq> MAGICNUMBER then ok (Inl (Corrupted InvalidMagicNumber))
     else do {
       g \<leftarrow> index dat GOD_BYTE_OFFSET;
       let primary_slot = (if g AND PRIMARY_BIT \<noteq> 0 then 1 else 0);
       let recovery_required = (g AND RECOVERY_REQUIRED \<noteq> 0);
       let two_phase_commit = (g AND TWO_PHASE_COMMIT \<noteq> 0);
       page_size \<leftarrow> hd_get_u32 dat PAGE_SIZE_OFFSET;
       region_header_pages \<leftarrow> hd_get_u32 dat REGION_HEADER_PAGES_OFFSET;
       region_max_data_pages \<leftarrow> hd_get_u32 dat REGION_MAX_DATA_PAGES_OFFSET;
       full_regions \<leftarrow> hd_get_u32 dat NUM_FULL_REGIONS_OFFSET;
       trailing_data_pages \<leftarrow> hd_get_u32 dat TRAILING_REGION_DATA_PAGES_OFFSET;
       if page_size \<noteq> expected_page_size
       then ok (Inl (Corrupted (PageSizeMismatch page_size expected_page_size)))
       else if region_max_data_pages = 0 \<or> region_max_data_pages > MAX_PAGE_INDEX + 1
       then ok (Inl (Corrupted (InvalidRegionDataPages region_max_data_pages)))
       else if region_header_pages > MAX_PAGE_INDEX + 1
       then ok (Inl (Corrupted (InvalidRegionHeaderPages region_header_pages)))
       else if trailing_data_pages > region_max_data_pages
       then ok (Inl (Corrupted (TrailingExceedsRegion trailing_data_pages region_max_data_pages)))
       else do {
         num_regions \<leftarrow> cadd 64 full_regions (if trailing_data_pages > 0 then 1 else 0);
         if num_regions = 0 \<or> num_regions > MAX_REGIONS
         then ok (Inl (Corrupted (InvalidRegionCount full_regions trailing_data_pages)))
         else try_then (sub_slice dat TRANSACTION_0_OFFSET (TRANSACTION_0_OFFSET + TRANSACTION_SIZE) \<bind> th_from_bytes)
           (\<lambda>(slot0, slot0_corrupted).
              try_then (sub_slice dat TRANSACTION_1_OFFSET (TRANSACTION_1_OFFSET + TRANSACTION_SIZE) \<bind> th_from_bytes)
                (\<lambda>(slot1, slot1_corrupted).
                   ok (Inr \<lparr>un_inner = \<lparr>hd_primary_slot = primary_slot, hd_recovery_required = recovery_required,
                       hd_two_phase_commit = two_phase_commit, hd_page_size = page_size,
                       hd_region_header_pages = region_header_pages, hd_region_max_data_pages = region_max_data_pages,
                       hd_full_regions = full_regions, hd_trailing_pages = trailing_data_pages, hd_slots = [slot0, slot1]\<rparr>,
                     un_primary_corrupted = (if primary_slot = 0 then slot0_corrupted else slot1_corrupted),
                     un_secondary_corrupted = (if primary_slot = 0 then slot1_corrupted else slot0_corrupted)\<rparr>))) } } }"

definition recovery_required :: "unrepaired_header \<Rightarrow> nat \<Rightarrow> bool rust" where
  "recovery_required u file_len =
     (if hd_recovery_required (un_inner u) then ok True
      else do { l \<leftarrow> hd_layout (un_inner u); len \<leftarrow> dl_len l; ok (len \<noteq> file_len) })"

definition select_primary_slot :: "unrepaired_header \<Rightarrow> (db_error + bool \<times> unrepaired_header) rust" where
  "select_primary_slot u =
     (if hd_two_phase_commit (un_inner u) then
        (if un_primary_corrupted u then ok (Inl (Corrupted PrimaryCorruptedDespite2PC)) else ok (Inr (True, u)))
      else if un_primary_corrupted u then
        (if un_secondary_corrupted u then ok (Inl (Corrupted BothSlotsCorrupted))
         else ok (Inr (False, u\<lparr>un_inner := swap_primary_slot (un_inner u)\<rparr>)))
      else do {
        s \<leftarrow> secondary_slot (un_inner u);
        p \<leftarrow> primary_slot (un_inner u);
        let secondary_newer = (th_transaction_id s > th_transaction_id p);
        if secondary_newer \<and> \<not> un_secondary_corrupted u
        then ok (Inr (False, u\<lparr>un_inner := swap_primary_slot (un_inner u)\<rparr>))
        else ok (Inr (True, u)) })"

text \<open>The part of \<open>finalize\<close> that reconciles the layout with the length of the file.\<close>

definition reconcile_layout :: "unrepaired_header \<Rightarrow> nat \<Rightarrow> (db_error + bool \<times> unrepaired_header) rust" where
  "reconcile_layout u file_len = do {
     layout \<leftarrow> hd_layout (un_inner u);
     stored_len \<leftarrow> dl_len layout;
     if file_len < stored_len then ok (Inl (Corrupted (FileTruncated file_len stored_len)))
     else if stored_len = file_len then ok (Inr (False, u))
     else do {
       let region_max_pages = rl_num_pages (dl_full layout);
       let region_header_pages = rl_header_pages (dl_full layout);
       pages \<leftarrow> cadd 64 region_header_pages region_max_pages;
       full_region_size \<leftarrow> cmul 64 pages (hd_page_size (un_inner u));
       data \<leftarrow> cmul 64 MAX_REGIONS full_region_size;
       max_addressable_len \<leftarrow> cadd 64 (hd_page_size (un_inner u)) data;
       if file_len > max_addressable_len then ok (Inl (Corrupted (TooManyRegions file_len)))
       else do {
         recalculated \<leftarrow> dl_recalculate file_len region_header_pages region_max_pages (hd_page_size (un_inner u));
         len \<leftarrow> dl_len recalculated;
         if len \<noteq> file_len then ok (Inl (Corrupted (LengthNotALayout file_len)))
         else do {
           inner \<leftarrow> hd_set_layout (un_inner u) recalculated;
           ok (Inr (True, u\<lparr>un_inner := inner\<rparr>)) } } } }"

definition finalize :: "unrepaired_header \<Rightarrow> nat \<Rightarrow> (db_error + db_header \<times> bool) rust" where
  "finalize u file_len =
     try_then (reconcile_layout u file_len) (\<lambda>(layout_stale, u).
       try_then (select_primary_slot u) (\<lambda>(kept_primary, u).
         ok (Inr (un_inner u, kept_primary \<and> \<not> layout_stale))))"

subsection \<open>Encoding a commit slot\<close>

definition bh_wf :: "btree_header \<Rightarrow> bool" where
  "bh_wf h \<longleftrightarrow> pn_wf (bh_root h) \<and> bh_length h < 2 ^ 64"

definition th_wf :: "transaction_header \<Rightarrow> bool" where
  "th_wf t \<longleftrightarrow> th_version t = FILE_FORMAT_VERSION3 \<and> th_transaction_id t < 2 ^ 64
     \<and> (\<forall>r. th_user_root t = Some r \<or> th_system_root t = Some r \<longrightarrow> bh_wf r)"

lemma length_bh_to_le_bytes [simp]: "length (bh_to_le_bytes h) = 32"
  by (simp add: bh_to_le_bytes_def pn_to_le_bytes_def)

lemma bh_round_trip: "bh_wf h \<Longrightarrow> bh_from_le_bytes (bh_to_le_bytes h) = ok h"
  using pn_decode_junk [of "bh_root h" 0]
  by (simp add: bh_from_le_bytes_def bh_to_le_bytes_def bh_wf_def sub_slice_def pn_to_le_bytes_def)

text \<open>The bytes of a slot, in the order of the format.\<close>

definition root_flag :: "btree_header option \<Rightarrow> byte" where
  "root_flag r = (if r = None then 0 else 1)"

definition root_bytes :: "btree_header option \<Rightarrow> byte list" where
  "root_bytes r = (case r of None \<Rightarrow> replicate 32 0 | Some h \<Rightarrow> bh_to_le_bytes h)"

definition slot_body :: "transaction_header \<Rightarrow> byte list" where
  "slot_body t = [3, root_flag (th_user_root t), root_flag (th_system_root t)] @ replicate 5 0
     @ root_bytes (th_user_root t) @ root_bytes (th_system_root t) @ replicate 32 0 @ le_bytes 8 (th_transaction_id t)"

lemma length_root_bytes [simp]: "length (root_bytes r) = 32"
  by (simp add: root_bytes_def split: option.split)

lemma length_slot_body [simp]: "length (slot_body t) = 112"
  by (simp add: slot_body_def)

lemma write_root_ok:
  assumes "length pre = f" "length mid + f + 1 = off" 
  shows "write_root (pre @ [0] @ mid @ replicate 32 0 @ post) f off r = ok (pre @ [root_flag r] @ mid @ root_bytes r @ post)"
  using assms by (auto simp: write_root_def root_flag_def root_bytes_def write_at_def drop_Cons' split: option.split)

lemma th_to_bytes_ok:
  assumes "th_version t = 3"
  shows "th_to_bytes t = ok (slot_body t @ word_to_le 16 (checksum_of (slot_body t)))"
proof -
  let ?u = "th_user_root t" let ?s = "th_system_root t"
  have r: "replicate 128 (0 :: byte) = [0] @ [0] @ [0] @ replicate 5 0 @ replicate 32 0 @ replicate 32 0 @ replicate 32 0 @ replicate 8 0 @ replicate 16 0"
    by (simp flip: replicate_add replicate_Suc add: numeral_eq_Suc)
  have 1: "write_at (replicate 128 0) 0 [word_of_nat (th_version t)] =
      ok ([3] @ [0] @ [0] @ replicate 5 0 @ replicate 32 0 @ replicate 32 0 @ replicate 32 0 @ replicate 8 0 @ replicate 16 (0 :: byte))"
    unfolding r using assms by (simp add: write_at_def)
  have 2: "write_root ([3] @ [0] @ [0] @ replicate 5 0 @ replicate 32 0 @ replicate 32 0 @ replicate 32 0 @ replicate 8 0 @ replicate 16 (0 :: byte)) 1 8 ?u
     = ok ([3, root_flag ?u] @ [0] @ (replicate 5 0 @ root_bytes ?u) @ replicate 32 0 @ (replicate 32 0 @ replicate 8 0 @ replicate 16 (0 :: byte)))"
    using write_root_ok [of "[3]" 1 "[0] @ replicate 5 0" 8 "replicate 32 0 @ replicate 32 0 @ replicate 8 0 @ replicate 16 0" ?u] by simp
  have 3: "write_root ([3, root_flag ?u] @ [0] @ (replicate 5 0 @ root_bytes ?u) @ replicate 32 0 @ (replicate 32 0 @ replicate 8 0 @ replicate 16 (0 :: byte))) 2 40 ?s
     = ok ([3, root_flag ?u] @ [root_flag ?s] @ (replicate 5 0 @ root_bytes ?u) @ root_bytes ?s @ (replicate 32 0 @ replicate 8 0 @ replicate 16 (0 :: byte)))"
    by (rule write_root_ok) simp_all
  have 4: "write_at ([3, root_flag ?u] @ [root_flag ?s] @ (replicate 5 0 @ root_bytes ?u) @ root_bytes ?s @ (replicate 32 0 @ replicate 8 0 @ replicate 16 (0 :: byte)))
      104 (le_bytes 8 (th_transaction_id t)) = ok (slot_body t @ replicate 16 0)"
    by (simp add: write_at_def slot_body_def)
  have 5: "sub_slice (slot_body t @ replicate 16 0) 0 112 = ok (slot_body t)" by (simp add: sub_slice_def)
  show ?thesis using assms
    unfolding th_to_bytes_def Let_def 1 bind.bind_lunit 2 3 4 5 by (simp add: write_at_def)
qed

definition slot_bytes :: "transaction_header \<Rightarrow> byte list" where
  "slot_bytes t = slot_body t @ word_to_le 16 (checksum_of (slot_body t))"

lemma length_slot_bytes [simp]: "length (slot_bytes t) = 128"
  by (simp add: slot_bytes_def)

lemma read_root_ok:
  assumes "dat ! f = root_flag r" "f < length dat" "take 32 (drop off dat) = root_bytes r" "off + 32 \<le> length dat"
    "\<And>h. r = Some h \<Longrightarrow> bh_wf h"
  shows "read_root dat f off = ok r"
  using assms bh_round_trip by (cases r) (auto simp: read_root_def root_flag_def root_bytes_def sub_slice_def)

lemma th_round_trip:
  assumes "th_wf t"
  shows "th_from_bytes (slot_bytes t) = ok (Inr (t, False))"
proof -
  let ?d = "slot_bytes t"
  have t: "th_version t = 3" "th_transaction_id t < 256 ^ 8" and r: "th_user_root t = Some h \<Longrightarrow> bh_wf h"
    "th_system_root t = Some h \<Longrightarrow> bh_wf h" for h
    using assms by (auto simp: th_wf_def)
  have "read_root ?d 1 8 = ok (th_user_root t)" "read_root ?d 2 40 = ok (th_system_root t)"
    by (rule read_root_ok; simp add: slot_bytes_def slot_body_def r)+
  moreover have "index ?d 0 = ok 3" by (simp add: slot_bytes_def slot_body_def index_def)
  moreover have "sub_slice ?d 112 (112 + 16) = ok (word_to_le 16 (checksum_of (slot_body t)))" "sub_slice ?d 0 112 = ok (slot_body t)"
    "sub_slice ?d 104 (104 + 8) = ok (le_bytes 8 (th_transaction_id t))"
    by (simp_all add: sub_slice_def slot_bytes_def) (simp add: slot_body_def)
  ultimately show ?thesis using t by (simp add: th_from_bytes_def)
qed

subsection \<open>Encoding the header\<close>

text \<open>The layout fields that \<open>from_bytes\<close> accepts.\<close>

definition layout_fields_ok :: "db_header \<Rightarrow> bool" where
  "layout_fields_ok h \<longleftrightarrow> 0 < hd_region_max_data_pages h \<and> hd_region_max_data_pages h \<le> MAX_PAGE_INDEX + 1
     \<and> hd_region_header_pages h \<le> MAX_PAGE_INDEX + 1 \<and> hd_trailing_pages h \<le> hd_region_max_data_pages h
     \<and> 0 < hd_full_regions h + (if hd_trailing_pages h > 0 then 1 else 0)
     \<and> hd_full_regions h + (if hd_trailing_pages h > 0 then 1 else 0) \<le> MAX_REGIONS"

definition hd_wf :: "db_header \<Rightarrow> bool" where
  "hd_wf h \<longleftrightarrow> hd_primary_slot h < 2 \<and> length (hd_slots h) = 2 \<and> list_all th_wf (hd_slots h)
     \<and> hd_page_size h < 2 ^ 32 \<and> layout_fields_ok h"

definition god_value :: "db_header \<Rightarrow> byte" where
  "god_value h = (if hd_primary_slot h = 0 then 0 else 1) OR (if hd_recovery_required h then 2 else 0)
     OR (if hd_two_phase_commit h then 4 else 0)"

definition header_bytes :: "db_header \<Rightarrow> byte list" where
  "header_bytes h = MAGICNUMBER @ [god_value h, 0, 0] @ le_bytes 4 (hd_page_size h) @ le_bytes 4 (hd_region_header_pages h)
     @ le_bytes 4 (hd_region_max_data_pages h) @ le_bytes 4 (hd_full_regions h) @ le_bytes 4 (hd_trailing_pages h)
     @ replicate 32 0 @ slot_bytes (hd_slots h ! 0) @ slot_bytes (hd_slots h ! 1)"

lemma length_MAGICNUMBER [simp]: "length MAGICNUMBER = 9"
  by (simp add: MAGICNUMBER_def)

lemma god_byte_ok: "hd_primary_slot h < 2 \<Longrightarrow> god_byte h = ok (god_value h)"
  by (cases "hd_primary_slot h") (auto simp: god_byte_def god_value_def try_into_def)

lemma god_bits:
  "god_value h AND 1 \<noteq> 0 \<longleftrightarrow> hd_primary_slot h \<noteq> 0" "god_value h AND 2 \<noteq> 0 \<longleftrightarrow> hd_recovery_required h"
  "god_value h AND 4 \<noteq> 0 \<longleftrightarrow> hd_two_phase_commit h"
  by (auto simp: god_value_def)

lemma write_at_exact:
  "length pre = off \<Longrightarrow> length old = length new \<Longrightarrow> write_at (pre @ old @ post) off new = ok (pre @ new @ post)"
  by (simp add: write_at_def)

lemma hd_to_bytes_ok:
  assumes "hd_wf h"
  shows "hd_to_bytes h True = ok (header_bytes h)"
proof -
  obtain s0 s1 where s: "hd_slots h = [s0, s1]" "th_version s0 = 3" "th_version s1 = 3"
    using assms by (auto simp: hd_wf_def th_wf_def length_Suc_conv numeral_2_eq_2)
  let ?z = "\<lambda>n. replicate n (0 :: byte)"
  let ?f = "\<lambda>x. le_bytes 4 (x h)"
  have r: "?z 320 = [] @ ?z 9 @ ?z 1 @ ?z 2 @ ?z 4 @ ?z 4 @ ?z 4 @ ?z 4 @ ?z 4 @ ?z 32 @ ?z 128 @ ?z 128"
    unfolding append_Nil by (simp only: replicate_add [symmetric]) simp
  note w = write_at_exact
  have 1: "write_at (?z 320) 0 MAGICNUMBER = ok (MAGICNUMBER @ ?z 1 @ (?z 2 @ ?z 4 @ ?z 4 @ ?z 4 @ ?z 4 @ ?z 4 @ ?z 32 @ ?z 128 @ ?z 128))"
    unfolding r by (subst w) simp_all
  have 2: "write_at (MAGICNUMBER @ ?z 1 @ (?z 2 @ ?z 4 @ ?z 4 @ ?z 4 @ ?z 4 @ ?z 4 @ ?z 32 @ ?z 128 @ ?z 128)) 9 [g] =
      ok ((MAGICNUMBER @ [g] @ ?z 2) @ ?z 4 @ (?z 4 @ ?z 4 @ ?z 4 @ ?z 4 @ ?z 32 @ ?z 128 @ ?z 128))" for g
    by (subst w) simp_all
  have 3: "write_at ((MAGICNUMBER @ [g] @ ?z 2) @ ?z 4 @ (?z 4 @ ?z 4 @ ?z 4 @ ?z 4 @ ?z 32 @ ?z 128 @ ?z 128)) 12 (?f hd_page_size) =
      ok ((MAGICNUMBER @ [g] @ ?z 2 @ ?f hd_page_size) @ ?z 4 @ (?z 4 @ ?z 4 @ ?z 4 @ ?z 32 @ ?z 128 @ ?z 128))" for g
    by (subst w) simp_all
  have 4: "write_at ((MAGICNUMBER @ [g] @ ?z 2 @ ?f hd_page_size) @ ?z 4 @ (?z 4 @ ?z 4 @ ?z 4 @ ?z 32 @ ?z 128 @ ?z 128)) 16 (?f hd_region_header_pages) =
      ok ((MAGICNUMBER @ [g] @ ?z 2 @ ?f hd_page_size @ ?f hd_region_header_pages) @ ?z 4 @ (?z 4 @ ?z 4 @ ?z 32 @ ?z 128 @ ?z 128))" for g
    by (subst w) simp_all
  have 5: "write_at ((MAGICNUMBER @ [g] @ ?z 2 @ ?f hd_page_size @ ?f hd_region_header_pages) @ ?z 4 @ (?z 4 @ ?z 4 @ ?z 32 @ ?z 128 @ ?z 128)) 20 (?f hd_region_max_data_pages) =
      ok ((MAGICNUMBER @ [g] @ ?z 2 @ ?f hd_page_size @ ?f hd_region_header_pages @ ?f hd_region_max_data_pages) @ ?z 4 @ (?z 4 @ ?z 32 @ ?z 128 @ ?z 128))" for g
    by (subst w) simp_all
  have 6: "write_at ((MAGICNUMBER @ [g] @ ?z 2 @ ?f hd_page_size @ ?f hd_region_header_pages @ ?f hd_region_max_data_pages) @ ?z 4 @ (?z 4 @ ?z 32 @ ?z 128 @ ?z 128)) 24 (?f hd_full_regions) =
      ok ((MAGICNUMBER @ [g] @ ?z 2 @ ?f hd_page_size @ ?f hd_region_header_pages @ ?f hd_region_max_data_pages @ ?f hd_full_regions) @ ?z 4 @ (?z 32 @ ?z 128 @ ?z 128))" for g
    by (subst w) simp_all
  let ?p = "\<lambda>g. MAGICNUMBER @ [g] @ ?z 2 @ ?f hd_page_size @ ?f hd_region_header_pages @ ?f hd_region_max_data_pages @ ?f hd_full_regions"
  have 7: "write_at (?p g @ ?z 4 @ (?z 32 @ ?z 128 @ ?z 128)) 28 (?f hd_trailing_pages) =
      ok ((?p g @ ?f hd_trailing_pages @ ?z 32) @ ?z 128 @ ?z 128)" for g
    by (subst w) simp_all
  have 8: "write_at ((?p g @ ?f hd_trailing_pages @ ?z 32) @ ?z 128 @ ?z 128) 64 (slot_bytes s0) =
      ok ((?p g @ ?f hd_trailing_pages @ ?z 32 @ slot_bytes s0) @ ?z 128 @ [])" for g
    by (subst w) simp_all
  have 9: "write_at ((?p g @ ?f hd_trailing_pages @ ?z 32 @ slot_bytes s0) @ ?z 128 @ []) 192 (slot_bytes s1) =
      ok ((?p g @ ?f hd_trailing_pages @ ?z 32 @ slot_bytes s0) @ slot_bytes s1 @ [])" for g
    by (subst w) simp_all
  have g: "god_byte h = ok (god_value h)" using assms by (simp add: hd_wf_def god_byte_ok)
  have t: "index (hd_slots h) 0 \<bind> th_to_bytes = ok (slot_bytes s0)" "index (hd_slots h) 1 \<bind> th_to_bytes = ok (slot_bytes s1)"
    using th_to_bytes_ok s by (simp_all add: slot_bytes_def)
  show ?thesis
    unfolding hd_to_bytes_def Let_def if_True 1 bind.bind_lunit g 2 3 4 5 6 7 t 8 9
    by (simp add: header_bytes_def s numeral_2_eq_2)
qed

lemma header_slices:
  assumes "hd_wf h"
  shows "length (header_bytes h) = 320" "sub_slice (header_bytes h) 0 9 = ok MAGICNUMBER" "index (header_bytes h) 9 = ok (god_value h)"
    "hd_get_u32 (header_bytes h) 12 = ok (hd_page_size h)" "hd_get_u32 (header_bytes h) 16 = ok (hd_region_header_pages h)"
    "hd_get_u32 (header_bytes h) 20 = ok (hd_region_max_data_pages h)" "hd_get_u32 (header_bytes h) 24 = ok (hd_full_regions h)"
    "hd_get_u32 (header_bytes h) 28 = ok (hd_trailing_pages h)"
    "sub_slice (header_bytes h) 64 192 = ok (slot_bytes (hd_slots h ! 0))" "sub_slice (header_bytes h) 192 320 = ok (slot_bytes (hd_slots h ! 1))"
proof -
  have "hd_page_size h < 256 ^ 4" "hd_region_header_pages h < 256 ^ 4" "hd_region_max_data_pages h < 256 ^ 4"
    "hd_full_regions h < 256 ^ 4" "hd_trailing_pages h < 256 ^ 4"
    using assms by (auto simp: hd_wf_def layout_fields_ok_def MAX_PAGE_INDEX_def MAX_REGIONS_def split: if_splits)
  then show "length (header_bytes h) = 320" "sub_slice (header_bytes h) 0 9 = ok MAGICNUMBER" "index (header_bytes h) 9 = ok (god_value h)"
    "hd_get_u32 (header_bytes h) 12 = ok (hd_page_size h)" "hd_get_u32 (header_bytes h) 16 = ok (hd_region_header_pages h)"
    "hd_get_u32 (header_bytes h) 20 = ok (hd_region_max_data_pages h)" "hd_get_u32 (header_bytes h) 24 = ok (hd_full_regions h)"
    "hd_get_u32 (header_bytes h) 28 = ok (hd_trailing_pages h)"
    "sub_slice (header_bytes h) 64 192 = ok (slot_bytes (hd_slots h ! 0))" "sub_slice (header_bytes h) 192 320 = ok (slot_bytes (hd_slots h ! 1))"
    by (simp_all add: header_bytes_def sub_slice_def hd_get_u32_def index_def nth_append)
qed

lemma hd_round_trip:
  assumes "hd_wf h"
  shows "un_from_bytes (header_bytes h) (hd_page_size h) =
    ok (Inr \<lparr>un_inner = h, un_primary_corrupted = False, un_secondary_corrupted = False\<rparr>)"
proof -
  obtain s0 s1 where s: "hd_slots h = [s0, s1]" "th_wf s0" "th_wf s1"
    using assms by (auto simp: hd_wf_def length_Suc_conv numeral_2_eq_2)
  have p: "hd_primary_slot h = 0 \<or> hd_primary_slot h = 1" using assms by (auto simp: hd_wf_def)
  have f: "layout_fields_ok h" using assms by (simp add: hd_wf_def)
  have r: "cadd 64 (hd_full_regions h) (if 0 < hd_trailing_pages h then 1 else 0) = ok (hd_full_regions h + (if 0 < hd_trailing_pages h then 1 else 0))"
    using f by (simp add: cadd_def layout_fields_ok_def MAX_REGIONS_def)
  have h: "\<lparr>hd_primary_slot = (if hd_primary_slot h \<noteq> 0 then 1 else 0), hd_recovery_required = hd_recovery_required h,
      hd_two_phase_commit = hd_two_phase_commit h, hd_page_size = hd_page_size h, hd_region_header_pages = hd_region_header_pages h,
      hd_region_max_data_pages = hd_region_max_data_pages h, hd_full_regions = hd_full_regions h,
      hd_trailing_pages = hd_trailing_pages h, hd_slots = [s0, s1]\<rparr> = h" using p s(1) by (cases h) auto
  note hs = header_slices [OF assms]
  have sl: "sub_slice (header_bytes h) 64 (64 + 128) = ok (slot_bytes s0)" "sub_slice (header_bytes h) 192 (192 + 128) = ok (slot_bytes s1)"
    using hs(9,10) by (simp_all add: s(1))
  show ?thesis
    using f th_round_trip [OF s(2)] th_round_trip [OF s(3)] h
    unfolding un_from_bytes_def length_MAGICNUMBER hs(2,3) bind.bind_lunit Let_def hs(4-8) god_bits r sl layout_fields_ok_def
    by (auto simp: not_less)
qed

subsection \<open>Reading arbitrary bytes\<close>

lemma bh_from_total: "length bs = 32 \<Longrightarrow> \<exists>h. bh_from_le_bytes bs = ok h"
  using pn_decode_bytes [of "take 8 bs"] by (auto simp: bh_from_le_bytes_def sub_slice_def)

lemma read_root_total: "f < length dat \<Longrightarrow> off + 32 \<le> length dat \<Longrightarrow> \<exists>r. read_root dat f off = ok r"
  using bh_from_total [of "take 32 (drop off dat)"] by (auto simp: read_root_def sub_slice_def)

lemma th_from_total:
  assumes "length dat = 128"
  shows "\<exists>r. th_from_bytes dat = ok r"
proof -
  obtain r1 r2 where "read_root dat 1 8 = ok r1" "read_root dat 2 40 = ok r2"
    using read_root_total [of 1 dat 8] read_root_total [of 2 dat 40] assms by auto
  then show ?thesis using assms by (simp add: th_from_bytes_def sub_slice_def Let_def)
qed

text \<open>What \<open>from_bytes\<close> guarantees of a header it accepts.\<close>

definition un_ok :: "nat \<Rightarrow> unrepaired_header \<Rightarrow> bool" where
  "un_ok ps u \<longleftrightarrow> hd_page_size (un_inner u) = ps \<and> layout_fields_ok (un_inner u)
     \<and> hd_primary_slot (un_inner u) < 2 \<and> length (hd_slots (un_inner u)) = 2"

lemma un_from_total:
  assumes "length dat = 320"
  shows "\<exists>r. un_from_bytes dat ps = ok r \<and> (\<forall>u. r = Inr u \<longrightarrow> un_ok ps u)"
proof -
  have g: "\<exists>x. hd_get_u32 dat i = ok x \<and> x < 2 ^ 32" if "i + 4 \<le> 320" for i
    using that assms le_nat_bound [of "take 4 (drop i dat)"] by (simp add: hd_get_u32_def sub_slice_def)
  obtain a b c d e where f: "hd_get_u32 dat 12 = ok a" "hd_get_u32 dat 16 = ok b" "hd_get_u32 dat 20 = ok c"
    "hd_get_u32 dat 24 = ok d" "hd_get_u32 dat 28 = ok e" and lt: "d < 2 ^ 32"
    using g [of 12] g [of 16] g [of 20] g [of 24] g [of 28] by auto
  have sl: "sub_slice dat 0 9 = ok (take 9 dat)" "index dat 9 = ok (dat ! 9)"
    "sub_slice dat 64 (64 + 128) = ok (take 128 (drop 64 dat))" "sub_slice dat 192 (192 + 128) = ok (take 128 (drop 192 dat))"
    using assms by (simp_all add: sub_slice_def)
  obtain r0 r1 where t: "th_from_bytes (take 128 (drop 64 dat)) = ok r0" "th_from_bytes (take 128 (drop 192 dat)) = ok r1"
    using th_from_total [of "take 128 (drop 64 dat)"] th_from_total [of "take 128 (drop 192 dat)"] assms by auto
  have ca: "cadd 64 d x = ok (d + x)" if "x \<le> 1" for x using lt that by (simp add: cadd_def)
  show ?thesis
    unfolding un_from_bytes_def length_MAGICNUMBER sl f bind.bind_lunit Let_def t
    by (cases r0; cases r1) (auto simp: ca un_ok_def layout_fields_ok_def)
qed

definition hdr_layout :: "db_header \<Rightarrow> db_layout" where
  "hdr_layout h = \<lparr>dl_full = \<lparr>rl_num_pages = hd_region_max_data_pages h, rl_header_pages = hd_region_header_pages h, rl_page_size = hd_page_size h\<rparr>,
     dl_num_full = hd_full_regions h,
     dl_trailing = if hd_trailing_pages h > 0
       then Some \<lparr>rl_num_pages = hd_trailing_pages h, rl_header_pages = hd_region_header_pages h, rl_page_size = hd_page_size h\<rparr> else None\<rparr>"

lemma hd_layout_ok: "0 < hd_region_max_data_pages h \<Longrightarrow> hd_layout h = ok (hdr_layout h)"
  by (simp add: hd_layout_def hdr_layout_def rl_new_def dl_new_def)

text \<open>The page size bounds all the layout arithmetic.\<close>

lemma layout_bounds:
  assumes "layout_fields_ok h" "0 < hd_page_size h" "hd_page_size h \<le> 4096"
  defines "p \<equiv> hd_page_size h" and "H \<equiv> hd_region_header_pages h" and "M \<equiv> hd_region_max_data_pages h"
  shows "dl_shape (hdr_layout h)" "dl_bounded (hdr_layout h)" "M * p \<le> 2 ^ 32" "p + (MAX_REGIONS + 1) * ((H + M) * p) < 2 ^ 64"
    "p + (H + 1) * p \<le> dl_size (hdr_layout h)" "cmul 64 MAX_REGIONS ((H + M) * p) = ok (MAX_REGIONS * ((H + M) * p))"
    "cadd 64 H M = ok (H + M)" "cmul 64 (H + M) p = ok ((H + M) * p)"
    "cadd 64 p (MAX_REGIONS * ((H + M) * p)) = ok (p + MAX_REGIONS * ((H + M) * p))"
proof -
  define s where "s = (H + M) * p"
  have f: "0 < M" "M \<le> 2 ^ 20" "H \<le> 2 ^ 20" "hd_trailing_pages h \<le> M" "0 < p" "p \<le> 2 ^ 12"
    using assms by (auto simp: layout_fields_ok_def MAX_PAGE_INDEX_def p_def H_def M_def)
  have R: "hd_full_regions h \<le> 2 ^ 20" using assms(1) by (auto simp: layout_fields_ok_def MAX_REGIONS_def split: if_splits)
  have "M * p \<le> 2 ^ 20 * 2 ^ 12" using f(2,6) by (rule mult_le_mono)
  then show "M * p \<le> 2 ^ 32" by simp
  have "s \<le> (2 ^ 20 + 2 ^ 20) * 2 ^ 12" unfolding s_def using f by (intro mult_le_mono add_mono) auto
  then have s: "s \<le> 2 ^ 33" by simp
  have "(hd_full_regions h + 1) * s \<le> (2 ^ 20 + 1) * 2 ^ 33" using R s by (intro mult_le_mono) auto
  then have b: "p + (hd_full_regions h + 1) * s < 2 ^ 64" using f(6) by simp
  have full: "rl_size (dl_full (hdr_layout h)) = s" by (simp add: rl_size_def hdr_layout_def s_def p_def H_def M_def)
  show "dl_bounded (hdr_layout h)"
    using b R unfolding dl_bounded_def full by (simp add: hdr_layout_def p_def)
  have t: "(H + hd_trailing_pages h) * p \<le> s" unfolding s_def using f(4) by (intro mult_le_mono1) simp
  then show "dl_shape (hdr_layout h)"
    using assms(1) by (auto simp: dl_shape_def hdr_layout_def rl_size_def layout_fields_ok_def s_def p_def H_def M_def)
  have "(H + 1) * p \<le> (H + n) * p" if "0 < n" for n using that by (intro mult_le_mono1) simp
  then have "(H + 1) * p \<le> hd_full_regions h * s + (if hd_trailing_pages h > 0 then (H + hd_trailing_pages h) * p else 0)"
  proof (cases "hd_trailing_pages h > 0")
    case False
    then have "1 * s \<le> hd_full_regions h * s" using assms(1) by (intro mult_le_mono1) (auto simp: layout_fields_ok_def)
    moreover have "(H + 1) * p \<le> s" unfolding s_def using f(1) by (intro mult_le_mono1) simp
    ultimately show ?thesis unfolding if_not_P [OF False] by linarith
  next
    case True
    then have "(H + 1) * p \<le> (H + hd_trailing_pages h) * p" by (intro mult_le_mono1) simp
    then show ?thesis using True by simp
  qed
  moreover have "dl_size (hdr_layout h) = p + hd_full_regions h * s + (if hd_trailing_pages h > 0 then (H + hd_trailing_pages h) * p else 0)"
    unfolding dl_size_def full by (simp add: hdr_layout_def rl_size_def p_def H_def)
  ultimately show "p + (H + 1) * p \<le> dl_size (hdr_layout h)" by linarith
  have "(MAX_REGIONS + 1) * s \<le> (MAX_REGIONS + 1) * 2 ^ 33" using s by (rule mult_le_mono2)
  then have m: "p + MAX_REGIONS * s + s < 2 ^ 64" using f(6) by (simp add: MAX_REGIONS_def)
  then show "p + (MAX_REGIONS + 1) * ((H + M) * p) < 2 ^ 64" "cmul 64 MAX_REGIONS ((H + M) * p) = ok (MAX_REGIONS * ((H + M) * p))"
    "cmul 64 (H + M) p = ok ((H + M) * p)" "cadd 64 p (MAX_REGIONS * ((H + M) * p)) = ok (p + MAX_REGIONS * ((H + M) * p))"
    unfolding s_def [symmetric] cmul_def cadd_def by simp_all
  show "cadd 64 H M = ok (H + M)" using f(2,3) by (simp add: cadd_def)
qed

lemma hd_set_layout_ok:
  assumes "0 < hd_region_max_data_pages h" "dl_wf l" "dl_full l = dl_full (hdr_layout h)"
  shows "\<exists>h'. hd_set_layout h l = ok h' \<and> hdr_layout h' = l \<and> hd_page_size h' = hd_page_size h
    \<and> hd_region_max_data_pages h' = hd_region_max_data_pages h \<and> hd_slots h' = hd_slots h
    \<and> hd_primary_slot h' = hd_primary_slot h \<and> hd_two_phase_commit h' = hd_two_phase_commit h"
proof (cases "dl_trailing l")
  case None
  then show ?thesis using assms
    by (intro exI [of _ "h\<lparr>hd_trailing_pages := 0, hd_full_regions := dl_num_full l\<rparr>"])
      (cases l, simp add: hd_set_layout_def hd_layout_ok hdr_layout_def)
next
  case (Some t)
  then show ?thesis using assms
    by (intro exI [of _ "h\<lparr>hd_trailing_pages := rl_num_pages t, hd_full_regions := dl_num_full l\<rparr>"])
      (cases l, auto simp: hd_set_layout_def hd_layout_ok hdr_layout_def dl_wf_def)
qed

lemma reconcile_ok:
  assumes u: "un_ok ps u" and ps: "0 < ps" "ps \<le> 4096"
  shows "\<exists>r. reconcile_layout u len = ok r \<and> (\<forall>stale u'. r = Inr (stale, u') \<longrightarrow>
    hd_layout (un_inner u') = ok (hdr_layout (un_inner u')) \<and> dl_len (hdr_layout (un_inner u')) = ok len
    \<and> hd_slots (un_inner u') = hd_slots (un_inner u) \<and> hd_primary_slot (un_inner u') = hd_primary_slot (un_inner u)
    \<and> hd_two_phase_commit (un_inner u') = hd_two_phase_commit (un_inner u)
    \<and> un_primary_corrupted u' = un_primary_corrupted u \<and> un_secondary_corrupted u' = un_secondary_corrupted u)"
proof -
  let ?h = "un_inner u"
  have f: "layout_fields_ok ?h" "hd_page_size ?h = ps" "0 < hd_region_max_data_pages ?h" using u by (auto simp: un_ok_def layout_fields_ok_def)
  note B = layout_bounds [of ?h, unfolded f(2), OF f(1) ps]
  note lay = hd_layout_ok [OF f(3)] and len = dl_len_ok [OF B(1,2)]
  let ?M = "hd_region_max_data_pages ?h" let ?H = "hd_region_header_pages ?h"
  have fl: "rl_num_pages (dl_full (hdr_layout ?h)) = ?M" "rl_header_pages (dl_full (hdr_layout ?h)) = ?H" by (simp_all add: hdr_layout_def)
  show ?thesis
  proof (cases "dl_size (hdr_layout ?h) < len \<and> len \<le> ps + MAX_REGIONS * ((?H + ?M) * ps)")
    case False
    then show ?thesis using lay len B(6-9) f(2) by (auto simp: reconcile_layout_def fl)
  next
    case True
    have "MAX_REGIONS + 1 < (2::nat) ^ 32" by (simp add: MAX_REGIONS_def)
    moreover have "ps + (?H + 1) * ps \<le> len" using B(5) True by linarith
    ultimately obtain l where l: "dl_recalculate len ?H ?M ps = ok l" "dl_wf l" "dl_bounded l"
      "dl_full l = \<lparr>rl_num_pages = ?M, rl_header_pages = ?H, rl_page_size = ps\<rparr>"
      using dl_recalculate_ok [OF f(3) ps(1) B(3,4)] True by blast
    have "dl_full l = dl_full (hdr_layout ?h)" using l(4) f(2) by (simp add: hdr_layout_def)
    then obtain h' where h': "hd_set_layout ?h l = ok h'" "hdr_layout h' = l" "hd_region_max_data_pages h' = ?M"
      "hd_slots h' = hd_slots ?h" "hd_primary_slot h' = hd_primary_slot ?h" "hd_two_phase_commit h' = hd_two_phase_commit ?h"
      using hd_set_layout_ok [OF f(3) l(2)] by blast
    have "hd_layout h' = ok l" using hd_layout_ok [of h'] h'(2,3) f(3) by simp
    then show ?thesis using True lay len B(6-9) f(2) l(1) dl_len_ok [OF dl_wf_shape [OF l(2)] l(3)] h'
      by (auto simp: reconcile_layout_def fl)
  qed
qed

subsection \<open>Selecting the commit slot\<close>

definition slot_corrupted :: "unrepaired_header \<Rightarrow> nat \<Rightarrow> bool" where
  "slot_corrupted u i = (if i = hd_primary_slot (un_inner u) then un_primary_corrupted u else un_secondary_corrupted u)"

text \<open>Slot \<open>i\<close> is a slot to start from: intact, and under one-phase commit no intact slot is newer.\<close>

definition good_slot :: "unrepaired_header \<Rightarrow> nat \<Rightarrow> bool" where
  "good_slot u i \<longleftrightarrow> i < 2 \<and> \<not> slot_corrupted u i
     \<and> (if hd_two_phase_commit (un_inner u) then i = hd_primary_slot (un_inner u)
        else \<forall>j<2. \<not> slot_corrupted u j \<longrightarrow>
          th_transaction_id (hd_slots (un_inner u) ! j) \<le> th_transaction_id (hd_slots (un_inner u) ! i))"

lemma less_2_cases: "(i :: nat) < 2 \<longleftrightarrow> i = 0 \<or> i = 1"
  by auto

lemma xor_1_bit: "(0 :: nat) XOR 1 = 1" "(1 :: nat) XOR 1 = 0" "Suc 0 XOR Suc 0 = 0" "0 XOR Suc 0 = Suc 0"
  by simp_all

lemma select_primary_slot_ok:
  assumes "hd_primary_slot (un_inner u) < 2" "length (hd_slots (un_inner u)) = 2"
  shows "\<exists>r. select_primary_slot u = ok r \<and> (case r of
      Inl e \<Rightarrow> \<nexists>i. good_slot u i
    | Inr (kept, u') \<Rightarrow> good_slot u (hd_primary_slot (un_inner u'))
        \<and> (kept \<longleftrightarrow> hd_primary_slot (un_inner u') = hd_primary_slot (un_inner u))
        \<and> un_inner u' = (un_inner u)\<lparr>hd_primary_slot := hd_primary_slot (un_inner u')\<rparr>)"
proof -
  obtain s0 s1 where s: "hd_slots (un_inner u) = [s0, s1]"
    using assms(2) by (auto simp: length_Suc_conv numeral_2_eq_2)
  have p: "hd_primary_slot (un_inner u) = 0 \<or> hd_primary_slot (un_inner u) = 1" using assms(1) by auto
  then show ?thesis
    by (cases "hd_two_phase_commit (un_inner u)"; cases "un_primary_corrupted u"; cases "un_secondary_corrupted u")
      (auto simp: select_primary_slot_def good_slot_def slot_corrupted_def swap_primary_slot_def secondary_slot_def
        primary_slot_def s less_2_cases)
qed

lemma finalize_ok:
  assumes u: "un_ok ps u" and ps: "0 < ps" "ps \<le> 4096"
  shows "\<exists>r. finalize u len = ok r \<and> (\<forall>h clean. r = Inr (h, clean) \<longrightarrow>
    (\<exists>l. hd_layout h = ok l \<and> dl_len l = ok len) \<and> hd_slots h = hd_slots (un_inner u) \<and> good_slot u (hd_primary_slot h)
    \<and> (clean \<longrightarrow> hd_primary_slot h = hd_primary_slot (un_inner u)))"
proof -
  obtain r where r: "reconcile_layout u len = ok r" "\<And>stale u'. r = Inr (stale, u') \<Longrightarrow>
    hd_layout (un_inner u') = ok (hdr_layout (un_inner u')) \<and> dl_len (hdr_layout (un_inner u')) = ok len
    \<and> hd_slots (un_inner u') = hd_slots (un_inner u) \<and> hd_primary_slot (un_inner u') = hd_primary_slot (un_inner u)
    \<and> hd_two_phase_commit (un_inner u') = hd_two_phase_commit (un_inner u)
    \<and> un_primary_corrupted u' = un_primary_corrupted u \<and> un_secondary_corrupted u' = un_secondary_corrupted u"
    using reconcile_ok [OF assms, of len] by blast
  show ?thesis
  proof (cases r)
    case (Inl e)
    then show ?thesis using r(1) by (simp add: finalize_def)
  next
    case (Inr x)
    obtain stale u1 where x: "x = (stale, u1)" by force
    note R = r(2) [OF Inr [unfolded x]]
    have g: "good_slot u1 i \<longleftrightarrow> good_slot u i" for i using R by (simp add: good_slot_def slot_corrupted_def)
    have w: "hd_primary_slot (un_inner u1) < 2" "length (hd_slots (un_inner u1)) = 2" using u R by (simp_all add: un_ok_def)
    obtain r' where r': "select_primary_slot u1 = ok r'" "case r' of Inl e \<Rightarrow> \<nexists>i. good_slot u1 i
      | Inr (kept, u') \<Rightarrow> good_slot u1 (hd_primary_slot (un_inner u')) \<and> (kept \<longleftrightarrow> hd_primary_slot (un_inner u') = hd_primary_slot (un_inner u1))
        \<and> un_inner u' = (un_inner u1)\<lparr>hd_primary_slot := hd_primary_slot (un_inner u')\<rparr>"
      using select_primary_slot_ok [OF w] by blast
    show ?thesis
    proof (cases r')
      case (Inl e)
      then show ?thesis using r(1) Inr x r'(1) by (simp add: finalize_def)
    next
      case (Inr y)
      obtain kept u2 where y: "y = (kept, u2)" by force
      have u2: "good_slot u1 (hd_primary_slot (un_inner u2))" "kept \<longleftrightarrow> hd_primary_slot (un_inner u2) = hd_primary_slot (un_inner u1)"
        "un_inner u2 = (un_inner u1)\<lparr>hd_primary_slot := hd_primary_slot (un_inner u2)\<rparr>"
        using r'(2) unfolding Inr y by auto
      have "hd_layout (un_inner u2) = hd_layout (un_inner u1)" "hd_slots (un_inner u2) = hd_slots (un_inner u1)"
        by (subst u2(3), simp add: hd_layout_def)+
      then show ?thesis using r(1) \<open>r = Inr x\<close> x r'(1) Inr y R u2(1,2) g by (simp add: finalize_def)
    qed
  qed
qed

subsection \<open>Properties\<close>

text \<open>
  C34. Reading the header that was written gives back the header: every field, both commit slots
  with their roots, and both slot checksums verify.
\<close>

theorem header_round_trip:
  assumes "hd_wf h"
  shows "\<exists>bs. hd_to_bytes h True = ok bs \<and> length bs = DB_HEADER_SIZE \<and> un_from_bytes bs (hd_page_size h) =
    ok (Inr \<lparr>un_inner = h, un_primary_corrupted = False, un_secondary_corrupted = False\<rparr>)"
  using hd_to_bytes_ok [OF assms] header_slices(1) [OF assms] hd_round_trip [OF assms] by blast

definition example_header :: db_header where
  "example_header = \<lparr>hd_primary_slot = 1, hd_recovery_required = True, hd_two_phase_commit = False, hd_page_size = 4096,
     hd_region_header_pages = 0, hd_region_max_data_pages = 1000, hd_full_regions = 2, hd_trailing_pages = 17,
     hd_slots = [th_new 5, \<lparr>th_version = 3, th_user_root = Some \<lparr>bh_root = \<lparr>pn_region = 1, pn_index = 2, pn_order = 3\<rparr>,
       bh_checksum = 99, bh_length = 12\<rparr>, th_system_root = None, th_transaction_id = 6\<rparr>]\<rparr>"

lemma example_header_wf: "hd_wf example_header"
  by (simp add: hd_wf_def example_header_def layout_fields_ok_def MAX_PAGE_INDEX_def MAX_REGIONS_def th_wf_def th_new_def
      bh_wf_def pn_wf_def)

lemma header_round_trip_witness:
  "\<exists>bs. hd_to_bytes example_header True = ok bs \<and> un_from_bytes bs 4096 =
    ok (Inr \<lparr>un_inner = example_header, un_primary_corrupted = False, un_secondary_corrupted = False\<rparr>)"
  using header_round_trip [OF example_header_wf] by (auto simp: example_header_def)

text \<open>
  C8. Opening cannot panic.  Whatever the 320 header bytes and the length of the file are, parsing and
  finalizing return an error or a header; no layout arithmetic overflows, and the layout of the
  header accounts for exactly the length of the file (which \<open>TransactionalMemory::new\<close> asserts).
\<close>

theorem header_open_safe:
  assumes "length dat = DB_HEADER_SIZE" "0 < ps" "ps \<le> 4096"
  shows "\<exists>r. un_from_bytes dat ps = ok r \<and> (\<forall>u. r = Inr u \<longrightarrow>
    (\<exists>r'. finalize u file_len = ok r' \<and> (\<forall>h clean. r' = Inr (h, clean) \<longrightarrow>
      (\<exists>l. hd_layout h = ok l \<and> dl_len l = ok file_len))))"
  using un_from_total [OF assms(1), of ps] finalize_ok [OF _ assms(2,3), of _ file_len] by meson

lemma header_open_safe_witness:
  "\<exists>r. un_from_bytes (replicate 320 0xFF) 4096 = ok r \<and> (\<forall>u. r = Inr u \<longrightarrow>
    (\<exists>r'. finalize u 12345 = ok r' \<and> (\<forall>h clean. r' = Inr (h, clean) \<longrightarrow>
      (\<exists>l. hd_layout h = ok l \<and> dl_len l = ok 12345))))"
  by (rule header_open_safe) simp_all



end
