(* ===== verification/Region.thy ===== *)
theory Region
  imports Bitmap Buddy_Ops Layout Page_Number
begin

text \<open>
  The allocators of all regions, \<open>src/tree_store/page_store/region.rs\<close>: \<open>RegionTracker\<close>, which
  keeps for each order a bitmap of the regions that may have a free block of that order, and
  \<open>Allocators\<close>, the tracker with one buddy allocator per region.

  The state is described by the number of pages \<open>n i\<close> and the free pages \<open>P i\<close> of each region
  and by the sets \<open>F o\<close> of the regions that the tracker offers for order \<open>o\<close>.  The lemmas show that every
  operation keeps the tracker inside the existing regions and sound for order 0: a region with
  a free page is always offered.
\<close>

definition INITIAL_REGIONS :: nat where "INITIAL_REGIONS = 1000"

subsection \<open>\<open>RegionTracker\<close>\<close>

type_synonym region_tracker = "btree_bitmap list"

definition rt_new :: "nat \<Rightarrow> nat \<Rightarrow> region_tracker rust" where
  "rt_new regions orders = map_rust (\<lambda>_. bb_new_padded regions regions MAX_REGIONS) [0..<orders]"

definition rt_to_vec :: "region_tracker \<Rightarrow> byte list rust" where
  "rt_to_vec rt = do {
     orders \<leftarrow> try_into 32 (length rt);
     vecs \<leftarrow> map_rust bb_to_vec rt;
     allocator_lens \<leftarrow> map_rust (\<lambda>v. try_into 32 (length v)) vecs;
     ok (le_bytes 4 orders @ concat (map (le_bytes 4) allocator_lens) @ concat vecs) }"

fun rt_read_lens :: "byte list \<Rightarrow> nat \<Rightarrow> nat \<Rightarrow> (nat list \<times> nat) rust" where
  "rt_read_lens page 0 start = ok ([], start)"
| "rt_read_lens page (Suc orders) start = do {
     b \<leftarrow> sub_slice page start (start + 4);
     (lens, start) \<leftarrow> rt_read_lens page orders (start + 4);
     ok (le_nat b # lens, start) }"

fun rt_read_parts :: "byte list \<Rightarrow> nat list \<Rightarrow> nat \<Rightarrow> region_tracker rust" where
  "rt_read_parts page [] start = ok []"
| "rt_read_parts page (allocator_len # lens) start = do {
     b \<leftarrow> sub_slice page start (start + allocator_len);
     t \<leftarrow> bb_from_bytes b;
     ts \<leftarrow> rt_read_parts page lens (start + allocator_len);
     ok (t # ts) }"

definition rt_from_bytes :: "byte list \<Rightarrow> region_tracker rust" where
  "rt_from_bytes page = do {
     b \<leftarrow> sub_slice page 0 4;
     let orders = le_nat b;
     (allocator_lens, start) \<leftarrow> rt_read_lens page orders 4;
     rt_read_parts page allocator_lens start }"

definition rt_find_free :: "region_tracker \<Rightarrow> nat \<Rightarrow> nat option rust" where
  "rt_find_free rt order = index rt order \<bind> find_first_unset"

definition rt_mark_free :: "region_tracker \<Rightarrow> nat \<Rightarrow> nat \<Rightarrow> region_tracker rust" where
  "rt_mark_free rt order region =
     for_each [0..<Suc order] (\<lambda>i rt. update_at rt i (\<lambda>b. bb_clear b region)) rt"

definition rt_mark_full :: "region_tracker \<Rightarrow> nat \<Rightarrow> nat \<Rightarrow> region_tracker rust" where
  "rt_mark_full rt order region = do {
     assert_that (order < length rt);
     for_each [order..<length rt] (\<lambda>i rt. update_at rt i (\<lambda>b. bb_set b region)) rt }"

definition rt_resize :: "region_tracker \<Rightarrow> nat \<Rightarrow> region_tracker rust" where
  "rt_resize rt new_capacity = map_rust (\<lambda>order. bb_resize order new_capacity True) rt"

definition rt_len :: "region_tracker \<Rightarrow> nat rust" where
  "rt_len rt = index rt 0 \<bind> bb_len"

subsection \<open>\<open>Allocators\<close>\<close>

record allocators =
  region_tracker :: region_tracker
  region_allocators :: "buddy list"

definition al_new :: "db_layout \<Rightarrow> allocators rust" where
  "al_new layout = do {
     n \<leftarrow> num_regions layout;
     let initial_regions = max INITIAL_REGIONS n;
     rt \<leftarrow> rt_new initial_regions (MAX_MAX_PAGE_ORDER + 1);
     for_each [0..<n] (\<lambda>i al. do {
       r \<leftarrow> get_region_layout layout i;
       allocator \<leftarrow> bud_new (rl_num_pages r) (rl_num_pages (dl_full layout));
       rt \<leftarrow> rt_mark_free (region_tracker al) (bud_max_order allocator) i;
       ok \<lparr>region_tracker = rt, region_allocators = region_allocators al @ [allocator]\<rparr> })
       \<lparr>region_tracker = rt, region_allocators = []\<rparr> }"

definition last_region_pages :: "db_layout \<Rightarrow> nat" where
  "last_region_pages layout = rl_num_pages (case dl_trailing layout of Some t \<Rightarrow> t | None \<Rightarrow> dl_full layout)"

definition al_shrink_to :: "allocators \<Rightarrow> db_layout \<Rightarrow> allocators rust" where
  "al_shrink_to al new_layout = do {
     n \<leftarrow> num_regions new_layout;
     top \<leftarrow> try_into 32 (length (region_allocators al));
     rt \<leftarrow> for_each [n..<top] (\<lambda>i rt. rt_mark_full rt 0 i) (region_tracker al);
     assert_that (n \<le> length (region_allocators al));
     let as = take n (region_allocators al);
     last \<leftarrow> csub (length as) 1;
     a \<leftarrow> index as last;
     a' \<leftarrow> (if bud_len a > last_region_pages new_layout then bud_resize a (last_region_pages new_layout) else ok a);
     as \<leftarrow> index_set as last a';
     ok \<lparr>region_tracker = rt, region_allocators = as\<rparr> }"

definition grow_step :: "db_layout \<Rightarrow> nat \<Rightarrow> nat \<Rightarrow> allocators \<Rightarrow> allocators rust" where
  "grow_step new_layout old_num_regions i al = do {
     new_region \<leftarrow> get_region_layout new_layout i;
     if i < old_num_regions then do {
       allocator \<leftarrow> index (region_allocators al) i;
       assert_that (rl_num_pages new_region \<ge> bud_len allocator);
       if rl_num_pages new_region \<noteq> bud_len allocator then do {
         allocator \<leftarrow> bud_resize allocator (rl_num_pages new_region);
         highest \<leftarrow> highest_free_order allocator;
         highest_free \<leftarrow> highest;
         rt \<leftarrow> rt_mark_free (region_tracker al) highest_free i;
         as \<leftarrow> index_set (region_allocators al) i allocator;
         ok \<lparr>region_tracker = rt, region_allocators = as\<rparr> }
       else ok al }
     else do {
       allocator \<leftarrow> bud_new (rl_num_pages new_region) (rl_num_pages (dl_full new_layout));
       highest \<leftarrow> highest_free_order allocator;
       highest_free \<leftarrow> highest;
       len \<leftarrow> rt_len (region_tracker al);
       rt \<leftarrow> (if i \<ge> len then do { c \<leftarrow> cadd 32 i 1; rt_resize (region_tracker al) c } else ok (region_tracker al));
       rt \<leftarrow> rt_mark_free rt highest_free i;
       ok \<lparr>region_tracker = rt, region_allocators = region_allocators al @ [allocator]\<rparr> } }"

definition al_resize_to :: "allocators \<Rightarrow> db_layout \<Rightarrow> allocators rust" where
  "al_resize_to al new_layout = do {
     n \<leftarrow> num_regions new_layout;
     let old = length (region_allocators al);
     change \<leftarrow> (if n < old then ok Less
       else if n = old then do {
         last \<leftarrow> csub old 1;
         allocator \<leftarrow> index (region_allocators al) last;
         ok (cmp_nat (last_region_pages new_layout) (bud_len allocator)) }
       else ok Greater);
     (case change of
        Equal \<Rightarrow> ok al
      | Less \<Rightarrow> al_shrink_to al new_layout
      | Greater \<Rightarrow> for_each [0..<n] (grow_step new_layout old) al) }"

subsection \<open>The tracker as a family of sets\<close>

text \<open>\<open>rt_rep n h F rt\<close>: for each order the bitmap has room for \<open>n\<close> regions and the regions in \<open>F order\<close> are unset;
  it can grow to \<open>MAX_REGIONS\<close>.\<close>

definition rt_rep :: "nat \<Rightarrow> nat \<Rightarrow> (nat \<Rightarrow> nat set) \<Rightarrow> region_tracker \<Rightarrow> bool" where
  "rt_rep n h F rt \<longleftrightarrow> length rt = MAX_MAX_PAGE_ORDER + 1 \<and> reps bb_rep (\<lambda>_. n) (\<lambda>_. h) F rt
     \<and> MAX_REGIONS \<le> 64 ^ h \<and> h \<le> 6"

lemma rt_rep_cong:
  "rt_rep n h F rt \<Longrightarrow> (\<And>k. k \<le> MAX_MAX_PAGE_ORDER \<Longrightarrow> F k = G k) \<Longrightarrow> rt_rep n h G rt"
  by (auto simp: rt_rep_def reps_def less_Suc_eq_le)

lemma rt_update:
  assumes "rt_rep n h F rt" "set ks \<subseteq> {..<length rt}" "distinct ks"
    "\<And>G b. bb_rep n h G b \<Longrightarrow> \<exists>b'. f b = ok b' \<and> bb_rep n h (g G) b'"
  shows "\<exists>rt'. for_each ks (\<lambda>i rt. update_at rt i f) rt = ok rt' \<and> rt_rep n h (\<lambda>k. if k \<in> set ks then g (F k) else F k) rt'"
  using assms
proof (induction ks arbitrary: rt F)
  case (Cons k ks)
  have k: "k < length rt" using Cons.prems(2) by simp
  have r: "reps bb_rep (\<lambda>_. n) (\<lambda>_. h) F rt" using Cons.prems(1) by (simp add: rt_rep_def)
  obtain b' where b': "f (rt ! k) = ok b'" "bb_rep n h (g (F k)) b'"
    using Cons.prems(4) [of "F k" "rt ! k"] r k by (auto simp: reps_def)
  have "rt_rep n h (F(k := g (F k))) (rt[k := b'])"
    using Cons.prems(1) bitmap_index.reps_update [OF r k b'(2)] by (simp add: rt_rep_def)
  from Cons.IH [OF this _ _ Cons.prems(4)] Cons.prems(2,3)
  obtain rt' where "for_each ks (\<lambda>i rt. update_at rt i f) (rt[k := b']) = ok rt'"
    "rt_rep n h (\<lambda>j. if j \<in> set ks then g ((F(k := g (F k))) j) else (F(k := g (F k))) j) rt'" by auto
  moreover have "(\<lambda>j. if j \<in> set ks then g ((F(k := g (F k))) j) else (F(k := g (F k))) j) =
      (\<lambda>j. if j \<in> set (k # ks) then g (F j) else F j)" by (rule ext) (use Cons.prems(3) in auto)
  ultimately show ?case using b'(1) k by (simp add: update_at_def)
qed simp

lemma rt_mark_free_ok:
  assumes "rt_rep n h F rt" "order \<le> MAX_MAX_PAGE_ORDER" "r < n"
  shows "\<exists>rt'. rt_mark_free rt order r = ok rt' \<and> rt_rep n h (\<lambda>k. if k \<le> order then insert r (F k) else F k) rt'"
proof -
  have "\<exists>b'. bb_clear b r = ok b' \<and> bb_rep n h (insert r G) b'" if "bb_rep n h G b" for G b
    using bitmap_index.clear_law [OF that assms(3)] .
  moreover have "set [0..<Suc order] \<subseteq> {..<length rt}" using assms(1,2) by (auto simp: rt_rep_def)
  ultimately have "\<exists>rt'. rt_mark_free rt order r = ok rt' \<and> rt_rep n h (\<lambda>k. if k \<in> set [0..<Suc order] then insert r (F k) else F k) rt'"
    unfolding rt_mark_free_def using rt_update [OF assms(1), of "[0..<Suc order]" "\<lambda>b. bb_clear b r" "insert r"] by simp
  moreover have "(\<lambda>k. if k \<in> set [0..<Suc order] then insert r (F k) else F k) = (\<lambda>k. if k \<le> order then insert r (F k) else F k)"
    by (rule ext) auto
  ultimately show ?thesis by simp
qed

lemma rt_mark_full_ok:
  assumes "rt_rep n h F rt" "order \<le> MAX_MAX_PAGE_ORDER" "r < n"
  shows "\<exists>rt'. rt_mark_full rt order r = ok rt' \<and> rt_rep n h (\<lambda>k. if order \<le> k then F k - {r} else F k) rt'"
proof -
  have l: "length rt = Suc MAX_MAX_PAGE_ORDER" using assms(1) by (simp add: rt_rep_def)
  have "\<exists>b'. bb_set b r = ok b' \<and> bb_rep n h (G - {r}) b'" if "bb_rep n h G b" for G b
    using bitmap_index.set_law [OF that assms(3)] .
  then obtain rt' where rt': "for_each [order..<length rt] (\<lambda>i rt. update_at rt i (\<lambda>b. bb_set b r)) rt = ok rt'"
    "rt_rep n h (\<lambda>k. if k \<in> set [order..<length rt] then F k - {r} else F k) rt'"
    using rt_update [OF assms(1), of "[order..<length rt]" "\<lambda>b. bb_set b r" "\<lambda>G. G - {r}"]
    by (auto simp: ivl_subset lessThan_atLeast0)
  have "rt_rep n h (\<lambda>k. if order \<le> k then F k - {r} else F k) rt'"
    using l by (intro rt_rep_cong [OF rt'(2)]) auto
  then show ?thesis using rt'(1) assms(2) l by (simp add: rt_mark_full_def)
qed

lemma rt_find_free_ok:
  assumes "rt_rep n h F rt" "order \<le> MAX_MAX_PAGE_ORDER"
  shows "rt_find_free rt order = ok (if F order = {} then None else Some (Min (F order)))"
proof -
  have "bb_rep n h (F order) (rt ! order)" "order < length rt" using assms by (auto simp: rt_rep_def reps_def)
  moreover from this have "find_first_unset (rt ! order) = ok (if F order = {} then None else Some (Min (F order)))"
    using find_first_unset_ok [of "rt ! order"] by (simp add: bb_rep_def)
  ultimately show ?thesis by (simp add: rt_find_free_def)
qed

lemma rt_bound: "rt_rep n h F rt \<Longrightarrow> k \<le> MAX_MAX_PAGE_ORDER \<Longrightarrow> F k \<subseteq> {..<n}"
  using bitmap_index.reps_bound [of "\<lambda>_. n" "\<lambda>_. h" F rt k] by (simp add: rt_rep_def)

lemma rt_new_ok:
  assumes "n \<le> MAX_REGIONS"
  shows "\<exists>rt h. rt_new n (MAX_MAX_PAGE_ORDER + 1) = ok rt \<and> rt_rep n h (\<lambda>_. {}) rt"
proof -
  have n: "n + 64 \<le> 2 ^ 32" using assms by (simp add: MAX_REGIONS_def)
  obtain b where b: "bb_new_padded n n MAX_REGIONS = ok b" "bb_rep n (padded_height n MAX_REGIONS) {} b"
    using bb_new_padded_rep [of n n MAX_REGIONS] n by blast
  have "rt_new n (MAX_MAX_PAGE_ORDER + 1) = ok (map (\<lambda>_. b) [0..<MAX_MAX_PAGE_ORDER + 1])"
    unfolding rt_new_def by (rule map_rust_ok) (rule b(1))
  moreover have "padded_height n MAX_REGIONS \<le> 6"
    using assms by (intro padded_height_le) (auto simp: MAX_REGIONS_def)
  then have "rt_rep n (padded_height n MAX_REGIONS) (\<lambda>_. {}) (map (\<lambda>_. b) [0..<MAX_MAX_PAGE_ORDER + 1])"
    using b(2) padded_height_bound(1) [of MAX_REGIONS n] by (simp add: rt_rep_def reps_def del: upt_Suc)
  ultimately show ?thesis by blast
qed

lemma rt_len_ok: "rt_rep n h F rt \<Longrightarrow> rt_len rt = ok n"
  using bitmap_index.reps_len [of "\<lambda>_. n" "\<lambda>_. h" F rt 0] by (simp add: rt_rep_def rt_len_def)

lemma map_rust_all2:
  "(\<And>i. i < length xs \<Longrightarrow> \<exists>y. f (xs ! i) = ok y \<and> Q i y) \<Longrightarrow> \<exists>ys. map_rust f xs = ok ys \<and> length ys = length xs \<and> (\<forall>i<length xs. Q i (ys ! i))"
proof (induction xs arbitrary: Q)
  case (Cons x xs)
  obtain y where y: "f x = ok y" "Q 0 y" using Cons.prems [of 0] by auto
  have "\<exists>ys. map_rust f xs = ok ys \<and> length ys = length xs \<and> (\<forall>i<length xs. Q (Suc i) (ys ! i))"
    using Cons.prems [of "Suc _"] by (intro Cons.IH) auto
  then show ?case using y by (auto simp: less_Suc_eq_0_disj)
qed simp

lemma rt_resize_ok:
  assumes "rt_rep n h F rt" "n \<le> m" "m \<le> MAX_REGIONS"
  shows "\<exists>rt'. rt_resize rt m = ok rt' \<and> rt_rep m h F rt'"
proof -
  have l: "length rt = MAX_MAX_PAGE_ORDER + 1" "MAX_REGIONS \<le> 64 ^ h" "h \<le> 6" and r: "\<And>k. k < length rt \<Longrightarrow> bb_rep n h (F k) (rt ! k)"
    using assms(1) by (auto simp: rt_rep_def reps_def)
  have "\<exists>b'. bb_resize (rt ! k) m True = ok b' \<and> bb_rep m h (F k) b'" if "k < length rt" for k
  proof (rule bb_resize_rep [OF r [OF that]])
    show "F k \<subseteq> {..<m}" using rt_bound [OF assms(1), of k] that l assms(2) by auto
    show "m + 64 \<le> 2 ^ 32" using assms(3) by (simp add: MAX_REGIONS_def)
    show "m \<le> 64 ^ h" using assms(3) l(2) by simp
  qed
  from map_rust_all2 [of rt "\<lambda>b. bb_resize b m True" "\<lambda>k b'. bb_rep m h (F k) b'", OF this]
  show ?thesis using l by (auto simp: rt_resize_def rt_rep_def reps_def)
qed

text \<open>Serialization of the tracker.\<close>

lemma rt_read_lens_ok:
  "drop st page = concat (map (le_bytes 4) ls) @ r \<Longrightarrow> (\<And>x. x \<in> set ls \<Longrightarrow> x < 2 ^ 32) \<Longrightarrow>
   rt_read_lens page (length ls) st = ok (ls, st + 4 * length ls)"
proof (induction ls arbitrary: st)
  case (Cons x ls)
  have "sub_slice page st (st + 4) = ok (le_bytes 4 x)"
    using sub_slice_drop [of st page "le_bytes 4 x"] Cons.prems(1) by (simp flip: length_greater_0_conv)
  moreover have "drop (st + 4) page = concat (map (le_bytes 4) ls) @ r"
    using arg_cong [OF Cons.prems(1), of "drop 4"] by (simp add: add.commute)
  then have "rt_read_lens page (length ls) (st + 4) = ok (ls, st + 4 + 4 * length ls)"
    using Cons.prems(2) by (intro Cons.IH) auto
  ultimately show ?case using Cons.prems(2) [of x] by simp
qed simp

lemma rt_read_parts_ok:
  "drop st page = concat vs \<Longrightarrow> st \<le> length page \<Longrightarrow> rt_read_parts page (map length vs) st = map_rust bb_from_bytes vs"
proof (induction vs arbitrary: st)
  case (Cons v vs)
  have "sub_slice page st (st + length v) = ok v" using sub_slice_drop [of st page v] Cons.prems by simp
  moreover have "drop (st + length v) page = concat vs"
    using arg_cong [OF Cons.prems(1), of "drop (length v)"] by (simp add: add.commute)
  moreover have "length (drop st page) \<ge> length v" using Cons.prems(1) by simp
  then have "st + length v \<le> length page" using Cons.prems(2) by simp
  ultimately show ?case using Cons.IH [of "st + length v"] by simp
qed simp

lemma rt_round_trip_ok:
  assumes "rt_rep n h F rt" "n \<le> MAX_REGIONS"
  shows "\<exists>v rt'. rt_to_vec rt = ok v \<and> rt_from_bytes v = ok rt' \<and> rt_rep n h F rt'"
proof -
  have r: "length rt = MAX_MAX_PAGE_ORDER + 1" "MAX_REGIONS \<le> 64 ^ h" "h \<le> 6" "\<And>k. k < length rt \<Longrightarrow> bb_rep n h (F k) (rt ! k)"
    using assms(1) by (auto simp: rt_rep_def reps_def)
  define enc where "enc b = the (bb_to_vec b)" for b
  have e: "bb_to_vec b = ok (enc b)" "bb_from_bytes (enc b) = ok (map gb_trim b)" "length (enc b) < 2 ^ 32" if b: "b \<in> set rt" for b
  proof -
    obtain k where k: "k < length rt" "b = rt ! k" using b by (auto simp: in_set_conv_nth)
    obtain v where v: "bb_to_vec b = ok v" "bb_from_bytes v = ok (map gb_trim b)" "length v \<le> 4 + h * (16 + n div 8)"
      using bb_round_trip [OF r(4) [OF k(1)] r(3)] k(2) by auto
    have "h * (16 + n div 8) \<le> 6 * (16 + n div 8)" using r(3) by (rule mult_le_mono1)
    then have "length v < 2 ^ 32" using v(3) assms(2) by (simp add: MAX_REGIONS_def)
    then show "bb_to_vec b = ok (enc b)" "bb_from_bytes (enc b) = ok (map gb_trim b)" "length (enc b) < 2 ^ 32"
      using v by (simp_all add: enc_def)
  qed
  let ?vs = "map enc rt" let ?ls = "map length ?vs"
  define meta where "meta = concat (map (le_bytes 4) ?ls)"
  define v where "v = le_bytes 4 (length rt) @ meta @ concat ?vs"
  have lm: "length meta = 4 * length rt" unfolding meta_def by (subst length_concat_const [where n = 4]) auto
  have rt32: "length rt < 2 ^ 32" using r(1) by (simp add: MAX_MAX_PAGE_ORDER_def)
  have "map_rust bb_to_vec rt = ok ?vs" using e(1) by (rule map_rust_ok)
  moreover have "map_rust (\<lambda>v. try_into 32 (length v)) ?vs = ok ?ls" using e(3) by (intro map_rust_ok) (auto simp: try_into_def)
  ultimately have "rt_to_vec rt = ok v" using rt32 by (simp add: rt_to_vec_def try_into_def v_def meta_def)
  moreover have "rt_read_lens v (length ?ls) 4 = ok (?ls, 4 + 4 * length ?ls)"
    by (rule rt_read_lens_ok [where r = "concat ?vs"]) (use e(3) in \<open>auto simp: v_def meta_def\<close>)
  moreover have "rt_read_parts v ?ls (4 + 4 * length ?ls) = map_rust bb_from_bytes ?vs"
    by (rule rt_read_parts_ok) (simp_all add: v_def lm)
  moreover have "map_rust bb_from_bytes ?vs = ok (map (map gb_trim) rt)" using e(2) by (intro map_rust_map) auto
  ultimately have "rt_from_bytes v = ok (map (map gb_trim) rt)"
    using rt32 by (simp add: rt_from_bytes_def v_def sub_slice_def)
  moreover have "rt_rep n h F (map (map gb_trim) rt)" using r bb_trim_rep by (auto simp: rt_rep_def reps_def)
  ultimately show ?thesis using \<open>rt_to_vec rt = ok v\<close> by blast
qed

subsection \<open>The invariant of the allocators\<close>

text \<open>
  \<open>al_inv cap mo n P F al\<close>: region \<open>i\<close> has \<open>n i\<close> pages, at most \<open>cap\<close>, of which those in \<open>P i\<close> are free, in a
  buddy allocator of maximal order \<open>mo\<close>; the tracker only offers regions that exist, and offers
  for order 0 every region with a free page.
\<close>

definition al_inv :: "nat \<Rightarrow> nat \<Rightarrow> (nat \<Rightarrow> nat) \<Rightarrow> (nat \<Rightarrow> nat set) \<Rightarrow> (nat \<Rightarrow> nat set) \<Rightarrow> allocators \<Rightarrow> bool" where
  "al_inv cap mo n P F al \<longleftrightarrow>
     (\<exists>N h. rt_rep N h F (region_tracker al) \<and> length (region_allocators al) \<le> N \<and> N \<le> MAX_REGIONS)
     \<and> buddy_heap.heaps cap mo n P (region_allocators al)
     \<and> (\<forall>i<length (region_allocators al). 0 < n i \<and> n i \<le> cap) \<and> cap \<le> 2 ^ 20 \<and> mo \<le> MAX_MAX_PAGE_ORDER
     \<and> (\<forall>k\<le>MAX_MAX_PAGE_ORDER. F k \<subseteq> {..<length (region_allocators al)})
     \<and> (\<forall>i<length (region_allocators al). P i \<noteq> {} \<longrightarrow> i \<in> F 0)"

lemma al_heap:
  assumes "al_inv cap mo n P F al" "i < length (region_allocators al)"
  shows "buddy_ok cap (P i) (region_allocators al ! i)" "bud_len (region_allocators al ! i) = n i"
    "bud_max_order (region_allocators al ! i) = mo" "0 < n i" "n i \<le> cap" "P i \<subseteq> {..<n i}"
proof -
  show h: "buddy_ok cap (P i) (region_allocators al ! i)" "bud_len (region_allocators al ! i) = n i"
    "bud_max_order (region_allocators al ! i) = mo" "0 < n i" "n i \<le> cap"
    using assms by (auto simp: al_inv_def buddy_heap.heaps_def)
  show "P i \<subseteq> {..<n i}" using buddy_heap.rep_bound [OF h(1)] h(2) by simp
qed

text \<open>Replacing the allocator of one region and offering that region for the orders up to \<open>k\<close>.\<close>

lemma al_update_mark:
  assumes inv: "al_inv cap mo n P F al" and i: "i < length (region_allocators al)"
    and a: "buddy_ok cap Q a" "bud_len a = m" "bud_max_order a = mo" "0 < m" "m \<le> cap" and k: "k \<le> MAX_MAX_PAGE_ORDER"
  shows "\<exists>rt. rt_mark_free (region_tracker al) k i = ok rt \<and>
    al_inv cap mo (n(i := m)) (P(i := Q)) (\<lambda>j. if j \<le> k then insert i (F j) else F j)
      \<lparr>region_tracker = rt, region_allocators = (region_allocators al)[i := a]\<rparr>"
proof -
  obtain N h where r: "rt_rep N h F (region_tracker al)" "length (region_allocators al) \<le> N" "N \<le> MAX_REGIONS"
    using inv by (auto simp: al_inv_def)
  obtain rt where rt: "rt_mark_free (region_tracker al) k i = ok rt" "rt_rep N h (\<lambda>j. if j \<le> k then insert i (F j) else F j) rt"
    using rt_mark_free_ok [OF r(1) k, of i] i r(2) by auto
  have "buddy_heap.heaps cap mo (n(i := m)) (P(i := Q)) ((region_allocators al)[i := a])"
    using inv i a by (intro buddy_heap.heaps_update) (auto simp: al_inv_def)
  then show ?thesis using rt r inv i a(4,5)
    by (auto simp: al_inv_def)
qed

lemma al_push_mark:
  assumes inv: "al_inv cap mo n P F al" and l: "length (region_allocators al) < MAX_REGIONS"
    and a: "buddy_ok cap Q a" "bud_len a = m" "bud_max_order a = mo" "0 < m" "m \<le> cap" and k: "k \<le> MAX_MAX_PAGE_ORDER"
    and rt: "rt_rep N h F rt" "length (region_allocators al) < N" "N \<le> MAX_REGIONS"
  shows "\<exists>rt'. rt_mark_free rt k (length (region_allocators al)) = ok rt' \<and>
    al_inv cap mo (n(length (region_allocators al) := m)) (P(length (region_allocators al) := Q))
      (\<lambda>j. if j \<le> k then insert (length (region_allocators al)) (F j) else F j)
      \<lparr>region_tracker = rt', region_allocators = region_allocators al @ [a]\<rparr>"
proof -
  let ?i = "length (region_allocators al)"
  obtain rt' where rt': "rt_mark_free rt k ?i = ok rt'" "rt_rep N h (\<lambda>j. if j \<le> k then insert ?i (F j) else F j) rt'"
    using rt_mark_free_ok [OF rt(1) k rt(2)] by blast
  have "buddy_heap.heaps cap mo (n(?i := m)) (P(?i := Q)) (region_allocators al @ [a])"
    using inv a by (auto simp: al_inv_def buddy_heap.heaps_def nth_append less_Suc_eq)
  moreover have "x < ?i" if "j \<le> MAX_MAX_PAGE_ORDER" "x \<in> F j" for j x using inv that by (auto simp: al_inv_def)
  ultimately show ?thesis using rt' rt inv a(4,5) by (auto simp: al_inv_def less_Suc_eq)
qed

subsection \<open>Creating the allocators of a layout\<close>

definition region_pages :: "db_layout \<Rightarrow> nat \<Rightarrow> nat" where
  "region_pages l i = (if i < dl_num_full l then rl_num_pages (dl_full l) else last_region_pages l)"

text \<open>A layout the allocators can manage: at most \<open>MAX_REGIONS\<close> regions of at most \<open>2 ^ 20\<close> pages, the trailing one
  no larger than the others.\<close>

definition managed :: "db_layout \<Rightarrow> bool" where
  "managed l \<longleftrightarrow> dl_bounded l \<and> 0 < dl_regions l \<and> dl_regions l \<le> MAX_REGIONS \<and> 0 < rl_num_pages (dl_full l) \<and> rl_num_pages (dl_full l) \<le> 2 ^ 20
     \<and> (case dl_trailing l of None \<Rightarrow> True | Some t \<Rightarrow> 0 < rl_num_pages t \<and> rl_num_pages t \<le> rl_num_pages (dl_full l))"

abbreviation max_order_of :: "nat \<Rightarrow> nat" where
  "max_order_of cap \<equiv> min 20 (bit_len cap - 1)"

lemma managed_region:
  assumes "managed l" "i < dl_regions l"
  shows "\<exists>r. get_region_layout l i = ok r \<and> rl_num_pages r = region_pages l i"
    "0 < region_pages l i" "region_pages l i \<le> rl_num_pages (dl_full l)"
  using assms by (auto simp: managed_def get_region_layout_ok region_pages_def last_region_pages_def dl_regions_def split: option.splits if_splits)

lemma managed_new:
  assumes "managed l" "0 < m" "m \<le> rl_num_pages (dl_full l)"
  shows "\<exists>a. bud_new m (rl_num_pages (dl_full l)) = ok a \<and> buddy_ok (rl_num_pages (dl_full l)) {..<m} a
    \<and> bud_len a = m \<and> bud_max_order a = max_order_of (rl_num_pages (dl_full l))"
  using buddy_new_ok [of "rl_num_pages (dl_full l)" m] assms by (auto simp: managed_def)

lemma al_new_ok:
  assumes l: "managed l"
  defines "cap \<equiv> rl_num_pages (dl_full l)"
  shows "\<exists>al F. al_new l = ok al \<and> length (region_allocators al) = dl_regions l
    \<and> al_inv cap (max_order_of cap) (region_pages l) (\<lambda>i. {..<region_pages l i}) F al
    \<and> (\<forall>k\<le>max_order_of cap. F k = {..<dl_regions l})"
proof -
  let ?R = "dl_regions l"
  define mo where "mo = max_order_of cap"
  have m: "mo \<le> MAX_MAX_PAGE_ORDER" by (simp add: mo_def MAX_MAX_PAGE_ORDER_def)
  have R: "?R \<le> MAX_REGIONS" "num_regions l = ok ?R" "cap \<le> 2 ^ 20" using l by (auto simp: managed_def num_regions_ok cap_def)
  have init: "max INITIAL_REGIONS ?R \<le> MAX_REGIONS" using R(1) by (simp add: INITIAL_REGIONS_def MAX_REGIONS_def)
  obtain rt h where rt: "rt_new (max INITIAL_REGIONS ?R) (MAX_MAX_PAGE_ORDER + 1) = ok rt" "rt_rep (max INITIAL_REGIONS ?R) h (\<lambda>_. {}) rt"
    using rt_new_ok [OF init] by blast
  let ?F = "\<lambda>(i :: nat) k. if k \<le> mo then {..<i} else {}"
  define Inv where "Inv i al \<longleftrightarrow> length (region_allocators al) = i \<and> (\<exists>h. rt_rep (max INITIAL_REGIONS ?R) h (?F i) (region_tracker al))
    \<and> al_inv cap mo (region_pages l) (\<lambda>i. {..<region_pages l i}) (?F i) al" for i :: nat and al
  have "\<exists>t. for_each [0..<?R] (\<lambda>i al. do {
       r \<leftarrow> get_region_layout l i;
       allocator \<leftarrow> bud_new (rl_num_pages r) (rl_num_pages (dl_full l));
       rt \<leftarrow> rt_mark_free (region_tracker al) (bud_max_order allocator) i;
       ok \<lparr>region_tracker = rt, region_allocators = region_allocators al @ [allocator]\<rparr> })
       \<lparr>region_tracker = rt, region_allocators = []\<rparr> = ok t \<and> Inv (length [0..<?R]) t"
  proof (rule for_each_inv)
    have F0: "?F 0 = (\<lambda>_. {})" by (rule ext) simp
    have "\<exists>N h. rt_rep N h (\<lambda>_. {}) rt \<and> 0 \<le> N \<and> N \<le> MAX_REGIONS" using rt(2) init by blast
    then have "al_inv cap mo (region_pages l) (\<lambda>i. {..<region_pages l i}) (\<lambda>_. {}) \<lparr>region_tracker = rt, region_allocators = []\<rparr>"
      using R(3) m by (simp add: al_inv_def buddy_heap.heaps_def)
    then show "Inv 0 \<lparr>region_tracker = rt, region_allocators = []\<rparr>" unfolding Inv_def F0 using rt(2) by auto
  next
    fix k u assume k: "k < length [0..<?R]" and u: "Inv k u"
    then have kR: "k < ?R" and len: "length (region_allocators u) = k" by (simp_all add: Inv_def)
    obtain h' where rt': "rt_rep (max INITIAL_REGIONS ?R) h' (?F k) (region_tracker u)" using u by (auto simp: Inv_def)
    obtain r where r: "get_region_layout l k = ok r" "rl_num_pages r = region_pages l k" using managed_region [OF l kR] by blast
    obtain a where a: "bud_new (region_pages l k) cap = ok a" "buddy_ok cap {..<region_pages l k} a" "bud_len a = region_pages l k" "bud_max_order a = mo"
      using managed_new [OF l managed_region(2,3) [OF l kR]] unfolding cap_def mo_def by blast
    have inv: "al_inv cap mo (region_pages l) (\<lambda>i. {..<region_pages l i}) (?F k) u" using u by (simp add: Inv_def)
    have pr: "length (region_allocators u) < MAX_REGIONS" "region_pages l k \<le> cap" "length (region_allocators u) < max INITIAL_REGIONS ?R"
      using len kR R(1) managed_region(3) [OF l kR] by (auto simp: cap_def)
    obtain rt2 where rt2: "rt_mark_free (region_tracker u) mo k = ok rt2"
      "al_inv cap mo ((region_pages l)(k := region_pages l k)) ((\<lambda>i. {..<region_pages l i})(k := {..<region_pages l k}))
        (\<lambda>j. if j \<le> mo then insert k (?F k j) else ?F k j) \<lparr>region_tracker = rt2, region_allocators = region_allocators u @ [a]\<rparr>"
      using al_push_mark [OF inv pr(1) a(2-4) managed_region(2) [OF l kR] pr(2) m rt' pr(3) init] unfolding len by blast
    have e: "(\<lambda>j. if j \<le> mo then insert k (?F k j) else ?F k j) = ?F (Suc k)" by (rule ext) auto
    have "(\<lambda>i. {..<region_pages l i})(k := {..<region_pages l k}) = (\<lambda>i. {..<region_pages l i})" by (rule ext) simp
    then have inv2: "al_inv cap mo (region_pages l) (\<lambda>i. {..<region_pages l i}) (?F (Suc k)) \<lparr>region_tracker = rt2, region_allocators = region_allocators u @ [a]\<rparr>"
      using rt2(2) unfolding e by simp
    have "\<exists>h. rt_rep (max INITIAL_REGIONS ?R) h (?F (Suc k)) rt2"
      using rt_mark_free_ok [OF rt' m pr(3)] rt2(1) unfolding len e by auto
    then show "\<exists>v. (do {
       r \<leftarrow> get_region_layout l ([0..<?R] ! k);
       allocator \<leftarrow> bud_new (rl_num_pages r) (rl_num_pages (dl_full l));
       rt \<leftarrow> rt_mark_free (region_tracker u) (bud_max_order allocator) ([0..<?R] ! k);
       ok \<lparr>region_tracker = rt, region_allocators = region_allocators u @ [allocator]\<rparr> }) = ok v \<and> Inv (Suc k) v"
      using kR r a rt2(1) inv2 len by (simp add: Inv_def cap_def)
  qed
  then obtain al where al: "al_new l = ok al" "Inv ?R al" using rt(1) R(2) by (auto simp: al_new_def)
  then show ?thesis unfolding mo_def [symmetric] Inv_def by (intro exI [of _ al] exI [of _ "?F ?R"]) simp
qed

subsection \<open>Resizing\<close>

text \<open>\<open>offers F k P\<close>: the tracker offers region \<open>i\<close> for every order at which it has a free block.\<close>

definition offers :: "(nat \<Rightarrow> nat set) \<Rightarrow> nat \<Rightarrow> nat \<Rightarrow> nat set \<Rightarrow> bool" where
  "offers F mo i Q \<longleftrightarrow> (\<forall>k q. k \<le> mo \<and> block k q \<subseteq> Q \<longrightarrow> i \<in> F k)"

lemma highest_free_offers:
  assumes "buddy_ok cap Q a" "0 < bud_len a" "Q \<noteq> {}"
  shows "\<exists>k. highest_free_order a = ok (Some k) \<and> k \<le> bud_max_order a \<and> (\<forall>F. offers (\<lambda>j. if j \<le> k then insert i (F j) else F j) (bud_max_order a) i Q)"
proof -
  obtain r where r: "highest_free_order a = ok r" "case r of None \<Rightarrow> Q = {} | Some k \<Rightarrow> k \<le> bud_max_order a \<and> (\<exists>i. block k i \<subseteq> Q)
      \<and> (\<forall>l i. k < l \<and> l \<le> bud_max_order a \<longrightarrow> \<not> block l i \<subseteq> Q)"
    using buddy_queries_ok [OF assms(1,2)] by blast
  then obtain k where k: "r = Some k" "k \<le> bud_max_order a" "\<forall>l i. k < l \<and> l \<le> bud_max_order a \<longrightarrow> \<not> block l i \<subseteq> Q"
    using assms(3) by (cases r) auto
  have "offers (\<lambda>j. if j \<le> k then insert i (F j) else F j) (bud_max_order a) i Q" for F
    using k(3) by (auto simp: offers_def not_le)
  then show ?thesis using r(1) k(1,2) by blast
qed

lemma grow_step_ok:
  assumes inv: "al_inv cap mo n P F al" and l: "managed l" "cap = rl_num_pages (dl_full l)" "mo = max_order_of cap"
    and i: "i < dl_regions l" "i \<le> length (region_allocators al)" "i < old \<longleftrightarrow> i < length (region_allocators al)"
    and le: "i < length (region_allocators al) \<Longrightarrow> n i \<le> region_pages l i"
  defines "m \<equiv> (if i < length (region_allocators al) then n i else 0)" and "Q \<equiv> (if i < length (region_allocators al) then P i else {})"
  shows "\<exists>al' F'. grow_step l old i al = ok al' \<and> length (region_allocators al') = max (length (region_allocators al)) (Suc i)
    \<and> al_inv cap mo (n(i := region_pages l i)) (P(i := Q \<union> {m..<region_pages l i})) F' al'
    \<and> (\<forall>k. F k \<subseteq> F' k) \<and> (m \<noteq> region_pages l i \<longrightarrow> offers F' mo i (Q \<union> {m..<region_pages l i}))"
proof -
  let ?m = "region_pages l i" let ?A = "region_allocators al"
  obtain r where r: "get_region_layout l i = ok r" "rl_num_pages r = ?m" using managed_region(1) [OF l(1) i(1)] by blast
  have m: "0 < ?m" "?m \<le> cap" using managed_region [OF l(1) i(1)] l(2) by auto
  have mo: "mo \<le> MAX_MAX_PAGE_ORDER" using inv by (simp add: al_inv_def)
  obtain N h where rt: "rt_rep N h F (region_tracker al)" "length ?A \<le> N" "N \<le> MAX_REGIONS" using inv by (auto simp: al_inv_def)
  show ?thesis
  proof (cases "i < length ?A")
    case True
    note h = al_heap [OF inv True]
    have old: "i < old" "n i \<le> ?m" "m = n i" "Q = P i" using True i(3) le by (auto simp: m_def Q_def)
    show ?thesis
    proof (cases "n i = ?m")
      case same: True
      then have "(n(i := ?m)) = n" "(P(i := Q \<union> {m..<?m})) = P" "grow_step l old i al = ok al"
        using old True r h(2) by (auto simp: grow_step_def)
      then show ?thesis using inv True same old(3) by (auto simp: max_def)
    next
      case diff: False
      have "{?m..<bud_len (?A ! i)} = {}" using old(2) h(2) by simp
      then obtain a where a: "bud_resize (?A ! i) ?m = ok a" "bud_len a = ?m" "bud_max_order a = mo" "buddy_ok cap (Q \<union> {m..<?m}) a"
        using buddy_heap.resize_law [OF h(1), of ?m] h(2,3,4) m inv old by (auto simp: al_inv_def)
      have "Q \<union> {m..<?m} \<noteq> {}" using diff old by auto
      from highest_free_offers [OF a(4) _ this, of i] a(2,3) m(1)
      obtain k where k: "highest_free_order a = ok (Some k)" "k \<le> mo" "\<And>F. offers (\<lambda>j. if j \<le> k then insert i (F j) else F j) mo i (Q \<union> {m..<?m})" by auto
      obtain rt' where rt': "rt_mark_free (region_tracker al) k i = ok rt'"
        "al_inv cap mo (n(i := ?m)) (P(i := Q \<union> {m..<?m})) (\<lambda>j. if j \<le> k then insert i (F j) else F j) \<lparr>region_tracker = rt', region_allocators = ?A[i := a]\<rparr>"
        using al_update_mark [OF inv True a(4,2,3) m order_trans [OF k(2) mo]] by blast
      have "grow_step l old i al = ok \<lparr>region_tracker = rt', region_allocators = ?A[i := a]\<rparr>"
        using r old(1,2) True diff h(2) a(1) k(1) rt'(1) by (simp add: grow_step_def)
      then show ?thesis using rt'(2) k(3) [of F] True
        by (intro exI [of _ "\<lparr>region_tracker = rt', region_allocators = ?A[i := a]\<rparr>"]
          exI [of _ "\<lambda>j. if j \<le> k then insert i (F j) else F j"]) (auto simp: max_def)
    qed
  next
    case False
    then have new: "i = length ?A" "\<not> i < old" "m = 0" "Q = {}" using i by (auto simp: m_def Q_def)
    obtain a where a: "bud_new ?m cap = ok a" "buddy_ok cap {..<?m} a" "bud_len a = ?m" "bud_max_order a = mo"
      using managed_new [OF l(1) m(1)] m(2) l(2,3) by auto
    have ne: "{..<?m} \<noteq> {}" using m(1) by auto
    from highest_free_offers [OF a(2) _ ne, of i] a(3,4) m(1)
    obtain k where k: "highest_free_order a = ok (Some k)" "k \<le> mo" "\<And>F. offers (\<lambda>j. if j \<le> k then insert i (F j) else F j) mo i {..<?m}" by auto
    have iR: "i < MAX_REGIONS" using i(1) l(1) by (simp add: managed_def)
    have "\<exists>rt2 N2. (if i \<ge> N then do { c \<leftarrow> cadd 32 i 1; rt_resize (region_tracker al) c } else ok (region_tracker al)) = ok rt2
      \<and> rt_rep N2 h F rt2 \<and> i < N2 \<and> N2 \<le> MAX_REGIONS"
    proof (cases "i \<ge> N")
      case True
      have "cadd 32 i 1 = ok (i + 1)" using iR by (simp add: cadd_def MAX_REGIONS_def)
      then show ?thesis using rt_resize_ok [OF rt(1), of "i + 1"] True iR by (auto intro!: exI [of _ "Suc i"])
    qed (use rt in auto)
    then obtain rt2 N2 where rt2: "(if i \<ge> N then do { c \<leftarrow> cadd 32 i 1; rt_resize (region_tracker al) c } else ok (region_tracker al)) = ok rt2"
      "rt_rep N2 h F rt2" "i < N2" "N2 \<le> MAX_REGIONS" by blast
    have "length ?A < MAX_REGIONS" using iR new(1) by simp
    then obtain rt' where rt': "rt_mark_free rt2 k i = ok rt'"
      "al_inv cap mo (n(i := ?m)) (P(i := {..<?m})) (\<lambda>j. if j \<le> k then insert i (F j) else F j) \<lparr>region_tracker = rt', region_allocators = ?A @ [a]\<rparr>"
      using al_push_mark [OF inv _ a(2-4) m order_trans [OF k(2) mo] rt2(2) _ rt2(4)] rt2(3) unfolding new(1) by blast
    have "Q \<union> {m..<?m} = {..<?m}" using new by auto
    moreover have "grow_step l old i al = ok \<lparr>region_tracker = rt', region_allocators = ?A @ [a]\<rparr>"
      using r new(2) a(1) k(1) rt_len_ok [OF rt(1)] rt2(1) rt'(1) l(2) by (simp add: grow_step_def)
    ultimately show ?thesis using rt'(2) k(3) [of F] new(1)
      by (intro exI [of _ "\<lparr>region_tracker = rt', region_allocators = ?A @ [a]\<rparr>"]
        exI [of _ "\<lambda>j. if j \<le> k then insert i (F j) else F j"]) auto
  qed
qed

lemma al_inv_cong:
  "al_inv cap mo n P F al \<Longrightarrow> (\<And>i. i < length (region_allocators al) \<Longrightarrow> n i = n' i \<and> P i = P' i) \<Longrightarrow> al_inv cap mo n' P' F al"
  by (auto simp: al_inv_def buddy_heap.heaps_def)

lemma offers_mono: "offers F mo i Q \<Longrightarrow> (\<And>k. F k \<subseteq> F' k) \<Longrightarrow> offers F' mo i Q"
  unfolding offers_def by blast

text \<open>The free pages of region \<open>i\<close> after growing from \<open>old\<close> regions to the layout \<open>l\<close>.\<close>

definition al_grown :: "db_layout \<Rightarrow> nat \<Rightarrow> (nat \<Rightarrow> nat) \<Rightarrow> (nat \<Rightarrow> nat set) \<Rightarrow> nat \<Rightarrow> nat set" where
  "al_grown l old n P i = (if i < old then P i else {}) \<union> {(if i < old then n i else 0)..<region_pages l i}"

lemma al_grow_ok:
  assumes inv: "al_inv cap mo n P F al" and l: "managed l" "cap = rl_num_pages (dl_full l)" "mo = max_order_of cap"
    and old: "old = length (region_allocators al)" "old \<le> dl_regions l" "\<And>i. i < old \<Longrightarrow> n i \<le> region_pages l i"
  shows "\<exists>al' F'. for_each [0..<dl_regions l] (grow_step l old) al = ok al' \<and> length (region_allocators al') = dl_regions l
    \<and> al_inv cap mo (region_pages l) (al_grown l old n P) F' al'
    \<and> (\<forall>i<dl_regions l. old \<le> i \<or> n i \<noteq> region_pages l i \<longrightarrow> offers F' mo i (al_grown l old n P i))"
proof -
  let ?G = "al_grown l old n P" let ?m = "region_pages l"
  define Inv where "Inv k u \<longleftrightarrow> length (region_allocators u) = max old k \<and> (\<exists>F'. (\<forall>j. F j \<subseteq> F' j)
    \<and> al_inv cap mo (\<lambda>i. if i < k then ?m i else n i) (\<lambda>i. if i < k then ?G i else P i) F' u
    \<and> (\<forall>i<k. old \<le> i \<or> n i \<noteq> ?m i \<longrightarrow> offers F' mo i (?G i)))" for k u
  have "\<exists>t. for_each [0..<dl_regions l] (grow_step l old) al = ok t \<and> Inv (length [0..<dl_regions l]) t"
  proof (rule for_each_inv)
    show "Inv 0 al" using inv old(1) by (auto simp: Inv_def)
  next
    fix k u assume "k < length [0..<dl_regions l]" and u: "Inv k u"
    then have k: "k < dl_regions l" by simp
    obtain F' where F': "\<And>j. F j \<subseteq> F' j" "al_inv cap mo (\<lambda>i. if i < k then ?m i else n i) (\<lambda>i. if i < k then ?G i else P i) F' u"
      "\<And>i. i < k \<Longrightarrow> old \<le> i \<or> n i \<noteq> ?m i \<Longrightarrow> offers F' mo i (?G i)" and len: "length (region_allocators u) = max old k"
      using u by (auto simp: Inv_def)
    have c: "k \<le> length (region_allocators u)" "k < old \<longleftrightarrow> k < length (region_allocators u)" using len by auto
    have n: "(if k < k then ?m k else n k) \<le> ?m k" if "k < length (region_allocators u)" using that c(2) old(3) by simp
    let ?e = "(if k < length (region_allocators u) then if k < k then ?G k else P k else {}) \<union>
        {(if k < length (region_allocators u) then if k < k then ?m k else n k else 0)..<?m k}"
    have e: "?e = ?G k" using c(2) by (simp add: al_grown_def)
    obtain al' F'' where g: "grow_step l old k u = ok al'" "length (region_allocators al') = max (length (region_allocators u)) (Suc k)"
      "al_inv cap mo ((\<lambda>i. if i < k then ?m i else n i)(k := ?m k)) ((\<lambda>i. if i < k then ?G i else P i)(k := ?G k)) F'' al'"
      "\<And>j. F' j \<subseteq> F'' j"
      "(if k < length (region_allocators u) then if k < k then ?m k else n k else 0) \<noteq> ?m k \<longrightarrow> offers F'' mo k (?G k)"
      using grow_step_ok [OF F'(2) l k c n, unfolded e] by blast
    have g5: "offers F'' mo k (?G k)" if "old \<le> k \<or> n k \<noteq> ?m k"
      using that g(5) c(2) managed_region(2) [OF l(1) k] by (cases "k < old") auto
    have "al_inv cap mo (\<lambda>i. if i < Suc k then ?m i else n i) (\<lambda>i. if i < Suc k then ?G i else P i) F'' al'"
      by (rule al_inv_cong [OF g(3)]) (auto simp: less_Suc_eq)
    moreover have "offers F'' mo i (?G i)" if "i < Suc k" "old \<le> i \<or> n i \<noteq> ?m i" for i
      using that g5 offers_mono [OF F'(3) g(4)] by (cases "i = k") auto
    ultimately have "Inv (Suc k) al'" unfolding Inv_def
      using g(2) len order_trans [OF F'(1) g(4)] by (intro conjI exI [of _ F'']) (auto simp: max_def)
    then show "\<exists>v. grow_step l old ([0..<dl_regions l] ! k) u = ok v \<and> Inv (Suc k) v" using g(1) k by auto
  qed
  then obtain al' where al': "for_each [0..<dl_regions l] (grow_step l old) al = ok al'" "Inv (dl_regions l) al'" by auto
  have len: "length (region_allocators al') = dl_regions l" using al'(2) old(2) by (simp add: Inv_def)
  obtain F' where F': "al_inv cap mo (\<lambda>i. if i < dl_regions l then ?m i else n i) (\<lambda>i. if i < dl_regions l then ?G i else P i) F' al'"
    "\<forall>i<dl_regions l. old \<le> i \<or> n i \<noteq> ?m i \<longrightarrow> offers F' mo i (?G i)"
    using al'(2) unfolding Inv_def by blast
  have "al_inv cap mo ?m ?G F' al'" by (rule al_inv_cong [OF F'(1)]) (simp add: len)
  then show ?thesis using al'(1) len F'(2) by blast
qed

text \<open>Dropping regions: the tracker stops offering them, the last one that is kept is cut.\<close>

lemma al_drop_ok:
  assumes "rt_rep N h F rt" "R \<le> m" "m \<le> N"
  shows "\<exists>rt'. for_each [R..<m] (\<lambda>i rt. rt_mark_full rt 0 i) rt = ok rt' \<and> rt_rep N h (\<lambda>k. F k - {R..<m}) rt'"
  using assms
proof (induction "m - R" arbitrary: R F rt)
  case 0
  then show ?case by simp
next
  case (Suc d)
  then have R: "R < m" "R < N" by auto
  obtain rt1 where rt1: "rt_mark_full rt 0 R = ok rt1" "rt_rep N h (\<lambda>k. F k - {R}) rt1"
    using rt_mark_full_ok [OF Suc.prems(1) _ R(2), of 0] by auto
  have "d = m - Suc R" "Suc R \<le> m" using Suc.hyps(2) R by auto
  from Suc.hyps(1) [OF this(1) rt1(2) this(2) Suc.prems(3)]
  obtain rt' where "for_each [Suc R..<m] (\<lambda>i rt. rt_mark_full rt 0 i) rt1 = ok rt'" "rt_rep N h (\<lambda>k. F k - {R} - {Suc R..<m}) rt'" by blast
  moreover have "F k - {R} - {Suc R..<m} = F k - {R..<m}" for k using R by auto
  ultimately show ?case using R(1) rt1(1) by (simp add: upt_conv_Cons)
qed

lemma al_shrink_to_ok:
  assumes inv: "al_inv cap mo n P F al" and l: "managed l" "cap = rl_num_pages (dl_full l)"
    and R: "dl_regions l \<le> length (region_allocators al)"
    and le: "region_pages l (dl_regions l - 1) \<le> n (dl_regions l - 1)"
    and free: "{region_pages l (dl_regions l - 1)..<n (dl_regions l - 1)} \<subseteq> P (dl_regions l - 1)"
  defines "i \<equiv> dl_regions l - 1"
  shows "\<exists>al'. al_shrink_to al l = ok al' \<and> length (region_allocators al') = dl_regions l
    \<and> al_inv cap mo (n(i := region_pages l i)) (P(i := P i \<inter> {..<region_pages l i})) (\<lambda>k. F k \<inter> {..<dl_regions l}) al'"
proof -
  let ?R = "dl_regions l" let ?A = "region_allocators al" let ?B = "take ?R ?A"
  have r: "0 < ?R" "num_regions l = ok ?R" "?R \<le> MAX_REGIONS" using l(1) by (auto simp: managed_def num_regions_ok)
  have i: "i < ?R" "i < length ?A" "?B ! i = ?A ! i" using r R by (auto simp: i_def)
  have lp: "last_region_pages l = region_pages l i"
    using r(1) by (auto simp: region_pages_def last_region_pages_def i_def dl_regions_def split: option.splits)
  obtain N h where rt: "rt_rep N h F (region_tracker al)" "length ?A \<le> N" "N \<le> MAX_REGIONS" using inv by (auto simp: al_inv_def)
  obtain rt' where rt': "for_each [?R..<length ?A] (\<lambda>i rt. rt_mark_full rt 0 i) (region_tracker al) = ok rt'"
    "rt_rep N h (\<lambda>k. F k - {?R..<length ?A}) rt'" using al_drop_ok [OF rt(1) R rt(2)] by blast
  have F: "F k \<subseteq> {..<length ?A}" if "k \<le> MAX_MAX_PAGE_ORDER" for k using inv that by (simp add: al_inv_def)
  have rt'': "rt_rep N h (\<lambda>k. F k \<inter> {..<?R}) rt'" by (rule rt_rep_cong [OF rt'(2)]) (use F in fastforce)
  have top: "try_into 32 (length ?A) = ok (length ?A)" using rt(2,3) by (simp add: try_into_def MAX_REGIONS_def)
  note h = al_heap [OF inv i(2)] and m = managed_region(2,3) [OF l(1) i(1)]
  have le': "region_pages l i \<le> n i" and free': "{region_pages l i..<n i} \<subseteq> P i" using le free by (simp_all add: i_def)
  have "\<exists>a. (if bud_len (?A ! i) > region_pages l i then bud_resize (?A ! i) (region_pages l i) else ok (?A ! i)) = ok a
    \<and> buddy_ok cap (P i \<inter> {..<region_pages l i}) a \<and> bud_len a = region_pages l i \<and> bud_max_order a = mo"
  proof (cases "bud_len (?A ! i) > region_pages l i")
    case True
    have e: "(P i - {region_pages l i..<n i}) \<union> {n i..<region_pages l i} = P i \<inter> {..<region_pages l i}" using True h(2,6) by auto
    have c: "cap \<le> 2 ^ 31" using inv by (simp add: al_inv_def)
    have "0 < bud_len (?A ! i)" "region_pages l i \<le> cap" "{region_pages l i..<bud_len (?A ! i)} \<subseteq> P i"
      using h(2,4) m(2) l(2) free' by auto
    from buddy_heap.resize_law [OF h(1) this(1,2) c this(3)] show ?thesis using True h(2,3) e by auto
  next
    case False
    then have "n i = region_pages l i" using h(2) le' by simp
    then show ?thesis using h False by (auto simp: Int_absorb2)
  qed
  then obtain a where a: "(if bud_len (?A ! i) > region_pages l i then bud_resize (?A ! i) (region_pages l i) else ok (?A ! i)) = ok a"
    "buddy_ok cap (P i \<inter> {..<region_pages l i}) a" "bud_len a = region_pages l i" "bud_max_order a = mo" by blast
  have hb: "buddy_heap.heaps cap mo n P ?B" using inv by (auto simp: al_inv_def buddy_heap.heaps_def)
  have hu: "buddy_heap.heaps cap mo (n(i := region_pages l i)) (P(i := P i \<inter> {..<region_pages l i})) (?B[i := a])"
    using i R by (intro buddy_heap.heaps_update [OF hb _ a(2-4)]) simp
  have csub: "csub (length ?B) 1 = ok i" using R r(1) by (simp add: csub_def i_def)
  have "al_shrink_to al l = ok \<lparr>region_tracker = rt', region_allocators = ?B[i := a]\<rparr>"
    using r top rt'(1) R a(1) i(1,3) lp csub by (auto simp: al_shrink_to_def split: if_splits)
  moreover have "al_inv cap mo (n(i := region_pages l i)) (P(i := P i \<inter> {..<region_pages l i})) (\<lambda>k. F k \<inter> {..<?R})
      \<lparr>region_tracker = rt', region_allocators = ?B[i := a]\<rparr>"
  proof -
    have "j \<in> F 0" if "j < ?R" "(P(i := P i \<inter> {..<region_pages l i})) j \<noteq> {}" for j
    proof -
      have "P j \<noteq> {}" using that(2) by (cases "j = i") auto
      then show ?thesis using inv that(1) R by (simp add: al_inv_def)
    qed
    then show ?thesis using hu rt'' rt inv R m l(2) by (auto simp: al_inv_def)
  qed
  ultimately show ?thesis using R by (intro exI [of _ "\<lparr>region_tracker = rt', region_allocators = ?B[i := a]\<rparr>"]) simp
qed

subsection \<open>Resizing to a layout\<close>

text \<open>The free pages of region \<open>i\<close> after resizing from layout \<open>lo\<close> to \<open>l\<close>: the old ones that still exist and all new ones.\<close>

definition resized :: "db_layout \<Rightarrow> db_layout \<Rightarrow> (nat \<Rightarrow> nat set) \<Rightarrow> nat \<Rightarrow> nat set" where
  "resized lo l P i = (if i < dl_regions lo then P i \<inter> {..<region_pages l i} \<union> {region_pages lo i..<region_pages l i} else {..<region_pages l i})"

lemma region_pages_mono:
  assumes "managed l" "dl_full l = dl_full lo" "managed lo"
    "dl_regions lo < dl_regions l \<or> dl_regions lo = dl_regions l \<and> last_region_pages lo \<le> last_region_pages l" "i < dl_regions lo"
  shows "region_pages lo i \<le> region_pages l i" "Suc i < dl_regions lo \<or> dl_regions lo < dl_regions l \<Longrightarrow> region_pages l i = rl_num_pages (dl_full l)"
  using assms by (auto simp: region_pages_def managed_def dl_regions_def last_region_pages_def split: option.splits if_splits)

lemma region_pages_full:
  "Suc i < dl_regions l \<Longrightarrow> region_pages l i = rl_num_pages (dl_full l)"
  by (auto simp: region_pages_def dl_regions_def split: option.splits if_splits)

lemma region_pages_last:
  "0 < dl_regions l \<Longrightarrow> region_pages l (dl_regions l - 1) = last_region_pages l"
  by (auto simp: region_pages_def last_region_pages_def dl_regions_def split: option.splits)

lemma al_resize_to_ok:
  assumes inv: "al_inv cap mo (region_pages lo) P F al" and len: "length (region_allocators al) = dl_regions lo"
    and l: "managed l" "managed lo" "dl_full l = dl_full lo" "cap = rl_num_pages (dl_full l)" "mo = max_order_of cap"
    and free: "\<And>i. i < dl_regions l \<Longrightarrow> i < dl_regions lo \<Longrightarrow> {region_pages l i..<region_pages lo i} \<subseteq> P i"
  shows "\<exists>al' F'. al_resize_to al l = ok al' \<and> length (region_allocators al') = dl_regions l
    \<and> al_inv cap mo (region_pages l) (resized lo l P) F' al'
    \<and> (\<forall>i<dl_regions l. (if i < dl_regions lo then region_pages lo i else 0) < region_pages l i \<longrightarrow> offers F' mo i (resized lo l P i))"
proof -
  let ?R = "dl_regions l" let ?Q = "dl_regions lo" let ?A = "region_allocators al"
  have R: "0 < ?R" "0 < ?Q" "num_regions l = ok ?R" using l by (auto simp: managed_def num_regions_ok)
  have lst: "?Q - 1 < length ?A" using R len by simp
  have ll: "bud_len (?A ! (?Q - 1)) = last_region_pages lo"
    using al_heap(2) [OF inv lst] region_pages_last [OF R(2)] by simp
  define ch where "ch = (if ?R < ?Q then Less else if ?R = ?Q then cmp_nat (last_region_pages l) (last_region_pages lo) else Greater)"
  have rz: "al_resize_to al l = (case ch of Equal \<Rightarrow> ok al | Less \<Rightarrow> al_shrink_to al l | Greater \<Rightarrow> for_each [0..<?R] (grow_step l ?Q) al)"
    using R(2,3) len lst ll by (auto simp: al_resize_to_def ch_def csub_def Let_def split: cmp_result.split)
  have P: "P i \<subseteq> {..<region_pages lo i}" if "i < ?Q" for i using al_heap(6) [OF inv] that len by simp
  consider (less) "?R < ?Q \<or> ?R = ?Q \<and> last_region_pages l < last_region_pages lo"
    | (same) "?R = ?Q" "last_region_pages l = last_region_pages lo"
    | (grow) "?Q < ?R \<or> ?Q = ?R \<and> last_region_pages lo < last_region_pages l" by linarith
  then show ?thesis
  proof cases
    case less
    have i: "?R - 1 < ?Q" "?R - 1 < ?R" "?R \<le> ?Q" using less R by auto
    have m: "region_pages l j \<le> region_pages lo j" "Suc j < ?R \<Longrightarrow> region_pages l j = region_pages lo j" if "j < ?R" for j
    proof -
      show "region_pages l j \<le> region_pages lo j" using region_pages_mono(1) [OF l(2) _ l(1), of j] l(3) less that by auto
      show "Suc j < ?R \<Longrightarrow> region_pages l j = region_pages lo j" using region_pages_full [of j] i(3) l(3) by simp
    qed
    have le: "region_pages l (?R - 1) \<le> region_pages lo (?R - 1)" using m(1) i(2) by blast
    obtain al' where al': "al_shrink_to al l = ok al'" "length (region_allocators al') = ?R"
      "al_inv cap mo ((region_pages lo)(?R - 1 := region_pages l (?R - 1))) (P(?R - 1 := P (?R - 1) \<inter> {..<region_pages l (?R - 1)})) (\<lambda>k. F k \<inter> {..<?R}) al'"
      using al_shrink_to_ok [OF inv l(1,4) _ le] free [OF i(2,1)] len i(3) by auto
    have "al_inv cap mo (region_pages l) (resized lo l P) (\<lambda>k. F k \<inter> {..<?R}) al'"
    proof (rule al_inv_cong [OF al'(3)], unfold al'(2))
      fix j assume j: "j < ?R"
      then have "j < ?Q" using i(3) by simp
      then show "((region_pages lo)(?R - 1 := region_pages l (?R - 1))) j = region_pages l j
          \<and> (P(?R - 1 := P (?R - 1) \<inter> {..<region_pages l (?R - 1)})) j = resized lo l P j"
        using m [OF j] P [of j] j by (cases "j = ?R - 1") (auto simp: resized_def)
    qed
    moreover have "al_resize_to al l = ok al'"
      using less al'(1) unfolding rz by (auto simp: ch_def cmp_nat_def)
    moreover have "\<forall>j<?R. \<not> (if j < ?Q then region_pages lo j else 0) < region_pages l j" using m(1) i(3) by (auto simp: not_less)
    ultimately show ?thesis using al'(2) by blast
  next
    case same
    have m: "region_pages l j = region_pages lo j" if "j < ?R" for j
      using region_pages_full [of j l] region_pages_full [of j lo] region_pages_last [OF R(1)] region_pages_last [OF R(2)] same that l(3)
      by (cases "j = ?R - 1") auto
    have "al_inv cap mo (region_pages l) (resized lo l P) F al"
      by (rule al_inv_cong [OF inv]) (use len same m P in \<open>auto simp: resized_def\<close>)
    moreover have "al_resize_to al l = ok al"
      using same unfolding rz by (simp add: ch_def cmp_nat_def)
    moreover have "\<forall>j<?R. \<not> (if j < ?Q then region_pages lo j else 0) < region_pages l j" using m same by auto
    ultimately show ?thesis using len same by metis
  next
    case grow
    have m: "region_pages lo j \<le> region_pages l j" if "j < ?Q" for j
      using region_pages_mono(1) [OF l(1,3,2) _ that] grow by auto
    have q: "?Q \<le> ?R" using grow by auto
    obtain al' F' where al': "for_each [0..<?R] (grow_step l ?Q) al = ok al'" "length (region_allocators al') = ?R"
      "al_inv cap mo (region_pages l) (al_grown l ?Q (region_pages lo) P) F' al'"
      "\<forall>i<?R. ?Q \<le> i \<or> region_pages lo i \<noteq> region_pages l i \<longrightarrow> offers F' mo i (al_grown l ?Q (region_pages lo) P i)"
      using al_grow_ok [OF inv l(1,4,5) len [symmetric] q m] by blast
    have e: "al_grown l ?Q (region_pages lo) P j = resized lo l P j" for j
      using P [of j] m [of j] by (fastforce simp: al_grown_def resized_def)
    have "al_inv cap mo (region_pages l) (resized lo l P) F' al'"
      by (rule al_inv_cong [OF al'(3)]) (simp add: e)
    moreover have "al_resize_to al l = ok al'"
    proof -
      have "ch = Greater" using grow by (auto simp: ch_def cmp_nat_def)
      then show ?thesis using al'(1) rz by simp
    qed
    moreover have "\<forall>i<?R. (if i < ?Q then region_pages lo i else 0) < region_pages l i \<longrightarrow> offers F' mo i (resized lo l P i)"
      using al'(4) unfolding e by (auto split: if_splits)
    ultimately show ?thesis using al'(2) by blast
  qed
qed

subsection \<open>Properties\<close>

text \<open>Creating the allocators of a layout never panics.  Every region gets a buddy allocator in which
  all of its pages are free, and the tracker offers every region for every order a region can have.\<close>

theorem allocators_new_all_free:
  assumes "managed l"
  shows "\<exists>al F. al_new l = ok al \<and> length (region_allocators al) = dl_regions l
    \<and> al_inv (rl_num_pages (dl_full l)) (max_order_of (rl_num_pages (dl_full l))) (region_pages l) (\<lambda>i. {..<region_pages l i}) F al
    \<and> (\<forall>k\<le>max_order_of (rl_num_pages (dl_full l)). F k = {..<dl_regions l})"
  using al_new_ok [OF assms] .

definition two_regions :: "nat \<Rightarrow> db_layout" where
  "two_regions t = \<lparr>dl_full = \<lparr>rl_num_pages = 8, rl_header_pages = 1, rl_page_size = 512\<rparr>, dl_num_full = 1,
     dl_trailing = Some \<lparr>rl_num_pages = t, rl_header_pages = 1, rl_page_size = 512\<rparr>\<rparr>"

lemma two_regions_managed: "0 < t \<Longrightarrow> t \<le> 8 \<Longrightarrow> managed (two_regions t)" "dl_regions (two_regions t) = 2" "dl_full (two_regions t) = dl_full (two_regions u)"
  "rl_num_pages (dl_full (two_regions t)) = 8" "region_pages (two_regions t) 0 = 8" "region_pages (two_regions t) 1 = t"
  by (auto simp: two_regions_def managed_def dl_bounded_def dl_regions_def MAX_REGIONS_def region_pages_def last_region_pages_def rl_size_def)

theorem allocators_new_all_free_witness:
  "\<exists>al F. al_new (two_regions 4) = ok al \<and> length (region_allocators al) = 2 \<and> al_inv 8 (max_order_of 8) (region_pages (two_regions 4)) (\<lambda>i. {..<region_pages (two_regions 4) i}) F al"
  using allocators_new_all_free [of "two_regions 4"] two_regions_managed [of 4] by auto

text \<open>C21. Resizing the allocators to a layout with the same full regions never panics, as long as the pages cut
  from the last kept region are free.  Each region then has the pages of the new layout; its free pages are the old
  free pages that still exist and all of the new ones; dropped regions are no longer offered; and
  a region that was grown or created is offered for every order for which it has a free block.\<close>

theorem allocators_resize_to:
  assumes "al_inv (rl_num_pages (dl_full l)) (max_order_of (rl_num_pages (dl_full l))) (region_pages lo) P F al"
    "length (region_allocators al) = dl_regions lo" "managed l" "managed lo" "dl_full l = dl_full lo"
    "\<And>i. i < dl_regions l \<Longrightarrow> i < dl_regions lo \<Longrightarrow> {region_pages l i..<region_pages lo i} \<subseteq> P i"
  shows "\<exists>al' F'. al_resize_to al l = ok al' \<and> length (region_allocators al') = dl_regions l
    \<and> al_inv (rl_num_pages (dl_full l)) (max_order_of (rl_num_pages (dl_full l))) (region_pages l) (resized lo l P) F' al'
    \<and> (\<forall>i<dl_regions l. (if i < dl_regions lo then region_pages lo i else 0) < region_pages l i \<longrightarrow>
        offers F' (max_order_of (rl_num_pages (dl_full l))) i (resized lo l P i))"
  using al_resize_to_ok [OF assms(1-5) refl refl assms(6)] .

theorem allocators_resize_to_witness:
  "\<exists>al F al' F'. al_new (two_regions 4) = ok al \<and> al_inv 8 (max_order_of 8) (region_pages (two_regions 4)) (\<lambda>i. {..<region_pages (two_regions 4) i}) F al
    \<and> al_resize_to al (two_regions 2) = ok al'
    \<and> al_inv 8 (max_order_of 8) (region_pages (two_regions 2)) (resized (two_regions 4) (two_regions 2) (\<lambda>i. {..<region_pages (two_regions 4) i})) F' al'"
proof -
  obtain al F where al: "al_new (two_regions 4) = ok al" "length (region_allocators al) = dl_regions (two_regions 4)"
    "al_inv 8 (max_order_of 8) (region_pages (two_regions 4)) (\<lambda>i. {..<region_pages (two_regions 4) i}) F al"
    using al_new_ok [of "two_regions 4"] two_regions_managed [of 4] by auto
  have i: "i < 2 \<Longrightarrow> {region_pages (two_regions 2) i..<region_pages (two_regions 4) i} \<subseteq> {..<region_pages (two_regions 4) i}" for i by auto
  from allocators_resize_to [of "two_regions 2" "two_regions 4" "\<lambda>i. {..<region_pages (two_regions 4) i}" F al] al i
    two_regions_managed [of 2] two_regions_managed [of 4] two_regions_managed(3) [of 2 4]
  show ?thesis by auto
qed

text \<open>\<open>from_bytes\<close> of a region tracker reads back what \<open>to_vec\<close> writes: the tracker read back offers the same regions
  for every order.\<close>

theorem region_tracker_round_trip:
  assumes "rt_rep n h F rt" "n \<le> MAX_REGIONS"
  shows "\<exists>v rt'. rt_to_vec rt = ok v \<and> rt_from_bytes v = ok rt' \<and> rt_rep n h F rt'"
  using rt_round_trip_ok [OF assms] .

theorem region_tracker_round_trip_witness:
  "\<exists>rt h v rt'. rt_new 1000 (MAX_MAX_PAGE_ORDER + 1) = ok rt \<and> rt_to_vec rt = ok v \<and> rt_from_bytes v = ok rt' \<and> rt_rep 1000 h (\<lambda>_. {}) rt'"
  using rt_new_ok [of 1000] region_tracker_round_trip [of 1000 _ "\<lambda>_. {}"] by (fastforce simp: MAX_REGIONS_def)

end
