(* ===== verification/Lru_Cache.thy ===== *)
theory Lru_Cache
  imports Redb_Prelude "HOL-Library.AList"
begin

text \<open>
  The second-chance cache of \<open>src/tree_store/page_store/lru_cache.rs\<close>.  The hash map is an association list
  of the keys with their value and second-chance flag; where the code iterates over the map in the unspecified order of
  the hash table, the client theory takes that order as a parameter.  The eviction queue may hold keys that are no longer
  cached, and may hold a key twice.

  The lemmas show that the cache is a finite map, that every cached key is in the queue, so that popping a
  non-empty cache always evicts an entry, and how long the queue can get.
\<close>

record 'a lru =
  lru_cache :: "(nat \<times> 'a \<times> bool) list"
  lru_queue :: "nat list"

definition lru_new :: "'a lru" where
  "lru_new = \<lparr>lru_cache = [], lru_queue = []\<rparr>"

definition lru_len :: "'a lru \<Rightarrow> nat" where
  "lru_len c = length (lru_cache c)"

definition lru_insert :: "'a lru \<Rightarrow> nat \<Rightarrow> 'a \<Rightarrow> 'a option \<times> 'a lru" where
  "lru_insert c key value = (case map_of (lru_cache c) key of
      Some (old, _) \<Rightarrow> (Some old, c\<lparr>lru_cache := AList.update key (value, False) (lru_cache c)\<rparr>)
    | None \<Rightarrow> (None, \<lparr>lru_cache = AList.update key (value, False) (lru_cache c), lru_queue = lru_queue c @ [key]\<rparr>))"

text \<open>One step of the loop that cycles the queue: pop the front, put it back if it is cached.\<close>

definition lru_cycle :: "'a lru \<Rightarrow> 'a lru" where
  "lru_cycle c = (case lru_queue c of
      [] \<Rightarrow> c
    | k # q \<Rightarrow> (case map_of (lru_cache c) k of
        Some (v, _) \<Rightarrow> \<lparr>lru_cache = AList.update k (v, False) (lru_cache c), lru_queue = q @ [k]\<rparr>
      | None \<Rightarrow> c\<lparr>lru_queue := q\<rparr>))"

definition lru_remove :: "'a lru \<Rightarrow> nat \<Rightarrow> 'a option \<times> 'a lru" where
  "lru_remove c key = (case map_of (lru_cache c) key of
      Some (value, _) \<Rightarrow>
        let c = c\<lparr>lru_cache := AList.delete key (lru_cache c)\<rparr> in
        (Some value, if length (lru_queue c) > 2 * length (lru_cache c) then lru_cycle (lru_cycle c) else c)
    | None \<Rightarrow> (None, c))"

definition lru_get :: "'a lru \<Rightarrow> nat \<Rightarrow> 'a option \<times> 'a lru" where
  "lru_get c key = (case map_of (lru_cache c) key of
      Some (value, _) \<Rightarrow> (Some value, c\<lparr>lru_cache := AList.update key (value, True) (lru_cache c)\<rparr>)
    | None \<Rightarrow> (None, c))"

text \<open>\<open>get_mut\<close> with the update \<open>f\<close> that the caller makes through the reference.\<close>

definition lru_get_mut :: "'a lru \<Rightarrow> nat \<Rightarrow> ('a \<Rightarrow> 'a) \<Rightarrow> 'a option \<times> 'a lru" where
  "lru_get_mut c key f = (case map_of (lru_cache c) key of
      Some (value, _) \<Rightarrow> (Some value, c\<lparr>lru_cache := AList.update key (f value, True) (lru_cache c)\<rparr>)
    | None \<Rightarrow> (None, c))"

definition lru_clear :: "'a lru \<Rightarrow> 'a lru" where
  "lru_clear c = \<lparr>lru_cache = [], lru_queue = []\<rparr>"

definition flagged :: "(nat \<times> 'a \<times> bool) list \<Rightarrow> nat" where
  "flagged xs = length (filter (\<lambda>(_, _, b). b) xs)"

lemma flagged_update:
  "map_of xs k = Some (v, True) \<Longrightarrow> flagged (AList.update k (w, False) xs) < flagged xs"
  by (induction xs) (auto simp: flagged_def)

function pop_lowest_priority :: "'a lru \<Rightarrow> (nat \<times> 'a) option \<times> 'a lru" where
  "pop_lowest_priority c = (case lru_queue c of
      [] \<Rightarrow> (None, c)
    | key # q \<Rightarrow> (case map_of (lru_cache c) key of
        Some (value, True) \<Rightarrow>
          pop_lowest_priority \<lparr>lru_cache = AList.update key (value, False) (lru_cache c), lru_queue = q @ [key]\<rparr>
      | Some (value, False) \<Rightarrow>
          (Some (key, value), \<lparr>lru_cache = AList.delete key (lru_cache c), lru_queue = q\<rparr>)
      | None \<Rightarrow> pop_lowest_priority (c\<lparr>lru_queue := q\<rparr>)))"
  by pat_completeness auto
termination
  by (relation "measures [\<lambda>c. flagged (lru_cache c), \<lambda>c. length (lru_queue c)]") (auto simp: flagged_update)

declare pop_lowest_priority.simps [simp del]

lemma length_update_present: "map_of xs k = Some v \<Longrightarrow> length (AList.update k w xs) = length xs"
  by (induction xs) (auto split: if_splits)

lemma length_delete_present: "map_of xs k = Some v \<Longrightarrow> length (AList.delete k xs) < length xs"
  by (induction xs) (auto simp: AList.delete_eq less_Suc_eq_le split: if_splits)

lemma pop_less: "pop_lowest_priority c = (Some p, c') \<Longrightarrow> lru_len c' < lru_len c"
proof (induction c rule: pop_lowest_priority.induct)
  case (1 c)
  show ?case
  proof (cases "lru_queue c")
    case Nil
    then show ?thesis using 1(3) by (subst (asm) pop_lowest_priority.simps) simp
  next
    case (Cons k q)
    consider (n) "map_of (lru_cache c) k = None" | (t) v where "map_of (lru_cache c) k = Some (v, True)"
      | (f) v where "map_of (lru_cache c) k = Some (v, False)" by (cases "map_of (lru_cache c) k") auto
    then show ?thesis
    proof cases
      case n
      then show ?thesis using 1(3) 1(1) [OF Cons n] Cons by (subst (asm) pop_lowest_priority.simps) (simp add: lru_len_def)
    next
      case t
      then show ?thesis using 1(3) 1(2) [OF Cons t refl refl] Cons
        by (subst (asm) pop_lowest_priority.simps) (simp add: lru_len_def length_update_present)
    next
      case f
      then show ?thesis using 1(3) Cons
        by (subst (asm) pop_lowest_priority.simps) (auto simp: lru_len_def length_delete_present)
    qed
  qed
qed

subsection \<open>The cache as a finite map\<close>

definition lru_map :: "'a lru \<Rightarrow> nat \<Rightarrow> 'a option" where
  "lru_map c k = map_option fst (map_of (lru_cache c) k)"

definition lru_inv :: "'a lru \<Rightarrow> bool" where
  "lru_inv c \<longleftrightarrow> distinct (map fst (lru_cache c)) \<and> fst ` set (lru_cache c) \<subseteq> set (lru_queue c)"

lemma lru_dom: "dom (lru_map c) = fst ` set (lru_cache c)"
  by (auto simp: lru_map_def dom_map_of_conv_image_fst [symmetric])

lemma lru_finite [simp]: "finite (dom (lru_map c))"
  by (simp add: lru_dom)

lemma lru_len_card: "lru_inv c \<Longrightarrow> lru_len c = card (dom (lru_map c))"
  by (metis distinct_card length_map list.set_map lru_dom lru_inv_def lru_len_def)

lemma alist_keys:
  "fst ` set (AList.update k v xs) = insert k (fst ` set xs)" "fst ` set (AList.delete k xs) = fst ` set xs - {k}"
  "distinct (map fst xs) \<Longrightarrow> distinct (map fst (AList.update k v xs))"
  "distinct (map fst xs) \<Longrightarrow> distinct (map fst (AList.delete k xs))"
proof -
  have "set (map fst (AList.delete k xs)) = set (map fst xs) - {k}" by (simp only: delete_keys set_removeAll)
  then show "fst ` set (AList.delete k xs) = fst ` set xs - {k}" by simp
qed (simp_all add: dom_update delete_keys distinct_update distinct_removeAll)

lemma map_of_in_keys: "map_of xs k = Some v \<Longrightarrow> k \<in> fst ` set xs"
  by (metis domI dom_map_of_conv_image_fst)

lemma keys_drop: "map_of xs k = None \<Longrightarrow> fst ` set xs \<subseteq> insert k Q \<Longrightarrow> fst ` set xs \<subseteq> Q"
  by (auto simp: map_of_eq_None_iff)

lemma lru_new_ok [simp]: "lru_inv lru_new" "lru_map lru_new = Map.empty"
  by (auto simp: lru_inv_def lru_new_def lru_map_def)

lemma lru_clear_ok [simp]: "lru_inv (lru_clear c)" "lru_map (lru_clear c) = Map.empty"
  by (auto simp: lru_inv_def lru_clear_def lru_map_def)

lemma lru_insert_ok:
  assumes "lru_inv c"
  shows "fst (lru_insert c k v) = lru_map c k" "lru_map (snd (lru_insert c k v)) = (lru_map c)(k \<mapsto> v)"
    "lru_inv (snd (lru_insert c k v))"
  using assms by (auto simp: lru_insert_def lru_inv_def lru_map_def alist_keys update_conv map_of_in_keys
      dest: map_of_in_keys split: option.splits)

lemma lru_get_ok:
  assumes "lru_inv c"
  shows "fst (lru_get c k) = lru_map c k" "lru_map (snd (lru_get c k)) = lru_map c" "lru_inv (snd (lru_get c k))"
  using assms by (auto simp: lru_get_def lru_inv_def lru_map_def alist_keys update_conv insert_absorb
      dest: map_of_in_keys split: option.splits)

lemma lru_get_mut_ok:
  assumes "lru_inv c"
  shows "fst (lru_get_mut c k f) = lru_map c k" "lru_inv (snd (lru_get_mut c k f))"
    "lru_map (snd (lru_get_mut c k f)) = (case lru_map c k of None \<Rightarrow> lru_map c | Some v \<Rightarrow> (lru_map c)(k \<mapsto> f v))"
  using assms by (auto simp: lru_get_mut_def lru_inv_def lru_map_def alist_keys update_conv insert_absorb
      dest: map_of_in_keys split: option.splits)

lemma lru_cycle_ok:
  assumes "lru_inv c"
  shows "lru_map (lru_cycle c) = lru_map c" "lru_inv (lru_cycle c)"
proof -
  have "lru_map (lru_cycle c) = lru_map c \<and> lru_inv (lru_cycle c)"
  proof (cases "lru_queue c")
    case (Cons k q)
    show ?thesis
    proof (cases "map_of (lru_cache c) k")
      case None
      then show ?thesis using assms Cons keys_drop [OF None, of "set q"] by (simp add: lru_cycle_def lru_inv_def lru_map_def fun_eq_iff)
    next
      case (Some p)
      then show ?thesis using assms Cons map_of_in_keys [OF Some]
        by (cases p) (auto simp: lru_cycle_def lru_inv_def lru_map_def alist_keys update_conv)
    qed
  qed (use assms in \<open>simp add: lru_cycle_def\<close>)
  then show "lru_map (lru_cycle c) = lru_map c" "lru_inv (lru_cycle c)" by simp_all
qed

lemma lru_remove_ok:
  assumes "lru_inv c"
  shows "fst (lru_remove c k) = lru_map c k" "lru_map (snd (lru_remove c k)) = (lru_map c)(k := None)"
    "lru_inv (snd (lru_remove c k))"
proof -
  let ?c = "c\<lparr>lru_cache := AList.delete k (lru_cache c)\<rparr>"
  have d: "lru_inv ?c" "lru_map ?c = (lru_map c)(k := None)"
    using assms by (auto simp: lru_inv_def lru_map_def alist_keys delete_conv)
  have same: "(lru_map c)(k := None) = lru_map c" if "lru_map c k = None" using that by auto
  show "fst (lru_remove c k) = lru_map c k" "lru_map (snd (lru_remove c k)) = (lru_map c)(k := None)"
    "lru_inv (snd (lru_remove c k))"
    using d assms same by (auto simp: lru_remove_def Let_def lru_cycle_ok lru_map_def [of c k] split: option.splits)
qed

lemma pop_ok:
  assumes "lru_inv c"
  shows "case pop_lowest_priority c of
      (None, c') \<Rightarrow> lru_map c = Map.empty \<and> lru_map c' = Map.empty \<and> lru_inv c'
    | (Some (k, v), c') \<Rightarrow> lru_map c k = Some v \<and> lru_map c' = (lru_map c)(k := None) \<and> lru_inv c'"
  using assms
proof (induction c rule: pop_lowest_priority.induct)
  case (1 c)
  show ?case
  proof (cases "lru_queue c")
    case Nil
    then have "lru_cache c = []" using 1(3) by (simp add: lru_inv_def)
    then show ?thesis using Nil 1(3) by (subst pop_lowest_priority.simps) (simp add: lru_map_def fun_eq_iff)
  next
    case (Cons k q)
    show ?thesis
    proof (cases "map_of (lru_cache c) k")
      case None
      have "lru_inv (c\<lparr>lru_queue := q\<rparr>)" using 1(3) Cons keys_drop [OF None] by (auto simp: lru_inv_def)
      moreover have e: "lru_map (c\<lparr>lru_queue := q\<rparr>) = lru_map c" by (simp add: lru_map_def fun_eq_iff)
      moreover have "pop_lowest_priority c = pop_lowest_priority (c\<lparr>lru_queue := q\<rparr>)" using Cons None by (subst pop_lowest_priority.simps) simp
      ultimately show ?thesis using 1(1) [OF Cons None, unfolded e] by simp
    next
      case (Some p)
      obtain v b where p: "p = (v, b)" by fastforce
      show ?thesis
      proof (cases b)
        case True
        let ?c = "\<lparr>lru_cache = AList.update k (v, False) (lru_cache c), lru_queue = q @ [k]\<rparr>"
        have k: "map_of (lru_cache c) k = Some (v, True)" using Some p True by simp
        have "lru_inv ?c" using 1(3) Cons map_of_in_keys [OF k] by (auto simp: lru_inv_def alist_keys)
        moreover have e: "lru_map ?c = lru_map c" using k by (auto simp: lru_map_def update_conv)
        moreover have "pop_lowest_priority c = pop_lowest_priority ?c" using Cons k by (subst pop_lowest_priority.simps) simp
        ultimately show ?thesis using 1(2) [OF Cons k refl refl, unfolded e] by simp
      next
        case False
        then have k: "map_of (lru_cache c) k = Some (v, False)" using Some p by simp
        then show ?thesis using 1(3) Cons
          by (subst pop_lowest_priority.simps) (auto simp: lru_inv_def lru_map_def alist_keys delete_conv fun_eq_iff)
      qed
    qed
  qed
qed

subsection \<open>Properties\<close>

text \<open>C35. The cache is a finite map under every operation, and evicting from it always makes progress: \<open>pop_lowest_priority\<close>
  terminates, removes exactly one entry and returns it whenever the cache is not empty, although the queue may hold stale keys
  and flagged keys get a second chance.\<close>

theorem lru_pop_progress:
  assumes "lru_inv c"
  shows "(if lru_map c = Map.empty then fst (pop_lowest_priority c) = None
     else \<exists>k v. fst (pop_lowest_priority c) = Some (k, v) \<and> lru_map c k = Some v
       \<and> lru_map (snd (pop_lowest_priority c)) = (lru_map c)(k := None) \<and> Suc (lru_len (snd (pop_lowest_priority c))) = lru_len c)
    \<and> lru_inv (snd (pop_lowest_priority c))"
proof (cases "pop_lowest_priority c")
  case (Pair r c')
  show ?thesis
  proof (cases r)
    case None
    then show ?thesis using pop_ok [OF assms] Pair by auto
  next
    case (Some p)
    then obtain k v where p: "r = Some (k, v)" "lru_map c k = Some v" "lru_map c' = (lru_map c)(k := None)" "lru_inv c'"
      using pop_ok [OF assms] Pair by (cases p) auto
    moreover have "Suc (card (dom ((lru_map c)(k := None)))) = card (dom (lru_map c))"
      using p(2) card_Suc_Diff1 [OF lru_finite, of k c] by (simp add: domI)
    ultimately show ?thesis using Pair assms by (auto simp: lru_len_card)
  qed
qed

theorem lru_pop_progress_witness:
  "fst (pop_lowest_priority \<lparr>lru_cache = [(5, ''a'', True), (6, ''b'', False)], lru_queue = [9, 5, 6]\<rparr>) \<noteq> None"
  using lru_pop_progress [of "\<lparr>lru_cache = [(5, ''a'', True), (6, ''b'', False)], lru_queue = [9, 5, 6]\<rparr>"]
  by (auto simp: lru_inv_def lru_map_def fun_eq_iff split: if_splits)

text \<open>Removing a key and inserting it again, with three keys cached: if the key is not one of the first two of the
  queue, both of them are put back, and the queue is one entry longer than before.\<close>

definition lru_reinsert :: "nat \<Rightarrow> 'a \<Rightarrow> 'a lru \<Rightarrow> 'a lru" where
  "lru_reinsert k v c = snd (lru_insert (snd (lru_remove c k)) k v)"

lemma cycle_live:
  "lru_queue c = x # q \<Longrightarrow> x \<in> dom (lru_map c) \<Longrightarrow> lru_queue (lru_cycle c) = q @ [x]"
  by (auto simp: lru_cycle_def lru_map_def split: option.splits)

lemma lru_reinsert_grows:
  assumes c: "lru_inv c" and dom: "dom (lru_map c) = {a, b, d}" "set (lru_queue c) = {a, b, d}"
    and q: "lru_queue c = x # y # q" "4 < length (lru_queue c)" and k: "k \<in> {a, b, d}" "k \<noteq> x" "k \<noteq> y" and abd: "card {a, b, d} = 3"
  shows "length (lru_queue (lru_reinsert k v c)) = Suc (length (lru_queue c))"
    "dom (lru_map (lru_reinsert k v c)) = {a, b, d}" "set (lru_queue (lru_reinsert k v c)) = {a, b, d}" "lru_inv (lru_reinsert k v c)"
proof -
  let ?c = "c\<lparr>lru_cache := AList.delete k (lru_cache c)\<rparr>"
  have kd: "k \<in> dom (lru_map c)" using k dom by simp
  have d: "lru_inv ?c" "lru_map ?c = (lru_map c)(k := None)" "lru_queue ?c = x # y # q"
    using c q by (auto simp: lru_inv_def lru_map_def alist_keys delete_conv)
  have "card (dom (lru_map ?c)) = 2" using d(2) dom(1) k(1) abd by simp
  then have l: "length (lru_cache ?c) = 2" using lru_len_card [OF d(1)] by (simp add: lru_len_def)
  have r: "snd (lru_remove c k) = lru_cycle (lru_cycle ?c)"
    using kd q(2) l by (auto simp: lru_remove_def lru_map_def)
  have xy: "x \<in> dom (lru_map ?c)" "y \<in> dom (lru_map ?c)" using q(1) dom d(2) k by auto
  have q1: "lru_queue (lru_cycle ?c) = y # q @ [x]" using cycle_live [OF d(3) xy(1)] by simp
  have q2: "lru_queue (lru_cycle (lru_cycle ?c)) = q @ [x, y]"
    using cycle_live [OF q1] xy(2) lru_cycle_ok(1) [OF d(1)] by simp
  have m: "lru_map (lru_cycle (lru_cycle ?c)) = (lru_map c)(k := None)" "lru_inv (lru_cycle (lru_cycle ?c))"
    using lru_cycle_ok d(1,2) by metis+
  have "map_of (lru_cache (lru_cycle (lru_cycle ?c))) k = None" using fun_cong [OF m(1), of k] by (simp add: lru_map_def)
  then have i: "lru_queue (lru_reinsert k v c) = q @ [x, y, k]"
    using q2 by (simp add: lru_reinsert_def r lru_insert_def)
  show "length (lru_queue (lru_reinsert k v c)) = Suc (length (lru_queue c))" using i q(1) by simp
  show "set (lru_queue (lru_reinsert k v c)) = {a, b, d}" using i q(1) dom(2) k(1) by auto
  show "dom (lru_map (lru_reinsert k v c)) = {a, b, d}" "lru_inv (lru_reinsert k v c)"
    using lru_insert_ok [OF m(2), of k v] m(1) dom(1) k(1) by (auto simp: lru_reinsert_def r)
qed

lemma three_keys_choice: "card {a, b, d} = 3 \<Longrightarrow> \<exists>k\<in>{a, b, d}. k \<noteq> x \<and> k \<noteq> (y :: nat)"
proof (rule ccontr)
  assume c: "card {a, b, d} = 3" and "\<not> ?thesis"
  then have "{a, b, d} \<subseteq> {x, y}" by auto
  from card_mono [OF _ this] have "3 \<le> card {x, y}" using c by simp
  moreover have "card {x, y} \<le> 2" by (simp add: card_insert_if)
  ultimately show False by simp
qed

lemma lru_queue_grows:
  assumes "lru_inv c" "dom (lru_map c) = {a, b, d}" "set (lru_queue c) = {a, b, d}" "4 < length (lru_queue c)" "card {a, b, d} = 3"
  shows "\<exists>ks. set ks \<subseteq> {a, b, d} \<and> lru_len (fold (\<lambda>k. lru_reinsert k v) ks c) = 3
    \<and> length (lru_queue (fold (\<lambda>k. lru_reinsert k v) ks c)) = length (lru_queue c) + n"
  using assms(1-4)
proof (induction n arbitrary: c)
  case 0
  then show ?case using assms(5) lru_len_card [OF 0(1)] by (intro exI [of _ "[]"]) simp
next
  case (Suc n)
  obtain x y q where q: "lru_queue c = x # y # q"
    using Suc.prems(4) by (cases "lru_queue c" rule: remdups_adj.cases) auto
  obtain k where k: "k \<in> {a, b, d}" "k \<noteq> x" "k \<noteq> y" using three_keys_choice [OF assms(5)] by blast
  note g = lru_reinsert_grows [OF Suc.prems(1-3) q Suc.prems(4) k assms(5), of v]
  obtain ks where "set ks \<subseteq> {a, b, d}" "lru_len (fold (\<lambda>k. lru_reinsert k v) ks (lru_reinsert k v c)) = 3"
    "length (lru_queue (fold (\<lambda>k. lru_reinsert k v) ks (lru_reinsert k v c))) = length (lru_queue (lru_reinsert k v c)) + n"
    using Suc.IH [OF g(4,2,3)] g(1) Suc.prems(4) by auto
  then show ?case using k(1) g(1) by (intro exI [of _ "k # ks"]) simp
qed

text \<open>C36. The cycling in \<open>remove\<close> does not bound the eviction queue: for every length there is a sequence of removals, each
  followed by inserting the key again, that reaches it while the cache holds just three entries throughout.\<close>

theorem lru_queue_not_bounded:
  "\<exists>ks. set ks \<subseteq> {1, 2, 3} \<and> lru_len (fold (\<lambda>k. lru_reinsert k ()) ks (fold (\<lambda>k c. snd (lru_insert c k ())) [1, 2, 3] lru_new)) = 3
     \<and> n \<le> length (lru_queue (fold (\<lambda>k. lru_reinsert k ()) ks (fold (\<lambda>k c. snd (lru_insert c k ())) [1, 2, 3] lru_new)))"
proof -
  define i where "i = fold (\<lambda>k c. snd (lru_insert c k ())) [1, 2, 3] lru_new"
  define c where "c = fold (\<lambda>k. lru_reinsert k ()) [3, 3] i"
  have c: "c = \<lparr>lru_cache = [(1, (), False), (2, (), False), (3, (), False)], lru_queue = [1, 2, 3, 3, 3]\<rparr>"
    unfolding c_def i_def by code_simp
  have "lru_inv c" "dom (lru_map c) = {1, 2, 3}" "set (lru_queue c) = {1, 2, 3}" "4 < length (lru_queue c)"
    by (auto simp: c lru_inv_def lru_map_def dom_def)
  from lru_queue_grows [OF this, of "()" n] obtain ks where ks: "set ks \<subseteq> {1, 2, 3}"
    "lru_len (fold (\<lambda>k. lru_reinsert k ()) ([3, 3] @ ks) i) = 3" "n \<le> length (lru_queue (fold (\<lambda>k. lru_reinsert k ()) ([3, 3] @ ks) i))"
    unfolding c_def by auto
  then show ?thesis unfolding i_def [symmetric] by (intro exI [of _ "[3, 3] @ ks"]) auto
qed

end
