(* ===== verification/Cached_File.thy ===== *)
theory Cached_File
  imports Lru_Cache
begin

text \<open>
  The cached file of \<open>src/tree_store/page_store/cached_file.rs\<close>: \<open>CheckedBackend\<close>, which latches the first I/O
  failure, \<open>LRUWriteCache\<close>, the write buffer, whose pages can be lent out, and \<open>PagedCachedFile\<close>, which combines
  the backend with the write buffer and a striped read cache; and the in-memory backend of
  \<open>src/tree_store/page_store/backends.rs\<close>.

  The trait \<open>StorageBackend\<close> is a record of operations on an unknown state \<open>'f\<close>; what its documentation promises is
  the locale \<open>storage_backend\<close>, which the in-memory backend interprets.  Operations run one at a time: the
  model does not interleave threads inside an operation.  The iteration order of a hash map is a parameter.
\<close>

subsection \<open>Backends\<close>

datatype io_error = Io_Error string

datatype storage_error = Se_Corrupted string | Value_Too_Large nat | Se_Io io_error | Previous_Io | Database_Closed | Lock_Poisoned

record 'f backend =
  be_len :: "'f \<Rightarrow> (io_error + nat) \<times> 'f"
  be_read :: "'f \<Rightarrow> nat \<Rightarrow> nat \<Rightarrow> (io_error + byte list) \<times> 'f"
  be_set_len :: "'f \<Rightarrow> nat \<Rightarrow> (io_error + unit) \<times> 'f"
  be_sync_data :: "'f \<Rightarrow> (io_error + unit) \<times> 'f"
  be_write :: "'f \<Rightarrow> nat \<Rightarrow> byte list \<Rightarrow> (io_error + unit) \<times> 'f"
  be_close :: "'f \<Rightarrow> (io_error + unit) \<times> 'f"

definition out_of_range :: io_error where
  "out_of_range = Io_Error ''Index out-of-range.''"

definition vec_resize :: "byte list \<Rightarrow> nat \<Rightarrow> byte list" where
  "vec_resize xs n = take n xs @ replicate (n - length xs) 0"

definition in_memory_backend :: "byte list backend" where
  "in_memory_backend = \<lparr>
     be_len = (\<lambda>g. (Inr (length g), g)),
     be_read = (\<lambda>g offset n. (if offset + n \<le> length g then Inr (take n (drop offset g)) else Inl out_of_range, g)),
     be_set_len = (\<lambda>g n. (Inr (), vec_resize g n)),
     be_sync_data = (\<lambda>g. (Inr (), g)),
     be_write = (\<lambda>g offset dat. if offset + length dat \<le> length g
        then (Inr (), take offset g @ dat @ drop (offset + length dat) g) else (Inl out_of_range, g)),
     be_close = (\<lambda>g. (Inr (), g))\<rparr>"

subsection \<open>\<open>CheckedBackend\<close>\<close>

record 'f checked_backend =
  cb_file :: 'f
  cb_io_failed :: bool
  cb_closed :: bool

definition cb_new :: "'f \<Rightarrow> 'f checked_backend" where
  "cb_new file = \<lparr>cb_file = file, cb_io_failed = False, cb_closed = False\<rparr>"

definition check_failure :: "'f checked_backend \<Rightarrow> storage_error + unit" where
  "check_failure cb = (if cb_io_failed cb then Inl (if cb_closed cb then Database_Closed else Previous_Io) else Inr ())"

definition cb_close :: "'f backend \<Rightarrow> 'f checked_backend \<Rightarrow> (storage_error + unit) \<times> 'f checked_backend" where
  "cb_close B cb = (let cb = cb\<lparr>cb_closed := True, cb_io_failed := True\<rparr>; (r, f) = be_close B (cb_file cb) in
     (map_sum Se_Io id r, cb\<lparr>cb_file := f\<rparr>))"

text \<open>The other operations check for an earlier failure, run the operation of the backend and latch its failure.\<close>

definition cb_run :: "('f \<Rightarrow> (io_error + 'a) \<times> 'f) \<Rightarrow> 'f checked_backend \<Rightarrow> (storage_error + 'a) \<times> 'f checked_backend" where
  "cb_run op cb = (case check_failure cb of
      Inl e \<Rightarrow> (Inl e, cb)
    | Inr _ \<Rightarrow> (case op (cb_file cb) of
        (Inl e, f) \<Rightarrow> (Inl (Se_Io e), cb\<lparr>cb_file := f, cb_io_failed := True\<rparr>)
      | (Inr x, f) \<Rightarrow> (Inr x, cb\<lparr>cb_file := f\<rparr>)))"

definition cb_len :: "'f backend \<Rightarrow> 'f checked_backend \<Rightarrow> (storage_error + nat) \<times> 'f checked_backend" where
  "cb_len B = cb_run (be_len B)"

definition cb_read :: "'f backend \<Rightarrow> nat \<Rightarrow> nat \<Rightarrow> 'f checked_backend \<Rightarrow> (storage_error + byte list) \<times> 'f checked_backend" where
  "cb_read B offset n = cb_run (\<lambda>f. be_read B f offset n)"

definition cb_set_len :: "'f backend \<Rightarrow> nat \<Rightarrow> 'f checked_backend \<Rightarrow> (storage_error + unit) \<times> 'f checked_backend" where
  "cb_set_len B n = cb_run (\<lambda>f. be_set_len B f n)"

definition cb_sync_data :: "'f backend \<Rightarrow> 'f checked_backend \<Rightarrow> (storage_error + unit) \<times> 'f checked_backend" where
  "cb_sync_data B = cb_run (be_sync_data B)"

definition cb_write :: "'f backend \<Rightarrow> nat \<Rightarrow> byte list \<Rightarrow> 'f checked_backend \<Rightarrow> (storage_error + unit) \<times> 'f checked_backend" where
  "cb_write B offset dat = cb_run (\<lambda>f. be_write B f offset dat)"

subsection \<open>\<open>LRUWriteCache\<close>\<close>

text \<open>An entry is \<open>None\<close> while its page is lent out by \<open>take_value\<close>.\<close>

type_synonym write_cache = "byte list option lru"

definition wc_insert :: "write_cache \<Rightarrow> nat \<Rightarrow> byte list \<Rightarrow> write_cache rust" where
  "wc_insert c key value = (let (old, c) = lru_insert c key (Some value) in do { assert_that (old = None); ok c })"

definition wc_get :: "write_cache \<Rightarrow> nat \<Rightarrow> (byte list option \<times> write_cache) rust" where
  "wc_get c key = (case lru_get c key of
      (None, c) \<Rightarrow> ok (None, c)
    | (Some x, c) \<Rightarrow> do { v \<leftarrow> x; ok (Some v, c) })"

definition wc_remove :: "write_cache \<Rightarrow> nat \<Rightarrow> (byte list option \<times> write_cache) rust" where
  "wc_remove c key = (case lru_remove c key of
      (Some value, c) \<Rightarrow> do { assert_that (value \<noteq> None); ok (value, c) }
    | (None, c) \<Rightarrow> ok (None, c))"

definition wc_return_value :: "write_cache \<Rightarrow> nat \<Rightarrow> byte list \<Rightarrow> write_cache rust" where
  "wc_return_value c key value = (case lru_get_mut c key (\<lambda>_. Some value) of
      (old, c) \<Rightarrow> do { prev \<leftarrow> old; assert_that (prev = None); ok c })"

definition wc_take_value :: "write_cache \<Rightarrow> nat \<Rightarrow> (byte list option \<times> write_cache) rust" where
  "wc_take_value c key = (case lru_get_mut c key (\<lambda>_. None) of
      (Some value, c) \<Rightarrow> do { result \<leftarrow> value; ok (Some result, c) }
    | (None, c) \<Rightarrow> ok (None, c))"

text \<open>A lent page cannot be evicted: it is put back, and the loop tries at most as many pages as there are.\<close>

fun wc_pop_loop :: "nat \<Rightarrow> write_cache \<Rightarrow> (nat \<times> byte list) option \<times> write_cache" where
  "wc_pop_loop 0 c = (None, c)"
| "wc_pop_loop (Suc n) c = (case pop_lowest_priority c of
      (Some (k, Some v), c) \<Rightarrow> (Some (k, v), c)
    | (Some (k, None), c) \<Rightarrow> wc_pop_loop n (snd (lru_insert c k None))
    | (None, c) \<Rightarrow> (None, c))"

definition wc_pop_lowest_priority :: "write_cache \<Rightarrow> (nat \<times> byte list) option \<times> write_cache" where
  "wc_pop_lowest_priority c = wc_pop_loop (lru_len c) c"

subsection \<open>\<open>PagedCachedFile\<close>\<close>

definition lock_stripes :: nat where "lock_stripes = 131"

record 'f cached_file =
  cf_file :: "'f checked_backend"
  cf_page_size :: nat
  read_cache_bytes :: nat
  write_buffer_bytes :: nat
  max_cache_size :: nat
  next_eviction_stripe :: nat
  read_cache :: "byte list lru list"
  write_buffer :: write_cache

datatype page_hint = Hint_None | Hint_Clean

text \<open>\<open>fetch_add\<close> and \<open>fetch_sub\<close> on an \<open>AtomicUsize\<close> wrap around.\<close>

definition fetch_add :: "nat \<Rightarrow> nat \<Rightarrow> nat" where "fetch_add a b = (a + b) mod 2 ^ 64"
definition fetch_sub :: "nat \<Rightarrow> nat \<Rightarrow> nat" where "fetch_sub a b = (a + (2 ^ 64 - b mod 2 ^ 64)) mod 2 ^ 64"

definition cf_new :: "'f \<Rightarrow> nat \<Rightarrow> nat \<Rightarrow> 'f cached_file" where
  "cf_new file page_size max_size = \<lparr>cf_file = cb_new file, cf_page_size = page_size, read_cache_bytes = 0,
     write_buffer_bytes = 0, max_cache_size = max_size, next_eviction_stripe = 0,
     read_cache = replicate lock_stripes lru_new, write_buffer = lru_new\<rparr>"

type_synonym ('f, 'a) cf_result = "((storage_error + 'a) \<times> 'f cached_file) rust"

text \<open>Running an operation of the backend, and the question mark operator.\<close>

definition on_file :: "('f checked_backend \<Rightarrow> (storage_error + 'a) \<times> 'f checked_backend) \<Rightarrow> 'f cached_file \<Rightarrow> ('f, 'a) cf_result" where
  "on_file op cf = (case op (cf_file cf) of (r, f) \<Rightarrow> ok (r, cf\<lparr>cf_file := f\<rparr>))"

definition io_then :: "(('e + 'a) \<times> 's) rust \<Rightarrow> ('a \<Rightarrow> 's \<Rightarrow> (('e + 'b) \<times> 's) rust) \<Rightarrow> (('e + 'b) \<times> 's) rust" where
  "io_then m f = do { (r, s) \<leftarrow> m; case r of Inl e \<Rightarrow> ok (Inl e, s) | Inr x \<Rightarrow> f x s }"

definition raw_file_len :: "'f backend \<Rightarrow> 'f cached_file \<Rightarrow> ('f, nat) cf_result" where
  "raw_file_len B cf = on_file (cb_len B) cf"

definition check_io_errors :: "'f cached_file \<Rightarrow> storage_error + unit" where
  "check_io_errors cf = check_failure (cf_file cf)"

definition cf_close :: "'f backend \<Rightarrow> 'f cached_file \<Rightarrow> ('f, unit) cf_result" where
  "cf_close B cf = on_file (cb_close B) cf"

definition read_direct :: "'f backend \<Rightarrow> nat \<Rightarrow> nat \<Rightarrow> 'f cached_file \<Rightarrow> ('f, byte list) cf_result" where
  "read_direct B offset n cf = on_file (cb_read B offset n) cf"

subsubsection \<open>Eviction from the read cache\<close>

function evict_stripe :: "nat \<Rightarrow> byte list lru \<Rightarrow> nat \<Rightarrow> nat \<Rightarrow> (nat \<times> nat \<times> byte list lru) rust" where
  "evict_stripe bytes_needed lock freed bytes = (if freed < bytes_needed then
     (case pop_lowest_priority lock of
        (None, lock) \<Rightarrow> ok (freed, bytes, lock)
      | (Some (_, v), lock) \<Rightarrow> do {
          freed \<leftarrow> cadd 64 freed (length v);
          evict_stripe bytes_needed lock freed (fetch_sub bytes (length v)) })
     else ok (freed, bytes, lock))"
  by pat_completeness auto
termination
  by (relation "measure (\<lambda>(_, lock, _, _). lru_len lock)") (auto dest!: pop_less [OF sym])

declare evict_stripe.simps [simp del]

definition evict_from_read_cache :: "nat \<Rightarrow> 'f cached_file \<Rightarrow> 'f cached_file rust" where
  "evict_from_read_cache bytes_needed cf = do {
     let num_stripes = length (read_cache cf);
     start \<leftarrow> cmod (next_eviction_stripe cf) num_stripes;
     let cf = cf\<lparr>next_eviction_stripe := fetch_add (next_eviction_stripe cf) 1\<rparr>;
     (freed, cf) \<leftarrow> for_each [0..<num_stripes] (\<lambda>i (freed, cf).
        if freed \<ge> bytes_needed then ok (freed, cf)
        else do {
          stripe \<leftarrow> cmod (start + i) num_stripes;
          lock \<leftarrow> index (read_cache cf) stripe;
          (freed, bytes, lock) \<leftarrow> evict_stripe bytes_needed lock freed (read_cache_bytes cf);
          rc \<leftarrow> index_set (read_cache cf) stripe lock;
          ok (freed, cf\<lparr>read_cache_bytes := bytes, read_cache := rc\<rparr>) }) (0, cf);
     ok cf }"

subsubsection \<open>The write buffer\<close>

text \<open>The two loops of \<open>flush_write_buffer\<close> over the entries of the write buffer, in the order \<open>keys\<close>.\<close>

fun flush_writes :: "'f backend \<Rightarrow> nat list \<Rightarrow> 'f cached_file \<Rightarrow> ('f, unit) cf_result" where
  "flush_writes B [] cf = ok (Inr (), cf)"
| "flush_writes B (offset # keys) cf = do {
     entry \<leftarrow> lru_map (write_buffer cf) offset;
     buffer \<leftarrow> entry;
     io_then (on_file (cb_write B offset buffer) cf) (\<lambda>_. flush_writes B keys) }"

fun flush_transfer :: "nat list \<Rightarrow> 'f cached_file \<Rightarrow> 'f cached_file rust" where
  "flush_transfer [] cf = ok cf"
| "flush_transfer (offset # keys) cf = do {
     entry \<leftarrow> lru_map (write_buffer cf) offset;
     buffer \<leftarrow> entry;
     let cache_size = read_cache_bytes cf;
     let cf = cf\<lparr>read_cache_bytes := fetch_add cache_size (length buffer)\<rparr>;
     total \<leftarrow> cadd 64 cache_size (length buffer);
     if total \<le> max_cache_size cf then do {
       let cache_slot = offset mod lock_stripes;
       lock \<leftarrow> index (read_cache cf) cache_slot;
       let (replaced, lock) = lru_insert lock offset buffer;
       rc \<leftarrow> index_set (read_cache cf) cache_slot lock;
       let bytes = (case replaced of Some r \<Rightarrow> fetch_sub (read_cache_bytes cf) (length r) | None \<Rightarrow> read_cache_bytes cf);
       flush_transfer keys (cf\<lparr>read_cache := rc, read_cache_bytes := bytes\<rparr>) }
     else ok (cf\<lparr>read_cache_bytes := fetch_sub (read_cache_bytes cf) (length buffer)\<rparr>) }"

definition flush_write_buffer :: "'f backend \<Rightarrow> nat list \<Rightarrow> 'f cached_file \<Rightarrow> ('f, unit) cf_result" where
  "flush_write_buffer B keys cf = io_then (flush_writes B keys cf) (\<lambda>_ cf. do {
     cf \<leftarrow> flush_transfer keys cf;
     ok (Inr (), cf\<lparr>write_buffer_bytes := 0, write_buffer := lru_clear (write_buffer cf)\<rparr>) })"

definition cf_flush :: "'f backend \<Rightarrow> nat list \<Rightarrow> 'f cached_file \<Rightarrow> ('f, unit) cf_result" where
  "cf_flush B keys cf = io_then (flush_write_buffer B keys cf) (\<lambda>_ cf. on_file (cb_sync_data B) cf)"

definition sync_file :: "'f backend \<Rightarrow> 'f cached_file \<Rightarrow> ('f, unit) cf_result" where
  "sync_file B cf = on_file (cb_sync_data B) cf"

definition write_barrier :: "'f backend \<Rightarrow> nat list \<Rightarrow> 'f cached_file \<Rightarrow> ('f, unit) cf_result" where
  "write_barrier B keys cf = flush_write_buffer B keys cf"

subsubsection \<open>Invalidation and resizing\<close>

definition remove_cached :: "nat \<Rightarrow> nat \<Rightarrow> 'f cached_file \<Rightarrow> 'f cached_file rust" where
  "remove_cached slot k cf = do {
     lock \<leftarrow> index (read_cache cf) slot;
     let (removed, lock) = lru_remove lock k;
     rc \<leftarrow> index_set (read_cache cf) slot lock;
     ok (cf\<lparr>read_cache := rc, read_cache_bytes :=
       (case removed of Some r \<Rightarrow> fetch_sub (read_cache_bytes cf) (length r) | None \<Rightarrow> read_cache_bytes cf)\<rparr>) }"

definition invalidate_read_cache_above :: "nat \<Rightarrow> 'f cached_file \<Rightarrow> 'f cached_file rust" where
  "invalidate_read_cache_above threshold cf =
     for_each [0..<length (read_cache cf)] (\<lambda>cache_slot cf. do {
       lock \<leftarrow> index (read_cache cf) cache_slot;
       let stale = filter (\<lambda>k. k \<ge> threshold) (map fst (lru_cache lock));
       for_each stale (remove_cached cache_slot) cf }) cf"

definition cf_resize :: "'f backend \<Rightarrow> nat \<Rightarrow> 'f cached_file \<Rightarrow> ('f, unit) cf_result" where
  "cf_resize B n cf = io_then (on_file (cb_len B) cf) (\<lambda>old_len cf. do {
     cf \<leftarrow> (if n < old_len then invalidate_read_cache_above n cf else ok cf);
     on_file (cb_set_len B n) cf })"

definition invalidate_cache :: "nat \<Rightarrow> nat \<Rightarrow> 'f cached_file \<Rightarrow> 'f cached_file rust" where
  "invalidate_cache offset n cf = do {
     let cache_slot = offset mod lock_stripes;
     lock \<leftarrow> index (read_cache cf) cache_slot;
     let (removed, lock) = lru_remove lock offset;
     rc \<leftarrow> index_set (read_cache cf) cache_slot lock;
     (case removed of
        Some r \<Rightarrow> do { assert_that (n = length r);
          ok (cf\<lparr>read_cache := rc, read_cache_bytes := fetch_sub (read_cache_bytes cf) (length r)\<rparr>) }
      | None \<Rightarrow> ok (cf\<lparr>read_cache := rc\<rparr>)) }"

function drain_stripe :: "byte list lru \<Rightarrow> nat \<Rightarrow> nat \<times> byte list lru" where
  "drain_stripe lock bytes = (case pop_lowest_priority lock of
      (None, lock) \<Rightarrow> (bytes, lock)
    | (Some (_, removed), lock) \<Rightarrow> drain_stripe lock (fetch_sub bytes (length removed)))"
  by pat_completeness auto
termination
  by (relation "measure (\<lambda>(lock, _). lru_len lock)") (auto dest!: pop_less [OF sym])

declare drain_stripe.simps [simp del]

definition invalidate_cache_all :: "'f cached_file \<Rightarrow> 'f cached_file rust" where
  "invalidate_cache_all cf = for_each [0..<length (read_cache cf)] (\<lambda>cache_slot cf. do {
     lock \<leftarrow> index (read_cache cf) cache_slot;
     let (bytes, lock) = drain_stripe lock (read_cache_bytes cf);
     rc \<leftarrow> index_set (read_cache cf) cache_slot lock;
     ok (cf\<lparr>read_cache := rc, read_cache_bytes := bytes\<rparr>) }) cf"

definition cancel_pending_write :: "nat \<Rightarrow> 'f cached_file \<Rightarrow> 'f cached_file rust" where
  "cancel_pending_write offset cf = do {
     m \<leftarrow> cmod offset (cf_page_size cf);
     assert_that (m = 0);
     (removed, wb) \<leftarrow> wc_remove (write_buffer cf) offset;
     ok (cf\<lparr>write_buffer := wb, write_buffer_bytes :=
       (case removed of Some r \<Rightarrow> fetch_sub (write_buffer_bytes cf) (length r) | None \<Rightarrow> write_buffer_bytes cf)\<rparr>) }"

subsubsection \<open>Reading\<close>

function pop_until :: "nat \<Rightarrow> byte list lru \<Rightarrow> nat \<Rightarrow> (nat \<times> byte list lru) rust" where
  "pop_until n lock removed = (if removed < n then
     (case pop_lowest_priority lock of
        (None, lock) \<Rightarrow> ok (removed, lock)
      | (Some (_, v), lock) \<Rightarrow> do { removed \<leftarrow> cadd 64 removed (length v); pop_until n lock removed })
     else ok (removed, lock))"
  by pat_completeness auto
termination
  by (relation "measure (\<lambda>(_, lock, _). lru_len lock)") (auto dest!: pop_less [OF sym])

declare pop_until.simps [simp del]

definition read_miss :: "nat \<Rightarrow> nat \<Rightarrow> byte list \<Rightarrow> 'f cached_file \<Rightarrow> ('f, byte list) cf_result" where
  "read_miss offset n buffer cf = do {
     let cache_slot = offset mod lock_stripes;
     let cache_size = read_cache_bytes cf;
     let bytes = fetch_add cache_size n;
     write_lock \<leftarrow> index (read_cache cf) cache_slot;
     let (replaced, write_lock) = lru_insert write_lock offset buffer;
     let (cache_size, bytes) = (case replaced of
        Some r \<Rightarrow> (bytes, fetch_sub bytes (length r)) | None \<Rightarrow> (cache_size, bytes));
     total \<leftarrow> cadd 64 cache_size n;
     total \<leftarrow> cadd 64 total (write_buffer_bytes cf);
     (removed, write_lock) \<leftarrow> (if total > max_cache_size cf then pop_until n write_lock 0 else ok (0, write_lock));
     let bytes = (if removed > 0 then fetch_sub bytes removed else bytes);
     rc \<leftarrow> index_set (read_cache cf) cache_slot write_lock;
     ok (Inr buffer, cf\<lparr>read_cache := rc, read_cache_bytes := bytes\<rparr>) }"

definition cf_read :: "'f backend \<Rightarrow> nat \<Rightarrow> nat \<Rightarrow> page_hint \<Rightarrow> 'f cached_file \<Rightarrow> ('f, byte list) cf_result" where
  "cf_read B offset n hint cf = do {
     m \<leftarrow> cmod offset (cf_page_size cf);
     assert_that (m = 0);
     (cached, wb) \<leftarrow> (if hint \<noteq> Hint_Clean then wc_get (write_buffer cf) offset else ok (None, write_buffer cf));
     let cf = cf\<lparr>write_buffer := wb\<rparr>;
     (case cached of
        Some v \<Rightarrow> do { assert_that (length v = n); ok (Inr v, cf) }
      | None \<Rightarrow> do {
          let cache_slot = offset mod lock_stripes;
          read_lock \<leftarrow> index (read_cache cf) cache_slot;
          let (hit, read_lock) = lru_get read_lock offset;
          rc \<leftarrow> index_set (read_cache cf) cache_slot read_lock;
          let cf = cf\<lparr>read_cache := rc\<rparr>;
          (case hit of
             Some v \<Rightarrow> do { assert_that (length v = n); ok (Inr v, cf) }
           | None \<Rightarrow> io_then (read_direct B offset n cf) (\<lambda>buffer. read_miss offset n buffer)) }) }"

subsubsection \<open>Writing\<close>

lemma length_update_le: "length (AList.update k v xs) \<le> Suc (length xs)"
  by (induction xs) auto

lemma insert_popped_len:
  assumes "pop_lowest_priority c = (Some p, c')"
  shows "lru_len (snd (lru_insert c' k w)) \<le> lru_len c"
proof -
  have "lru_len (snd (lru_insert c' k w)) \<le> Suc (lru_len c')"
    by (auto simp: lru_len_def lru_insert_def length_update_le split: option.splits)
  then show ?thesis using pop_less [OF assms] by simp
qed

lemma wc_pop_less: "wc_pop_loop n c = (Some p, c') \<Longrightarrow> lru_len c' < lru_len c"
proof (induction n c rule: wc_pop_loop.induct)
  case (2 n c)
  consider (n) c1 where "pop_lowest_priority c = (None, c1)" | (s) k v c1 where "pop_lowest_priority c = (Some (k, Some v), c1)"
    | (b) k c1 where "pop_lowest_priority c = (Some (k, None), c1)"
    by (metis option.exhaust prod.exhaust)
  then show ?case
  proof cases
    case b
    then show ?thesis using 2 insert_popped_len [OF b, of k None] by fastforce
  qed (use 2(2) pop_less in auto)
qed simp

text \<open>The loop that flushes the excess of the write buffer to the file: it returns the number of bytes flushed.\<close>

function flush_excess :: "'f backend \<Rightarrow> nat \<Rightarrow> nat \<Rightarrow> 'f cached_file \<Rightarrow> ('f, nat) cf_result" where
  "flush_excess B excess flushed cf = (if flushed < excess then
     (case wc_pop_lowest_priority (write_buffer cf) of
        (Some (offset, buffer), wb) \<Rightarrow> (case cb_write B offset buffer (cf_file cf) of
            (Inl e, f) \<Rightarrow> do { wb \<leftarrow> wc_insert wb offset buffer; ok (Inl e, cf\<lparr>cf_file := f, write_buffer := wb\<rparr>) }
          | (Inr _, f) \<Rightarrow> do {
              flushed \<leftarrow> cadd 64 flushed (length buffer);
              flush_excess B excess flushed (cf\<lparr>cf_file := f, write_buffer := wb,
                write_buffer_bytes := fetch_sub (write_buffer_bytes cf) (length buffer)\<rparr>) })
      | (None, wb) \<Rightarrow> ok (Inr flushed, cf\<lparr>write_buffer := wb\<rparr>))
     else ok (Inr flushed, cf))"
  by pat_completeness auto
termination
  by (relation "measure (\<lambda>(_, _, _, cf). lru_len (write_buffer cf))")
    (auto simp: wc_pop_lowest_priority_def dest!: wc_pop_less [OF sym])

declare flush_excess.simps [simp del]

definition zero_filled_arc :: "nat \<Rightarrow> byte list" where
  "zero_filled_arc n = replicate n 0"

record writable_page =
  wp_offset :: nat
  wp_data :: "byte list"

text \<open>The end of \<open>write\<close> for a page that is not in the write buffer, after the excess was flushed: make room in the
  read cache, get the data of the page, and lend it out.\<close>

definition write_insert :: "'f backend \<Rightarrow> nat \<Rightarrow> nat \<Rightarrow> bool \<Rightarrow> byte list option \<Rightarrow> nat \<Rightarrow> 'f cached_file \<Rightarrow> ('f, writable_page) cf_result" where
  "write_insert B offset n overwrite existing write_bytes cf = do {
     let read_bytes = read_cache_bytes cf;
     total \<leftarrow> cadd 64 write_bytes read_bytes;
     cf \<leftarrow> (if total > max_cache_size cf then evict_from_read_cache (total - max_cache_size cf) cf else ok cf);
     io_then (case existing of
          Some dat \<Rightarrow> ok (Inr dat, cf)
        | None \<Rightarrow> if overwrite then ok (Inr (zero_filled_arc n), cf) else read_direct B offset n cf)
       (\<lambda>result cf. do {
          wb \<leftarrow> wc_insert (write_buffer cf) offset result;
          (taken, wb) \<leftarrow> wc_take_value wb offset;
          dat \<leftarrow> taken;
          ok (Inr \<lparr>wp_offset = offset, wp_data = dat\<rparr>, cf\<lparr>write_buffer := wb\<rparr>) }) }"

definition cf_write :: "'f backend \<Rightarrow> nat \<Rightarrow> nat \<Rightarrow> bool \<Rightarrow> 'f cached_file \<Rightarrow> ('f, writable_page) cf_result" where
  "cf_write B offset n overwrite cf = do {
     m \<leftarrow> cmod offset (cf_page_size cf);
     assert_that (m = 0);
     let cache_slot = offset mod lock_stripes;
     lock \<leftarrow> index (read_cache cf) cache_slot;
     let (existing, lock) = lru_remove lock offset;
     rc \<leftarrow> index_set (read_cache cf) cache_slot lock;
     assert_that (case existing of Some r \<Rightarrow> length r = n | None \<Rightarrow> True);
     let cf = cf\<lparr>read_cache := rc, read_cache_bytes :=
       (case existing of Some r \<Rightarrow> fetch_sub (read_cache_bytes cf) (length r) | None \<Rightarrow> read_cache_bytes cf)\<rparr>;
     (taken, wb) \<leftarrow> wc_take_value (write_buffer cf) offset;
     let cf = cf\<lparr>write_buffer := wb\<rparr>;
     (case taken of
        Some removed \<Rightarrow> ok (Inr \<lparr>wp_offset = offset, wp_data = removed\<rparr>, cf)
      | None \<Rightarrow> do {
          let previous = write_buffer_bytes cf;
          let cf = cf\<lparr>write_buffer_bytes := fetch_add previous n\<rparr>;
          write_bytes \<leftarrow> cadd 64 previous n;
          let half = max_cache_size cf div 2;
          io_then (if write_bytes > half then flush_excess B (write_bytes - half) 0 cf else ok (Inr 0, cf))
            (\<lambda>flushed cf. do {
               write_bytes \<leftarrow> csub write_bytes flushed;
               write_insert B offset n overwrite existing write_bytes cf }) }) }"

text \<open>Dropping a \<open>WritablePage\<close> gives its data back to the write buffer.\<close>

definition wp_drop :: "writable_page \<Rightarrow> 'f cached_file \<Rightarrow> 'f cached_file rust" where
  "wp_drop page cf = do {
     wb \<leftarrow> wc_return_value (write_buffer cf) (wp_offset page) (wp_data page);
     ok (cf\<lparr>write_buffer := wb\<rparr>) }"

end
