(* ===== verification/Cached_File_Ops.thy ===== *)
theory Cached_File_Ops
  imports Cached_File
begin

text \<open>
  Correctness of the cached file.  The abstract state is the content of the file, the map \<open>R\<close> of the pages in the
  read cache and the map \<open>W\<close> of the pages in the write buffer, where \<open>W k = Some None\<close> for a page that is lent out.  A page
  that is not lent out has one value, its \<open>view\<close>: the one in the write buffer, or else the one in the file.  The
  theorems say that reading gives that value whatever is cached, that writing changes it for the written page
  only, that flushing and evicting do not change it, and that nothing panics or overflows.
\<close>

subsection \<open>A striped cache\<close>

text \<open>What the cached file needs of a cache of pages.\<close>

definition striped :: "('c \<Rightarrow> bool) \<Rightarrow> ('c \<Rightarrow> nat \<Rightarrow> 'a option) \<Rightarrow> 'c list \<Rightarrow> (nat \<Rightarrow> 'a option) \<Rightarrow> bool" where
  "striped cinv cmap cs R \<longleftrightarrow> length cs = lock_stripes
     \<and> (\<forall>s<lock_stripes. cinv (cs ! s) \<and> cmap (cs ! s) = (\<lambda>k. if k mod lock_stripes = s then R k else None))"

locale page_cache =
  fixes cinv :: "'c \<Rightarrow> bool" and cmap :: "'c \<Rightarrow> nat \<Rightarrow> 'a option"
    and get :: "'c \<Rightarrow> nat \<Rightarrow> 'a option \<times> 'c" and ins :: "'c \<Rightarrow> nat \<Rightarrow> 'a \<Rightarrow> 'a option \<times> 'c"
    and rem :: "'c \<Rightarrow> nat \<Rightarrow> 'a option \<times> 'c" and pop :: "'c \<Rightarrow> (nat \<times> 'a) option \<times> 'c"
  assumes fin: "finite (dom (cmap c))"
    and get_law: "cinv c \<Longrightarrow> get c k = (x, c') \<Longrightarrow> x = cmap c k \<and> cmap c' = cmap c \<and> cinv c'"
    and ins_law: "cinv c \<Longrightarrow> ins c k v = (x, c') \<Longrightarrow> x = cmap c k \<and> cmap c' = (cmap c)(k \<mapsto> v) \<and> cinv c'"
    and rem_law: "cinv c \<Longrightarrow> rem c k = (x, c') \<Longrightarrow> x = cmap c k \<and> cmap c' = (cmap c)(k := None) \<and> cinv c'"
    and pop_law: "cinv c \<Longrightarrow> pop c = (r, c') \<Longrightarrow> cinv c' \<and> (case r of
        None \<Rightarrow> cmap c = Map.empty \<and> cmap c' = Map.empty
      | Some (k, v) \<Rightarrow> cmap c k = Some v \<and> cmap c' = (cmap c)(k := None))"
begin

lemma striped_finite:
  assumes "striped cinv cmap cs R"
  shows "finite (dom R)"
proof -
  have "dom R \<subseteq> (\<Union>s<lock_stripes. dom (cmap (cs ! s)))"
  proof
    fix k assume "k \<in> dom R"
    then have "k \<in> dom (cmap (cs ! (k mod lock_stripes)))" using assms by (auto simp: striped_def lock_stripes_def)
    then show "k \<in> (\<Union>s<lock_stripes. dom (cmap (cs ! s)))" by (auto simp: lock_stripes_def)
  qed
  moreover have "finite (\<Union>s<lock_stripes. dom (cmap (cs ! s)))" using fin by blast
  ultimately show ?thesis by (rule finite_subset)
qed

lemma striped_len: "striped cinv cmap cs R \<Longrightarrow> k mod lock_stripes < length cs"
  by (simp add: striped_def lock_stripes_def)

lemma striped_set:
  assumes "striped cinv cmap cs R" "s < lock_stripes" "cinv c" "cmap c = (\<lambda>k. if k mod lock_stripes = s then R' k else None)"
    "\<And>k. k mod lock_stripes \<noteq> s \<Longrightarrow> R' k = R k"
  shows "striped cinv cmap (cs[s := c]) R'"
  using assms by (auto simp: striped_def nth_list_update fun_eq_iff)

lemma striped_get:
  assumes "striped cinv cmap cs R" "get (cs ! (k mod lock_stripes)) k = (x, c)"
  shows "x = R k" "striped cinv cmap (cs[k mod lock_stripes := c]) R"
proof -
  have s: "k mod lock_stripes < lock_stripes" by (simp add: lock_stripes_def)
  note c = assms(1) [unfolded striped_def, THEN conjunct2, rule_format, OF s]
  note g = get_law [OF c [THEN conjunct1] assms(2)]
  show "x = R k" "striped cinv cmap (cs[k mod lock_stripes := c]) R"
    using c g by (auto intro!: striped_set [OF assms(1) s])
qed

lemma striped_ins:
  assumes "striped cinv cmap cs R" "ins (cs ! (k mod lock_stripes)) k v = (x, c)"
  shows "x = R k" "striped cinv cmap (cs[k mod lock_stripes := c]) (R(k \<mapsto> v))"
proof -
  have s: "k mod lock_stripes < lock_stripes" by (simp add: lock_stripes_def)
  note c = assms(1) [unfolded striped_def, THEN conjunct2, rule_format, OF s]
  note g = ins_law [OF c [THEN conjunct1] assms(2)]
  show "x = R k" "striped cinv cmap (cs[k mod lock_stripes := c]) (R(k \<mapsto> v))"
    using c g by (auto intro!: striped_set [OF assms(1) s] ext)
qed

lemma striped_rem:
  assumes "striped cinv cmap cs R" "s < lock_stripes" "rem (cs ! s) k = (x, c)" "k mod lock_stripes = s"
  shows "x = R k" "striped cinv cmap (cs[s := c]) (R(k := None))"
proof -
  note c = assms(1) [unfolded striped_def, THEN conjunct2, rule_format, OF assms(2)]
  note g = rem_law [OF c [THEN conjunct1] assms(3)]
  show "x = R k" using c g assms(4) by simp
  show "striped cinv cmap (cs[s := c]) (R(k := None))"
    by (rule striped_set [OF assms(1,2)]) (use c g assms(4) in auto)
qed

lemma striped_pop:
  assumes "striped cinv cmap cs R" "s < lock_stripes" "pop (cs ! s) = (x, c)"
  shows "case x of None \<Rightarrow> (\<forall>k. k mod lock_stripes = s \<longrightarrow> R k = None) \<and> striped cinv cmap (cs[s := c]) R
    | Some (k, v) \<Rightarrow> k mod lock_stripes = s \<and> R k = Some v \<and> striped cinv cmap (cs[s := c]) (R(k := None))"
proof -
  note c = assms(1) [unfolded striped_def, THEN conjunct2, rule_format, OF assms(2)]
  note g = pop_law [OF c [THEN conjunct1] assms(3)]
  show ?thesis
  proof (cases x)
    case None
    then have "R k = None" if "k mod lock_stripes = s" for k using c g that by (auto simp: fun_eq_iff) (metis option.distinct(1))
    then show ?thesis using None c g by (auto intro!: striped_set [OF assms(1,2)] ext)
  next
    case (Some p)
    then obtain k v where p: "x = Some (k, v)" by (cases p) auto
    then have k: "k mod lock_stripes = s" "R k = Some v" using c g by (auto split: if_splits)
    have "striped cinv cmap (cs[s := c]) (R(k := None))"
      by (rule striped_set [OF assms(1,2)]) (use c g p k in auto)
    then show ?thesis using p k by simp
  qed
qed

end

interpretation lru: page_cache lru_inv lru_map lru_get lru_insert lru_remove pop_lowest_priority
proof
  fix c :: "'a lru" and c' x k v
  show "finite (dom (lru_map c))" by simp
  assume i: "lru_inv c"
  show "lru_get c k = (x, c') \<Longrightarrow> x = lru_map c k \<and> lru_map c' = lru_map c \<and> lru_inv c'"
    using lru_get_ok [OF i, of k] by simp
  show "lru_insert c k v = (x, c') \<Longrightarrow> x = lru_map c k \<and> lru_map c' = (lru_map c)(k \<mapsto> v) \<and> lru_inv c'"
    using lru_insert_ok [OF i, of k v] by simp
  show "lru_remove c k = (x, c') \<Longrightarrow> x = lru_map c k \<and> lru_map c' = (lru_map c)(k := None) \<and> lru_inv c'"
    using lru_remove_ok [OF i, of k] by simp
next
  fix c :: "'a lru" and c' x
  assume i: "lru_inv c" and p: "pop_lowest_priority c = (x, c')"
  show "lru_inv c' \<and> (case x of None \<Rightarrow> lru_map c = Map.empty \<and> lru_map c' = Map.empty
      | Some (k, v) \<Rightarrow> lru_map c k = Some v \<and> lru_map c' = (lru_map c)(k := None))"
    using pop_ok [OF i] p by (auto split: option.splits)
qed

subsection \<open>Pages of the file\<close>

definition page :: "byte list \<Rightarrow> nat \<Rightarrow> nat \<Rightarrow> byte list" where
  "page C k n = take n (drop k C)"

text \<open>\<open>sz k\<close> is the length of the page at offset \<open>k\<close>: the pages at the offsets \<open>K\<close> lie in the file and do not overlap.\<close>

definition pages_fit :: "(nat \<Rightarrow> nat) \<Rightarrow> nat \<Rightarrow> nat set \<Rightarrow> bool" where
  "pages_fit sz L K \<longleftrightarrow> (\<forall>k\<in>K. k + sz k \<le> L) \<and> (\<forall>j\<in>K. \<forall>k\<in>K. j \<noteq> k \<longrightarrow> j + sz j \<le> k \<or> k + sz k \<le> j)"

lemma pages_fit_mono: "pages_fit sz L K \<Longrightarrow> J \<subseteq> K \<Longrightarrow> pages_fit sz L J"
  by (auto simp: pages_fit_def)

lemma pages_fit_sum:
  assumes "pages_fit sz L K" "finite K"
  shows "(\<Sum>k\<in>K. sz k) \<le> L"
proof -
  have d: "{j..<j + sz j} \<inter> {k..<k + sz k} = {}" if "j \<in> K" "k \<in> K" "j \<noteq> k" for j k
    using assms(1) that unfolding pages_fit_def by fastforce
  have "(\<Sum>k\<in>K. sz k) = (\<Sum>k\<in>K. card {k..<k + sz k})" by simp
  also have "\<dots> = card (\<Union>k\<in>K. {k..<k + sz k})" using assms(2) d by (subst card_UN_disjoint) auto
  also have "\<dots> \<le> card {..<L}"
  proof (rule card_mono)
    show "(\<Union>k\<in>K. {k..<k + sz k}) \<subseteq> {..<L}" using assms(1) unfolding pages_fit_def by fastforce
  qed simp
  finally show ?thesis by simp
qed

definition splice :: "byte list \<Rightarrow> nat \<Rightarrow> byte list \<Rightarrow> byte list" where
  "splice C k v = take k C @ v @ drop (k + length v) C"

lemma splice_page:
  assumes "k + length v \<le> length C"
  shows "length (splice C k v) = length C" "page (splice C k v) k (length v) = v"
    "j + n \<le> k \<or> k + length v \<le> j \<Longrightarrow> page (splice C k v) j n = page C j n"
proof -
  show l: "length (splice C k v) = length C" using assms by (simp add: splice_def)
  show "page (splice C k v) k (length v) = v" using assms by (simp add: splice_def page_def)
  have nth: "splice C k v ! i = C ! i" if "i < k \<or> k + length v \<le> i" "i < length C" for i
    using that assms by (auto simp: splice_def nth_append min_def)
  assume d: "j + n \<le> k \<or> k + length v \<le> j"
  show "page (splice C k v) j n = page C j n"
    by (rule nth_equalityI) (use d l nth in \<open>auto simp: page_def\<close>)
qed

lemma length_page: "k + n \<le> length C \<Longrightarrow> length (page C k n) = n"
  by (simp add: page_def)

lemma fetch_ok: "a + b < 2 ^ 64 \<Longrightarrow> fetch_add a b = a + b" "b \<le> a \<Longrightarrow> a < 2 ^ 64 \<Longrightarrow> fetch_sub a b = a - b"
proof -
  show "a + b < 2 ^ 64 \<Longrightarrow> fetch_add a b = a + b" by (simp add: fetch_add_def)
  assume "b \<le> a" "a < 2 ^ 64"
  then have "a + (2 ^ 64 - b mod 2 ^ 64) = (a - b) + 2 ^ 64" by simp
  then show "fetch_sub a b = a - b" using \<open>a < 2 ^ 64\<close> unfolding fetch_sub_def by (simp only: mod_add_self2) simp
qed

subsection \<open>The contract of a backend\<close>

text \<open>What the documentation of \<open>StorageBackend\<close> promises of an operation that returns \<open>Ok\<close>; nothing is assumed of
  the state after an error.\<close>

definition file_bytes :: "('f \<Rightarrow> byte list) \<Rightarrow> 'f cached_file \<Rightarrow> byte list" where
  "file_bytes content cf = content (cb_file (cf_file cf))"

locale storage_backend =
  fixes B :: "'f backend" and content :: "'f \<Rightarrow> byte list"
  assumes len_law: "be_len B f = (Inr n, f') \<Longrightarrow> n = length (content f) \<and> content f' = content f"
    and read_law: "be_read B f k n = (Inr v, f') \<Longrightarrow> k + n \<le> length (content f) \<and> v = page (content f) k n \<and> content f' = content f"
    and set_len_law: "be_set_len B f n = (Inr u, f') \<Longrightarrow> content f' = vec_resize (content f) n"
    and sync_law: "be_sync_data B f = (Inr u, f') \<Longrightarrow> content f' = content f"
    and write_law: "be_write B f k v = (Inr u, f') \<Longrightarrow> k + length v \<le> length (content f) \<Longrightarrow> content f' = splice (content f) k v"
begin

abbreviation bytes_of :: "'f cached_file \<Rightarrow> byte list" where
  "bytes_of \<equiv> file_bytes content"

end

interpretation in_memory: storage_backend in_memory_backend "\<lambda>g. g"
  by unfold_locales (auto simp: in_memory_backend_def page_def splice_def split: if_splits)

text \<open>Running an operation of a checked backend either succeeds on the backend or latches.\<close>

lemma cb_run_cases:
  obtains (success) x f' where "op (cb_file cb) = (Inr x, f')" "\<not> cb_io_failed cb" "cb_run op cb = (Inr x, cb\<lparr>cb_file := f'\<rparr>)"
  | (failed) e cb' where "cb_run op cb = (Inl e, cb')" "cb_io_failed cb'"
proof (cases "cb_io_failed cb")
  case True
  then have "cb_run op cb = (Inl (if cb_closed cb then Database_Closed else Previous_Io), cb)" by (simp add: cb_run_def check_failure_def)
  then show ?thesis using failed True by blast
next
  case False
  obtain r f' where r: "op (cb_file cb) = (r, f')" by fastforce
  show ?thesis
  proof (cases r)
    case (Inl e)
    then show ?thesis using failed r False by (simp add: cb_run_def check_failure_def)
  next
    case (Inr x)
    then show ?thesis using success [of x f'] r False by (simp add: cb_run_def check_failure_def)
  qed
qed

subsection \<open>The invariant\<close>

definition cf_core :: "(nat \<Rightarrow> nat) \<Rightarrow> byte list \<Rightarrow> (nat \<Rightarrow> byte list option) \<Rightarrow> (nat \<Rightarrow> byte list option option) \<Rightarrow> 'f cached_file \<Rightarrow> bool" where
  "cf_core sz C R W cf \<longleftrightarrow> striped lru_inv lru_map (read_cache cf) R \<and> lru_inv (write_buffer cf) \<and> lru_map (write_buffer cf) = W
     \<and> dom R \<inter> dom W = {} \<and> pages_fit sz (length C) (dom R \<union> dom W)
     \<and> (\<forall>k v. R k = Some v \<longrightarrow> v = page C k (sz k)) \<and> (\<forall>k v. W k = Some (Some v) \<longrightarrow> length v = sz k)
     \<and> read_cache_bytes cf = (\<Sum>k\<in>dom R. sz k) \<and> length C < 2 ^ 62 \<and> 0 < cf_page_size cf"

definition cf_inv :: "(nat \<Rightarrow> nat) \<Rightarrow> byte list \<Rightarrow> (nat \<Rightarrow> byte list option) \<Rightarrow> (nat \<Rightarrow> byte list option option) \<Rightarrow> 'f cached_file \<Rightarrow> bool" where
  "cf_inv sz C R W cf \<longleftrightarrow> cf_core sz C R W cf \<and> write_buffer_bytes cf = (\<Sum>k\<in>dom W. sz k)"

definition view :: "(nat \<Rightarrow> nat) \<Rightarrow> byte list \<Rightarrow> (nat \<Rightarrow> byte list option option) \<Rightarrow> nat \<Rightarrow> byte list" where
  "view sz C W k = (case W k of Some (Some v) \<Rightarrow> v | _ \<Rightarrow> page C k (sz k))"

lemma cf_coreD:
  assumes "cf_core sz C R W cf"
  shows "striped lru_inv lru_map (read_cache cf) R" "lru_inv (write_buffer cf)" "lru_map (write_buffer cf) = W"
    "dom R \<inter> dom W = {}" "pages_fit sz (length C) (dom R \<union> dom W)" "\<And>k v. R k = Some v \<Longrightarrow> v = page C k (sz k)"
    "\<And>k v. W k = Some (Some v) \<Longrightarrow> length v = sz k" "read_cache_bytes cf = (\<Sum>k\<in>dom R. sz k)"
    "(\<Sum>k\<in>dom W. sz k) \<le> length C" "length C < 2 ^ 62" "0 < cf_page_size cf"
    "finite (dom R)" "finite (dom W)" "read_cache_bytes cf \<le> length C"
    "\<And>k v. R k = Some v \<Longrightarrow> length v = sz k" "k mod lock_stripes < length (read_cache cf)"
proof -
  show i: "striped lru_inv lru_map (read_cache cf) R" "lru_inv (write_buffer cf)" "lru_map (write_buffer cf) = W"
    "dom R \<inter> dom W = {}" "pages_fit sz (length C) (dom R \<union> dom W)" "\<And>k v. R k = Some v \<Longrightarrow> v = page C k (sz k)"
    "\<And>k v. W k = Some (Some v) \<Longrightarrow> length v = sz k" "read_cache_bytes cf = (\<Sum>k\<in>dom R. sz k)"
    "length C < 2 ^ 62" "0 < cf_page_size cf"
    using assms by (auto simp: cf_core_def)
  show f: "finite (dom R)" "finite (dom W)" using lru.striped_finite [OF i(1)] i(3) by auto
  show "read_cache_bytes cf \<le> length C" "(\<Sum>k\<in>dom W. sz k) \<le> length C"
    using pages_fit_sum [OF pages_fit_mono [OF i(5)], of "dom R"] pages_fit_sum [OF pages_fit_mono [OF i(5)], of "dom W"] f i(8) by auto
  show "length v = sz k" if "R k = Some v" for k v
    using i(6) [OF that] i(5) that by (auto simp: pages_fit_def intro!: length_page)
  show "k mod lock_stripes < length (read_cache cf)" using lru.striped_len [OF i(1)] .
qed

lemma cf_inv_core: "cf_inv sz C R W cf \<Longrightarrow> cf_core sz C R W cf" "cf_inv sz C R W cf \<Longrightarrow> write_buffer_bytes cf = (\<Sum>k\<in>dom W. sz k)"
  by (simp_all add: cf_inv_def)

subsection \<open>Evicting\<close>

lemma restrict_compl_upd: "(M(k := None)) |` (- D) = M |` (- insert k D)"
  by (auto simp: restrict_map_def fun_eq_iff)

lemma sum_dom_minus:
  assumes "finite (dom M)" "D \<subseteq> dom M"
  shows "(\<Sum>k\<in>dom (M |` (- D)). sz k) + (\<Sum>k\<in>D. sz k) = (\<Sum>k\<in>dom M. (sz k :: nat))"
proof -
  have "dom (M |` (- D)) = dom M - D" by (auto simp: restrict_map_def dom_def)
  then show ?thesis using assms by (metis sum.subset_diff)
qed

text \<open>Both eviction loops remove entries until enough bytes are freed or the cache is empty.\<close>

lemma pop_step:
  assumes "lru_inv l" "pop_lowest_priority l = (Some (k, v), l')" "\<forall>k v. lru_map l k = Some v \<longrightarrow> length v = sz k"
  shows "lru_inv l'" "lru_map l' = (lru_map l)(k := None)" "k \<in> dom (lru_map l)" "length v = sz k"
    "\<forall>k v. lru_map l' k = Some v \<longrightarrow> length v = sz k"
    "(\<Sum>k\<in>dom (lru_map l'). sz k) + sz k = (\<Sum>k\<in>dom (lru_map l). sz k)"
proof -
  note p = lru.pop_law [OF assms(1,2)]
  show q: "lru_inv l'" "lru_map l' = (lru_map l)(k := None)" "k \<in> dom (lru_map l)" "length v = sz k"
    "\<forall>k v. lru_map l' k = Some v \<longrightarrow> length v = sz k"
    using p assms(3) by (auto split: if_splits)
  show "(\<Sum>k\<in>dom (lru_map l'). sz k) + sz k = (\<Sum>k\<in>dom (lru_map l). sz k)"
    using q(2,3) sum.remove [OF lru_finite q(3), of sz] by simp
qed

lemma pop_until_ok:
  assumes "lru_inv l" "\<forall>k v. lru_map l k = Some v \<longrightarrow> length v = sz k" "r + (\<Sum>k\<in>dom (lru_map l). sz k) < 2 ^ 64"
  shows "\<exists>D l'. D \<subseteq> dom (lru_map l) \<and> pop_until n l r = ok (r + (\<Sum>k\<in>D. sz k), l') \<and> lru_inv l' \<and> lru_map l' = lru_map l |` (- D)
    \<and> (n \<le> r + (\<Sum>k\<in>D. sz k) \<or> D = dom (lru_map l))"
  using assms
proof (induction n l r rule: pop_until.induct)
  case (1 n l r)
  show ?case
  proof (cases "r < n")
    case False
    then show ?thesis using 1(2) by (intro exI [of _ "{}"] exI [of _ l]) (simp add: pop_until.simps [of n l r])
  next
    case True
    obtain x l1 where x: "pop_lowest_priority l = (x, l1)" by fastforce
    show ?thesis
    proof (cases x)
      case None
      then have "lru_map l = Map.empty" "lru_map l1 = Map.empty" "lru_inv l1" using lru.pop_law [OF 1(2) x] by auto
      then show ?thesis using True x None by (intro exI [of _ "{}"] exI [of _ l1]) (simp add: pop_until.simps [of n l r])
    next
      case (Some p)
      then obtain k v where p: "pop_lowest_priority l = (Some (k, v), l1)" using x by (cases p) auto
      note s = pop_step [where sz = sz, OF 1(2) p 1(3)]
      have c: "cadd 64 r (length v) = ok (r + sz k)" using 1(4) s(4,6) by (simp add: cadd_def)
      obtain D l' where D: "D \<subseteq> dom (lru_map l1)" "pop_until n l1 (r + sz k) = ok (r + sz k + (\<Sum>k\<in>D. sz k), l')" "lru_inv l'"
        "lru_map l' = lru_map l1 |` (- D)" "n \<le> r + sz k + (\<Sum>k\<in>D. sz k) \<or> D = dom (lru_map l1)"
        using 1(1) [OF True p [symmetric] refl refl c s(1,5)] 1(4) s(6) by auto
      have e: "lru_map l' = lru_map l |` (- insert k D)" using D(4) s(2) by (auto simp: restrict_map_def fun_eq_iff)
      have k: "k \<notin> D" "finite D" "insert k D \<subseteq> dom (lru_map l)" using D(1) s(2,3) finite_subset [OF D(1) lru_finite] by auto
      have "pop_until n l r = ok (r + (\<Sum>k\<in>insert k D. sz k), l')"
        using True p c D(2) k by (simp add: pop_until.simps [of n l r] add.assoc)
      moreover have "n \<le> r + (\<Sum>k\<in>insert k D. sz k) \<or> insert k D = dom (lru_map l)" using D(5) k s(2,3) by (auto simp: add.assoc)
      ultimately show ?thesis using D(3) e k(3) by blast
    qed
  qed
qed

lemma evict_stripe_ok:
  assumes "lru_inv l" "\<forall>k v. lru_map l k = Some v \<longrightarrow> length v = sz k" "r + (\<Sum>k\<in>dom (lru_map l). sz k) < 2 ^ 64"
    "(\<Sum>k\<in>dom (lru_map l). sz k) \<le> b" "b < 2 ^ 64"
  shows "\<exists>D l'. D \<subseteq> dom (lru_map l) \<and> evict_stripe n l r b = ok (r + (\<Sum>k\<in>D. sz k), b - (\<Sum>k\<in>D. sz k), l') \<and> lru_inv l'
    \<and> lru_map l' = lru_map l |` (- D) \<and> (n \<le> r + (\<Sum>k\<in>D. sz k) \<or> D = dom (lru_map l))"
  using assms
proof (induction n l r b rule: evict_stripe.induct)
  case (1 n l r b)
  show ?case
  proof (cases "r < n")
    case False
    then show ?thesis using 1(2) by (intro exI [of _ "{}"] exI [of _ l]) (simp add: evict_stripe.simps [of n l r])
  next
    case True
    obtain x l1 where x: "pop_lowest_priority l = (x, l1)" by fastforce
    show ?thesis
    proof (cases x)
      case None
      then have "lru_map l = Map.empty" "lru_map l1 = Map.empty" "lru_inv l1" using lru.pop_law [OF 1(2) x] by auto
      then show ?thesis using True x None by (intro exI [of _ "{}"] exI [of _ l1]) (simp add: evict_stripe.simps [of n l r])
    next
      case (Some p)
      then obtain k v where p: "pop_lowest_priority l = (Some (k, v), l1)" using x by (cases p) auto
      note s = pop_step [where sz = sz, OF 1(2) p 1(3)]
      have c: "cadd 64 r (length v) = ok (r + sz k)" using 1(4) s(4,6) by (simp add: cadd_def)
      have b: "(\<Sum>k\<in>dom (lru_map l1). sz k) \<le> b - sz k" "b - sz k < 2 ^ 64" using 1(5,6) s(6) by linarith+
      have f: "fetch_sub b (length v) = b - sz k" using 1(5,6) s(4,6) by (simp add: fetch_ok)
      obtain D l' where D: "D \<subseteq> dom (lru_map l1)" "evict_stripe n l1 (r + sz k) (b - sz k) = ok (r + sz k + (\<Sum>k\<in>D. sz k), b - sz k - (\<Sum>k\<in>D. sz k), l')" "lru_inv l'"
        "lru_map l' = lru_map l1 |` (- D)" "n \<le> r + sz k + (\<Sum>k\<in>D. sz k) \<or> D = dom (lru_map l1)"
        using 1(1) [OF True p [symmetric] refl refl c s(1,5), unfolded f, OF _ b] 1(4) s(6) by auto
      have e: "lru_map l' = lru_map l |` (- insert k D)" using D(4) s(2) by (auto simp: restrict_map_def fun_eq_iff)
      have k: "k \<notin> D" "finite D" "insert k D \<subseteq> dom (lru_map l)" using D(1) s(2,3) finite_subset [OF D(1) lru_finite] by auto
      have "evict_stripe n l r b = ok (r + (\<Sum>k\<in>insert k D. sz k), b - (\<Sum>k\<in>insert k D. sz k), l')"
        using True p c f D(2) k by (simp add: evict_stripe.simps [of n l r] add.assoc)
      moreover have "n \<le> r + (\<Sum>k\<in>insert k D. sz k) \<or> insert k D = dom (lru_map l)" using D(5) k s(2,3) by (auto simp: add.assoc)
      ultimately show ?thesis using D(3) e k(3) by blast
    qed
  qed
qed

subsection \<open>Updates that keep the invariant\<close>

lemma striped_stripe:
  assumes "striped lru_inv lru_map cs R" "s < lock_stripes"
  shows "lru_inv (cs ! s)" "lru_map (cs ! s) = (\<lambda>k. if k mod lock_stripes = s then R k else None)" "dom (lru_map (cs ! s)) \<subseteq> dom R"
  using assms by (auto simp: striped_def split: if_splits)

lemma stripe_drop:
  assumes "striped lru_inv lru_map cs R" "s < lock_stripes" "lru_inv l" "lru_map l = lru_map (cs ! s) |` (- D)" "D \<subseteq> dom (lru_map (cs ! s))"
  shows "striped lru_inv lru_map (cs[s := l]) (R |` (- D))"
proof (rule lru.striped_set [OF assms(1-3)])
  note t = striped_stripe [OF assms(1,2)]
  show "lru_map l = (\<lambda>k. if k mod lock_stripes = s then (R |` (- D)) k else None)"
    using assms(4) t(2) by (auto simp: restrict_map_def)
  show "(R |` (- D)) k = R k" if "k mod lock_stripes \<noteq> s" for k
    using assms(5) t(2) that by (auto simp: restrict_map_def dom_def split: if_splits)
qed

lemma cf_core_drop:
  assumes "cf_core sz C R W cf" "striped lru_inv lru_map rc (R |` (- D))" "D \<subseteq> dom R"
    "bytes = read_cache_bytes cf - (\<Sum>k\<in>D. sz k)"
  shows "cf_core sz C (R |` (- D)) W (cf\<lparr>read_cache := rc, read_cache_bytes := bytes\<rparr>)"
proof -
  note i = cf_coreD [OF assms(1)]
  have "pages_fit sz (length C) (dom (R |` (- D)) \<union> dom W)" by (rule pages_fit_mono [OF i(5)]) auto
  moreover have "bytes = (\<Sum>k\<in>dom (R |` (- D)). sz k)" using sum_dom_minus [OF i(12) assms(3), of sz] i(8) assms(4) by simp
  moreover have "dom (R |` (- D)) \<inter> dom W = {}" using i(4) by auto
  moreover have "\<forall>k v. (R |` (- D)) k = Some v \<longrightarrow> v = page C k (sz k)" using i(6) by (simp add: restrict_map_def)
  ultimately show ?thesis using i(2,3,7,10,11) assms(2) by (auto simp: cf_core_def)
qed

lemma cf_core_add:
  assumes "cf_core sz C R W cf" "striped lru_inv lru_map rc (R(k \<mapsto> page C k (sz k)))" "k \<notin> dom R" "k \<notin> dom W"
    "pages_fit sz (length C) (insert k (dom R \<union> dom W))" "bytes = read_cache_bytes cf + sz k"
  shows "cf_core sz C (R(k \<mapsto> page C k (sz k))) W (cf\<lparr>read_cache := rc, read_cache_bytes := bytes\<rparr>)"
  using cf_coreD [OF assms(1)] assms(2-6) by (auto simp: cf_core_def)

lemma cf_core_frame:
  "cf_core sz C R W (cf\<lparr>cf_file := f\<rparr>) = cf_core sz C R W cf"
  "cf_core sz C R W (cf\<lparr>write_buffer_bytes := b\<rparr>) = cf_core sz C R W cf"
  "cf_core sz C R W (cf\<lparr>next_eviction_stripe := e\<rparr>) = cf_core sz C R W cf"
  by (simp_all add: cf_core_def)

lemma cf_core_read_cache: "cf_core sz C R W cf \<Longrightarrow> striped lru_inv lru_map rc R \<Longrightarrow> cf_core sz C R W (cf\<lparr>read_cache := rc\<rparr>)"
  by (auto simp: cf_core_def)

lemma cf_core_write_buffer: "cf_core sz C R W cf \<Longrightarrow> lru_inv wb \<Longrightarrow> lru_map wb = W \<Longrightarrow> cf_core sz C R W (cf\<lparr>write_buffer := wb\<rparr>)"
  by (auto simp: cf_core_def)

text \<open>A page that is not cached and does not overlap the cached pages.\<close>

abbreviation fits_with :: "(nat \<Rightarrow> nat) \<Rightarrow> byte list \<Rightarrow> (nat \<Rightarrow> byte list option) \<Rightarrow> (nat \<Rightarrow> byte list option option) \<Rightarrow> nat \<Rightarrow> bool" where
  "fits_with sz C R W k \<equiv> pages_fit sz (length C) (insert k (dom R \<union> dom W))"

definition total_bytes :: "'f cached_file \<Rightarrow> nat" where
  "total_bytes cf = read_cache_bytes cf + write_buffer_bytes cf"

lemma read_miss_ok:
  assumes inv: "cf_inv sz C R W cf" and k: "k \<notin> dom R" "k \<notin> dom W" "fits_with sz C R W k"
  shows "\<exists>R' cf'. read_miss k (sz k) (page C k (sz k)) cf = ok (Inr (page C k (sz k)), cf')
    \<and> cf_inv sz C R' W cf' \<and> dom R' \<subseteq> insert k (dom R) \<and> cf_file cf' = cf_file cf
    \<and> total_bytes cf' \<le> max (total_bytes cf) (max_cache_size cf) \<and> max_cache_size cf' = max_cache_size cf"
proof -
  note i = cf_coreD [OF cf_inv_core(1) [OF inv]] and wbb = cf_inv_core(2) [OF inv]
  let ?s = "k mod lock_stripes" let ?v = "page C k (sz k)" let ?R = "R(k \<mapsto> ?v)"
  have s: "?s < lock_stripes" by (simp add: lock_stripes_def)
  have L: "read_cache_bytes cf + sz k \<le> length C"
  proof -
    have "(\<Sum>j\<in>insert k (dom R). sz j) \<le> length C"
      by (rule pages_fit_sum [OF pages_fit_mono [OF k(3)]]) (use i(12) in auto)
    then show ?thesis using i(8,12) k(1) by simp
  qed
  obtain l where l: "lru_insert (read_cache cf ! ?s) k ?v = (None, l)" "striped lru_inv lru_map ((read_cache cf)[?s := l]) ?R"
    using lru.striped_ins [OF i(1), of k ?v] k(1) by (metis domIff prod.exhaust)
  let ?cf = "cf\<lparr>read_cache := (read_cache cf)[?s := l], read_cache_bytes := read_cache_bytes cf + sz k\<rparr>"
  have core1: "cf_core sz C ?R W ?cf" by (rule cf_core_add [OF cf_inv_core(1) [OF inv] l(2) k refl])
  then have inv1: "cf_inv sz C ?R W ?cf" using wbb by (simp add: cf_inv_def)
  note j = cf_coreD [OF core1]
  have lr: "((read_cache cf)[?s := l]) ! ?s = l" using i(16) by simp
  note st = striped_stripe [OF l(2) s, unfolded lr]
  have bounds: "cadd 64 (read_cache_bytes cf) (sz k) = ok (read_cache_bytes cf + sz k)" "fetch_add (read_cache_bytes cf) (sz k) = read_cache_bytes cf + sz k"
    "cadd 64 (read_cache_bytes cf + sz k) (write_buffer_bytes cf) = ok (read_cache_bytes cf + sz k + write_buffer_bytes cf)"
    using L i(9,10) wbb by (simp_all add: cadd_def fetch_ok)
  have "(\<Sum>k\<in>dom (lru_map l). sz k) \<le> (\<Sum>k\<in>dom ?R. sz k)" by (rule sum_mono2) (use j(12) st(3) in auto)
  then have lb: "0 + (\<Sum>k\<in>dom (lru_map l). sz k) < 2 ^ 64" using j(8,10,14) by simp
  have lv: "\<forall>k v. lru_map l k = Some v \<longrightarrow> length v = sz k" using st(2) j(15) by simp
  obtain D l' where D: "D \<subseteq> dom (lru_map l)" "pop_until (sz k) l 0 = ok (0 + (\<Sum>k\<in>D. sz k), l')" "lru_inv l'"
    "lru_map l' = lru_map l |` (- D)" "sz k \<le> 0 + (\<Sum>k\<in>D. sz k) \<or> D = dom (lru_map l)"
    using pop_until_ok [OF st(1) lv lb, of "sz k"] by blast
  have Dk: "sz k \<le> (\<Sum>k\<in>D. sz k)"
  proof (cases "D = dom (lru_map l)")
    case True
    have "k \<in> dom (lru_map l)" using st(2) by auto
    then show ?thesis using True by (simp add: member_le_sum)
  qed (use D(5) in simp)
  have DR: "D \<subseteq> dom ?R" "(\<Sum>k\<in>D. sz k) \<le> read_cache_bytes cf + sz k"
    using D(1) st(3) j(8) sum_mono2 [OF j(12), of D sz] by auto
  show ?thesis
  proof (cases "read_cache_bytes cf + sz k + write_buffer_bytes cf > max_cache_size cf")
    case False
    have "read_miss k (sz k) ?v cf = ok (Inr ?v, ?cf)"
      using False bounds l(1) i(16) by (simp add: read_miss_def)
    then show ?thesis using inv1 False by (intro exI [of _ ?R] exI [of _ ?cf]) (auto simp: total_bytes_def)
  next
    case True
    let ?b = "read_cache_bytes cf + sz k - (\<Sum>k\<in>D. sz k)"
    let ?cf2 = "cf\<lparr>read_cache := (read_cache cf)[?s := l'], read_cache_bytes := ?b\<rparr>"
    have "striped lru_inv lru_map ((read_cache cf)[?s := l, ?s := l']) (?R |` (- D))"
      using stripe_drop [OF l(2) s D(3), unfolded lr, OF D(4,1)] .
    then have "cf_core sz C (?R |` (- D)) W (?cf\<lparr>read_cache := (read_cache cf)[?s := l'], read_cache_bytes := ?b\<rparr>)"
      using cf_core_drop [OF core1 _ DR(1)] by simp
    then have inv2: "cf_inv sz C (?R |` (- D)) W ?cf2" using wbb by (simp add: cf_inv_def)
    have "fetch_sub (read_cache_bytes cf + sz k) (\<Sum>k\<in>D. sz k) = ?b" using DR(2) L i(10) by (simp add: fetch_ok)
    then have "read_miss k (sz k) ?v cf = ok (Inr ?v, ?cf2)"
      using True bounds l(1) i(16) D(2) by (simp add: read_miss_def Let_def)
    moreover have "dom (?R |` (- D)) \<subseteq> insert k (dom R)" by (auto simp: restrict_map_def split: if_splits)
    ultimately show ?thesis using inv2 Dk DR(2) by (intro exI [of _ "?R |` (- D)"] exI [of _ ?cf2]) (simp add: total_bytes_def)
  qed
qed

text \<open>Evicting from all stripes.\<close>

lemma stripe_cover: "(r :: nat) < N \<Longrightarrow> \<exists>j<N. (st + j) mod N = r"
proof -
  assume r: "r < N"
  let ?j = "(r + (N - st mod N)) mod N"
  have "(st + ?j) mod N = (st mod N + (r + (N - st mod N))) mod N" by (metis mod_add_left_eq mod_add_right_eq)
  also have "st mod N + (r + (N - st mod N)) = r + N" using r mod_less_divisor [of N st] by linarith
  finally have "(st + ?j) mod N = r" using r by simp
  then show ?thesis using r by (intro exI [of _ ?j]) simp
qed

lemma evict_from_read_cache_ok:
  fixes cf :: "'a cached_file"
  assumes core: "cf_core sz C R W cf"
  shows "\<exists>R' cf'. evict_from_read_cache n cf = ok cf' \<and> cf_core sz C R' W cf' \<and> R' \<subseteq>\<^sub>m R
    \<and> cf_file cf' = cf_file cf \<and> write_buffer cf' = write_buffer cf \<and> write_buffer_bytes cf' = write_buffer_bytes cf
    \<and> max_cache_size cf' = max_cache_size cf \<and> (read_cache_bytes cf' + n \<le> read_cache_bytes cf \<or> R' = Map.empty)"
proof -
  let ?N = lock_stripes
  note i = cf_coreD [OF core]
  have N: "length (read_cache cf) = ?N" "0 < ?N" using i(1) by (auto simp: striped_def lock_stripes_def)
  define st where "st = next_eviction_stripe cf mod ?N"
  define same where "same c \<longleftrightarrow> cf_file c = cf_file cf \<and> write_buffer c = write_buffer cf \<and> write_buffer_bytes c = write_buffer_bytes cf
    \<and> max_cache_size c = max_cache_size cf" for c :: "'a cached_file"
  define Inv where "Inv j fc \<longleftrightarrow> (case fc of (freed, c) \<Rightarrow> same c \<and> (\<exists>R'. cf_core sz C R' W c \<and> R' \<subseteq>\<^sub>m R \<and> read_cache_bytes c + freed = read_cache_bytes cf
    \<and> (n \<le> freed \<or> (\<forall>i<j. \<forall>k. k mod ?N = (st + i) mod ?N \<longrightarrow> R' k = None))))" for j :: nat and fc :: "nat \<times> 'a cached_file"
  let ?cf0 = "cf\<lparr>next_eviction_stripe := fetch_add (next_eviction_stripe cf) 1\<rparr>"
  let ?body = "\<lambda>i (freed, c). if freed \<ge> n then ok (freed, c)
        else do {
          stripe \<leftarrow> cmod (st + i) ?N;
          lock \<leftarrow> index (read_cache c) stripe;
          (freed, bytes, lock) \<leftarrow> evict_stripe n lock freed (read_cache_bytes c);
          rc \<leftarrow> index_set (read_cache c) stripe lock;
          ok (freed, c\<lparr>read_cache_bytes := bytes, read_cache := rc\<rparr>) }"
  have "\<exists>t. for_each [0..<?N] ?body (0, ?cf0) = ok t \<and> Inv (length [0..<?N]) t"
  proof (rule for_each_inv)
    show "Inv 0 (0, ?cf0)" using core by (auto simp: Inv_def same_def cf_core_frame)
  next
    fix j u assume j: "j < length [0..<?N]" and u: "Inv j u"
    obtain freed c where uc: "u = (freed, c)" by fastforce
    obtain R' where R': "same c" "cf_core sz C R' W c" "R' \<subseteq>\<^sub>m R" "read_cache_bytes c + freed = read_cache_bytes cf"
      "n \<le> freed \<or> (\<forall>i<j. \<forall>k. k mod ?N = (st + i) mod ?N \<longrightarrow> R' k = None)" using u by (auto simp: Inv_def uc)
    show "\<exists>v. ?body ([0..<?N] ! j) u = ok v \<and> Inv (Suc j) v"
    proof (cases "freed \<ge> n")
      case True
      then show ?thesis using R' by (auto simp: uc Inv_def)
    next
      case False
      let ?s = "(st + j) mod ?N"
      note k = cf_coreD [OF R'(2)]
      have s: "?s < ?N" using N(2) by simp
      note st = striped_stripe [OF k(1) s]
      let ?l = "read_cache c ! ?s"
      have le: "(\<Sum>k\<in>dom (lru_map ?l). sz k) \<le> read_cache_bytes c" using sum_mono2 [OF k(12) st(3), of sz] k(8) by simp
      have fr: "freed \<le> read_cache_bytes cf" using R'(4) by simp
      have b: "freed + (\<Sum>k\<in>dom (lru_map ?l). sz k) < 2 ^ 64" "read_cache_bytes c < 2 ^ 64" using le fr i(10,14) R'(4) by simp_all
      have lv: "\<forall>k v. lru_map ?l k = Some v \<longrightarrow> length v = sz k" using st(2) k(15) by simp
      obtain D l' where D: "D \<subseteq> dom (lru_map ?l)"
        "evict_stripe n ?l freed (read_cache_bytes c) = ok (freed + (\<Sum>k\<in>D. sz k), read_cache_bytes c - (\<Sum>k\<in>D. sz k), l')" "lru_inv l'"
        "lru_map l' = lru_map ?l |` (- D)" "n \<le> freed + (\<Sum>k\<in>D. sz k) \<or> D = dom (lru_map ?l)"
        using evict_stripe_ok [OF st(1) lv b(1) le b(2)] by blast
      have DR: "D \<subseteq> dom R'" using D(1) st(3) by simp
      have Db: "(\<Sum>k\<in>D. sz k) \<le> read_cache_bytes c" using sum_mono2 [OF k(12) DR, of sz] k(8) by simp
      let ?c = "c\<lparr>read_cache := (read_cache c)[?s := l'], read_cache_bytes := read_cache_bytes c - (\<Sum>k\<in>D. sz k)\<rparr>"
      have core': "cf_core sz C (R' |` (- D)) W ?c"
        by (rule cf_core_drop [OF R'(2) stripe_drop [OF k(1) s D(3,4,1)] DR refl])
      have emp: "(R' |` (- D)) k = None" if "D = dom (lru_map ?l)" "k mod ?N = ?s" for k
        using st(2) that by (auto simp: restrict_map_def dom_def)
      have "Inv (Suc j) (freed + (\<Sum>k\<in>D. sz k), ?c)"
      proof -
        have "R' |` (- D) \<subseteq>\<^sub>m R" using R'(3) by (auto simp: map_le_def restrict_map_def)
        moreover have "same ?c" using R'(1) by (simp add: same_def)
        moreover have "n \<le> freed + (\<Sum>k\<in>D. sz k) \<or> (\<forall>i<Suc j. \<forall>k. k mod ?N = (st + i) mod ?N \<longrightarrow> (R' |` (- D)) k = None)"
        proof (cases "n \<le> freed + (\<Sum>k\<in>D. sz k)")
          case F: False
          have "(R' |` (- D)) k = None" if "i < Suc j" "k mod ?N = (st + i) mod ?N" for i k
          proof (cases "i = j")
            case True
            then show ?thesis using emp [of k] D(5) F that by blast
          next
            case neq: False
            then have "i < j" using that(1) by simp
            then have "R' k = None" using R'(5) False that(2) by blast
            then show ?thesis by (simp add: restrict_map_def)
          qed
          then show ?thesis by blast
        qed simp
        ultimately show ?thesis using core' R'(4) Db by (auto simp: Inv_def)
      qed
      moreover have "?body ([0..<?N] ! j) u = ok (freed + (\<Sum>k\<in>D. sz k), ?c)"
      proof -
        have "index (read_cache c) ?s = ok ?l" "index_set (read_cache c) ?s l' = ok ((read_cache c)[?s := l'])"
          using k(16) [of "st + j"] by simp_all
        then show ?thesis using False j N(2) D(2) by (simp add: uc cmod_def)
      qed
      ultimately show ?thesis by blast
    qed
  qed
  then obtain freed c where fc: "for_each [0..<?N] ?body (0, ?cf0) = ok (freed, c)" "Inv ?N (freed, c)" by auto
  have cm: "cmod (next_eviction_stripe cf) ?N = ok st" using N(2) by (simp add: cmod_def st_def)
  have e: "evict_from_read_cache n cf = ok c"
    unfolding evict_from_read_cache_def Let_def N(1) cm bind.bind_lunit fc(1) by simp
  obtain R' where R': "same c" "cf_core sz C R' W c" "R' \<subseteq>\<^sub>m R" "read_cache_bytes c + freed = read_cache_bytes cf"
    "n \<le> freed \<or> (\<forall>i<?N. \<forall>k. k mod ?N = (st + i) mod ?N \<longrightarrow> R' k = None)" using fc(2) by (auto simp: Inv_def)
  have "R' = Map.empty" if "\<not> n \<le> freed"
  proof
    fix k
    obtain i where "i < ?N" "(st + i) mod ?N = k mod ?N" using stripe_cover [of "k mod ?N" ?N st] N(2) by auto
    then show "R' k = None" using R'(5) that by metis
  qed
  then show ?thesis using e R' by (intro exI [of _ R'] exI [of _ c]) (auto simp: same_def)
qed

subsection \<open>Reading\<close>

lemma wc_get_ok:
  assumes "lru_inv wb" "lru_map wb k \<noteq> Some None"
  shows "\<exists>wb'. wc_get wb k = ok (case lru_map wb k of None \<Rightarrow> None | Some x \<Rightarrow> x, wb') \<and> lru_inv wb' \<and> lru_map wb' = lru_map wb"
proof -
  obtain x wb' where g: "lru_get wb k = (x, wb')" by fastforce
  note l = lru.get_law [OF assms(1) g]
  then show ?thesis using g assms(2) by (auto simp: wc_get_def split: option.splits)
qed

context storage_backend
begin

lemma read_direct_ok:
  assumes "bytes_of cf = C"
  shows "\<exists>r cf'. read_direct B k n cf = ok (r, cf') \<and> (case r of
      Inl e \<Rightarrow> cb_io_failed (cf_file cf')
    | Inr v \<Rightarrow> v = page C k n \<and> (\<exists>f. cf' = cf\<lparr>cf_file := f\<rparr>) \<and> bytes_of cf' = C)"
proof (cases "\<lambda>f. be_read B f k n" "cf_file cf" rule: cb_run_cases)
  case (success x f')
  then show ?thesis using read_law [OF success(1)] assms
    by (auto simp: read_direct_def on_file_def cb_read_def file_bytes_def)
next
  case (failed e cb')
  then show ?thesis by (auto simp: read_direct_def on_file_def cb_read_def)
qed

lemma cf_read_ok:
  assumes inv: "cf_inv sz (bytes_of cf) R W cf" and k: "k mod cf_page_size cf = 0" "fits_with sz (bytes_of cf) R W k"
    and W: "W k \<noteq> Some None" "hint = Hint_Clean \<Longrightarrow> k \<notin> dom W"
  shows "\<exists>r cf'. cf_read B k (sz k) hint cf = ok (r, cf') \<and> (case r of
      Inl e \<Rightarrow> cb_io_failed (cf_file cf')
    | Inr v \<Rightarrow> v = view sz (bytes_of cf) W k \<and> bytes_of cf' = bytes_of cf
        \<and> (\<exists>R'. cf_inv sz (bytes_of cf) R' W cf' \<and> dom R' \<subseteq> insert k (dom R))
        \<and> total_bytes cf' \<le> max (total_bytes cf) (max_cache_size cf) \<and> max_cache_size cf' = max_cache_size cf)"
proof -
  let ?C = "bytes_of cf"
  note core = cf_inv_core(1) [OF inv] and wbb = cf_inv_core(2) [OF inv]
  note i = cf_coreD [OF core]
  have m: "cmod k (cf_page_size cf) = ok 0" using k(1) i(11) by (simp add: cmod_def)
  obtain wb where wb: "(if hint \<noteq> Hint_Clean then wc_get (write_buffer cf) k else ok (None, write_buffer cf)) = ok (case W k of None \<Rightarrow> None | Some x \<Rightarrow> x, wb)"
    "lru_inv wb" "lru_map wb = W"
  proof (cases "hint = Hint_Clean")
    case True
    then show ?thesis using that [of "write_buffer cf"] W(2) i(2,3) by (auto simp: domIff)
  next
    case False
    then show ?thesis using that wc_get_ok [OF i(2), of k] W(1) i(3) by auto
  qed
  let ?cf1 = "cf\<lparr>write_buffer := wb\<rparr>"
  have inv1: "cf_inv sz ?C R W ?cf1" using cf_core_write_buffer [OF core wb(2,3)] wbb by (simp add: cf_inv_def)
  show ?thesis
  proof (cases "W k")
    case (Some x)
    then obtain v where v: "W k = Some (Some v)" using W(1) by (cases x) auto
    then show ?thesis using m wb(1) i(7) inv1
      by (intro exI [of _ "Inr v"] exI [of _ ?cf1]) (auto simp: cf_read_def view_def file_bytes_def total_bytes_def)
  next
    case None
    let ?s = "k mod lock_stripes"
    obtain l where l: "lru_get (read_cache cf ! ?s) k = (R k, l)" "striped lru_inv lru_map ((read_cache cf)[?s := l]) R"
      using lru.striped_get [OF i(1), of k] by (metis prod.exhaust)
    let ?cf2 = "?cf1\<lparr>read_cache := (read_cache cf)[?s := l]\<rparr>"
    have inv2: "cf_inv sz ?C R W ?cf2" using cf_core_read_cache [OF cf_inv_core(1) [OF inv1] l(2)] wbb by (simp add: cf_inv_def)
    have vw: "view sz ?C W k = page ?C k (sz k)" using None by (simp add: view_def)
    show ?thesis
    proof (cases "R k")
      case (Some v)
      then show ?thesis using m wb(1) None l(1) i(6,15,16) inv2 vw
        by (intro exI [of _ "Inr v"] exI [of _ ?cf2]) (auto simp: cf_read_def file_bytes_def total_bytes_def)
    next
      case miss: None
      have e: "cf_read B k (sz k) hint cf = io_then (read_direct B k (sz k) ?cf2) (\<lambda>buffer. read_miss k (sz k) buffer)"
        using m wb(1) None l(1) i(16) miss by (simp add: cf_read_def)
      have "bytes_of ?cf2 = ?C" by (simp add: file_bytes_def)
      from read_direct_ok [OF this, of k "sz k"] obtain r cf3 where
        r: "read_direct B k (sz k) ?cf2 = ok (r, cf3)" "case r of Inl e \<Rightarrow> cb_io_failed (cf_file cf3)
          | Inr v \<Rightarrow> v = page ?C k (sz k) \<and> (\<exists>f. cf3 = ?cf2\<lparr>cf_file := f\<rparr>) \<and> bytes_of cf3 = ?C" by blast
      show ?thesis
      proof (cases r)
        case (Inl x)
        then show ?thesis using e r by (auto simp: io_then_def)
      next
        case (Inr v)
        then obtain f where f: "v = page ?C k (sz k)" "cf3 = ?cf2\<lparr>cf_file := f\<rparr>" "bytes_of cf3 = ?C" using r(2) by auto
        have inv3: "cf_inv sz ?C R W cf3" using inv2 unfolding f(2) by (simp add: cf_inv_def cf_core_frame)
        obtain R' cf' where R': "read_miss k (sz k) v cf3 = ok (Inr v, cf')" "cf_inv sz ?C R' W cf'" "dom R' \<subseteq> insert k (dom R)"
          "cf_file cf' = cf_file cf3" "total_bytes cf' \<le> max (total_bytes cf3) (max_cache_size cf3)" "max_cache_size cf' = max_cache_size cf3"
          using read_miss_ok [OF inv3 _ _ k(2)] miss None unfolding f(1) by (auto simp: domIff)
        have "total_bytes cf3 = total_bytes cf" "max_cache_size cf3 = max_cache_size cf" by (simp_all add: f(2) total_bytes_def)
        then show ?thesis using e r(1) Inr R' f(1,3) vw
          by (intro exI [of _ "Inr v"] exI [of _ cf']) (auto simp: io_then_def file_bytes_def)
      qed
    qed
  qed
qed

end

subsection \<open>Writing\<close>

lemma wc_insert_ok:
  assumes "lru_inv wb" "lru_map wb k = None"
  shows "\<exists>wb'. wc_insert wb k v = ok wb' \<and> lru_inv wb' \<and> lru_map wb' = (lru_map wb)(k \<mapsto> Some v)"
proof -
  obtain x wb' where g: "lru_insert wb k (Some v) = (x, wb')" by fastforce
  from lru.ins_law [OF assms(1) g] show ?thesis using g assms(2) by (auto simp: wc_insert_def)
qed

lemma wc_take_ok:
  assumes "lru_inv wb" "lru_map wb k \<noteq> Some None"
  shows "\<exists>wb'. wc_take_value wb k = ok (case lru_map wb k of None \<Rightarrow> None | Some x \<Rightarrow> x, wb') \<and> lru_inv wb'
    \<and> lru_map wb' = (if lru_map wb k = None then lru_map wb else (lru_map wb)(k \<mapsto> None))"
proof -
  obtain x wb' where g: "lru_get_mut wb k (\<lambda>_. None) = (x, wb')" by fastforce
  then show ?thesis using lru_get_mut_ok [OF assms(1), of k "\<lambda>_. None"] assms(2)
    by (auto simp: wc_take_value_def split: option.splits)
qed

lemma wc_return_ok:
  assumes "lru_inv wb" "lru_map wb k = Some None"
  shows "\<exists>wb'. wc_return_value wb k v = ok wb' \<and> lru_inv wb' \<and> lru_map wb' = (lru_map wb)(k \<mapsto> Some v)"
proof -
  obtain x wb' where g: "lru_get_mut wb k (\<lambda>_. Some v) = (x, wb')" by fastforce
  then show ?thesis using lru_get_mut_ok [OF assms(1), of k "\<lambda>_. Some v"] assms(2)
    by (auto simp: wc_return_value_def)
qed

lemma wc_pop_loop_ok:
  assumes "lru_inv wb" "wc_pop_loop n wb = (x, wb')"
  shows "lru_inv wb' \<and> (case x of None \<Rightarrow> lru_map wb' = lru_map wb
    | Some (k, v) \<Rightarrow> lru_map wb k = Some (Some v) \<and> lru_map wb' = (lru_map wb)(k := None))"
  using assms
proof (induction n wb rule: wc_pop_loop.induct)
  case (2 n wb)
  obtain r c where r: "pop_lowest_priority wb = (r, c)" by fastforce
  note p = lru.pop_law [OF 2(2) r]
  consider "r = None" | k v where "r = Some (k, Some v)" | (lent) k where "r = Some (k, None)"
    by (metis option.exhaust prod.exhaust)
  then show ?case
  proof cases
    case lent
    obtain y c' where i: "lru_insert c k None = (y, c')" by fastforce
    have "lru_inv c" using p by simp
    from lru.ins_law [OF this i] have c': "lru_inv c'" "lru_map c' = lru_map wb" using p lent by auto
    show ?thesis using 2(1) [OF r [symmetric] lent refl refl] 2(3) r lent i c' by (auto split: option.splits)
  qed (use 2(3) r p in auto)
qed simp

lemma wc_pop_ok:
  assumes "lru_inv wb" "wc_pop_lowest_priority wb = (x, wb')"
  shows "lru_inv wb'" "x = None \<Longrightarrow> lru_map wb' = lru_map wb"
    "x = Some (k, v) \<Longrightarrow> lru_map wb k = Some (Some v) \<and> lru_map wb' = (lru_map wb)(k := None)"
  using wc_pop_loop_ok [OF assms(1), of "lru_len wb" x wb'] assms(2) by (auto simp: wc_pop_lowest_priority_def)

text \<open>Writing a page of the write buffer to the file does not change any view.\<close>

lemma splice_core:
  assumes core: "cf_core sz C R W cf" and k: "W k = Some (Some v)" and C': "C' = splice C k v"
  shows "length C' = length C" "page C' k (sz k) = v" "fits_with sz C R W j \<Longrightarrow> j \<noteq> k \<Longrightarrow> page C' j (sz j) = page C j (sz j)"
    "\<And>j w. R j = Some w \<Longrightarrow> w = page C' j (sz j)"
proof -
  note i = cf_coreD [OF core]
  have v: "length v = sz k" "k + length v \<le> length C" using i(5,7) k by (auto simp: pages_fit_def)
  note sp = splice_page [OF v(2)]
  show l: "length C' = length C" "page C' k (sz k) = v" using sp(1,2) v C' by auto
  show p: "page C' j (sz j) = page C j (sz j)" if "fits_with sz C R W j" "j \<noteq> k" for j
  proof -
    have "k \<in> dom W" using k by auto
    then have "j + sz j \<le> k \<or> k + sz k \<le> j" using that by (auto simp: pages_fit_def)
    then show ?thesis using sp(3) [of j "sz j"] v C' by simp
  qed
  fix j w assume j: "R j = Some w"
  have "fits_with sz C R W j" using i(5) j by (metis UnI1 domI insert_absorb)
  moreover have "j \<noteq> k" using j k i(4) by auto
  ultimately show "w = page C' j (sz j)" using p i(6) j by simp
qed

lemma view_splice:
  assumes core: "cf_core sz C R W cf" and k: "W k = Some (Some v)" and C': "C' = splice C k v" and j: "fits_with sz C R W j"
  shows "view sz C' W j = view sz C W j" "view sz C' (W(k := None)) j = view sz C W j"
  using splice_core [OF core k C'] j k by (cases "j = k"; auto simp: view_def split: option.splits)+

context storage_backend
begin

lemma flush_excess_ok:
  assumes "cf_core sz (bytes_of cf) R W cf" "write_buffer_bytes cf = (\<Sum>k\<in>dom W. sz k) + n" "write_buffer_bytes cf < 2 ^ 64"
    "flushed + (\<Sum>k\<in>dom W. sz k) < 2 ^ 64"
  shows "\<exists>r cf'. flush_excess B excess flushed cf = ok (r, cf') \<and> (case r of
      Inl e \<Rightarrow> cb_io_failed (cf_file cf')
    | Inr fl \<Rightarrow> \<exists>W'. cf_core sz (bytes_of cf') R W' cf' \<and> write_buffer_bytes cf' = (\<Sum>k\<in>dom W'. sz k) + n
        \<and> fl + (\<Sum>k\<in>dom W'. sz k) = flushed + (\<Sum>k\<in>dom W. sz k) \<and> length (bytes_of cf') = length (bytes_of cf)
        \<and> W' \<subseteq>\<^sub>m W \<and> (\<forall>k. W k = Some None \<longrightarrow> W' k = Some None)
        \<and> (\<forall>j. fits_with sz (bytes_of cf) R W j \<longrightarrow> view sz (bytes_of cf') W' j = view sz (bytes_of cf) W j)
        \<and> read_cache_bytes cf' = read_cache_bytes cf \<and> max_cache_size cf' = max_cache_size cf)"
  using assms
proof (induction "lru_len (write_buffer cf)" arbitrary: cf flushed W rule: less_induct)
  case less
  let ?C = "bytes_of cf"
  note i = cf_coreD [OF less.prems(1)]
  show ?case
  proof (cases "flushed < excess")
    case False
    then show ?thesis using less.prems by (intro exI [of _ "Inr flushed"] exI [of _ cf]) (auto simp: flush_excess.simps [of B excess])
  next
    case True
    obtain x wb where x: "wc_pop_lowest_priority (write_buffer cf) = (x, wb)" by fastforce
    note pop = wc_pop_ok [OF i(2) x, unfolded i(3)]
    show ?thesis
    proof (cases x)
      case None
      have "cf_core sz ?C R W (cf\<lparr>write_buffer := wb\<rparr>)" using cf_core_write_buffer [OF less.prems(1) pop(1)] pop(2) None by simp
      then show ?thesis using less.prems True x None
        by (intro exI [of _ "Inr flushed"] exI [of _ "cf\<lparr>write_buffer := wb\<rparr>"]) (auto simp: flush_excess.simps [of B excess] file_bytes_def)
    next
      case (Some p)
      then obtain k v where p: "x = Some (k, v)" by (cases p) auto
      note kv = pop(3) [OF p]
      show ?thesis
      proof (cases "\<lambda>f. be_write B f k v" "cf_file cf" rule: cb_run_cases)
        case (failed e cb')
        obtain wb' where "wc_insert wb k v = ok wb'" using wc_insert_ok [OF pop(1), of k v] kv by auto
        then show ?thesis using True x p failed
          by (intro exI [of _ "Inl e"] exI [of _ "cf\<lparr>cf_file := cb', write_buffer := wb'\<rparr>"]) (simp add: flush_excess.simps [of B excess] cb_write_def)
      next
        case (success u f')
        have v: "length v = sz k" "k + length v \<le> length ?C" using i(5,7) kv by (auto simp: pages_fit_def)
        let ?cf = "cf\<lparr>cf_file := (cf_file cf)\<lparr>cb_file := f'\<rparr>, write_buffer := wb, write_buffer_bytes := write_buffer_bytes cf - sz k\<rparr>"
        let ?W = "W(k := None)"
        have C': "bytes_of ?cf = splice ?C k v" using write_law [OF success(1)] v(2) by (simp add: file_bytes_def)
        note sp = splice_core [OF less.prems(1) kv [THEN conjunct1] C']
        have sum: "(\<Sum>j\<in>dom ?W. sz j) + sz k = (\<Sum>j\<in>dom W. sz j)" using kv sum.remove [OF i(13), of k sz] by (simp add: domI)
        have fs: "fetch_sub (write_buffer_bytes cf) (length v) = write_buffer_bytes cf - sz k" using less.prems(2,3) sum v(1) by (simp add: fetch_ok)
        have fl: "cadd 64 flushed (length v) = ok (flushed + sz k)" using less.prems(4) sum v(1) by (simp add: cadd_def)
        have fit: "pages_fit sz (length (bytes_of ?cf)) (dom R \<union> dom ?W)" unfolding sp(1) by (rule pages_fit_mono [OF i(5)]) auto
        have core: "cf_core sz (bytes_of ?cf) R ?W ?cf"
          using i(1,4,7,8,10,11) sp(1,4) fit pop(1) kv by (auto simp: cf_core_def)
        have dec: "lru_len wb < lru_len (write_buffer cf)" using x p wc_pop_less [of "lru_len (write_buffer cf)"] by (simp add: wc_pop_lowest_priority_def)
        have pr: "write_buffer_bytes ?cf = (\<Sum>k\<in>dom ?W. sz k) + n" "write_buffer_bytes ?cf < 2 ^ 64" "flushed + sz k + (\<Sum>k\<in>dom ?W. sz k) < 2 ^ 64"
          using less.prems(2-4) sum by auto
        have step: "flush_excess B excess flushed cf = flush_excess B excess (flushed + sz k) ?cf"
          using True x p success fs fl by (subst flush_excess.simps) (simp add: cb_write_def)
        obtain r cf' where ih: "flush_excess B excess (flushed + sz k) ?cf = ok (r, cf')" "case r of
            Inl e \<Rightarrow> cb_io_failed (cf_file cf')
          | Inr fl \<Rightarrow> \<exists>W'. cf_core sz (bytes_of cf') R W' cf' \<and> write_buffer_bytes cf' = (\<Sum>k\<in>dom W'. sz k) + n
              \<and> fl + (\<Sum>k\<in>dom W'. sz k) = flushed + sz k + (\<Sum>k\<in>dom ?W. sz k) \<and> length (bytes_of cf') = length (bytes_of ?cf)
              \<and> W' \<subseteq>\<^sub>m ?W \<and> (\<forall>k. ?W k = Some None \<longrightarrow> W' k = Some None)
              \<and> (\<forall>j. fits_with sz (bytes_of ?cf) R ?W j \<longrightarrow> view sz (bytes_of cf') W' j = view sz (bytes_of ?cf) ?W j)
              \<and> read_cache_bytes cf' = read_cache_bytes ?cf \<and> max_cache_size cf' = max_cache_size ?cf"
          using less.hyps [OF _ core pr] dec by auto
        show ?thesis
        proof (cases r)
          case (Inl e)
          then show ?thesis using step ih by (intro exI [of _ r] exI [of _ cf']) simp
        next
          case (Inr fl)
          then obtain W' where W': "cf_core sz (bytes_of cf') R W' cf'" "write_buffer_bytes cf' = (\<Sum>k\<in>dom W'. sz k) + n"
            "fl + (\<Sum>k\<in>dom W'. sz k) = flushed + sz k + (\<Sum>k\<in>dom ?W. sz k)" "length (bytes_of cf') = length (bytes_of ?cf)"
            "W' \<subseteq>\<^sub>m ?W" "\<And>k. ?W k = Some None \<Longrightarrow> W' k = Some None"
            "\<And>j. fits_with sz (bytes_of ?cf) R ?W j \<Longrightarrow> view sz (bytes_of cf') W' j = view sz (bytes_of ?cf) ?W j"
            "read_cache_bytes cf' = read_cache_bytes ?cf" "max_cache_size cf' = max_cache_size ?cf" using ih(2) by auto
          have "view sz (bytes_of cf') W' j = view sz ?C W j" if "fits_with sz ?C R W j" for j
          proof -
            have "fits_with sz (bytes_of ?cf) R ?W j" unfolding sp(1) by (rule pages_fit_mono [OF that]) auto
            then show ?thesis using W'(7) view_splice(2) [OF less.prems(1) kv [THEN conjunct1] C' that] by simp
          qed
          moreover have "W' \<subseteq>\<^sub>m W" by (rule map_le_trans [OF W'(5) upd_None_map_le])
          moreover have "W' j = Some None" if "W j = Some None" for j using W'(6) [of j] that kv by (cases "j = k") auto
          ultimately show ?thesis using step ih(1) Inr W' sp(1) sum by (intro exI [of _ r] exI [of _ cf']) auto
        qed
      qed
    qed
  qed
qed

lemma write_insert_ok:
  assumes core: "cf_core sz (bytes_of cf) R W cf" and k: "k \<notin> dom R" "k \<notin> dom W" "fits_with sz (bytes_of cf) R W k"
    and wb: "write_buffer_bytes cf = (\<Sum>k\<in>dom W. sz k) + sz k" "wb = write_buffer_bytes cf"
    and ex: "existing = None \<or> existing = Some (page (bytes_of cf) k (sz k))"
  shows "\<exists>r cf'. write_insert B k (sz k) overwrite existing wb cf = ok (r, cf') \<and> (case r of
      Inl e \<Rightarrow> cb_io_failed (cf_file cf')
    | Inr p \<Rightarrow> wp_offset p = k \<and> bytes_of cf' = bytes_of cf
        \<and> wp_data p = (if existing = None \<and> overwrite then replicate (sz k) 0 else page (bytes_of cf) k (sz k))
        \<and> (\<exists>R'. R' \<subseteq>\<^sub>m R \<and> cf_inv sz (bytes_of cf) R' (W(k \<mapsto> None)) cf' \<and> (total_bytes cf' \<le> max_cache_size cf \<or> R' = Map.empty))
        \<and> max_cache_size cf' = max_cache_size cf)"
proof -
  let ?C = "bytes_of cf"
  note i = cf_coreD [OF core]
  have L: "(\<Sum>k\<in>dom W. sz k) + sz k \<le> length ?C"
  proof -
    have "(\<Sum>j\<in>insert k (dom W). sz j) \<le> length ?C"
      by (rule pages_fit_sum [OF pages_fit_mono [OF k(3)]]) (use i(13) in auto)
    then show ?thesis using i(13) k(2) by simp
  qed
  have tot: "cadd 64 wb (read_cache_bytes cf) = ok (wb + read_cache_bytes cf)" using L wb i(10,14) by (simp add: cadd_def)
  obtain R' cf1 where e: "(if wb + read_cache_bytes cf > max_cache_size cf then evict_from_read_cache (wb + read_cache_bytes cf - max_cache_size cf) cf else ok cf) = ok cf1"
    "cf_core sz ?C R' W cf1" "R' \<subseteq>\<^sub>m R" "cf_file cf1 = cf_file cf" "write_buffer_bytes cf1 = write_buffer_bytes cf" "max_cache_size cf1 = max_cache_size cf"
    "total_bytes cf1 \<le> max_cache_size cf \<or> R' = Map.empty"
  proof (cases "wb + read_cache_bytes cf > max_cache_size cf")
    case True
    obtain R' cf1 where o: "evict_from_read_cache (wb + read_cache_bytes cf - max_cache_size cf) cf = ok cf1"
      "cf_core sz ?C R' W cf1" "R' \<subseteq>\<^sub>m R" "cf_file cf1 = cf_file cf" "write_buffer_bytes cf1 = write_buffer_bytes cf" "max_cache_size cf1 = max_cache_size cf"
      "read_cache_bytes cf1 + (wb + read_cache_bytes cf - max_cache_size cf) \<le> read_cache_bytes cf \<or> R' = Map.empty"
      using evict_from_read_cache_ok [OF core] by blast
    have "total_bytes cf1 \<le> max_cache_size cf \<or> R' = Map.empty"
    proof (cases "R' = Map.empty")
      case False
      then have "read_cache_bytes cf1 + (wb + read_cache_bytes cf - max_cache_size cf) \<le> read_cache_bytes cf" using o(7) by blast
      then have "total_bytes cf1 \<le> max_cache_size cf" using True wb(2) o(5) unfolding total_bytes_def by linarith
      then show ?thesis ..
    qed simp
    then show ?thesis using that [of cf1 R'] True o by simp
  next
    case False
    then show ?thesis using that [of cf R] core wb(2) by (auto simp: total_bytes_def)
  qed
  have b1: "bytes_of cf1 = ?C" using e(4) by (simp add: file_bytes_def)
  have kR: "k \<notin> dom R'" using k(1) map_le_implies_dom_le [OF e(3)] by blast
  let ?get = "case existing of Some dat \<Rightarrow> ok (Inr dat, cf1)
        | None \<Rightarrow> if overwrite then ok (Inr (zero_filled_arc (sz k)), cf1) else read_direct B k (sz k) cf1"
  let ?data = "if existing = None \<and> overwrite then replicate (sz k) 0 else page ?C k (sz k)"
  have "\<exists>r cf2. ?get = ok (r, cf2) \<and> (case r of Inl e \<Rightarrow> cb_io_failed (cf_file cf2)
      | Inr v \<Rightarrow> v = ?data \<and> (\<exists>f. cf2 = cf1\<lparr>cf_file := f\<rparr>) \<and> bytes_of cf2 = ?C)"
  proof (cases "existing = None \<and> \<not> overwrite")
    case True
    then show ?thesis using read_direct_ok [OF b1, of k "sz k"] by simp
  next
    case False
    then have "?get = ok (Inr ?data, cf1)" using ex by (auto simp: zero_filled_arc_def)
    moreover have "\<exists>f. cf1 = cf1\<lparr>cf_file := f\<rparr>" by (rule exI [of _ "cf_file cf1"]) simp
    ultimately show ?thesis using b1 by (intro exI [of _ "Inr ?data"] exI [of _ cf1]) simp
  qed
  then obtain r cf2 where r: "?get = ok (r, cf2)" "case r of Inl e \<Rightarrow> cb_io_failed (cf_file cf2)
      | Inr v \<Rightarrow> v = ?data \<and> (\<exists>f. cf2 = cf1\<lparr>cf_file := f\<rparr>) \<and> bytes_of cf2 = ?C" by blast
  have wi: "write_insert B k (sz k) overwrite existing wb cf = io_then (ok (r, cf2))
       (\<lambda>result cf. do {
          wb \<leftarrow> wc_insert (write_buffer cf) k result;
          (taken, wb) \<leftarrow> wc_take_value wb k;
          dat \<leftarrow> taken;
          ok (Inr \<lparr>wp_offset = k, wp_data = dat\<rparr>, cf\<lparr>write_buffer := wb\<rparr>) })"
    unfolding write_insert_def Let_def tot e(1) bind.bind_lunit r(1) ..
  show ?thesis
  proof (cases r)
    case (Inl x)
    then show ?thesis using wi r(2) by (auto simp: io_then_def)
  next
    case (Inr v)
    then obtain f where f: "v = ?data" "cf2 = cf1\<lparr>cf_file := f\<rparr>" "bytes_of cf2 = ?C" using r(2) by auto
    have core2: "cf_core sz ?C R' W cf2" using e(2) unfolding f(2) by (simp add: cf_core_frame)
    note j = cf_coreD [OF core2]
    have Wk: "W k = None" using k(2) by auto
    obtain wb1 where w1: "wc_insert (write_buffer cf2) k v = ok wb1" "lru_inv wb1" "lru_map wb1 = W(k \<mapsto> Some v)"
      using wc_insert_ok [OF j(2), of k v] j(3) Wk by auto
    obtain wb2 where w2: "wc_take_value wb1 k = ok (Some v, wb2)" "lru_inv wb2" "lru_map wb2 = W(k \<mapsto> None)"
      using wc_take_ok [OF w1(2), of k] w1(3) by auto
    let ?cf = "cf2\<lparr>write_buffer := wb2\<rparr>"
    have dW: "dom (W(k \<mapsto> None)) = insert k (dom W)" by auto
    have sub: "dom R' \<subseteq> dom R" using e(3) by (rule map_le_implies_dom_le)
    have "pages_fit sz (length ?C) (dom R' \<union> dom (W(k \<mapsto> None)))" unfolding dW by (rule pages_fit_mono [OF k(3)]) (use sub in auto)
    moreover have "dom R' \<inter> dom (W(k \<mapsto> None)) = {}" using j(4) kR by auto
    moreover have "\<forall>j w. (W(k \<mapsto> None)) j = Some (Some w) \<longrightarrow> length w = sz j" using j(7) by simp
    ultimately have "cf_core sz ?C R' (W(k \<mapsto> None)) ?cf"
      using j(1,6,8,10,11) w2(2,3) by (auto simp: cf_core_def)
    moreover have "write_buffer_bytes ?cf = (\<Sum>j\<in>dom (W(k \<mapsto> None)). sz j)"
      unfolding dW using wb(1) e(5) i(13) k(2) f(2) by simp
    ultimately have inv: "cf_inv sz ?C R' (W(k \<mapsto> None)) ?cf" by (simp add: cf_inv_def)
    have "write_insert B k (sz k) overwrite existing wb cf = ok (Inr \<lparr>wp_offset = k, wp_data = v\<rparr>, ?cf)"
      using wi Inr w1(1) w2(1) by (simp add: io_then_def)
    then show ?thesis using inv e(3,6,7) f by (intro exI [of _ "Inr \<lparr>wp_offset = k, wp_data = v\<rparr>"] exI [of _ ?cf])
      (auto simp: file_bytes_def total_bytes_def)
  qed
qed

lemma cf_write_ok:
  assumes inv: "cf_inv sz (bytes_of cf) R W cf" and k: "k mod cf_page_size cf = 0" "fits_with sz (bytes_of cf) R W k" and W: "W k \<noteq> Some None"
  shows "\<exists>r cf'. cf_write B k (sz k) overwrite cf = ok (r, cf') \<and> (case r of
      Inl e \<Rightarrow> cb_io_failed (cf_file cf')
    | Inr p \<Rightarrow> wp_offset p = k
        \<and> wp_data p = (if overwrite \<and> k \<notin> dom R \<and> k \<notin> dom W then replicate (sz k) 0 else view sz (bytes_of cf) W k)
        \<and> (\<exists>R' W'. cf_inv sz (bytes_of cf') R' W' cf' \<and> W' k = Some None \<and> length (bytes_of cf') = length (bytes_of cf)
            \<and> dom R' \<subseteq> dom R \<and> dom W' \<subseteq> insert k (dom W)
            \<and> (\<forall>j. j \<noteq> k \<longrightarrow> (W' j = Some None \<longleftrightarrow> W j = Some None))
            \<and> (\<forall>j. j \<noteq> k \<longrightarrow> fits_with sz (bytes_of cf) R W j \<longrightarrow> view sz (bytes_of cf') W' j = view sz (bytes_of cf) W j)))"
proof -
  let ?C = "bytes_of cf" let ?s = "k mod lock_stripes" let ?R = "R(k := None)"
  note core = cf_inv_core(1) [OF inv] and wbb = cf_inv_core(2) [OF inv]
  note i = cf_coreD [OF core]
  have m: "cmod k (cf_page_size cf) = ok 0" using k(1) i(11) by (simp add: cmod_def)
  have s: "?s < lock_stripes" by (simp add: lock_stripes_def)
  obtain l where l: "lru_remove (read_cache cf ! ?s) k = (R k, l)" "striped lru_inv lru_map ((read_cache cf)[?s := l]) ?R"
    using lru.striped_rem [OF i(1) s _ refl] by (metis prod.exhaust)
  have len: "case R k of Some r \<Rightarrow> length r = sz k | None \<Rightarrow> True" using i(15) by (auto split: option.splits)
  let ?b = "case R k of Some r \<Rightarrow> fetch_sub (read_cache_bytes cf) (length r) | None \<Rightarrow> read_cache_bytes cf"
  let ?cf1 = "cf\<lparr>read_cache := (read_cache cf)[?s := l], read_cache_bytes := ?b\<rparr>"
  have R: "R |` (- (if k \<in> dom R then {k} else {})) = ?R" by (auto simp: restrict_map_def fun_eq_iff)
  have b: "?b = read_cache_bytes cf - (\<Sum>k\<in>(if k \<in> dom R then {k} else {}). sz k)"
  proof (cases "R k")
    case (Some r)
    have "sz k \<le> read_cache_bytes cf" using i(8,12) Some member_le_sum [of k "dom R" sz] by (auto simp: domI)
    then show ?thesis using Some i(10,14,15) by (auto simp: fetch_ok domI)
  qed (simp add: domIff)
  have core1: "cf_core sz ?C ?R W ?cf1"
    using cf_core_drop [OF core, where D = "if k \<in> dom R then {k} else {}", unfolded R, OF l(2) _ b] by auto
  obtain wb where w: "wc_take_value (write_buffer cf) k = ok (case W k of None \<Rightarrow> None | Some x \<Rightarrow> x, wb)" "lru_inv wb"
    "lru_map wb = (if W k = None then W else W(k \<mapsto> None))" using wc_take_ok [OF i(2), of k] W i(3) by auto
  let ?cf2 = "?cf1\<lparr>write_buffer := wb\<rparr>"
  have C2: "bytes_of ?cf2 = ?C" by (simp add: file_bytes_def)
  show ?thesis
  proof (cases "W k")
    case (Some x)
    then obtain v where v: "W k = Some (Some v)" using W by (cases x) auto
    have Rk: "R k = None" using i(4) v by auto
    have dW: "dom (W(k \<mapsto> None)) = dom W" using v by auto
    have Req: "?R = R" using Rk by auto
    have "cf_core sz ?C R (W(k \<mapsto> None)) ?cf2"
      using cf_coreD [OF core1, unfolded Req] w v unfolding cf_core_def dW by simp
    then have "cf_inv sz ?C R (W(k \<mapsto> None)) ?cf2" unfolding cf_inv_def dW using wbb by simp
    moreover have "cf_write B k (sz k) overwrite cf = ok (Inr \<lparr>wp_offset = k, wp_data = v\<rparr>, ?cf2)"
      using m l(1) i(16) len w(1) v Rk by (simp add: cf_write_def)
    ultimately show ?thesis using C2 v
      by (intro exI [of _ "Inr \<lparr>wp_offset = k, wp_data = v\<rparr>"] exI [of _ ?cf2])
        (auto simp: view_def domIff intro!: exI [of _ R] exI [of _ "W(k \<mapsto> None)"])
  next
    case None
    then have kW: "k \<notin> dom W" and w3: "lru_map wb = W" using w(3) by auto
    have core2: "cf_core sz ?C ?R W ?cf2" by (rule cf_core_write_buffer [OF core1 w(2) w3])
    have vk: "view sz ?C W k = page ?C k (sz k)" using None by (simp add: view_def)
    have ex: "R k = None \<or> R k = Some (page ?C k (sz k))" using i(6) by (cases "R k") auto
    have L: "(\<Sum>k\<in>dom W. sz k) + sz k \<le> length ?C"
    proof -
      have "(\<Sum>j\<in>insert k (dom W). sz j) \<le> length ?C"
        by (rule pages_fit_sum [OF pages_fit_mono [OF k(2)]]) (use i(13) in auto)
      then show ?thesis using i(13) kW by simp
    qed
    let ?wb = "(\<Sum>k\<in>dom W. sz k) + sz k"
    let ?cf3 = "?cf2\<lparr>write_buffer_bytes := ?wb\<rparr>"
    have bnd: "fetch_add (write_buffer_bytes cf) (sz k) = ?wb" "cadd 64 (write_buffer_bytes cf) (sz k) = ok ?wb" "?wb < 2 ^ 64"
      using wbb L i(10) by (simp_all add: fetch_ok cadd_def)
    let ?half = "max_cache_size cf div 2"
    have step: "cf_write B k (sz k) overwrite cf = io_then (if ?wb > ?half then flush_excess B (?wb - ?half) 0 ?cf3 else ok (Inr 0, ?cf3))
            (\<lambda>flushed cf. do { write_bytes \<leftarrow> csub ?wb flushed; write_insert B k (sz k) overwrite (R k) write_bytes cf })"
      using m l(1) i(16) len w(1) None bnd by (simp add: cf_write_def)
    have core3: "cf_core sz (bytes_of ?cf3) ?R W ?cf3" using core2 by (simp add: cf_core_frame file_bytes_def)
    have C3: "bytes_of ?cf3 = ?C" by (simp add: file_bytes_def)
    have "\<exists>r cf4. (if ?wb > ?half then flush_excess B (?wb - ?half) 0 ?cf3 else ok (Inr 0, ?cf3)) = ok (r, cf4) \<and> (case r of
        Inl e \<Rightarrow> cb_io_failed (cf_file cf4)
      | Inr fl \<Rightarrow> \<exists>W'. cf_core sz (bytes_of cf4) ?R W' cf4 \<and> write_buffer_bytes cf4 = (\<Sum>k\<in>dom W'. sz k) + sz k
          \<and> fl + (\<Sum>k\<in>dom W'. sz k) = (\<Sum>k\<in>dom W. sz k) \<and> length (bytes_of cf4) = length ?C
          \<and> W' \<subseteq>\<^sub>m W \<and> (\<forall>k. W k = Some None \<longrightarrow> W' k = Some None)
          \<and> (\<forall>j. fits_with sz ?C ?R W j \<longrightarrow> view sz (bytes_of cf4) W' j = view sz ?C W j))"
    proof (cases "?wb > ?half")
      case True
      have "write_buffer_bytes ?cf3 = (\<Sum>k\<in>dom W. sz k) + sz k" "write_buffer_bytes ?cf3 < 2 ^ 64" "0 + (\<Sum>k\<in>dom W. sz k) < 2 ^ 64" using bnd(3) by auto
      from flush_excess_ok [OF core3 this, of "?wb - ?half"] obtain r cf4 where
        f: "flush_excess B (?wb - ?half) 0 ?cf3 = ok (r, cf4)" "case r of
            Inl e \<Rightarrow> cb_io_failed (cf_file cf4)
          | Inr fl \<Rightarrow> \<exists>W'. cf_core sz (bytes_of cf4) ?R W' cf4 \<and> write_buffer_bytes cf4 = (\<Sum>k\<in>dom W'. sz k) + sz k
              \<and> fl + (\<Sum>k\<in>dom W'. sz k) = 0 + (\<Sum>k\<in>dom W. sz k) \<and> length (bytes_of cf4) = length ?C
              \<and> W' \<subseteq>\<^sub>m W \<and> (\<forall>k. W k = Some None \<longrightarrow> W' k = Some None)
              \<and> (\<forall>j. fits_with sz ?C ?R W j \<longrightarrow> view sz (bytes_of cf4) W' j = view sz ?C W j)
              \<and> read_cache_bytes cf4 = read_cache_bytes ?cf3 \<and> max_cache_size cf4 = max_cache_size ?cf3" unfolding C3 by blast
      show ?thesis using f True by (cases r) auto
    next
      case False
      then show ?thesis using core3 C3 by (intro exI [of _ "Inr 0"] exI [of _ ?cf3]) auto
    qed
    then obtain r cf4 where r: "(if ?wb > ?half then flush_excess B (?wb - ?half) 0 ?cf3 else ok (Inr 0, ?cf3)) = ok (r, cf4)" "case r of
        Inl e \<Rightarrow> cb_io_failed (cf_file cf4)
      | Inr fl \<Rightarrow> \<exists>W'. cf_core sz (bytes_of cf4) ?R W' cf4 \<and> write_buffer_bytes cf4 = (\<Sum>k\<in>dom W'. sz k) + sz k
          \<and> fl + (\<Sum>k\<in>dom W'. sz k) = (\<Sum>k\<in>dom W. sz k) \<and> length (bytes_of cf4) = length ?C
          \<and> W' \<subseteq>\<^sub>m W \<and> (\<forall>k. W k = Some None \<longrightarrow> W' k = Some None)
          \<and> (\<forall>j. fits_with sz ?C ?R W j \<longrightarrow> view sz (bytes_of cf4) W' j = view sz ?C W j)" by blast
    show ?thesis
    proof (cases r)
      case (Inl e)
      then show ?thesis using step r by (simp add: io_then_def)
    next
      case (Inr fl)
      then obtain W' where W': "cf_core sz (bytes_of cf4) ?R W' cf4" "write_buffer_bytes cf4 = (\<Sum>k\<in>dom W'. sz k) + sz k"
        "fl + (\<Sum>k\<in>dom W'. sz k) = (\<Sum>k\<in>dom W. sz k)" "length (bytes_of cf4) = length ?C"
        "W' \<subseteq>\<^sub>m W" "\<And>k. W k = Some None \<Longrightarrow> W' k = Some None"
        "\<And>j. fits_with sz ?C ?R W j \<Longrightarrow> view sz (bytes_of cf4) W' j = view sz ?C W j" using r(2) by auto
      have dW: "dom W' \<subseteq> dom W" by (rule map_le_implies_dom_le [OF W'(5)])
      have sub: "fits_with sz ?C ?R W j" if "fits_with sz ?C R W j" for j by (rule pages_fit_mono [OF that]) auto
      have pk: "page (bytes_of cf4) k (sz k) = page ?C k (sz k)" "k \<notin> dom W'"
        using W'(7) [OF sub [OF k(2)]] vk kW dW by (auto simp: view_def domIff split: option.splits)
      have fit4: "fits_with sz (bytes_of cf4) ?R W' k" unfolding W'(4) by (rule pages_fit_mono [OF k(2)]) (use dW in auto)
      have cs: "csub ?wb fl = ok (write_buffer_bytes cf4)" using W'(2,3) by (simp add: csub_def)
      have ex4: "R k = None \<or> R k = Some (page (bytes_of cf4) k (sz k))" using ex pk(1) by simp
      have kR: "k \<notin> dom ?R" by simp
      obtain r' cf5 where w5: "write_insert B k (sz k) overwrite (R k) (write_buffer_bytes cf4) cf4 = ok (r', cf5)" "case r' of
          Inl e \<Rightarrow> cb_io_failed (cf_file cf5)
        | Inr p \<Rightarrow> wp_offset p = k \<and> bytes_of cf5 = bytes_of cf4
            \<and> wp_data p = (if R k = None \<and> overwrite then replicate (sz k) 0 else page (bytes_of cf4) k (sz k))
            \<and> (\<exists>R'. R' \<subseteq>\<^sub>m ?R \<and> cf_inv sz (bytes_of cf4) R' (W'(k \<mapsto> None)) cf5 \<and> (total_bytes cf5 \<le> max_cache_size cf4 \<or> R' = Map.empty))
            \<and> max_cache_size cf5 = max_cache_size cf4"
        using write_insert_ok [OF W'(1) kR pk(2) fit4 W'(2) refl ex4] by blast
      have step5: "cf_write B k (sz k) overwrite cf = ok (r', cf5)" using step r(1) Inr cs w5(1) by (simp add: io_then_def)
      show ?thesis
      proof (cases r')
        case (Inl e)
        then show ?thesis using step5 w5(2) by simp
      next
        case p: (Inr p)
        then obtain R' where R': "wp_offset p = k" "bytes_of cf5 = bytes_of cf4"
          "wp_data p = (if R k = None \<and> overwrite then replicate (sz k) 0 else page (bytes_of cf4) k (sz k))"
          "R' \<subseteq>\<^sub>m ?R" "cf_inv sz (bytes_of cf4) R' (W'(k \<mapsto> None)) cf5" using w5(2) by auto
        have "dom R' \<subseteq> dom R" using map_le_implies_dom_le [OF R'(4)] by auto
        moreover have "view sz (bytes_of cf4) (W'(k \<mapsto> None)) j = view sz ?C W j" if "j \<noteq> k" "fits_with sz ?C R W j" for j
          using W'(7) [OF sub [OF that(2)]] that(1) by (simp add: view_def)
        moreover have "(W'(k \<mapsto> None)) j = Some None \<longleftrightarrow> W j = Some None" if "j \<noteq> k" for j
          using that W'(5) W'(6) [of j] by (auto simp: map_le_def dom_def)
        moreover have "dom (W'(k \<mapsto> None)) \<subseteq> insert k (dom W)" using dW by auto
        ultimately have "\<exists>R' W'. cf_inv sz (bytes_of cf5) R' W' cf5 \<and> W' k = Some None \<and> length (bytes_of cf5) = length ?C
            \<and> dom R' \<subseteq> dom R \<and> dom W' \<subseteq> insert k (dom W)
            \<and> (\<forall>j. j \<noteq> k \<longrightarrow> (W' j = Some None \<longleftrightarrow> W j = Some None))
            \<and> (\<forall>j. j \<noteq> k \<longrightarrow> fits_with sz ?C R W j \<longrightarrow> view sz (bytes_of cf5) W' j = view sz ?C W j)"
          using R'(2,5) W'(4) by (intro exI [of _ R'] exI [of _ "W'(k \<mapsto> None)"] conjI) simp_all
        moreover have "wp_data p = (if overwrite \<and> k \<notin> dom R \<and> k \<notin> dom W then replicate (sz k) 0 else view sz ?C W k)"
          using R'(3) pk(1) vk kW by (simp add: domIff)
        ultimately show ?thesis using step5 p R'(1) by (intro exI [of _ r'] exI [of _ cf5]) simp
      qed
    qed
  qed
qed

lemma wp_drop_ok:
  assumes inv: "cf_inv sz (bytes_of cf) R W cf" and W: "W (wp_offset p) = Some None" and len: "length (wp_data p) = sz (wp_offset p)"
  shows "\<exists>cf'. wp_drop p cf = ok cf' \<and> cf_inv sz (bytes_of cf) R (W(wp_offset p \<mapsto> Some (wp_data p))) cf' \<and> bytes_of cf' = bytes_of cf"
proof -
  note core = cf_inv_core(1) [OF inv] and wbb = cf_inv_core(2) [OF inv]
  note i = cf_coreD [OF core]
  let ?W = "W(wp_offset p \<mapsto> Some (wp_data p))"
  obtain wb where w: "wc_return_value (write_buffer cf) (wp_offset p) (wp_data p) = ok wb" "lru_inv wb" "lru_map wb = ?W"
    using wc_return_ok [OF i(2), of "wp_offset p"] i(3) W by auto
  have dW: "dom ?W = dom W" using W by auto
  have "cf_core sz (bytes_of cf) R ?W (cf\<lparr>write_buffer := wb\<rparr>)"
    using i(1,4-8,10,11) w(2,3) len unfolding cf_core_def dW by simp
  then have "cf_inv sz (bytes_of cf) R ?W (cf\<lparr>write_buffer := wb\<rparr>)" unfolding cf_inv_def dW using wbb by simp
  then show ?thesis using w(1) by (simp add: wp_drop_def file_bytes_def)
qed

lemma flush_writes_ok:
  assumes "cf_core sz (bytes_of cf) R W cf" "distinct keys" "\<And>k. k \<in> set keys \<Longrightarrow> \<exists>v. W k = Some (Some v)"
  shows "\<exists>r cf'. flush_writes B keys cf = ok (r, cf') \<and> (case r of
      Inl e \<Rightarrow> cb_io_failed (cf_file cf')
    | Inr _ \<Rightarrow> (\<exists>f. cf' = cf\<lparr>cf_file := f\<rparr>) \<and> length (bytes_of cf') = length (bytes_of cf) \<and> cf_core sz (bytes_of cf') R W cf'
        \<and> (\<forall>j. fits_with sz (bytes_of cf) R W j \<longrightarrow> view sz (bytes_of cf') W j = view sz (bytes_of cf) W j)
        \<and> (\<forall>k\<in>set keys. W k = Some (Some (page (bytes_of cf') k (sz k))))
        \<and> (\<forall>k. W k = Some (Some (page (bytes_of cf) k (sz k))) \<longrightarrow> W k = Some (Some (page (bytes_of cf') k (sz k)))))"
  using assms
proof (induction keys arbitrary: cf)
  case Nil
  then show ?case by (intro exI [of _ "Inr ()"] exI [of _ cf]) (auto intro: exI [of _ "cf_file cf"])
next
  case (Cons k keys)
  let ?C = "bytes_of cf"
  note i = cf_coreD [OF Cons.prems(1)]
  obtain v where v: "W k = Some (Some v)" using Cons.prems(3) [of k] by auto
  have vl: "length v = sz k" "k + length v \<le> length ?C" using i(5,7) v by (auto simp: pages_fit_def)
  show ?case
  proof (cases "\<lambda>f. be_write B f k v" "cf_file cf" rule: cb_run_cases)
    case (failed e cb')
    then show ?thesis using i(3) v by (auto simp: on_file_def io_then_def cb_write_def)
  next
    case (success u f')
    let ?cf = "cf\<lparr>cf_file := (cf_file cf)\<lparr>cb_file := f'\<rparr>\<rparr>"
    have C': "bytes_of ?cf = splice ?C k v" using write_law [OF success(1)] vl(2) by (simp add: file_bytes_def)
    note sp = splice_core [OF Cons.prems(1) v C']
    have core: "cf_core sz (bytes_of ?cf) R W ?cf"
      using i(1-5,7,8,10,11) sp(1,4) by (auto simp: cf_core_def)
    have step: "flush_writes B (k # keys) cf = flush_writes B keys ?cf"
      using i(3) v success by (simp add: on_file_def io_then_def cb_write_def)
    have kp: "W j = Some (Some (page (bytes_of ?cf) j (sz j)))" if "W j = Some (Some (page ?C j (sz j)))" for j
    proof (cases "j = k")
      case False
      have "fits_with sz ?C R W j" using i(5) that by (metis UnI2 domI insert_absorb)
      then show ?thesis using sp(3) False that by simp
    qed (use v sp(2) in simp)
    obtain r cf' where r: "flush_writes B keys ?cf = ok (r, cf')" "case r of
      Inl e \<Rightarrow> cb_io_failed (cf_file cf')
    | Inr _ \<Rightarrow> (\<exists>f. cf' = ?cf\<lparr>cf_file := f\<rparr>) \<and> length (bytes_of cf') = length (bytes_of ?cf) \<and> cf_core sz (bytes_of cf') R W cf'
        \<and> (\<forall>j. fits_with sz (bytes_of ?cf) R W j \<longrightarrow> view sz (bytes_of cf') W j = view sz (bytes_of ?cf) W j)
        \<and> (\<forall>k\<in>set keys. W k = Some (Some (page (bytes_of cf') k (sz k))))
        \<and> (\<forall>k. W k = Some (Some (page (bytes_of ?cf) k (sz k))) \<longrightarrow> W k = Some (Some (page (bytes_of cf') k (sz k))))"
      using Cons.IH [OF core] Cons.prems(2,3) by auto
    show ?thesis
    proof (cases r)
      case (Inl e)
      then show ?thesis using step r by simp
    next
      case (Inr u)
      have q: "\<exists>f. cf' = ?cf\<lparr>cf_file := f\<rparr>" "length (bytes_of cf') = length (bytes_of ?cf)" "cf_core sz (bytes_of cf') R W cf'"
        "\<And>j. fits_with sz (bytes_of ?cf) R W j \<Longrightarrow> view sz (bytes_of cf') W j = view sz (bytes_of ?cf) W j"
        "\<And>k. k \<in> set keys \<Longrightarrow> W k = Some (Some (page (bytes_of cf') k (sz k)))"
        "\<And>k. W k = Some (Some (page (bytes_of ?cf) k (sz k))) \<Longrightarrow> W k = Some (Some (page (bytes_of cf') k (sz k)))"
        using r(2) unfolding Inr sum.case by blast+
      have k': "W k = Some (Some (page (bytes_of cf') k (sz k)))" using q(6) [of k] v sp(2) by simp
      have vw: "view sz (bytes_of cf') W j = view sz ?C W j" if "fits_with sz ?C R W j" for j
        using q(4) [of j] view_splice(1) [OF Cons.prems(1) v C' that] that unfolding sp(1) by simp
      obtain f where f: "cf' = cf\<lparr>cf_file := f\<rparr>" using q(1) by auto
      have body: "(\<exists>f. cf' = cf\<lparr>cf_file := f\<rparr>) \<and> length (bytes_of cf') = length ?C \<and> cf_core sz (bytes_of cf') R W cf'
        \<and> (\<forall>j. fits_with sz ?C R W j \<longrightarrow> view sz (bytes_of cf') W j = view sz ?C W j)
        \<and> (\<forall>k\<in>set (k # keys). W k = Some (Some (page (bytes_of cf') k (sz k))))
        \<and> (\<forall>k. W k = Some (Some (page ?C k (sz k))) \<longrightarrow> W k = Some (Some (page (bytes_of cf') k (sz k))))"
      proof (intro conjI)
        show "\<forall>k\<in>set (k # keys). W k = Some (Some (page (bytes_of cf') k (sz k)))" using k' q(5) by (metis set_ConsD)
        show "\<forall>k. W k = Some (Some (page ?C k (sz k))) \<longrightarrow> W k = Some (Some (page (bytes_of cf') k (sz k)))" using kp q(6) by blast
        show "length (bytes_of cf') = length ?C" using q(2) sp(1) by simp
        show "\<forall>j. fits_with sz ?C R W j \<longrightarrow> view sz (bytes_of cf') W j = view sz ?C W j" using vw by blast
      qed (use q(3) f in blast)+
      have eq: "flush_writes B (k # keys) cf = ok (r, cf')" using step r(1) by simp
      show ?thesis by (intro exI [of _ r] exI [of _ cf'] conjI [OF eq]) (unfold Inr sum.case, rule body)
    qed
  qed
qed

end

lemma flush_transfer_ok:
  assumes "cf_core sz C R Map.empty (cf\<lparr>write_buffer := lru_clear (write_buffer cf)\<rparr>)" "distinct keys" "set keys \<inter> dom R = {}"
    "pages_fit sz (length C) (dom R \<union> set keys)" "\<And>k. k \<in> set keys \<Longrightarrow> lru_map (write_buffer cf) k = Some (Some (page C k (sz k)))"
  shows "\<exists>R' cf'. flush_transfer keys cf = ok cf' \<and> cf_core sz C R' Map.empty (cf'\<lparr>write_buffer := lru_clear (write_buffer cf')\<rparr>)
    \<and> dom R' \<subseteq> dom R \<union> set keys \<and> cf_file cf' = cf_file cf \<and> max_cache_size cf' = max_cache_size cf
    \<and> read_cache_bytes cf' \<le> max (read_cache_bytes cf) (max_cache_size cf)"
  using assms
proof (induction keys arbitrary: cf R)
  case Nil
  then show ?case by auto
next
  case (Cons k keys)
  let ?v = "page C k (sz k)" let ?s = "k mod lock_stripes"
  note i = cf_coreD [OF Cons.prems(1)]
  have kR: "k \<notin> dom R" using Cons.prems(3) by auto
  have len: "length ?v = sz k" using Cons.prems(4) by (auto simp: pages_fit_def intro: length_page)
  have fit: "pages_fit sz (length C) (insert k (dom R \<union> dom Map.empty))" by (rule pages_fit_mono [OF Cons.prems(4)]) auto
  have "(\<Sum>j\<in>insert k (dom R). sz j) \<le> length C" by (rule pages_fit_sum [OF pages_fit_mono [OF Cons.prems(4)]]) (use i(12) in auto)
  then have L: "read_cache_bytes cf + sz k \<le> length C" using i(8,12) kR by simp
  have bnd: "fetch_add (read_cache_bytes cf) (length ?v) = read_cache_bytes cf + sz k" "cadd 64 (read_cache_bytes cf) (length ?v) = ok (read_cache_bytes cf + sz k)"
    "fetch_sub (read_cache_bytes cf + sz k) (length ?v) = read_cache_bytes cf"
    using L i(10) by (simp_all add: fetch_ok cadd_def len)
  have e: "lru_map (write_buffer cf) k = Some (Some ?v)" using Cons.prems(5) by simp
  show ?case
  proof (cases "read_cache_bytes cf + sz k \<le> max_cache_size cf")
    case False
    then have "flush_transfer (k # keys) cf = ok cf" using e bnd by (simp add: Let_def)
    then show ?thesis using Cons.prems(1) by (intro exI [of _ R] exI [of _ cf]) auto
  next
    case True
    obtain l where l: "lru_insert (read_cache cf ! ?s) k ?v = (None, l)" "striped lru_inv lru_map ((read_cache cf)[?s := l]) (R(k \<mapsto> ?v))"
    proof -
      obtain x l where x: "lru_insert (read_cache cf ! ?s) k ?v = (x, l)" by fastforce
      have st: "striped lru_inv lru_map (read_cache cf) R" using i(1) by simp
      have "x = None" using lru.striped_ins(1) [OF st x] kR by (simp add: domIff)
      then show thesis using that [of l] x lru.striped_ins(2) [OF st x] by blast
    qed
    let ?cf = "cf\<lparr>read_cache := (read_cache cf)[?s := l], read_cache_bytes := read_cache_bytes cf + sz k\<rparr>"
    have c0: "cf_core sz C (R(k \<mapsto> ?v)) Map.empty (cf\<lparr>write_buffer := lru_clear (write_buffer cf)\<rparr>\<lparr>read_cache := (read_cache cf)[?s := l],
        read_cache_bytes := read_cache_bytes cf + sz k\<rparr>)"
      by (rule cf_core_add [OF Cons.prems(1) l(2) kR _ fit]) simp_all
    have e1: "?cf\<lparr>write_buffer := lru_clear (write_buffer ?cf)\<rparr> = cf\<lparr>write_buffer := lru_clear (write_buffer cf)\<rparr>\<lparr>read_cache := (read_cache cf)[?s := l],
        read_cache_bytes := read_cache_bytes cf + sz k\<rparr>" by (cases cf) simp
    have core: "cf_core sz C (R(k \<mapsto> ?v)) Map.empty (?cf\<lparr>write_buffer := lru_clear (write_buffer ?cf)\<rparr>)" unfolding e1 by (rule c0)
    have step: "flush_transfer (k # keys) cf = flush_transfer keys ?cf"
      using e bnd True l(1) i(16) by (simp add: Let_def)
    have pre: "distinct keys" "set keys \<inter> dom (R(k \<mapsto> ?v)) = {}" "pages_fit sz (length C) (dom (R(k \<mapsto> ?v)) \<union> set keys)"
      "\<And>k. k \<in> set keys \<Longrightarrow> lru_map (write_buffer ?cf) k = Some (Some (page C k (sz k)))"
      using Cons.prems(2-5) by auto
    obtain R' cf' where q: "flush_transfer keys ?cf = ok cf'" "cf_core sz C R' Map.empty (cf'\<lparr>write_buffer := lru_clear (write_buffer cf')\<rparr>)"
      "dom R' \<subseteq> dom (R(k \<mapsto> ?v)) \<union> set keys" "cf_file cf' = cf_file ?cf" "max_cache_size cf' = max_cache_size ?cf"
      "read_cache_bytes cf' \<le> max (read_cache_bytes ?cf) (max_cache_size ?cf)" using Cons.IH [OF core pre] by blast
    have "dom R' \<subseteq> dom R \<union> set (k # keys)" using q(3) by auto
    then show ?thesis using step q True by (intro exI [of _ R'] exI [of _ cf']) simp
  qed
qed

context storage_backend
begin

lemma cf_flush_ok:
  assumes inv: "cf_inv sz (bytes_of cf) R W cf" and keys: "distinct keys" "set keys = dom W" and lent: "\<And>k. W k \<noteq> Some None"
  shows "\<exists>r cf'. cf_flush B keys cf = ok (r, cf') \<and> (case r of
      Inl e \<Rightarrow> cb_io_failed (cf_file cf')
    | Inr _ \<Rightarrow> (\<exists>R'. cf_inv sz (bytes_of cf') R' Map.empty cf' \<and> dom R' \<subseteq> dom R \<union> dom W) \<and> length (bytes_of cf') = length (bytes_of cf)
        \<and> (\<forall>j. fits_with sz (bytes_of cf) R W j \<longrightarrow> page (bytes_of cf') j (sz j) = view sz (bytes_of cf) W j)
        \<and> total_bytes cf' \<le> max (read_cache_bytes cf) (max_cache_size cf))"
proof -
  let ?C = "bytes_of cf"
  note core = cf_inv_core(1) [OF inv] and wbb = cf_inv_core(2) [OF inv]
  note i = cf_coreD [OF core]
  have kv: "\<exists>v. W k = Some (Some v)" if "k \<in> set keys" for k using that keys(2) lent [of k] by (cases "W k") auto
  obtain r cf1 where r: "flush_writes B keys cf = ok (r, cf1)" "case r of
      Inl e \<Rightarrow> cb_io_failed (cf_file cf1)
    | Inr _ \<Rightarrow> (\<exists>f. cf1 = cf\<lparr>cf_file := f\<rparr>) \<and> length (bytes_of cf1) = length ?C \<and> cf_core sz (bytes_of cf1) R W cf1
        \<and> (\<forall>j. fits_with sz ?C R W j \<longrightarrow> view sz (bytes_of cf1) W j = view sz ?C W j)
        \<and> (\<forall>k\<in>set keys. W k = Some (Some (page (bytes_of cf1) k (sz k))))
        \<and> (\<forall>k. W k = Some (Some (page ?C k (sz k))) \<longrightarrow> W k = Some (Some (page (bytes_of cf1) k (sz k))))"
    using flush_writes_ok [OF core keys(1) kv] by blast
  show ?thesis
  proof (cases r)
    case (Inl e)
    then show ?thesis using r by (auto simp: cf_flush_def flush_write_buffer_def io_then_def)
  next
    case (Inr u)
    have q: "\<exists>f. cf1 = cf\<lparr>cf_file := f\<rparr>" "length (bytes_of cf1) = length ?C" "cf_core sz (bytes_of cf1) R W cf1"
      "\<And>j. fits_with sz ?C R W j \<Longrightarrow> view sz (bytes_of cf1) W j = view sz ?C W j"
      "\<And>k. k \<in> set keys \<Longrightarrow> W k = Some (Some (page (bytes_of cf1) k (sz k)))"
      using r(2) unfolding Inr sum.case by blast+
    let ?C1 = "bytes_of cf1"
    note j = cf_coreD [OF q(3)]
    have same: "read_cache_bytes cf1 = read_cache_bytes cf" "max_cache_size cf1 = max_cache_size cf" using q(1) by auto
    have "pages_fit sz (length ?C1) (dom R)" by (rule pages_fit_mono [OF j(5)]) simp
    then have core1: "cf_core sz ?C1 R Map.empty (cf1\<lparr>write_buffer := lru_clear (write_buffer cf1)\<rparr>)"
      using j(1,6,8,10,11) by (simp add: cf_core_def)
    have tr: "set keys \<inter> dom R = {}" "pages_fit sz (length ?C1) (dom R \<union> set keys)"
      "\<And>k. k \<in> set keys \<Longrightarrow> lru_map (write_buffer cf1) k = Some (Some (page ?C1 k (sz k)))"
      using j(3-5) keys(2) q(5) by auto
    obtain R' cf2 where t: "flush_transfer keys cf1 = ok cf2" "cf_core sz ?C1 R' Map.empty (cf2\<lparr>write_buffer := lru_clear (write_buffer cf2)\<rparr>)"
      "dom R' \<subseteq> dom R \<union> set keys" "cf_file cf2 = cf_file cf1" "max_cache_size cf2 = max_cache_size cf1" "read_cache_bytes cf2 \<le> max (read_cache_bytes cf1) (max_cache_size cf1)"
      using flush_transfer_ok [OF core1 keys(1) tr] by blast
    let ?cf3 = "cf2\<lparr>write_buffer_bytes := 0, write_buffer := lru_clear (write_buffer cf2)\<rparr>"
    have inv3: "cf_inv sz ?C1 R' Map.empty ?cf3" using t(2) by (simp add: cf_inv_def cf_core_def)
    have fl: "cf_flush B keys cf = on_file (cb_sync_data B) ?cf3"
      using r(1) Inr t(1) by (simp add: cf_flush_def flush_write_buffer_def io_then_def)
    show ?thesis
    proof (cases "be_sync_data B" "cf_file ?cf3" rule: cb_run_cases)
      case (failed e cb')
      then show ?thesis using fl by (auto simp: on_file_def cb_sync_data_def)
    next
      case (success u f')
      let ?cf4 = "?cf3\<lparr>cf_file := (cf_file ?cf3)\<lparr>cb_file := f'\<rparr>\<rparr>"
      have C4: "bytes_of ?cf4 = ?C1" using sync_law [OF success(1)] t(4) by (simp add: file_bytes_def)
      have inv4: "cf_inv sz ?C1 R' Map.empty ?cf4" using inv3 by (simp add: cf_inv_def cf_core_def)
      have pg: "page ?C1 j (sz j) = view sz ?C W j" if "fits_with sz ?C R W j" for j
      proof (cases "W j")
        case None
        then show ?thesis using q(4) [OF that] by (simp add: view_def)
      next
        case (Some x)
        then have "W j = Some (Some (page ?C1 j (sz j)))" using q(5) [of j] keys(2) by auto
        then show ?thesis by (simp add: view_def)
      qed
      have eq: "cf_flush B keys cf = ok (Inr u, ?cf4)" using fl success by (simp add: on_file_def cb_sync_data_def)
      have tb: "total_bytes ?cf4 \<le> max (read_cache_bytes cf) (max_cache_size cf)" using t(6) same by (simp add: total_bytes_def)
      show ?thesis
      proof (intro exI [of _ "Inr u"] exI [of _ ?cf4] conjI [OF eq], unfold sum.case C4, intro conjI)
        show "\<exists>R'. cf_inv sz ?C1 R' Map.empty ?cf4 \<and> dom R' \<subseteq> dom R \<union> dom W" using inv4 t(3) keys(2) by blast
        show "\<forall>j. fits_with sz ?C R W j \<longrightarrow> page ?C1 j (sz j) = view sz ?C W j" using pg by blast
      qed (use q(2) tb in simp_all)
    qed
  qed
qed

end

subsection \<open>Latching of failures\<close>

text \<open>After an I/O failure, or after closing, no operation reaches the backend any more.\<close>

lemma cb_run_latched: "cb_io_failed cb \<Longrightarrow> cb_run op cb = (Inl (if cb_closed cb then Database_Closed else Previous_Io), cb)"
  by (simp add: cb_run_def check_failure_def)

lemma on_file_latched:
  "cb_io_failed (cf_file cf) \<Longrightarrow> on_file (cb_run op) cf = ok (Inl (if cb_closed (cf_file cf) then Database_Closed else Previous_Io), cf)"
  by (simp add: on_file_def cb_run_latched)

lemma flush_writes_latched:
  assumes "cb_io_failed (cf_file cf)" "\<And>k. k \<in> set keys \<Longrightarrow> \<exists>v. lru_map (write_buffer cf) k = Some (Some v)"
  shows "flush_writes B keys cf = (if keys = [] then ok (Inr (), cf) else ok (Inl (if cb_closed (cf_file cf) then Database_Closed else Previous_Io), cf))"
proof (cases keys)
  case (Cons k ks)
  then obtain v where "lru_map (write_buffer cf) k = Some (Some v)" using assms(2) [of k] by auto
  then show ?thesis using Cons assms(1) by (simp add: io_then_def on_file_latched cb_write_def)
qed simp

subsection \<open>Properties\<close>

text \<open>C11. Reading is coherent: for a backend that keeps its contract, \<open>read\<close> returns the current value of the page, the pending
  write if there is one and the bytes of the file otherwise, whether or not the page is cached; it never panics, changes
  no page, and never takes the cache over its budget.  It fails only with an I/O error, which is latched.\<close>

theorem cached_read_coherent:
  assumes "storage_backend B content" "cf_inv sz (file_bytes content cf) R W cf" "k mod cf_page_size cf = 0"
    "pages_fit sz (length (file_bytes content cf)) (insert k (dom R \<union> dom W))" "W k \<noteq> Some None" "hint = Hint_Clean \<Longrightarrow> k \<notin> dom W"
  shows "\<exists>r cf'. cf_read B k (sz k) hint cf = ok (r, cf') \<and> (case r of
      Inl e \<Rightarrow> cb_io_failed (cf_file cf')
    | Inr v \<Rightarrow> v = view sz (file_bytes content cf) W k \<and> file_bytes content cf' = file_bytes content cf
        \<and> (\<exists>R'. cf_inv sz (file_bytes content cf) R' W cf' \<and> dom R' \<subseteq> insert k (dom R))
        \<and> total_bytes cf' \<le> max (total_bytes cf) (max_cache_size cf) \<and> max_cache_size cf' = max_cache_size cf)"
  using storage_backend.cf_read_ok [OF assms] .

lemma cf_new_inv:
  assumes "0 < ps" "length C < 2 ^ 62"
  shows "cf_inv sz C Map.empty Map.empty (cf_new f ps mx)"
proof -
  have "striped lru_inv lru_map (replicate lock_stripes (lru_new :: byte list lru)) Map.empty"
    by (auto simp: striped_def)
  then show ?thesis using assms by (simp add: cf_inv_def cf_core_def cf_new_def pages_fit_def)
qed

theorem cached_read_coherent_witness:
  "\<exists>r cf'. cf_read in_memory_backend 4 4 Hint_None (cf_new [0, 1, 2, 3, 4, 5, 6, 7] 4 100) = ok (r, cf')"
proof -
  let ?cf = "cf_new [0, 1, 2, 3, 4, 5, 6, 7 :: byte] 4 100"
  have f: "file_bytes (\<lambda>g. g) ?cf = [0, 1, 2, 3, 4, 5, 6, 7]" by (simp add: file_bytes_def cf_new_def cb_new_def)
  have i: "cf_inv (\<lambda>_. 4) (file_bytes (\<lambda>g. g) ?cf) Map.empty Map.empty ?cf" unfolding f by (rule cf_new_inv) auto
  have fit: "pages_fit (\<lambda>_. 4) (length (file_bytes (\<lambda>g. g) ?cf)) (insert 4 (dom Map.empty \<union> dom Map.empty))" unfolding f by (simp add: pages_fit_def)
  have p: "4 mod cf_page_size ?cf = 0" by (simp add: cf_new_def)
  show ?thesis using cached_read_coherent [OF in_memory.storage_backend_axioms i p fit, of Hint_None] by auto
qed

text \<open>C12. Writing is isolated: \<open>write\<close> lends out the current value of the page (zeros for a fresh overwritten page), whatever
  it has to flush or evict to make room, and dropping the page with new data makes that data the value
  of the page and of no other page.\<close>

theorem cached_write_isolated:
  assumes B: "storage_backend B content" and inv: "cf_inv sz (file_bytes content cf) R W cf" and k: "k mod cf_page_size cf = 0"
    "pages_fit sz (length (file_bytes content cf)) (insert k (dom R \<union> dom W))" and W: "W k \<noteq> Some None"
  shows "\<exists>r cf'. cf_write B k (sz k) overwrite cf = ok (r, cf') \<and> (case r of
      Inl e \<Rightarrow> cb_io_failed (cf_file cf')
    | Inr p \<Rightarrow> wp_offset p = k
        \<and> wp_data p = (if overwrite \<and> k \<notin> dom R \<and> k \<notin> dom W then replicate (sz k) 0 else view sz (file_bytes content cf) W k)
        \<and> (\<forall>d. length d = sz k \<longrightarrow> (\<exists>cf'' R' W'. wp_drop (p\<lparr>wp_data := d\<rparr>) cf' = ok cf'' \<and> cf_inv sz (file_bytes content cf'') R' W' cf''
            \<and> view sz (file_bytes content cf'') W' k = d
            \<and> (\<forall>j. j \<noteq> k \<longrightarrow> pages_fit sz (length (file_bytes content cf)) (insert j (dom R \<union> dom W)) \<longrightarrow>
                view sz (file_bytes content cf'') W' j = view sz (file_bytes content cf) W j))))"
proof -
  let ?C = "file_bytes content cf"
  obtain r cf' where r: "cf_write B k (sz k) overwrite cf = ok (r, cf')" "case r of
      Inl e \<Rightarrow> cb_io_failed (cf_file cf')
    | Inr p \<Rightarrow> wp_offset p = k
        \<and> wp_data p = (if overwrite \<and> k \<notin> dom R \<and> k \<notin> dom W then replicate (sz k) 0 else view sz ?C W k)
        \<and> (\<exists>R' W'. cf_inv sz (file_bytes content cf') R' W' cf' \<and> W' k = Some None \<and> length (file_bytes content cf') = length ?C
            \<and> dom R' \<subseteq> dom R \<and> dom W' \<subseteq> insert k (dom W)
            \<and> (\<forall>j. j \<noteq> k \<longrightarrow> (W' j = Some None \<longleftrightarrow> W j = Some None))
            \<and> (\<forall>j. j \<noteq> k \<longrightarrow> fits_with sz ?C R W j \<longrightarrow> view sz (file_bytes content cf') W' j = view sz ?C W j))"
    using storage_backend.cf_write_ok [OF B inv k W] by blast
  show ?thesis
  proof (cases r)
    case (Inl e)
    then show ?thesis using r by simp
  next
    case (Inr p)
    then obtain R' W' where w: "wp_offset p = k" "wp_data p = (if overwrite \<and> k \<notin> dom R \<and> k \<notin> dom W then replicate (sz k) 0 else view sz ?C W k)"
      "cf_inv sz (file_bytes content cf') R' W' cf'" "W' k = Some None"
      "\<And>j. j \<noteq> k \<Longrightarrow> fits_with sz ?C R W j \<Longrightarrow> view sz (file_bytes content cf') W' j = view sz ?C W j" using r(2) by auto
    have "\<exists>cf'' R' W'. wp_drop (p\<lparr>wp_data := d\<rparr>) cf' = ok cf'' \<and> cf_inv sz (file_bytes content cf'') R' W' cf''
            \<and> view sz (file_bytes content cf'') W' k = d
            \<and> (\<forall>j. j \<noteq> k \<longrightarrow> fits_with sz ?C R W j \<longrightarrow> view sz (file_bytes content cf'') W' j = view sz ?C W j)" if ld: "length d = sz k" for d
    proof -
      obtain cf'' where d: "wp_drop (p\<lparr>wp_data := d\<rparr>) cf' = ok cf''" "cf_inv sz (file_bytes content cf') R' (W'(k \<mapsto> Some d)) cf''"
        "file_bytes content cf'' = file_bytes content cf'"
        using storage_backend.wp_drop_ok [OF B w(3), of "p\<lparr>wp_data := d\<rparr>"] w(1,4) ld by auto
      show ?thesis using d w(5) by (intro exI [of _ cf''] exI [of _ R'] exI [of _ "W'(k \<mapsto> Some d)"]) (simp add: view_def)
    qed
    then show ?thesis using r(1) Inr w(1,2) by (intro exI [of _ r] exI [of _ cf']) simp
  qed
qed

theorem cached_write_isolated_witness:
  "\<exists>r cf'. cf_write in_memory_backend 4 4 False (cf_new [0, 1, 2, 3, 4, 5, 6, 7] 4 100) = ok (r, cf')"
proof -
  let ?cf = "cf_new [0, 1, 2, 3, 4, 5, 6, 7 :: byte] 4 100"
  have f: "file_bytes (\<lambda>g. g) ?cf = [0, 1, 2, 3, 4, 5, 6, 7]" by (simp add: file_bytes_def cf_new_def cb_new_def)
  have i: "cf_inv (\<lambda>_. 4) (file_bytes (\<lambda>g. g) ?cf) Map.empty Map.empty ?cf" unfolding f by (rule cf_new_inv) auto
  have fit: "pages_fit (\<lambda>_. 4) (length (file_bytes (\<lambda>g. g) ?cf)) (insert 4 (dom Map.empty \<union> dom Map.empty))" unfolding f by (simp add: pages_fit_def)
  have p: "4 mod cf_page_size ?cf = 0" by (simp add: cf_new_def)
  show ?thesis using cached_write_isolated [OF in_memory.storage_backend_axioms i p fit, of False] by auto
qed

text \<open>C10. Flushing loses nothing: when no page is lent out, a successful \<open>flush\<close> leaves the write buffer empty and the file
  holding the current value of every page, in whatever order the hash map is iterated; the pages moved to the read cache stay within the budget.\<close>

theorem cached_flush_complete:
  assumes "storage_backend B content" "cf_inv sz (file_bytes content cf) R W cf" "distinct keys" "set keys = dom W" "\<And>k. W k \<noteq> Some None"
  shows "\<exists>r cf'. cf_flush B keys cf = ok (r, cf') \<and> (case r of
      Inl e \<Rightarrow> cb_io_failed (cf_file cf')
    | Inr _ \<Rightarrow> (\<exists>R'. cf_inv sz (file_bytes content cf') R' Map.empty cf' \<and> dom R' \<subseteq> dom R \<union> dom W)
        \<and> length (file_bytes content cf') = length (file_bytes content cf)
        \<and> (\<forall>j. pages_fit sz (length (file_bytes content cf)) (insert j (dom R \<union> dom W)) \<longrightarrow>
            page (file_bytes content cf') j (sz j) = view sz (file_bytes content cf) W j)
        \<and> total_bytes cf' \<le> max (read_cache_bytes cf) (max_cache_size cf))"
  using storage_backend.cf_flush_ok [OF assms] .

theorem cached_flush_complete_witness:
  "\<exists>r cf'. cf_flush in_memory_backend [] (cf_new [0, 1, 2, 3, 4, 5, 6, 7] 4 100) = ok (r, cf')"
proof -
  let ?cf = "cf_new [0, 1, 2, 3, 4, 5, 6, 7 :: byte] 4 100"
  have f: "file_bytes (\<lambda>g. g) ?cf = [0, 1, 2, 3, 4, 5, 6, 7]" by (simp add: file_bytes_def cf_new_def cb_new_def)
  have i: "cf_inv (\<lambda>_. 4) (file_bytes (\<lambda>g. g) ?cf) Map.empty Map.empty ?cf" unfolding f by (rule cf_new_inv) auto
  show ?thesis using cached_flush_complete [OF in_memory.storage_backend_axioms i, of "[]"] by auto
qed



end
