(* ===== verification/Page_Manager.thy ===== *)
theory Page_Manager
  imports Region Header Cached_File
begin

text \<open>
  \<open>TransactionalMemory\<close> and \<open>PageAllocator\<close>, \<open>src/tree_store/page_store/page_manager.rs\<close>: the
  page manager, which combines the header of the file, the allocators of its regions and the cached file.  It hands
  out and takes back pages, grows and shrinks the file, and makes the work of a transaction visible by
  switching between the two commit slots of the header.

  The fields that the code only has in a debug build (the open pages, the reference counts of the pages lent to readers and
  the set of allocated pages) are part of the state, with the assertions on them.  A function that can fail returns its
  result with the state it leaves behind.  \<open>it\<close> gives the iteration order of the write buffer.
  The lemmas are in \<open>Page_Manager_Ops\<close>.
\<close>

subsection \<open>Constants and errors\<close>

definition NO_HEADER :: nat where "NO_HEADER = 0"
definition MAX_USABLE_REGION_SPACE :: nat where "MAX_USABLE_REGION_SPACE = 4 * 1024 * 1024 * 1024"
definition MIN_USABLE_PAGES :: nat where "MIN_USABLE_PAGES = 10"
definition MIN_DESIRED_USABLE_BYTES :: nat where "MIN_DESIRED_USABLE_BYTES = 1024 * 1024"

datatype shrink_policy = Shrink_Default | Shrink_Maximum | Shrink_Never

datatype allocation_policy = Alloc_Default | Alloc_Lowest

datatype database_error = De_Storage storage_error | De_Header db_error | Repair_Aborted

definition is_power_of_two :: "nat \<Rightarrow> bool" where
  "is_power_of_two x \<longleftrightarrow> 0 < x \<and> x = 2 ^ (bit_len x - 1)"

definition next_power_of_two :: "nat \<Rightarrow> nat rust" where
  "next_power_of_two x = (let p = (if x \<le> 1 then 1 else 2 ^ bit_len (x - 1)) in if p < 2 ^ 64 then ok p else panic)"

definition ceil_log2 :: "nat \<Rightarrow> nat rust" where
  "ceil_log2 x = (if is_power_of_two x then try_into 8 (trailing_zeros 64 x)
     else do { p \<leftarrow> next_power_of_two x; try_into 8 (trailing_zeros 64 p) })"

text \<open>The question mark operator from \<open>StorageError\<close> and from the errors of the header to \<open>DatabaseError\<close>.\<close>

definition into_db :: "((storage_error + 'a) \<times> 's) rust \<Rightarrow> ((database_error + 'a) \<times> 's) rust" where
  "into_db m = do { (r, s) \<leftarrow> m; ok (map_sum De_Storage id r, s) }"

definition with_header :: "(db_error + 'a) rust \<Rightarrow> 's \<Rightarrow> ('a \<Rightarrow> ((database_error + 'b) \<times> 's) rust) \<Rightarrow> ((database_error + 'b) \<times> 's) rust" where
  "with_header m s f = do { r \<leftarrow> m; case r of Inl e \<Rightarrow> ok (Inl (De_Header e), s) | Inr x \<Rightarrow> f x }"

subsection \<open>\<open>InMemoryState\<close>\<close>

record in_memory_state =
  ims_header :: db_header
  ims_allocators :: "allocators option"
  read_from_secondary :: bool

definition ims_new :: "db_header \<Rightarrow> in_memory_state" where
  "ims_new header = \<lparr>ims_header = header, ims_allocators = None, read_from_secondary = False\<rparr>"

text \<open>\<open>allocators()\<close> is \<open>ims_allocators st\<close>, which panics while the allocators are not loaded.\<close>

definition get_region :: "in_memory_state \<Rightarrow> nat \<Rightarrow> buddy rust" where
  "get_region st region = do { al \<leftarrow> ims_allocators st; index (region_allocators al) region }"

definition set_region :: "in_memory_state \<Rightarrow> nat \<Rightarrow> buddy \<Rightarrow> in_memory_state rust" where
  "set_region st region a = do {
     al \<leftarrow> ims_allocators st;
     as \<leftarrow> index_set (region_allocators al) region a;
     ok (st\<lparr>ims_allocators := Some (al\<lparr>region_allocators := as\<rparr>)\<rparr>) }"

definition get_region_tracker :: "in_memory_state \<Rightarrow> region_tracker rust" where
  "get_region_tracker st = do { al \<leftarrow> ims_allocators st; ok (region_tracker al) }"

definition set_region_tracker :: "in_memory_state \<Rightarrow> region_tracker \<Rightarrow> in_memory_state rust" where
  "set_region_tracker st rt = do { al \<leftarrow> ims_allocators st; ok (st\<lparr>ims_allocators := Some (al\<lparr>region_tracker := rt\<rparr>)\<rparr>) }"

definition latest_slot :: "in_memory_state \<Rightarrow> transaction_header rust" where
  "latest_slot st = (if read_from_secondary st then secondary_slot (ims_header st) else primary_slot (ims_header st))"

subsection \<open>\<open>TransactionalMemory\<close>\<close>

record 'f tx_memory =
  tm_unpersisted :: "page_number set"
  unpersisted_allocations :: "(nat \<times> page_number set) list"
  unpersisted_allocation_txn :: "page_number \<rightharpoonup> nat"
  tm_storage :: "'f cached_file"
  tm_state :: in_memory_state
  open_dirty_pages :: "page_number set"
  read_page_ref_counts :: "page_number \<rightharpoonup> nat"
  allocated_pages :: "page_number set"
  tm_page_size :: nat
  tm_region_size :: nat
  region_header_with_padding_size :: nat

type_synonym ('f, 'a) tm_result = "((storage_error + 'a) \<times> 'f tx_memory) rust"

definition on_storage :: "('f cached_file \<Rightarrow> ((storage_error + 'a) \<times> 'f cached_file) rust) \<Rightarrow> 'f tx_memory \<Rightarrow> ('f, 'a) tm_result" where
  "on_storage op m = do { (r, cf) \<leftarrow> op (tm_storage m); ok (r, m\<lparr>tm_storage := cf\<rparr>) }"

abbreviation set_header :: "'f tx_memory \<Rightarrow> db_header \<Rightarrow> 'f tx_memory" where
  "set_header m h \<equiv> m\<lparr>tm_state := (tm_state m)\<lparr>ims_header := h\<rparr>\<rparr>"

abbreviation tm_header :: "'f tx_memory \<Rightarrow> db_header" where
  "tm_header m \<equiv> ims_header (tm_state m)"

definition put_header :: "'f backend \<Rightarrow> db_header \<Rightarrow> bool \<Rightarrow> 'f cached_file \<Rightarrow> ('f, unit) cf_result" where
  "put_header B header include_magic_number cf = io_then (cf_write B 0 DB_HEADER_SIZE True cf) (\<lambda>page cf. do {
     bytes \<leftarrow> hd_to_bytes header include_magic_number;
     assert_that (length bytes = length (wp_data page));
     cf \<leftarrow> wp_drop (page\<lparr>wp_data := bytes\<rparr>) cf;
     ok (Inr (), cf) })"

definition write_header :: "'f backend \<Rightarrow> db_header \<Rightarrow> 'f tx_memory \<Rightarrow> ('f, unit) tm_result" where
  "write_header B header m = on_storage (put_header B header True) m"

subsubsection \<open>Creating and opening a file\<close>

text \<open>The part of \<open>new\<close> that initializes an empty file: the header is first written without the magic
  number, and the magic number only once everything else is on disk.\<close>

definition initialize :: "'f backend \<Rightarrow> ('f cached_file \<Rightarrow> nat list) \<Rightarrow> nat \<Rightarrow> nat \<Rightarrow> 'f cached_file \<Rightarrow> ('f, unit) cf_result" where
  "initialize B it page_size region_size cf = do {
     rt \<leftarrow> rt_new INITIAL_REGIONS (MAX_MAX_PAGE_ORDER + 1);
     v \<leftarrow> rt_to_vec rt;
     let region_tracker_required_bytes = length v;
     minimum \<leftarrow> cmul 64 page_size MIN_USABLE_PAGES;
     let size = max MIN_DESIRED_USABLE_BYTES minimum;
     tracker_space \<leftarrow> cmul 64 page_size (div_ceil region_tracker_required_bytes page_size);
     starting_size \<leftarrow> cadd 64 size tracker_space;
     page_capacity \<leftarrow> cdiv region_size page_size;
     page_capacity \<leftarrow> try_into 32 page_capacity;
     page_size \<leftarrow> try_into 32 page_size;
     layout \<leftarrow> dl_calculate starting_size page_capacity NO_HEADER page_size;
     io_then (raw_file_len B cf) (\<lambda>file_len cf. do {
       len \<leftarrow> dl_len layout;
       io_then (if file_len < len then cf_resize B len cf else ok (Inr (), cf)) (\<lambda>_ cf. do {
         header \<leftarrow> hd_new layout 0;
         let header = header\<lparr>hd_recovery_required := False, hd_two_phase_commit := True\<rparr>;
         io_then (put_header B header False cf) (\<lambda>_ cf.
         io_then (cf_flush B (it cf) cf) (\<lambda>_ cf.
         io_then (put_header B header True cf) (\<lambda>_ cf.
           cf_flush B (it cf) cf))) }) }) }"

text \<open>The part of \<open>new\<close> that reads the header, repairs it and writes the repaired header back.\<close>

definition open_header :: "'f backend \<Rightarrow> ('f cached_file \<Rightarrow> nat list) \<Rightarrow> nat \<Rightarrow> bool \<Rightarrow> 'f cached_file \<Rightarrow>
    ((database_error + db_header) \<times> 'f cached_file) rust" where
  "open_header B it page_size read_only cf =
     io_then (into_db (read_direct B 0 DB_HEADER_SIZE cf)) (\<lambda>header_bytes cf. do {
       ps \<leftarrow> try_into 32 page_size;
       with_header (un_from_bytes header_bytes ps) cf (\<lambda>unrepaired.
       io_then (into_db (raw_file_len B cf)) (\<lambda>file_len cf. do {
         needs_recovery \<leftarrow> recovery_required unrepaired file_len;
         if needs_recovery \<and> read_only then ok (Inl Repair_Aborted, cf)
         else with_header (finalize unrepaired file_len) cf (\<lambda>(header, _).
           io_then (if needs_recovery then
               into_db (io_then (put_header B header True cf) (\<lambda>_ cf. cf_flush B (it cf) cf))
             else ok (Inr (), cf)) (\<lambda>_ cf. ok (Inr header, cf))) })) })"

definition invalid_data :: storage_error where
  "invalid_data = Se_Io (Io_Error ''InvalidData'')"

text \<open>\<open>new\<close>; on an error only the file is left.\<close>

definition tm_new :: "'f backend \<Rightarrow> ('f cached_file \<Rightarrow> nat list) \<Rightarrow> 'f \<Rightarrow> bool \<Rightarrow> nat \<Rightarrow> nat option \<Rightarrow> nat \<Rightarrow> bool \<Rightarrow>
    ((database_error + 'f tx_memory) \<times> 'f cached_file) rust" where
  "tm_new B it file allow_initialize page_size requested_region_size cache_size read_only = do {
     assert_that (is_power_of_two page_size \<and> page_size \<ge> DB_HEADER_SIZE);
     let region_size = (case requested_region_size of Some s \<Rightarrow> s | None \<Rightarrow> MAX_USABLE_REGION_SPACE);
     limit \<leftarrow> cmul 64 (MAX_PAGE_INDEX + 1) page_size;
     let region_size = min region_size limit;
     assert_that (is_power_of_two region_size);
     let cf = cf_new file page_size cache_size;
     io_then (into_db (raw_file_len B cf)) (\<lambda>initial_storage_len cf.
     io_then (if initial_storage_len \<ge> length MAGICNUMBER then into_db (read_direct B 0 (length MAGICNUMBER) cf)
       else ok (Inr (replicate (length MAGICNUMBER) 0), cf)) (\<lambda>magic_number cf. do {
       assert_that (length magic_number = length MAGICNUMBER);
       if (if initial_storage_len > 0 then magic_number \<noteq> MAGICNUMBER else \<not> allow_initialize)
       then ok (Inl (De_Storage invalid_data), cf)
       else io_then (if magic_number \<noteq> MAGICNUMBER then into_db (initialize B it page_size region_size cf) else ok (Inr (), cf)) (\<lambda>_ cf.
       io_then (open_header B it page_size read_only cf) (\<lambda>header cf. do {
         layout \<leftarrow> hd_layout header;
         layout_len \<leftarrow> dl_len layout;
         io_then (into_db (raw_file_len B cf)) (\<lambda>file_len cf. do {
           assert_that (layout_len = file_len);
           region_size \<leftarrow> rl_len (dl_full layout);
           (region_header_size, _) \<leftarrow> rl_data_section (dl_full layout);
           ps \<leftarrow> try_into 32 page_size;
           ok (Inr \<lparr>tm_unpersisted = {}, unpersisted_allocations = [], unpersisted_allocation_txn = Map.empty,
             tm_storage = cf, tm_state = ims_new header, open_dirty_pages = {}, read_page_ref_counts = Map.empty,
             allocated_pages = {}, tm_page_size = ps, tm_region_size = region_size,
             region_header_with_padding_size = region_header_size\<rparr>, cf) }) })) })) }"

definition clear_cache_and_reload :: "'f backend \<Rightarrow> ('f cached_file \<Rightarrow> nat list) \<Rightarrow> 'f tx_memory \<Rightarrow>
    ((database_error + bool) \<times> 'f tx_memory) rust" where
  "clear_cache_and_reload B it m =
     io_then (into_db (on_storage (\<lambda>cf. cf_flush B (it cf) cf) m)) (\<lambda>_ m. do {
       cf \<leftarrow> invalidate_cache_all (tm_storage m);
       let m = m\<lparr>tm_storage := cf\<rparr>;
       io_then (into_db (on_storage (read_direct B 0 DB_HEADER_SIZE) m)) (\<lambda>header_bytes m.
       with_header (un_from_bytes header_bytes (tm_page_size m)) m (\<lambda>unrepaired.
       io_then (into_db (on_storage (raw_file_len B) m)) (\<lambda>file_len m.
       with_header (finalize unrepaired file_len) m (\<lambda>(header, was_clean).
       io_then (if \<not> was_clean then into_db (io_then (write_header B header m) (\<lambda>_. on_storage (\<lambda>cf. cf_flush B (it cf) cf)))
         else ok (Inr (), m)) (\<lambda>_ m.
         ok (Inr was_clean, m\<lparr>tm_state := (tm_state m)\<lparr>ims_header := header, read_from_secondary := False, ims_allocators := None\<rparr>,
           tm_unpersisted := {}, unpersisted_allocations := [], unpersisted_allocation_txn := Map.empty\<rparr>)))))) })"

subsubsection \<open>Recovery and allocator state\<close>

definition no_dirty_pages :: "'f tx_memory \<Rightarrow> bool" where
  "no_dirty_pages m \<longleftrightarrow> open_dirty_pages m = {}"

definition mark_debug_allocated_page :: "'f tx_memory \<Rightarrow> page_number \<Rightarrow> 'f tx_memory rust" where
  "mark_debug_allocated_page m page = do {
     assert_that (page \<notin> allocated_pages m);
     ok (m\<lparr>allocated_pages := insert page (allocated_pages m)\<rparr>) }"

definition clear_read_cache :: "'f tx_memory \<Rightarrow> 'f tx_memory rust" where
  "clear_read_cache m = do { cf \<leftarrow> invalidate_cache_all (tm_storage m); ok (m\<lparr>tm_storage := cf\<rparr>) }"

definition begin_writable :: "'f backend \<Rightarrow> ('f cached_file \<Rightarrow> nat list) \<Rightarrow> 'f tx_memory \<Rightarrow> ('f, unit) tm_result" where
  "begin_writable B it m = do {
     assert_that (\<not> hd_recovery_required (tm_header m));
     let m = set_header m ((tm_header m)\<lparr>hd_recovery_required := True\<rparr>);
     io_then (write_header B (tm_header m) m) (\<lambda>_. on_storage (\<lambda>cf. cf_flush B (it cf) cf)) }"

definition used_two_phase_commit :: "'f tx_memory \<Rightarrow> bool" where
  "used_two_phase_commit m = hd_two_phase_commit (tm_header m)"

definition storage_failure :: "'f tx_memory \<Rightarrow> bool" where
  "storage_failure m = (case check_io_errors (tm_storage m) of Inl _ \<Rightarrow> True | Inr _ \<Rightarrow> False)"

definition repair_primary_corrupted :: "'f tx_memory \<Rightarrow> 'f tx_memory" where
  "repair_primary_corrupted m = set_header m (swap_primary_slot (tm_header m))"

definition reset_allocator_state :: "'f tx_memory \<Rightarrow> 'f tx_memory rust" where
  "reset_allocator_state m = do {
     layout \<leftarrow> hd_layout (tm_header m);
     al \<leftarrow> al_new layout;
     ok (m\<lparr>tm_state := (tm_state m)\<lparr>ims_allocators := Some al\<rparr>, allocated_pages := {}\<rparr>) }"

definition mark_page_allocated :: "'f tx_memory \<Rightarrow> page_number \<Rightarrow> 'f tx_memory rust" where
  "mark_page_allocated m page = do {
     a \<leftarrow> get_region (tm_state m) (pn_region page);
     a \<leftarrow> record_alloc a (pn_index page) (pn_order page);
     st \<leftarrow> set_region (tm_state m) (pn_region page) a;
     mark_debug_allocated_page (m\<lparr>tm_state := st\<rparr>) page }"

definition clear_recovery_required :: "'f backend \<Rightarrow> ('f cached_file \<Rightarrow> nat list) \<Rightarrow> 'f tx_memory \<Rightarrow> ('f, unit) tm_result" where
  "clear_recovery_required B it m = (
     let m = set_header m ((tm_header m)\<lparr>hd_recovery_required := False\<rparr>)
     in io_then (write_header B (tm_header m) m) (\<lambda>_. on_storage (\<lambda>cf. cf_flush B (it cf) cf)))"

subsubsection \<open>Shrinking and growing\<close>

definition try_shrink :: "in_memory_state \<Rightarrow> bool \<Rightarrow> (bool \<times> in_memory_state) rust" where
  "try_shrink st force = do {
     layout \<leftarrow> hd_layout (ims_header st);
     n \<leftarrow> num_regions layout;
     last_region_index \<leftarrow> csub n 1;
     last_allocator \<leftarrow> get_region st last_region_index;
     trailing_free \<leftarrow> trailing_free_pages last_allocator;
     let last_allocator_len = bud_len last_allocator;
     if trailing_free = 0 then ok (False, st)
     else if trailing_free < last_allocator_len div 2 \<and> \<not> force then ok (False, st)
     else do {
       reduce_by \<leftarrow> (if n > 1 \<and> trailing_free = last_allocator_len then ok trailing_free
         else if force then do { x \<leftarrow> csub last_allocator_len 1; ok (min x trailing_free) }
         else ok (trailing_free div 2));
       new_layout \<leftarrow> reduce_last_region layout reduce_by;
       al \<leftarrow> ims_allocators st;
       al \<leftarrow> al_resize_to al new_layout;
       new_len \<leftarrow> dl_len new_layout;
       old_len \<leftarrow> dl_len layout;
       assert_that (new_len \<le> old_len);
       header \<leftarrow> hd_set_layout (ims_header st) new_layout;
       ok (True, st\<lparr>ims_allocators := Some al, ims_header := header\<rparr>) } }"

text \<open>The size \<open>grow\<close> aims for, in bytes.\<close>

definition next_desired_size :: "db_layout \<Rightarrow> nat \<Rightarrow> nat \<Rightarrow> nat rust" where
  "next_desired_size layout required_growth max_region_size = do {
     usable \<leftarrow> dl_usable_bytes layout;
     if dl_num_full layout > 0 then (case dl_trailing layout of
         Some trailing \<Rightarrow> do {
           growth2 \<leftarrow> cmul 64 2 required_growth;
           t \<leftarrow> rl_usable_bytes trailing;
           room \<leftarrow> csub max_region_size t;
           if growth2 < room then cadd 64 usable room
           else do {
             region2 \<leftarrow> cmul 64 2 max_region_size;
             x \<leftarrow> cadd 64 usable region2;
             csub x t } }
       | None \<Rightarrow> cadd 64 usable max_region_size)
     else do {
       twice \<leftarrow> cmul 64 usable 2;
       growth2 \<leftarrow> cmul 64 required_growth 2;
       x \<leftarrow> cadd 64 usable growth2;
       ok (max twice x) } }"

definition grow :: "'f backend \<Rightarrow> nat \<Rightarrow> 'f tx_memory \<Rightarrow> ('f, unit) tm_result" where
  "grow B required_order_allocation m = do {
     layout \<leftarrow> hd_layout (tm_header m);
     assert_that (required_order_allocation < 64);
     required_growth \<leftarrow> cmul 64 (2 ^ required_order_allocation) (hd_page_size (tm_header m));
     max_region_size \<leftarrow> cmul 64 (rl_num_pages (dl_full layout)) (hd_page_size (tm_header m));
     desired \<leftarrow> next_desired_size layout required_growth max_region_size;
     new_layout \<leftarrow> dl_calculate desired (rl_num_pages (dl_full layout)) (rl_header_pages (dl_full layout)) (tm_page_size m);
     new_len \<leftarrow> dl_len new_layout;
     old_len \<leftarrow> dl_len layout;
     assert_that (new_len \<ge> old_len);
     io_then (on_storage (cf_resize B new_len) m) (\<lambda>_ m.
     io_then (on_storage (sync_file B) m) (\<lambda>_ m. do {
       al \<leftarrow> ims_allocators (tm_state m);
       al \<leftarrow> al_resize_to al new_layout;
       header \<leftarrow> hd_set_layout (tm_header m) new_layout;
       ok (Inr (), m\<lparr>tm_state := (tm_state m)\<lparr>ims_allocators := Some al, ims_header := header\<rparr>\<rparr>) })) }"

subsubsection \<open>Commit\<close>

text \<open>Writing the roots of a transaction to the secondary slot.\<close>

definition stage_commit :: "db_header \<Rightarrow> btree_header option \<Rightarrow> btree_header option \<Rightarrow> nat \<Rightarrow> db_header rust" where
  "stage_commit header data_root system_root transaction_id =
     update_secondary_slot header (\<lambda>s. s\<lparr>th_transaction_id := transaction_id, th_user_root := data_root, th_system_root := system_root\<rparr>)"

definition tm_commit :: "'f backend \<Rightarrow> ('f cached_file \<Rightarrow> nat list) \<Rightarrow> btree_header option \<Rightarrow> btree_header option \<Rightarrow> nat \<Rightarrow> bool \<Rightarrow> shrink_policy \<Rightarrow>
    'f tx_memory \<Rightarrow> ('f, unit) tm_result" where
  "tm_commit B it data_root system_root transaction_id two_phase shrink_policy m = do {
     assert_that (no_dirty_pages m);
     case check_io_errors (tm_storage m) of Inl e \<Rightarrow> ok (Inl e, m) | Inr _ \<Rightarrow> do {
       (shrunk, st) \<leftarrow> (if shrink_policy \<noteq> Shrink_Never then try_shrink (tm_state m) (shrink_policy = Shrink_Maximum)
         else ok (False, tm_state m));
       let m = m\<lparr>tm_state := st\<rparr>;
       let header = tm_header m;
       old \<leftarrow> secondary_slot header;
       header \<leftarrow> stage_commit header data_root system_root transaction_id;
       io_then (write_header B header m) (\<lambda>_ m.
       io_then (if two_phase then on_storage (\<lambda>cf. cf_flush B (it cf) cf) m else ok (Inr (), m)) (\<lambda>_ m. do {
         let header = (swap_primary_slot header)\<lparr>hd_two_phase_commit := two_phase\<rparr>;
         io_then (write_header B header m) (\<lambda>_ m.
         io_then (on_storage (\<lambda>cf. cf_flush B (it cf) cf) m) (\<lambda>_ m. do {
           io_then (if shrunk then do {
               layout \<leftarrow> hd_layout header;
               len \<leftarrow> dl_len layout;
               on_storage (cf_resize B len) m }
             else ok (Inr (), m)) (\<lambda>_ m. do {
             let m = m\<lparr>tm_unpersisted := {}, unpersisted_allocations := [], unpersisted_allocation_txn := Map.empty\<rparr>;
             s \<leftarrow> secondary_slot (tm_header m);
             assert_that (th_transaction_id s = th_transaction_id old);
             ok (Inr (), m\<lparr>tm_state := (tm_state m)\<lparr>ims_header := header, read_from_secondary := False\<rparr>\<rparr>) }) })) })) } }"

definition non_durable_commit :: "'f backend \<Rightarrow> ('f cached_file \<Rightarrow> nat list) \<Rightarrow> btree_header option \<Rightarrow> btree_header option \<Rightarrow> nat \<Rightarrow> page_number set \<Rightarrow>
    'f tx_memory \<Rightarrow> ('f, unit) tm_result" where
  "non_durable_commit B it data_root system_root transaction_id newly_unpersisted m = do {
     assert_that (no_dirty_pages m);
     case check_io_errors (tm_storage m) of Inl e \<Rightarrow> ok (Inl e, m) | Inr _ \<Rightarrow> do {
       let m = m\<lparr>tm_unpersisted := tm_unpersisted m \<union> newly_unpersisted\<rparr>;
       io_then (on_storage (\<lambda>cf. write_barrier B (it cf) cf) m) (\<lambda>_ m. do {
         header \<leftarrow> stage_commit (tm_header m) data_root system_root transaction_id;
         ok (Inr (), m\<lparr>tm_state := (tm_state m)\<lparr>ims_header := header, read_from_secondary := True\<rparr>\<rparr>) }) } }"

definition get_version :: "'f tx_memory \<Rightarrow> nat rust" where
  "get_version m = do { s \<leftarrow> latest_slot (tm_state m); ok (th_version s) }"

definition get_data_root :: "'f tx_memory \<Rightarrow> btree_header option rust" where
  "get_data_root m = do { s \<leftarrow> latest_slot (tm_state m); ok (th_user_root s) }"

definition get_system_root :: "'f tx_memory \<Rightarrow> btree_header option rust" where
  "get_system_root m = do { s \<leftarrow> latest_slot (tm_state m); ok (th_system_root s) }"

definition get_last_committed_transaction_id :: "'f tx_memory \<Rightarrow> nat rust" where
  "get_last_committed_transaction_id m = do { s \<leftarrow> latest_slot (tm_state m); ok (th_transaction_id s) }"

definition get_last_durable_transaction_id :: "'f tx_memory \<Rightarrow> nat rust" where
  "get_last_durable_transaction_id m = do { s \<leftarrow> primary_slot (tm_header m); ok (th_transaction_id s) }"

definition pending_non_durable_commit :: "'f tx_memory \<Rightarrow> bool" where
  "pending_non_durable_commit m = read_from_secondary (tm_state m)"

definition file_len_matches_layout :: "'f backend \<Rightarrow> 'f tx_memory \<Rightarrow> ('f, bool) tm_result" where
  "file_len_matches_layout B m = io_then (on_storage (raw_file_len B) m) (\<lambda>file_len m. do {
     layout \<leftarrow> hd_layout (tm_header m);
     len \<leftarrow> dl_len layout;
     ok (Inr (file_len = len), m) })"

definition durable_primary_slot_corrupt :: "'f backend \<Rightarrow> 'f tx_memory \<Rightarrow> ((database_error + bool) \<times> 'f tx_memory) rust" where
  "durable_primary_slot_corrupt B m = io_then (into_db (on_storage (read_direct B 0 DB_HEADER_SIZE) m)) (\<lambda>header_bytes m.
     with_header (un_from_bytes header_bytes (tm_page_size m)) m (\<lambda>disk_header. ok (Inr (un_primary_corrupted disk_header), m)))"

definition get_durable_data_root :: "'f tx_memory \<Rightarrow> btree_header option rust" where
  "get_durable_data_root m = do { s \<leftarrow> primary_slot (tm_header m); ok (th_user_root s) }"

definition get_durable_system_root :: "'f tx_memory \<Rightarrow> btree_header option rust" where
  "get_durable_system_root m = do { s \<leftarrow> primary_slot (tm_header m); ok (th_system_root s) }"

subsubsection \<open>Pages\<close>

record page_impl =
  pi_mem :: "byte list"
  pi_page_number :: page_number

record page_mut =
  pm_mem :: writable_page
  pm_page_number :: page_number

definition page_address :: "'f tx_memory \<Rightarrow> page_number \<Rightarrow> (nat \<times> nat) rust" where
  "page_address m page = do {
     (start, stop) \<leftarrow> pn_address_range page (tm_page_size m) (tm_region_size m) (region_header_with_padding_size m) (tm_page_size m);
     n \<leftarrow> csub stop start;
     ok (start, n) }"

definition get_page :: "'f backend \<Rightarrow> page_number \<Rightarrow> page_hint \<Rightarrow> 'f tx_memory \<Rightarrow> ('f, page_impl) tm_result" where
  "get_page B page hint m = do {
     (start, n) \<leftarrow> page_address m page;
     io_then (on_storage (cf_read B start n hint) m) (\<lambda>mem m. do {
       assert_that (page \<notin> open_dirty_pages m);
       count \<leftarrow> cadd 64 (case read_page_ref_counts m page of Some c \<Rightarrow> c | None \<Rightarrow> 0) 1;
       ok (Inr \<lparr>pi_mem = mem, pi_page_number = page\<rparr>,
         m\<lparr>read_page_ref_counts := (read_page_ref_counts m)(page \<mapsto> count)\<rparr>) }) }"

definition pi_clone :: "page_impl \<Rightarrow> 'f tx_memory \<Rightarrow> (page_impl \<times> 'f tx_memory) rust" where
  "pi_clone page m = do {
     v \<leftarrow> read_page_ref_counts m (pi_page_number page);
     v \<leftarrow> cadd 64 v 1;
     ok (page, m\<lparr>read_page_ref_counts := (read_page_ref_counts m)(pi_page_number page \<mapsto> v)\<rparr>) }"

definition pi_drop :: "page_impl \<Rightarrow> 'f tx_memory \<Rightarrow> 'f tx_memory rust" where
  "pi_drop page m = do {
     v \<leftarrow> read_page_ref_counts m (pi_page_number page);
     assert_that (v > 0);
     ok (m\<lparr>read_page_ref_counts := (read_page_ref_counts m)(pi_page_number page := if v = 1 then None else Some (v - 1))\<rparr>) }"

definition get_page_mut :: "'f backend \<Rightarrow> page_number \<Rightarrow> 'f tx_memory \<Rightarrow> ('f, page_mut) tm_result" where
  "get_page_mut B page m = do {
     assert_that (read_page_ref_counts m page = None);
     assert_that (page \<notin> open_dirty_pages m);
     (start, n) \<leftarrow> page_address m page;
     io_then (on_storage (cf_write B start n False) m) (\<lambda>mem m. do {
       assert_that (page \<notin> open_dirty_pages m);
       ok (Inr \<lparr>pm_mem = mem, pm_page_number = page\<rparr>, m\<lparr>open_dirty_pages := insert page (open_dirty_pages m)\<rparr>) }) }"

text \<open>Dropping a \<open>PageMut\<close> checks that it was open, and then drops its \<open>WritablePage\<close>.\<close>

definition pm_drop :: "page_mut \<Rightarrow> 'f tx_memory \<Rightarrow> 'f tx_memory rust" where
  "pm_drop page m = do {
     assert_that (pm_page_number page \<in> open_dirty_pages m);
     cf \<leftarrow> wp_drop (pm_mem page) (tm_storage m);
     ok (m\<lparr>open_dirty_pages := open_dirty_pages m - {pm_page_number page}, tm_storage := cf\<rparr>) }"

subsubsection \<open>Allocating\<close>

partial_function (option) allocate_helper_retry :: "nat \<Rightarrow> bool \<Rightarrow> in_memory_state \<Rightarrow> (page_number option \<times> in_memory_state) rust" where
  "allocate_helper_retry required_order low st = do {
     rt \<leftarrow> get_region_tracker st;
     candidate \<leftarrow> rt_find_free rt required_order;
     case candidate of
       None \<Rightarrow> ok (None, st)
     | Some candidate_region \<Rightarrow> do {
         region \<leftarrow> get_region st candidate_region;
         (r, region) \<leftarrow> (if low then alloc_lowest region required_order else bud_alloc region required_order);
         st \<leftarrow> set_region st candidate_region region;
         (case r of
            Some page \<Rightarrow> do { p \<leftarrow> pn_new candidate_region page required_order; ok (Some p, st) }
          | None \<Rightarrow> do {
              rt \<leftarrow> get_region_tracker st;
              rt \<leftarrow> rt_mark_full rt required_order candidate_region;
              st \<leftarrow> set_region_tracker st rt;
              allocate_helper_retry required_order low st }) } }"

text \<open>The part of \<open>allocate_helper\<close> that finds the page.\<close>

definition allocate_page :: "'f backend \<Rightarrow> nat \<Rightarrow> bool \<Rightarrow> 'f tx_memory \<Rightarrow> ('f, page_number) tm_result" where
  "allocate_page B required_order low m = do {
     (found, st) \<leftarrow> allocate_helper_retry required_order low (tm_state m);
     let m = m\<lparr>tm_state := st\<rparr>;
     case found of
       Some page \<Rightarrow> ok (Inr page, m)
     | None \<Rightarrow> io_then (grow B required_order m) (\<lambda>_ m. do {
         (found, st) \<leftarrow> allocate_helper_retry required_order low (tm_state m);
         page \<leftarrow> found;
         ok (Inr page, m\<lparr>tm_state := st\<rparr>) }) }"

definition allocate_helper :: "'f backend \<Rightarrow> nat \<Rightarrow> bool \<Rightarrow> 'f tx_memory \<Rightarrow> ('f, page_mut) tm_result" where
  "allocate_helper B allocation_size low m = do {
     assert_that (tm_page_size m \<noteq> 0);
     let required_pages = div_ceil allocation_size (tm_page_size m);
     required_order \<leftarrow> ceil_log2 required_pages;
     io_then (allocate_page B required_order low m) (\<lambda>page m. do {
       assert_that (page \<notin> allocated_pages m);
       let m = m\<lparr>allocated_pages := insert page (allocated_pages m)\<rparr>;
       assert_that (read_page_ref_counts m page = None);
       assert_that (page \<notin> open_dirty_pages m);
       (start, n) \<leftarrow> page_address m page;
       io_then (on_storage (cf_write B start n True) m) (\<lambda>mem m. do {
         assert_that (length (wp_data mem) \<ge> allocation_size);
         assert_that (page \<notin> open_dirty_pages m);
         ok (Inr \<lparr>pm_mem = mem\<lparr>wp_data := replicate (length (wp_data mem)) 0xFF\<rparr>, pm_page_number = page\<rparr>,
           m\<lparr>open_dirty_pages := insert page (open_dirty_pages m)\<rparr>) }) }) }"

text \<open>\<open>allocate\<close> and \<open>allocate_lowest\<close> record the page in the tracker of the caller.\<close>

definition tm_allocate :: "'f backend \<Rightarrow> bool \<Rightarrow> nat \<Rightarrow> page_tracker_policy \<Rightarrow> 'f tx_memory \<Rightarrow>
    ((storage_error + page_mut) \<times> page_tracker_policy \<times> 'f tx_memory) rust" where
  "tm_allocate B low allocation_size allocated m = do {
     (r, m) \<leftarrow> allocate_helper B allocation_size low m;
     case r of Inl e \<Rightarrow> ok (Inl e, allocated, m)
     | Inr page \<Rightarrow> do { allocated \<leftarrow> ptp_insert allocated (pm_page_number page); ok (Inr page, allocated, m) } }"

subsubsection \<open>Freeing\<close>

definition free_helper :: "page_number \<Rightarrow> page_tracker_policy \<Rightarrow> 'f tx_memory \<Rightarrow> (page_tracker_policy \<times> 'f tx_memory) rust" where
  "free_helper page allocated m = do {
     assert_that (read_page_ref_counts m page = None);
     assert_that (page \<in> allocated_pages m);
     let m = m\<lparr>allocated_pages := allocated_pages m - {page}\<rparr>;
     assert_that (page \<notin> open_dirty_pages m);
     allocated \<leftarrow> ptp_remove allocated page;
     a \<leftarrow> get_region (tm_state m) (pn_region page);
     a \<leftarrow> bud_free_page a (pn_index page) (pn_order page);
     st \<leftarrow> set_region (tm_state m) (pn_region page) a;
     rt \<leftarrow> get_region_tracker st;
     rt \<leftarrow> rt_mark_free rt (pn_order page) (pn_region page);
     st \<leftarrow> set_region_tracker st rt;
     (start, n) \<leftarrow> page_address m page;
     cf \<leftarrow> invalidate_cache start n (tm_storage m);
     cf \<leftarrow> cancel_pending_write start cf;
     ok (allocated, m\<lparr>tm_state := st, tm_storage := cf\<rparr>) }"

definition remove_unpersisted_allocation :: "page_number \<Rightarrow> 'f tx_memory \<Rightarrow> 'f tx_memory rust" where
  "remove_unpersisted_allocation page m = (case unpersisted_allocation_txn m page of
      None \<Rightarrow> ok m
    | Some txn \<Rightarrow> do {
        let m = m\<lparr>unpersisted_allocation_txn := (unpersisted_allocation_txn m)(page := None)\<rparr>;
        pages \<leftarrow> map_of (unpersisted_allocations m) txn;
        assert_that (page \<in> pages);
        let pages = pages - {page};
        ok (m\<lparr>unpersisted_allocations := (if pages = {} then AList.delete txn (unpersisted_allocations m)
             else AList.update txn pages (unpersisted_allocations m))\<rparr>) })"

definition free_if_unpersisted :: "page_number \<Rightarrow> page_tracker_policy \<Rightarrow> 'f tx_memory \<Rightarrow>
    (bool \<times> page_tracker_policy \<times> 'f tx_memory) rust" where
  "free_if_unpersisted page allocated m = (if page \<in> tm_unpersisted m then do {
       let m = m\<lparr>tm_unpersisted := tm_unpersisted m - {page}\<rparr>;
       m \<leftarrow> remove_unpersisted_allocation page m;
       (allocated, m) \<leftarrow> free_helper page allocated m;
       ok (True, allocated, m) }
     else ok (False, allocated, m))"

definition record_page :: "nat \<Rightarrow> page_number \<Rightarrow> 'f tx_memory \<Rightarrow> 'f tx_memory rust" where
  "record_page transaction_id page m = do {
     entry \<leftarrow> map_of (unpersisted_allocations m) transaction_id;
     if page \<in> entry then ok m
     else do {
       assert_that (unpersisted_allocation_txn m page = None);
       ok (m\<lparr>unpersisted_allocations := AList.update transaction_id (insert page entry) (unpersisted_allocations m),
         unpersisted_allocation_txn := (unpersisted_allocation_txn m)(page \<mapsto> transaction_id)\<rparr>) } }"

definition record_unpersisted_allocations :: "nat \<Rightarrow> page_number list \<Rightarrow> 'f tx_memory \<Rightarrow> 'f tx_memory rust" where
  "record_unpersisted_allocations transaction_id new_pages m = (if new_pages = [] then ok m
     else do {
       let m = (case map_of (unpersisted_allocations m) transaction_id of
           None \<Rightarrow> m\<lparr>unpersisted_allocations := AList.update transaction_id {} (unpersisted_allocations m)\<rparr>
         | Some _ \<Rightarrow> m);
       for_each new_pages (record_page transaction_id) m })"

definition take_unpersisted_allocations :: "'f tx_memory \<Rightarrow> (nat \<times> page_number set) list \<times> 'f tx_memory" where
  "take_unpersisted_allocations m = (unpersisted_allocations m, m\<lparr>unpersisted_allocation_txn := Map.empty, unpersisted_allocations := []\<rparr>)"

text \<open>The pages are returned in an unspecified order.\<close>

definition unpersisted_allocations_after :: "nat \<Rightarrow> 'f tx_memory \<Rightarrow> page_number set rust" where
  "unpersisted_allocations_after transaction_id m = do {
     next \<leftarrow> cadd 64 transaction_id 1;
     ok (\<Union> (set (map snd (filter (\<lambda>(t, _). next \<le> t) (unpersisted_allocations m))))) }"

definition is_unpersisted :: "page_number \<Rightarrow> 'f tx_memory \<Rightarrow> bool" where
  "is_unpersisted page m = (page \<in> tm_unpersisted m)"

subsubsection \<open>Statistics and closing\<close>

definition sum_regions :: "(buddy \<Rightarrow> nat rust) \<Rightarrow> 'f tx_memory \<Rightarrow> nat rust" where
  "sum_regions count m = do {
     layout \<leftarrow> hd_layout (tm_header m);
     n \<leftarrow> num_regions layout;
     for_each [0..<n] (\<lambda>i total. do {
       a \<leftarrow> get_region (tm_state m) i;
       c \<leftarrow> count a;
       cadd 64 total c }) 0 }"

definition tm_count_allocated_pages :: "'f tx_memory \<Rightarrow> nat rust" where
  "tm_count_allocated_pages m = sum_regions count_allocated_pages m"

definition tm_count_free_pages :: "'f tx_memory \<Rightarrow> nat rust" where
  "tm_count_free_pages m = sum_regions count_free_pages m"

definition flush_shutdown_header :: "'f backend \<Rightarrow> ('f cached_file \<Rightarrow> nat list) \<Rightarrow> bool \<Rightarrow> 'f tx_memory \<Rightarrow> ('f, unit) tm_result" where
  "flush_shutdown_header B it panicking m =
     (if \<not> storage_failure m \<and> \<not> panicking then do {
        (r, m) \<leftarrow> on_storage (\<lambda>cf. cf_flush B (it cf) cf) m;
        (case r of Inl _ \<Rightarrow> ok (Inr (), m)
         | Inr _ \<Rightarrow> do {
             let m = set_header m ((tm_header m)\<lparr>hd_recovery_required := False\<rparr>);
             io_then (write_header B (tm_header m) m) (\<lambda>_. on_storage (\<lambda>cf. cf_flush B (it cf) cf)) }) }
      else ok (Inr (), m))"

definition tm_close :: "'f backend \<Rightarrow> ('f cached_file \<Rightarrow> nat list) \<Rightarrow> bool \<Rightarrow> 'f tx_memory \<Rightarrow> ('f, unit) tm_result" where
  "tm_close B it panicking m = do {
     (shutdown_result, m) \<leftarrow> flush_shutdown_header B it panicking m;
     (close_result, m) \<leftarrow> on_storage (cf_close B) m;
     ok (case shutdown_result of Inl e \<Rightarrow> Inl e | Inr _ \<Rightarrow> close_result, m) }"

subsection \<open>\<open>PageAllocator\<close>\<close>

record page_allocator =
  pa_policy :: allocation_policy
  allocated_since_commit :: page_tracker_policy

definition pa_new :: "allocation_policy \<Rightarrow> page_allocator" where
  "pa_new policy = \<lparr>pa_policy = policy, allocated_since_commit = ptp_new_tracking\<rparr>"

definition take_allocated_since_commit :: "page_allocator \<Rightarrow> (page_number set \<times> page_allocator) rust" where
  "take_allocated_since_commit pa = do {
     (pages, t) \<leftarrow> ptp_reset (allocated_since_commit pa);
     ok (pages, pa\<lparr>allocated_since_commit := t\<rparr>) }"

text \<open>\<open>rollback_all\<close>; \<open>drained\<close> is the iteration order of the set of pages.\<close>

definition rollback_all :: "page_number list \<Rightarrow> page_allocator \<times> 'f tx_memory \<Rightarrow> (page_allocator \<times> 'f tx_memory) rust" where
  "rollback_all drained = (\<lambda>(pa, m). do {
     assert_that (no_dirty_pages m);
     (pages, pa) \<leftarrow> take_allocated_since_commit pa;
     assert_that (set drained = pages);
     m \<leftarrow> for_each drained (\<lambda>page m. do { (_, m) \<leftarrow> free_helper page Ignore m; ok m }) m;
     ok (pa, m) })"

definition pa_allocate_with :: "'f backend \<Rightarrow> bool \<Rightarrow> nat \<Rightarrow> page_tracker_policy \<Rightarrow> page_allocator \<times> 'f tx_memory \<Rightarrow>
    ((storage_error + page_mut) \<times> page_tracker_policy \<times> page_allocator \<times> 'f tx_memory) rust" where
  "pa_allocate_with B low sz allocated = (\<lambda>(pa, m). do {
     (r, allocated, m) \<leftarrow> tm_allocate B low sz allocated m;
     case r of Inl e \<Rightarrow> ok (Inl e, allocated, pa, m)
     | Inr page \<Rightarrow> do {
         t \<leftarrow> ptp_insert (allocated_since_commit pa) (pm_page_number page);
         ok (Inr page, allocated, pa\<lparr>allocated_since_commit := t\<rparr>, m) } })"

definition pa_allocate :: "'f backend \<Rightarrow> nat \<Rightarrow> page_tracker_policy \<Rightarrow> page_allocator \<times> 'f tx_memory \<Rightarrow>
    ((storage_error + page_mut) \<times> page_tracker_policy \<times> page_allocator \<times> 'f tx_memory) rust" where
  "pa_allocate B sz allocated = (\<lambda>(pa, m). pa_allocate_with B (pa_policy pa = Alloc_Lowest) sz allocated (pa, m))"

definition pa_allocate_lowest :: "'f backend \<Rightarrow> nat \<Rightarrow> page_tracker_policy \<Rightarrow> page_allocator \<times> 'f tx_memory \<Rightarrow>
    ((storage_error + page_mut) \<times> page_tracker_policy \<times> page_allocator \<times> 'f tx_memory) rust" where
  "pa_allocate_lowest B sz allocated = pa_allocate_with B True sz allocated"

definition pa_free :: "page_number \<Rightarrow> page_tracker_policy \<Rightarrow> page_allocator \<times> 'f tx_memory \<Rightarrow>
    (page_tracker_policy \<times> page_allocator \<times> 'f tx_memory) rust" where
  "pa_free page allocated = (\<lambda>(pa, m). do {
     (_, t) \<leftarrow> ptp_remove_if_present (allocated_since_commit pa) page;
     (allocated, m) \<leftarrow> free_helper page allocated m;
     ok (allocated, pa\<lparr>allocated_since_commit := t\<rparr>, m) })"

definition free_if_uncommitted :: "page_number \<Rightarrow> page_tracker_policy \<Rightarrow> page_allocator \<times> 'f tx_memory \<Rightarrow>
    (bool \<times> page_tracker_policy \<times> page_allocator \<times> 'f tx_memory) rust" where
  "free_if_uncommitted page allocated = (\<lambda>(pa, m). do {
     (present, t) \<leftarrow> ptp_remove_if_present (allocated_since_commit pa) page;
     let pa = pa\<lparr>allocated_since_commit := t\<rparr>;
     if present then do { (allocated, m) \<leftarrow> free_helper page allocated m; ok (True, allocated, pa, m) }
     else ok (False, allocated, pa, m) })"

definition uncommitted :: "page_number \<Rightarrow> page_allocator \<Rightarrow> bool rust" where
  "uncommitted page pa = ptp_contains (allocated_since_commit pa) page"

end
