(* ===== verification/Page_Manager_Ops.thy ===== *)
theory Page_Manager_Ops
  imports Page_Manager
begin

text \<open>
  What the page manager promises.  The state of the allocators is described by the free pages \<open>P i\<close> of each region.
  Allocating takes exactly one free block; when no region has one the file is grown, and the second attempt then always
  succeeds.  Shrinking only cuts free pages and never empties the file.  Committing is in \<open>Page_Manager_Commit\<close>.
\<close>

subsection \<open>The invariant\<close>

abbreviation ims_layout :: "in_memory_state \<Rightarrow> db_layout" where
  "ims_layout st \<equiv> hdr_layout (ims_header st)"

abbreviation ims_cap :: "in_memory_state \<Rightarrow> nat" where
  "ims_cap st \<equiv> hd_region_max_data_pages (ims_header st)"

definition mem_inv :: "(nat \<Rightarrow> nat set) \<Rightarrow> (nat \<Rightarrow> nat set) \<Rightarrow> in_memory_state \<Rightarrow> bool" where
  "mem_inv P F st \<longleftrightarrow> layout_fields_ok (ims_header st) \<and> 0 < hd_page_size (ims_header st) \<and> hd_page_size (ims_header st) \<le> 4096
     \<and> (\<exists>al. ims_allocators st = Some al \<and> al_inv (ims_cap st) (max_order_of (ims_cap st)) (region_pages (ims_layout st)) P F al
        \<and> length (region_allocators al) = dl_regions (ims_layout st))"

lemma hdr_layout_full [simp]: "rl_num_pages (dl_full (hdr_layout h)) = hd_region_max_data_pages h"
  "rl_header_pages (dl_full (hdr_layout h)) = hd_region_header_pages h" "rl_page_size (dl_full (hdr_layout h)) = hd_page_size h"
  by (simp_all add: hdr_layout_def)

lemma mem_invD:
  assumes "mem_inv P F st"
  obtains al where "ims_allocators st = Some al"
    "al_inv (ims_cap st) (max_order_of (ims_cap st)) (region_pages (ims_layout st)) P F al"
    "length (region_allocators al) = dl_regions (ims_layout st)"
  using assms by (auto simp: mem_inv_def)

lemma mem_inv_layout:
  assumes "mem_inv P F st"
  shows "hd_layout (ims_header st) = ok (ims_layout st)" "managed (ims_layout st)" "dl_len (ims_layout st) = ok (dl_size (ims_layout st))"
    "num_regions (ims_layout st) = ok (dl_regions (ims_layout st))" "dl_regions (ims_layout st) \<le> MAX_REGIONS" "0 < dl_regions (ims_layout st)"
    "ims_cap st \<le> 2 ^ 20" "0 < ims_cap st"
proof -
  let ?h = "ims_header st"
  have f: "layout_fields_ok ?h" "0 < hd_page_size ?h" "hd_page_size ?h \<le> 4096" using assms by (auto simp: mem_inv_def)
  note b = layout_bounds(1,2) [OF f]
  have c: "0 < hd_region_max_data_pages ?h" "hd_region_max_data_pages ?h \<le> 2 ^ 20" using f(1) by (auto simp: layout_fields_ok_def MAX_PAGE_INDEX_def)
  show "hd_layout ?h = ok (ims_layout st)" using hd_layout_ok c(1) .
  show m: "managed (ims_layout st)" using f(1) b(2) c
    by (auto simp: managed_def layout_fields_ok_def hdr_layout_def dl_regions_def)
  show "dl_len (ims_layout st) = ok (dl_size (ims_layout st))" using dl_len_ok [OF b] .
  show "num_regions (ims_layout st) = ok (dl_regions (ims_layout st))" using num_regions_ok [OF b(2)] .
  show "dl_regions (ims_layout st) \<le> MAX_REGIONS" "0 < dl_regions (ims_layout st)" using m by (auto simp: managed_def)
  show "ims_cap st \<le> 2 ^ 20" "0 < ims_cap st" using c by simp_all
qed

text \<open>Replacing the allocators.\<close>

lemma mem_inv_set:
  assumes "mem_inv P F st" "al_inv (ims_cap st) (max_order_of (ims_cap st)) (region_pages (ims_layout st)) Q G al"
    "length (region_allocators al) = dl_regions (ims_layout st)"
  shows "mem_inv Q G (st\<lparr>ims_allocators := Some al\<rparr>)"
  using assms by (auto simp: mem_inv_def)

lemma al_inv_take:
  assumes "al_inv cap mo n P F al" "i < length (region_allocators al)" "buddy_ok cap Q a" "bud_len a = n i" "bud_max_order a = mo" "Q \<subseteq> P i"
  shows "al_inv cap mo n (P(i := Q)) F (al\<lparr>region_allocators := (region_allocators al)[i := a]\<rparr>)"
proof -
  have "buddy_heap.heaps cap mo (n(i := n i)) (P(i := Q)) ((region_allocators al)[i := a])"
    using assms by (intro buddy_heap.heaps_update) (auto simp: al_inv_def)
  moreover have "j \<in> F 0" if "(P(i := Q)) j \<noteq> {}" "j < length (region_allocators al)" for j
  proof -
    have "P j \<noteq> {}" using that(1) assms(6) by (cases "j = i") auto
    then show ?thesis using assms(1) that(2) by (simp add: al_inv_def)
  qed
  ultimately show ?thesis using assms(1) by (auto simp: al_inv_def)
qed

lemma al_inv_full:
  assumes inv: "al_inv cap mo n P F al" and i: "i < length (region_allocators al)" "order \<le> MAX_MAX_PAGE_ORDER" "order = 0 \<Longrightarrow> P i = {}"
  shows "\<exists>rt. rt_mark_full (region_tracker al) order i = ok rt \<and>
    al_inv cap mo n P (\<lambda>k. if order \<le> k then F k - {i} else F k) (al\<lparr>region_tracker := rt\<rparr>)"
proof -
  obtain N h where r: "rt_rep N h F (region_tracker al)" "length (region_allocators al) \<le> N" "N \<le> MAX_REGIONS"
    using inv by (auto simp: al_inv_def)
  obtain rt where rt: "rt_mark_full (region_tracker al) order i = ok rt" "rt_rep N h (\<lambda>k. if order \<le> k then F k - {i} else F k) rt"
    using rt_mark_full_ok [OF r(1) i(2), of i] i(1) r(2) by auto
  have "al_inv cap mo n P (\<lambda>k. if order \<le> k then F k - {i} else F k) (al\<lparr>region_tracker := rt\<rparr>)"
    unfolding al_inv_def
  proof (intro conjI)
    show "\<exists>N h. rt_rep N h (\<lambda>k. if order \<le> k then F k - {i} else F k) (region_tracker (al\<lparr>region_tracker := rt\<rparr>))
        \<and> length (region_allocators (al\<lparr>region_tracker := rt\<rparr>)) \<le> N \<and> N \<le> MAX_REGIONS"
      by (intro exI [of _ N] exI [of _ h]) (use rt(2) r in simp)
  qed (use inv i(3) in \<open>auto simp: al_inv_def\<close>)
  then show ?thesis using rt(1) by blast
qed

subsection \<open>Allocating\<close>

lemma pn_new_ok:
  assumes "al_inv cap mo n P F al" "i < length (region_allocators al)" "length (region_allocators al) \<le> MAX_REGIONS" "order \<le> mo" "block order q \<subseteq> P i"
  shows "pn_new i q order = ok \<lparr>pn_region = i, pn_index = q, pn_order = order\<rparr>"
proof -
  have "block order q \<subseteq> {..<n i}" "n i \<le> cap" "cap \<le> 2 ^ 20" "mo \<le> MAX_MAX_PAGE_ORDER"
    using al_heap(5,6) [OF assms(1,2)] assms(1,5) by (auto simp: al_inv_def)
  moreover have "q * 2 ^ order \<in> block order q" by (simp add: block_def)
  ultimately have "q * 2 ^ order < n i" "n i \<le> 2 ^ 20" by (blast, linarith)
  moreover have "q * 1 \<le> q * 2 ^ order" by (intro mult_le_mono2) simp
  ultimately have "q < 2 ^ 20" by linarith
  then show ?thesis using assms(2,3,4) \<open>mo \<le> MAX_MAX_PAGE_ORDER\<close> by (simp add: pn_new_def MAX_PAGE_INDEX_def MAX_REGIONS_def)
qed

text \<open>Allocating in a region, by either policy.\<close>

lemma region_alloc_ok:
  assumes "buddy_ok cap Q a" "order \<le> bud_max_order a"
  shows "\<exists>r a'. (if low then alloc_lowest a order else bud_alloc a order) = ok (r, a') \<and> bud_len a' = bud_len a \<and> bud_max_order a' = bud_max_order a
    \<and> (case r of Some p \<Rightarrow> block order p \<subseteq> Q \<and> buddy_ok cap (Q - block order p) a' \<and> (low \<longrightarrow> (\<forall>q. block order q \<subseteq> Q \<longrightarrow> p \<le> q))
       | None \<Rightarrow> buddy_ok cap Q a' \<and> (\<forall>q. \<not> block order q \<subseteq> Q))"
proof (cases low)
  case True
  obtain r a' where "alloc_lowest a order = ok (r, a')" "bud_len a' = bud_len a" "bud_max_order a' = bud_max_order a"
    "case r of Some p \<Rightarrow> block order p \<subseteq> Q \<and> (\<forall>q. block order q \<subseteq> Q \<longrightarrow> p \<le> q) \<and> buddy_ok cap (Q - block order p) a'
      | None \<Rightarrow> buddy_ok cap Q a' \<and> (\<forall>q. \<not> block order q \<subseteq> Q)"
    using buddy_heap.low_law [OF assms] by blast
  then show ?thesis using True by (intro exI [of _ r] exI [of _ a']) (cases r; simp)
next
  case False
  obtain r a' where "bud_alloc a order = ok (r, a')" "bud_len a' = bud_len a" "bud_max_order a' = bud_max_order a"
    "case r of Some p \<Rightarrow> order \<le> bud_max_order a \<and> block order p \<subseteq> Q \<and> buddy_ok cap (Q - block order p) a'
      | None \<Rightarrow> buddy_ok cap Q a' \<and> (order \<le> bud_max_order a \<longrightarrow> (\<forall>q. \<not> block order q \<subseteq> Q))"
    using buddy_heap.alloc_law [OF assms(1), of order] by blast
  then show ?thesis using False assms(2) by (intro exI [of _ r] exI [of _ a']) (cases r; simp)
qed

definition took :: "nat \<Rightarrow> bool \<Rightarrow> (nat \<Rightarrow> nat set) \<Rightarrow> page_number \<Rightarrow> bool" where
  "took order low P p \<longleftrightarrow> pn_order p = order \<and> block order (pn_index p) \<subseteq> P (pn_region p)
     \<and> (low \<longrightarrow> (\<forall>q. block order q \<subseteq> P (pn_region p) \<longrightarrow> pn_index p \<le> q))"

abbreviation without :: "(nat \<Rightarrow> nat set) \<Rightarrow> page_number \<Rightarrow> nat \<Rightarrow> nat set" where
  "without P p \<equiv> P(pn_region p := P (pn_region p) - block (pn_order p) (pn_index p))"

lemma retry_step:
  assumes "ims_allocators st = Some al" "rt_find_free (region_tracker al) order = ok (Some i)" "i < length (region_allocators al)"
    "(if low then alloc_lowest (region_allocators al ! i) order else bud_alloc (region_allocators al ! i) order) = ok (r, a)"
  shows "allocate_helper_retry order low st = (let al = al\<lparr>region_allocators := (region_allocators al)[i := a]\<rparr> in
    case r of Some page \<Rightarrow> do { p \<leftarrow> pn_new i page order; ok (Some p, st\<lparr>ims_allocators := Some al\<rparr>) }
    | None \<Rightarrow> do { rt \<leftarrow> rt_mark_full (region_tracker al) order i;
        allocate_helper_retry order low (st\<lparr>ims_allocators := Some (al\<lparr>region_tracker := rt\<rparr>)\<rparr>) })"
  using assms(3)
  by (subst allocate_helper_retry.simps)
    (simp add: assms(1,2,4) get_region_tracker_def get_region_def set_region_def set_region_tracker_def split: option.split)

lemma retry_ok:
  assumes "mem_inv P F st" "order \<le> max_order_of (ims_cap st)"
  shows "\<exists>r st' F'. allocate_helper_retry order low st = ok (r, st') \<and> ims_header st' = ims_header st
    \<and> read_from_secondary st' = read_from_secondary st
    \<and> (case r of Some p \<Rightarrow> took order low P p \<and> pn_region p < dl_regions (ims_layout st) \<and> mem_inv (without P p) F' st'
       | None \<Rightarrow> mem_inv P F' st' \<and> (\<forall>i q. i \<in> F order \<longrightarrow> \<not> block order q \<subseteq> P i))"
  using assms
proof (induction "card (F order)" arbitrary: F st rule: less_induct)
  case less
  obtain al where al: "ims_allocators st = Some al" "al_inv (ims_cap st) (max_order_of (ims_cap st)) (region_pages (ims_layout st)) P F al"
    "length (region_allocators al) = dl_regions (ims_layout st)" using mem_invD [OF less.prems(1)] .
  have o: "order \<le> MAX_MAX_PAGE_ORDER" using less.prems(2) by (simp add: MAX_MAX_PAGE_ORDER_def)
  obtain N h where rt: "rt_rep N h F (region_tracker al)" using al(2) by (auto simp: al_inv_def)
  have F: "F order \<subseteq> {..<dl_regions (ims_layout st)}" using al(2,3) o by (auto simp: al_inv_def)
  then have fin: "finite (F order)" by (rule finite_subset) simp
  show ?case
  proof (cases "F order = {}")
    case True
    then have "allocate_helper_retry order low st = ok (None, st)"
      by (subst allocate_helper_retry.simps) (simp add: al(1) get_region_tracker_def rt_find_free_ok [OF rt o])
    then show ?thesis using less.prems(1) True by (intro exI [of _ None] exI [of _ st] exI [of _ F]) simp
  next
    case False
    define i where "i = Min (F order)"
    have iF: "i \<in> F order" unfolding i_def using fin False by simp
    then have i: "i < length (region_allocators al)" using F al(3) by auto
    have ff: "rt_find_free (region_tracker al) order = ok (Some i)" using rt_find_free_ok [OF rt o] False by (simp add: i_def)
    note hp = al_heap [OF al(2) i]
    obtain r a where a: "(if low then alloc_lowest (region_allocators al ! i) order else bud_alloc (region_allocators al ! i) order) = ok (r, a)"
      "bud_len a = region_pages (ims_layout st) i" "bud_max_order a = max_order_of (ims_cap st)"
      "case r of Some p \<Rightarrow> block order p \<subseteq> P i \<and> buddy_ok (ims_cap st) (P i - block order p) a \<and> (low \<longrightarrow> (\<forall>q. block order q \<subseteq> P i \<longrightarrow> p \<le> q))
        | None \<Rightarrow> buddy_ok (ims_cap st) (P i) a \<and> (\<forall>q. \<not> block order q \<subseteq> P i)"
      using region_alloc_ok [OF hp(1), of order low, unfolded hp(2,3), OF less.prems(2)] by blast
    note step = retry_step [OF al(1) ff i a(1)]
    show ?thesis
    proof (cases r)
      case (Some p)
      have b: "block order p \<subseteq> P i" "buddy_ok (ims_cap st) (P i - block order p) a" "low \<longrightarrow> (\<forall>q. block order q \<subseteq> P i \<longrightarrow> p \<le> q)"
        using a(4) Some by simp_all
      let ?p = "\<lparr>pn_region = i, pn_index = p, pn_order = order\<rparr>"
      have pn: "pn_new i p order = ok ?p"
        using pn_new_ok [OF al(2) i _ less.prems(2) b(1)] al(3) mem_inv_layout(5) [OF less.prems(1)] by simp
      let ?al = "al\<lparr>region_allocators := (region_allocators al)[i := a]\<rparr>"
      have "mem_inv (without P ?p) F (st\<lparr>ims_allocators := Some ?al\<rparr>)"
        using al_inv_take [OF al(2) i b(2) a(2,3)] al(3) by (intro mem_inv_set [OF less.prems(1)]) simp_all
      then show ?thesis using step Some pn b i al(3)
        by (intro exI [of _ "Some ?p"] exI [of _ "st\<lparr>ims_allocators := Some ?al\<rparr>"] exI [of _ F]) (simp add: took_def)
    next
      case None
      have b: "buddy_ok (ims_cap st) (P i) a" "\<forall>q. \<not> block order q \<subseteq> P i" using a(4) None by simp_all
      let ?al = "al\<lparr>region_allocators := (region_allocators al)[i := a]\<rparr>" let ?G = "\<lambda>k. if order \<le> k then F k - {i} else F k"
      have inv: "al_inv (ims_cap st) (max_order_of (ims_cap st)) (region_pages (ims_layout st)) P F ?al"
        using al_inv_take [OF al(2) i b(1) a(2,3)] by simp
      have "P i = {}" if "order = 0" using b(2) that by (auto simp: block_def)
      then obtain rt' where rt': "rt_mark_full (region_tracker ?al) order i = ok rt'"
        "al_inv (ims_cap st) (max_order_of (ims_cap st)) (region_pages (ims_layout st)) P ?G (?al\<lparr>region_tracker := rt'\<rparr>)"
        using al_inv_full [OF inv _ o, of i] i by auto
      let ?st = "st\<lparr>ims_allocators := Some (?al\<lparr>region_tracker := rt'\<rparr>)\<rparr>"
      have "mem_inv P ?G ?st" using rt'(2) al(3) by (intro mem_inv_set [OF less.prems(1)]) simp_all
      moreover have "card (?G order) < card (F order)" using fin iF False by (simp add: card_gt_0_iff)
      ultimately obtain r' st' F' where r': "allocate_helper_retry order low ?st = ok (r', st')" "ims_header st' = ims_header ?st"
        "read_from_secondary st' = read_from_secondary ?st"
        "case r' of Some p \<Rightarrow> took order low P p \<and> pn_region p < dl_regions (ims_layout ?st) \<and> mem_inv (without P p) F' st'
          | None \<Rightarrow> mem_inv P F' st' \<and> (\<forall>j q. j \<in> ?G order \<longrightarrow> \<not> block order q \<subseteq> P j)"
        using less.hyps [of ?G ?st] less.prems(2) by force
      have "allocate_helper_retry order low st = ok (r', st')" using step None rt'(1) r'(1) by simp
      then show ?thesis using r'(2-4) b(2) by (intro exI [of _ r'] exI [of _ st'] exI [of _ F']) (auto split: option.splits)
    qed
  qed
qed

lemma block_in_interval: "a \<le> q * 2 ^ k \<Longrightarrow> (q + 1) * 2 ^ k \<le> b \<Longrightarrow> block k q \<subseteq> {a..<b}"
proof
  fix x assume A: "a \<le> q * 2 ^ k" "(q + 1) * 2 ^ k \<le> b" "x \<in> block k q"
  have "q * 2 ^ k \<le> x" using A(3) div_times_less_eq_dividend [of x "2 ^ k"] by simp
  moreover have "x < (q + 1) * 2 ^ k" using A(3) dividend_less_div_times [of "2 ^ k" x] by simp
  ultimately show "x \<in> {a..<b}" using A(1,2) by simp
qed

text \<open>An interval of twice the size of a block contains a block.\<close>

lemma block_in_room:
  assumes "a + 2 * 2 ^ k \<le> b"
  shows "\<exists>q. block k q \<subseteq> {a..<b}"
proof (intro exI block_in_interval)
  let ?q = "div_ceil a (2 ^ k)"
  show "a \<le> ?q * 2 ^ k" by (rule div_ceil_bounds(1)) simp
  have "?q * 2 ^ k < a + 2 ^ k" if "0 < a" using div_ceil_bounds(2) [of "2 ^ k" a] that by simp
  then show "(?q + 1) * 2 ^ k \<le> b" using assms by (cases "a = 0") auto
qed

subsection \<open>Growing\<close>

text \<open>The layout of \<open>D\<close> pages that \<open>calculate\<close> gives.\<close>

definition paged_layout :: "nat \<Rightarrow> nat \<Rightarrow> nat \<Rightarrow> nat \<Rightarrow> db_layout" where
  "paged_layout M H p D = (let region = (\<lambda>n. \<lparr>rl_num_pages = n, rl_header_pages = H, rl_page_size = p\<rparr>) in
     \<lparr>dl_full = region M, dl_num_full = (if D \<le> M then 0 else D div M),
      dl_trailing = (if D \<le> M then Some (region D) else if D mod M = 0 then None else Some (region (D mod M)))\<rparr>)"

lemma dl_calculate_pages:
  assumes "0 < D" "0 < M" "0 < p" "M < 2 ^ 32" "(M + 1) * p < 2 ^ 64" "D * p < 2 ^ 64" "D div M < 2 ^ 32"
  shows "dl_calculate (D * p) M H p = ok (paged_layout M H p D)"
proof -
  have ce: "div_ceil (x * p) p = x" for x using assms(3) by (simp add: div_ceil_cases)
  have mp: "M * p < 2 ^ 64" "0 < M * p" using assms by simp_all
  have rl: "rl_calculate (x * p) M H p = ok \<lparr>rl_num_pages = x, rl_header_pages = H, rl_page_size = p\<rparr>" if "x \<le> M" for x
    using rl_calculate_ok [OF assms(3) _ assms(4,5), of "x * p" H] that by (simp add: ce)
  show ?thesis
  proof (cases "D \<le> M")
    case True
    then show ?thesis using assms(2,3) mp rl [of D]
      by (simp add: dl_calculate_def rl_new_def rl_usable_bytes_def cmul_def mult.commute [of p M] paged_layout_def)
  next
    case False
    define k where "k = D div M"
    define r where "r = D mod M"
    have D: "D = k * M + r" "r < M" using assms(2) by (simp_all add: k_def r_def)
    have k: "0 < k" using False assms(2) by (simp add: k_def div_greater_zero_iff)
    have dv: "D * p div (M * p) = k" using assms(3) by (simp add: k_def)
    have sub: "D * p - k * (M * p) = r * p" unfolding D(1) by (simp add: algebra_simps)
    have le: "k * (M * p) \<le> D * p" unfolding D(1) by (simp add: algebra_simps)
    have km: "cmul 64 k (M * p) = ok (k * (M * p))" unfolding cmul_def using order_le_less_trans [OF le assms(6)] by (simp only: if_True)
    have cs: "csub (D * p) (k * (M * p)) = ok (r * p)" unfolding csub_def sub using le by (simp only: if_True)
    have us: "rl_usable_bytes \<lparr>rl_num_pages = M, rl_header_pages = H, rl_page_size = p\<rparr> = ok (M * p)"
      using mp by (simp add: rl_usable_bytes_def cmul_def mult.commute)
    have nl: "\<not> D * p \<le> M * p" using False assms(3) by simp
    have cd: "cdiv (D * p) (M * p) = ok k" using mp(2) dv by (simp add: cdiv_def)
    have tr: "try_into 32 k = ok k" using assms(7) by (simp add: try_into_def k_def)
    show ?thesis
      unfolding dl_calculate_def rl_new_def paged_layout_def
      using assms(2,3) False k rl [of r] D(2)
      by (simp add: us nl cd km cs tr k_def [symmetric] r_def [symmetric])
  qed
qed


lemma paged_layout_shape:
  assumes "0 < D" "0 < M"
  shows "dl_full (paged_layout M H p D) = \<lparr>rl_num_pages = M, rl_header_pages = H, rl_page_size = p\<rparr>"
    "0 < dl_regions (paged_layout M H p D)"
    "dl_regions (paged_layout M H p D) = div_ceil D M"
    "dl_trailing (paged_layout M H p D) = Some t \<Longrightarrow> 0 < rl_num_pages t \<and> rl_num_pages t \<le> M \<and> rl_header_pages t = H \<and> rl_page_size t = p"
    "dl_size (paged_layout M H p D) = p + (div_ceil D M * H + D) * p"
    "i < dl_regions (paged_layout M H p D) \<Longrightarrow> region_pages (paged_layout M H p D) i = min M (D - i * M)"
proof -
  define k where "k = D div M"
  define r where "r = D mod M"
  have D: "D = k * M + r" "r < M" using assms(2) by (simp_all add: k_def r_def)
  have dc: "div_ceil D M = (if r = 0 then k else k + 1)" using div_ceil_cases [OF assms(2)] by (simp add: k_def r_def)
  have one: "D \<le> M \<Longrightarrow> div_ceil D M = 1" using assms by (cases "D = M") (auto simp: div_ceil_cases)
  have k0: "\<not> D \<le> M \<Longrightarrow> 0 < k" using assms(2) by (simp add: k_def div_greater_zero_iff)
  have L: "paged_layout M H p D = \<lparr>dl_full = \<lparr>rl_num_pages = M, rl_header_pages = H, rl_page_size = p\<rparr>, dl_num_full = (if D \<le> M then 0 else k),
      dl_trailing = (if D \<le> M then Some \<lparr>rl_num_pages = D, rl_header_pages = H, rl_page_size = p\<rparr>
        else if r = 0 then None else Some \<lparr>rl_num_pages = r, rl_header_pages = H, rl_page_size = p\<rparr>)\<rparr>"
    by (simp add: paged_layout_def k_def r_def)
  show "dl_full (paged_layout M H p D) = \<lparr>rl_num_pages = M, rl_header_pages = H, rl_page_size = p\<rparr>" by (simp add: L)
  show reg: "dl_regions (paged_layout M H p D) = div_ceil D M" using one dc by (auto simp: L dl_regions_def)
  show "0 < dl_regions (paged_layout M H p D)" unfolding reg using dc one k0 D(1) assms(1) by (cases "D \<le> M") auto
  show "dl_trailing (paged_layout M H p D) = Some t \<Longrightarrow> 0 < rl_num_pages t \<and> rl_num_pages t \<le> M \<and> rl_header_pages t = H \<and> rl_page_size t = p"
    using assms(1) D(2) by (auto simp: L split: if_splits)
  show "dl_size (paged_layout M H p D) = p + (div_ceil D M * H + D) * p"
  proof (cases "D \<le> M")
    case True
    then show ?thesis using one by (simp add: L dl_size_def rl_size_def)
  next
    case False
    have "k * ((H + M) * p) + (if r = 0 then 0 else (H + r) * p) = ((if r = 0 then k else k + 1) * H + (k * M + r)) * p"
      by (simp add: algebra_simps)
    then have "k * ((H + M) * p) + (if r = 0 then 0 else (H + r) * p) = (div_ceil D M * H + D) * p"
      unfolding dc D(1) [symmetric] .
    moreover have "dl_size (paged_layout M H p D) = p + (k * ((H + M) * p) + (if r = 0 then 0 else (H + r) * p))"
      using False by (cases "r = 0") (simp_all add: L dl_size_def rl_size_def)
    ultimately show ?thesis by (simp only:)
  qed
  show "region_pages (paged_layout M H p D) i = min M (D - i * M)" if "i < dl_regions (paged_layout M H p D)"
  proof -
    have i: "i < div_ceil D M" using that reg by simp
    show ?thesis
    proof (cases "D \<le> M")
      case True
      then show ?thesis using i one by (simp add: L region_pages_def last_region_pages_def)
    next
      case False
      show ?thesis
      proof (cases "i < k")
        case True
        then have "(i + 1) * M \<le> k * M" by (intro mult_le_mono1) simp
        then have "M \<le> D - i * M" unfolding D(1) by simp
        then show ?thesis using True False by (simp add: L region_pages_def)
      next
        case nk: False
        then have "i = k" "r \<noteq> 0" using i dc by (auto split: if_splits)
        moreover have "min M (D - k * M) = r" using D by simp
        ultimately show ?thesis using False by (simp add: L region_pages_def last_region_pages_def)
      qed
    qed
  qed
qed

text \<open>The number of pages \<open>grow\<close> aims for.\<close>

definition grow_pages :: "db_layout \<Rightarrow> nat \<Rightarrow> nat" where
  "grow_pages l r = (let M = rl_num_pages (dl_full l) in
     if 0 < dl_num_full l then (case dl_trailing l of
         Some t \<Rightarrow> if 2 * 2 ^ r < M - rl_num_pages t then (dl_num_full l + 1) * M else (dl_num_full l + 2) * M
       | None \<Rightarrow> (dl_num_full l + 1) * M)
     else max (2 * dl_pages l) (dl_pages l + 2 * 2 ^ r))"

lemma next_desired_ok:
  assumes p: "rl_page_size (dl_full l) = p" "\<And>t. dl_trailing l = Some t \<Longrightarrow> rl_page_size t = p \<and> rl_num_pages t \<le> M"
    and M: "rl_num_pages (dl_full l) = M" "2 ^ r \<le> M" "(dl_num_full l + 3) * (M * p) < 2 ^ 64"
  shows "next_desired_size l (2 ^ r * p) (M * p) = ok (grow_pages l r * p)"
proof -
  define n where "n = dl_num_full l"
  define t where "t = (case dl_trailing l of Some x \<Rightarrow> rl_num_pages x | None \<Rightarrow> 0)"
  define s where "s = M * p"
  have t: "t \<le> M" using p(2) by (auto simp: t_def split: option.splits)
  have ts: "t * p \<le> s" unfolding s_def using t by (rule mult_le_mono1)
  have r: "2 ^ r * p \<le> s" unfolding s_def using M(2) by (rule mult_le_mono1)
  have b: "n * s + 3 * s < 2 ^ 64" using M(3) by (simp add: n_def s_def add_mult_distrib)
  have c: "cmul 64 a x = ok (a * x)" if "a * x \<le> n * s + 3 * s" for a x :: nat using that b by (simp add: cmul_def)
  have d: "cadd 64 a x = ok (a + x)" if "a + x \<le> n * s + 3 * s" for a x :: nat using that b by (simp add: cadd_def)
  have uf: "rl_usable_bytes (dl_full l) = ok s" using c [of p M] by (simp add: rl_usable_bytes_def M(1) p(1) s_def mult.commute [of p M])
  have ut: "(case dl_trailing l of Some x \<Rightarrow> rl_usable_bytes x | None \<Rightarrow> ok 0) = ok (t * p)"
    using p(2) c [of p t] ts by (auto simp: rl_usable_bytes_def t_def mult.commute [of p] split: option.splits)
  have u: "dl_usable_bytes l = ok (n * s + t * p)"
    using c [of n s] d [of "n * s" "t * p"] ts unfolding dl_usable_bytes_def ut uf by (simp add: n_def)
  have pg: "dl_pages l = n * M + t" by (simp add: dl_pages_def n_def t_def M(1) split: option.splits)
  show ?thesis
  proof (cases "n = 0")
    case True
    have dbl: "(0 + x) * 2 \<le> 0 + 3 * s" "x \<le> s \<Longrightarrow> 0 + x + y * 2 \<le> 0 + 3 * s" if "x \<le> s" "y \<le> s" for x y
      using that by simp_all
    have z: "n * s = 0" using True by simp
    have "cmul 64 (n * s + t * p) 2 = ok ((n * s + t * p) * 2)" "cadd 64 (n * s + t * p) (2 ^ r * p * 2) = ok (n * s + t * p + 2 ^ r * p * 2)"
      using c [of "n * s + t * p" 2] d [of "n * s + t * p" "2 ^ r * p * 2"] dbl [OF ts r] ts unfolding z by blast+
    moreover have "cmul 64 (2 ^ r * p) 2 = ok (2 ^ r * p * 2)" using c [of "2 ^ r * p" 2] dbl(1) [OF r r] unfolding z by simp
    moreover have "max ((n * s + t * p) * 2) (n * s + t * p + 2 ^ r * p * 2) = max (2 * (n * M + t)) (n * M + t + 2 * 2 ^ r) * p"
      using True by (simp add: nat_mult_max_right algebra_simps)
    ultimately show ?thesis using True unfolding next_desired_size_def u grow_pages_def pg
      by (simp add: n_def)
  next
    case n: False
    show ?thesis
    proof (cases "dl_trailing l")
      case None
      then have "t = 0" by (simp add: t_def)
      then have "cadd 64 (n * s + t * p) s = ok ((n + 1) * M * p)" using d [of "n * s" s] by (simp add: s_def algebra_simps)
      then show ?thesis using n None unfolding next_desired_size_def u grow_pages_def by (simp add: n_def M(1) s_def)
    next
      case (Some x)
      then have x: "rl_usable_bytes x = ok (t * p)" using ut by simp
      have xt: "rl_num_pages x = t" using Some by (simp add: t_def)
      have 1: "cmul 64 2 (2 ^ r * p) = ok (2 * (2 ^ r * p))" "csub s (t * p) = ok (s - t * p)" "cmul 64 2 s = ok (2 * s)"
        "cadd 64 (n * s + t * p) (2 * s) = ok (n * s + t * p + 2 * s)" "csub (n * s + t * p + 2 * s) (t * p) = ok (n * s + 2 * s)"
        "cadd 64 (n * s + t * p) (s - t * p) = ok (n * s + s)"
        using r ts c [of 2 "2 ^ r * p"] c [of 2 s] d [of "n * s + t * p" "2 * s"] d [of "n * s + t * p" "s - t * p"]
        by (simp_all add: csub_def)
      have 2: "2 * (2 ^ r * p) < s - t * p \<longleftrightarrow> 0 < p \<and> 2 * 2 ^ r < M - t"
      proof -
        have e: "s - t * p = (M - t) * p" "2 * (2 ^ r * p) = 2 * 2 ^ r * p" by (simp_all add: s_def diff_mult_distrib)
        show ?thesis unfolding e mult_less_cancel2 by simp
      qed
      have 3: "n * s + s = (n + 1) * M * p" "n * s + 2 * s = (n + 2) * M * p" by (simp_all add: s_def algebra_simps)
      show ?thesis
      proof (cases "p = 0")
        case True
        then show ?thesis using n Some x 1 2 3 unfolding next_desired_size_def u grow_pages_def by (simp add: n_def s_def)
      next
        case False
        then show ?thesis using n Some x 1 2 3 xt unfolding next_desired_size_def u grow_pages_def M(1) s_def [symmetric]
          by (simp add: n_def [symmetric])
      qed
    qed
  qed
qed

lemma region_pages_min:
  assumes "managed l" "i < dl_regions l"
  shows "region_pages l i = min (rl_num_pages (dl_full l)) (dl_pages l - i * rl_num_pages (dl_full l))"
proof -
  let ?M = "rl_num_pages (dl_full l)"
  have i: "i \<le> dl_num_full l" "dl_trailing l = None \<Longrightarrow> i < dl_num_full l" using assms(2) by (auto simp: dl_regions_def split: if_splits)
  show ?thesis
  proof (cases "i < dl_num_full l")
    case True
    then have "(i + 1) * ?M \<le> dl_num_full l * ?M" by (intro mult_le_mono1) simp
    then have "?M \<le> dl_pages l - i * ?M" by (simp add: dl_pages_def)
    then show ?thesis using True by (simp add: region_pages_def)
  next
    case False
    then obtain t where "dl_trailing l = Some t" "i = dl_num_full l" using i by (cases "dl_trailing l") auto
    then show ?thesis using assms(1) by (simp add: region_pages_def last_region_pages_def dl_pages_def managed_def)
  qed
qed

lemma div_ceil_mult [simp]: "0 < (m :: nat) \<Longrightarrow> div_ceil (n * m) m = n"
  by (simp add: div_ceil_cases)

lemma grow_pages_bounds:
  assumes "managed l" "2 ^ r \<le> rl_num_pages (dl_full l)"
  shows "dl_pages l < grow_pages l r" "dl_regions l \<le> div_ceil (grow_pages l r) (rl_num_pages (dl_full l))"
    "div_ceil (grow_pages l r) (rl_num_pages (dl_full l)) \<le> dl_regions l + 2"
proof -
  let ?M = "rl_num_pages (dl_full l)" let ?D = "grow_pages l r"
  have M: "0 < ?M" using assms(1) by (simp add: managed_def)
  have r: "0 < dl_regions l" using assms(1) by (simp add: managed_def)
  have "dl_pages l < ?D \<and> dl_num_full l * ?M + (if dl_trailing l = None then 0 else 1) \<le> dl_pages l \<and> ?D \<le> (dl_regions l + 2) * ?M"
  proof (cases "dl_num_full l = 0")
    case True
    then obtain t where t: "dl_trailing l = Some t" using r by (auto simp: dl_regions_def split: if_splits)
    then have tt: "0 < rl_num_pages t" "rl_num_pages t \<le> ?M" using assms(1) by (auto simp: managed_def)
    then show ?thesis using True t assms(2) by (simp add: grow_pages_def dl_pages_def dl_regions_def Let_def)
  next
    case False
    then show ?thesis using assms(1) M
      by (cases "dl_trailing l") (auto simp: grow_pages_def dl_pages_def dl_regions_def managed_def Let_def)
  qed
  then have b: "dl_pages l < ?D" "dl_num_full l * ?M + (if dl_trailing l = None then 0 else 1) \<le> dl_pages l" "?D \<le> (dl_regions l + 2) * ?M" by auto
  show "dl_pages l < ?D" by (rule b(1))
  have "(dl_regions l - 1) * ?M < ?D"
  proof -
    have "(dl_regions l - 1) * ?M \<le> dl_num_full l * ?M" by (intro mult_le_mono1) (simp add: dl_regions_def)
    then show ?thesis using b(1,2) by linarith
  qed
  then have "dl_regions l - 1 < div_ceil ?D ?M" using less_div_ceil_iff [OF M] by simp
  then show "dl_regions l \<le> div_ceil ?D ?M" using r by simp
  show "div_ceil ?D ?M \<le> dl_regions l + 2" using div_ceil_le_iff [OF M] b(3) by simp
qed

text \<open>After growing, some region has a new free block of the required order.\<close>

lemma grow_block:
  assumes lo: "managed lo" "rl_num_pages (dl_full lo) = 2 ^ e" and r: "r \<le> e"
  defines "D \<equiv> grow_pages lo r"
  shows "\<exists>i q. i < div_ceil D (2 ^ e) \<and> block r q \<subseteq> {(if i < dl_regions lo then region_pages lo i else 0)..<min (2 ^ e) (D - i * 2 ^ e)}"
proof -
  let ?M = "2 ^ e :: nat"
  have rM: "(2 :: nat) ^ r \<le> ?M" using r by (intro power_increasing) auto
  have first: "block r 0 \<subseteq> {0..<b}" if "2 ^ r \<le> b" for b using block_in_interval [of 0 0 r b] that by simp
  have full: "n < div_ceil ((n + 1) * ?M) ?M" "min ?M ((n + 1) * ?M - n * ?M) = ?M" for n
    by (subst div_ceil_mult) simp_all
  consider (fill) t where "0 < dl_num_full lo" "dl_trailing lo = Some t" "2 * 2 ^ r < ?M - rl_num_pages t"
    | (both) t where "0 < dl_num_full lo" "dl_trailing lo = Some t" "\<not> 2 * 2 ^ r < ?M - rl_num_pages t"
    | (new) "0 < dl_num_full lo" "dl_trailing lo = None"
    | (single) t where "dl_num_full lo = 0" "dl_trailing lo = Some t"
    using lo(1) by (cases "dl_trailing lo"; cases "dl_num_full lo") (auto simp: managed_def dl_regions_def)
  then show ?thesis
  proof cases
    case fill
    let ?n = "dl_num_full lo"
    have D: "D = (?n + 1) * ?M" using fill lo(2) by (simp add: D_def grow_pages_def Let_def)
    have o: "region_pages lo ?n = rl_num_pages t" "?n < dl_regions lo" using fill by (simp_all add: region_pages_def last_region_pages_def dl_regions_def)
    have "rl_num_pages t + 2 * 2 ^ r \<le> ?M" using fill(3) by simp
    then obtain q where "block r q \<subseteq> {rl_num_pages t..<?M}" using block_in_room by blast
    then show ?thesis unfolding D by - (rule exI [of _ ?n], rule exI [of _ q], simp only: full o if_True)
  next
    case both
    let ?n = "dl_num_full lo + 1"
    have D: "D = (?n + 1) * ?M" using both lo(2) by (simp add: D_def grow_pages_def Let_def)
    have "\<not> ?n < dl_regions lo" using both by (simp add: dl_regions_def)
    then show ?thesis unfolding D using first [OF rM] by - (rule exI [of _ ?n], rule exI [of _ 0], simp only: full if_False)
  next
    case new
    let ?n = "dl_num_full lo"
    have D: "D = (?n + 1) * ?M" using new lo(2) by (simp add: D_def grow_pages_def Let_def)
    have "\<not> ?n < dl_regions lo" using new by (simp add: dl_regions_def)
    then show ?thesis unfolding D using first [OF rM] by - (rule exI [of _ ?n], rule exI [of _ 0], simp only: full if_False)
  next
    case single
    define t' where "t' = rl_num_pages t"
    have t: "0 < t'" "t' \<le> ?M" using lo single by (auto simp: managed_def t'_def)
    have D: "D = max (2 * t') (t' + 2 * 2 ^ r)" using single by (simp add: D_def grow_pages_def Let_def dl_pages_def t'_def)
    have o: "region_pages lo 0 = t'" "dl_regions lo = 1" using single by (simp_all add: region_pages_def last_region_pages_def dl_regions_def t'_def)
    have D1: "t' + 2 * 2 ^ r \<le> D" "0 < D" using t(1) unfolding D by simp_all
    then have c0: "0 < div_ceil D ?M" using less_div_ceil_iff [of ?M 0 D] by simp
    show ?thesis
    proof (cases "?M + 2 ^ r \<le> D")
      case True
      then have "1 < div_ceil D ?M" using less_div_ceil_iff [of ?M 1 D] by (simp add: less_le_trans [of ?M "?M + 2 ^ r"])
      moreover have "block r 0 \<subseteq> {0..<min ?M (D - 1 * ?M)}" using True rM by (intro first) simp
      ultimately show ?thesis using o by - (rule exI [of _ 1], rule exI [of _ 0], simp)
    next
      case False
      have "\<exists>q. block r q \<subseteq> {t'..<min ?M D}"
      proof (cases "D \<le> ?M")
        case True
        then show ?thesis using block_in_room [OF D1(1)] by (simp add: min_def)
      next
        case nD: False
        have pw: "(2 :: nat) ^ (e - r) * 2 ^ r = ?M" using r by (simp flip: power_add)
        have q1: "(2 ^ (e - r) - 1 + 1) * 2 ^ r = ?M" unfolding pw [symmetric] by simp
        have "(2 ^ (e - r) - 1) * 2 ^ r = ?M - 2 ^ r" unfolding pw [symmetric] by (simp add: diff_mult_distrib)
        moreover have "t' \<le> ?M - 2 ^ r" using False D1(1) by simp
        ultimately have "block r (2 ^ (e - r) - 1) \<subseteq> {t'..<?M}" using q1 by (intro block_in_interval) simp_all
        then show ?thesis using nD by (auto simp: min_def)
      qed
      then show ?thesis using o c0 by - (rule exI [of _ 0], simp)
    qed
  qed
qed

lemma paged_managed:
  assumes "0 < D" "0 < M" "M \<le> 2 ^ 20" "div_ceil D M \<le> MAX_REGIONS" "p + (MAX_REGIONS + 1) * ((H + M) * p) < 2 ^ 64"
  shows "managed (paged_layout M H p D)"
proof -
  let ?l = "paged_layout M H p D"
  note s = paged_layout_shape [OF assms(1,2), where H = H and p = p]
  have n: "dl_num_full ?l \<le> MAX_REGIONS" using s(3) assms(4) by (simp add: dl_regions_def split: if_splits)
  have "(dl_num_full ?l + 1) * ((H + M) * p) \<le> (MAX_REGIONS + 1) * ((H + M) * p)" using n by (intro mult_le_mono1) simp
  then have "p + (dl_num_full ?l + 1) * ((H + M) * p) < 2 ^ 64" using assms(5) by linarith
  then have "dl_bounded ?l" using n unfolding dl_bounded_def rl_size_def s(1) by (simp add: MAX_REGIONS_def)
  then show ?thesis using s(1-4) assms(2-4) by (auto simp: managed_def split: option.splits)
qed

lemma hd_set_layout_managed:
  assumes "managed l" "dl_full l = dl_full (hdr_layout h)"
    "\<And>t. dl_trailing l = Some t \<Longrightarrow> rl_header_pages t = hd_region_header_pages h \<and> rl_page_size t = hd_page_size h"
  shows "\<exists>h'. hd_set_layout h l = ok h' \<and> hdr_layout h' = l \<and> (layout_fields_ok h \<longrightarrow> layout_fields_ok h')
    \<and> h' = h\<lparr>hd_trailing_pages := hd_trailing_pages h', hd_full_regions := hd_full_regions h'\<rparr>"
proof -
  define t where "t = (case dl_trailing l of Some x \<Rightarrow> rl_num_pages x | None \<Rightarrow> 0)"
  let ?h = "h\<lparr>hd_trailing_pages := t, hd_full_regions := dl_num_full l\<rparr>"
  have m: "0 < hd_region_max_data_pages h" using assms(1,2) by (simp add: managed_def)
  have "hd_set_layout h l = ok ?h"
    using assms hd_layout_ok [OF m] by (auto simp: hd_set_layout_def t_def split: option.splits)
  moreover have "hdr_layout ?h = l"
    using assms by (cases l, cases "dl_trailing l") (auto simp: hdr_layout_def t_def managed_def)
  moreover have "layout_fields_ok ?h" if "layout_fields_ok h"
    using that assms(1,2) by (auto simp: layout_fields_ok_def managed_def dl_regions_def t_def split: option.splits)
  ultimately show ?thesis by (intro exI [of _ ?h]) simp
qed

text \<open>Resizing the file never panics.\<close>

lemma remove_cached_total:
  "slot < length (read_cache cf) \<Longrightarrow> \<exists>cf'. remove_cached slot k cf = ok cf' \<and> length (read_cache cf') = length (read_cache cf)"
  by (auto simp: remove_cached_def split: prod.splits)

lemma for_each_keeps:
  assumes "Q s" "\<And>x u. x \<in> set xs \<Longrightarrow> Q u \<Longrightarrow> \<exists>v. body x u = ok v \<and> Q v"
  shows "\<exists>t. for_each xs body s = ok t \<and> Q t"
  using for_each_inv [of "\<lambda>_. Q" s xs body] assms by simp

lemma invalidate_above_total: "\<exists>cf'. invalidate_read_cache_above n c = ok cf'"
proof -
  define Q where "Q u \<longleftrightarrow> length (read_cache u) = length (read_cache c)" for u :: "'a cached_file"
  have "\<exists>cf'. invalidate_read_cache_above n c = ok cf' \<and> Q cf'"
    unfolding invalidate_read_cache_above_def
  proof (rule for_each_keeps)
    show "Q c" by (simp add: Q_def)
    fix i u assume i: "i \<in> set [0..<length (read_cache c)]" and u: "Q u"
    have "\<exists>v. for_each (filter (\<lambda>k. n \<le> k) (map fst (lru_cache (read_cache u ! i)))) (remove_cached i) u = ok v \<and> Q v"
    proof (rule for_each_keeps [where Q = Q, OF u])
      fix x w assume "Q w"
      then show "\<exists>v. remove_cached i x w = ok v \<and> Q v" using remove_cached_total [of i w x] i by (simp add: Q_def)
    qed
    then show "\<exists>v. (do { lock \<leftarrow> index (read_cache u) i;
        let stale = filter (\<lambda>k. k \<ge> n) (map fst (lru_cache lock));
        for_each stale (remove_cached i) u }) = ok v \<and> Q v" using i u by (simp add: Q_def)
  qed
  then show ?thesis by blast
qed

lemma cf_resize_total: "\<exists>r cf'. cf_resize B n cf = ok (r, cf')"
proof -
  obtain r f where l: "cb_len B (cf_file cf) = (r, f)" by fastforce
  show ?thesis
  proof (cases r)
    case (Inr old)
    obtain c where c: "(if n < old then invalidate_read_cache_above n (cf\<lparr>cf_file := f\<rparr>) else ok (cf\<lparr>cf_file := f\<rparr>)) = ok c"
      using invalidate_above_total [of n "cf\<lparr>cf_file := f\<rparr>"] by (cases "n < old") auto
    obtain r' f' where s: "cb_set_len B n (cf_file c) = (r', f')" by fastforce
    show ?thesis using l Inr c s by (simp add: cf_resize_def io_then_def on_file_def)
  qed (use l in \<open>simp add: cf_resize_def io_then_def on_file_def\<close>)
qed

lemma on_storage_total: "(\<And>cf. \<exists>r cf'. op cf = ok (r, cf')) \<Longrightarrow> \<exists>r cf'. on_storage op m = ok (r, m\<lparr>tm_storage := cf'\<rparr>)"
proof -
  assume "\<And>cf. \<exists>r cf'. op cf = ok (r, cf')"
  then obtain r cf' where "op (tm_storage m) = ok (r, cf')" by blast
  then have "on_storage op m = ok (r, m\<lparr>tm_storage := cf'\<rparr>)" by (simp add: on_storage_def)
  then show ?thesis by blast
qed


lemma sync_file_total: "\<exists>r cf'. sync_file B cf = ok (r, cf')"
  by (simp add: sync_file_def on_file_def split: prod.splits)

text \<open>The free pages after growing.\<close>

abbreviation grown :: "in_memory_state \<Rightarrow> in_memory_state \<Rightarrow> (nat \<Rightarrow> nat set) \<Rightarrow> nat \<Rightarrow> nat set" where
  "grown st st' P \<equiv> resized (ims_layout st) (ims_layout st') P"

lemma grow_plan:
  fixes m :: "'f tx_memory"
  assumes inv: "mem_inv P F (tm_state m)" and ps: "tm_page_size m = hd_page_size (tm_header m)"
    and e: "ims_cap (tm_state m) = 2 ^ e" "r \<le> e" and room: "dl_regions (ims_layout (tm_state m)) + 2 \<le> MAX_REGIONS"
  defines "l \<equiv> paged_layout (ims_cap (tm_state m)) (hd_region_header_pages (tm_header m)) (hd_page_size (tm_header m)) (grow_pages (ims_layout (tm_state m)) r)"
  shows "grow B r m = io_then (on_storage (cf_resize B (dl_size l)) m) (\<lambda>_ m.
     io_then (on_storage (sync_file B) m) (\<lambda>_ m. do {
       al \<leftarrow> ims_allocators (tm_state m);
       al \<leftarrow> al_resize_to al l;
       header \<leftarrow> hd_set_layout (tm_header m) l;
       ok (Inr (), m\<lparr>tm_state := (tm_state m)\<lparr>ims_allocators := Some al, ims_header := header\<rparr>\<rparr>) }))"
    and "managed l" "dl_full l = dl_full (ims_layout (tm_state m))" "dl_regions (ims_layout (tm_state m)) \<le> dl_regions l"
    and "\<And>i. i < dl_regions (ims_layout (tm_state m)) \<Longrightarrow> region_pages (ims_layout (tm_state m)) i \<le> region_pages l i"
    and "\<exists>i q. i < dl_regions l \<and> block r q \<subseteq> {(if i < dl_regions (ims_layout (tm_state m)) then region_pages (ims_layout (tm_state m)) i else 0)..<region_pages l i}"
proof -
  let ?st = "tm_state m" let ?h = "tm_header m" let ?lo = "ims_layout (tm_state m)" let ?M = "ims_cap (tm_state m)"
  let ?p = "hd_page_size (tm_header m)" let ?H = "hd_region_header_pages (tm_header m)"
  note I = mem_inv_layout [OF inv]
  have f: "layout_fields_ok ?h" "0 < ?p" "?p \<le> 4096" using inv by (auto simp: mem_inv_def)
  note B = layout_bounds [OF f]
  define D where "D = grow_pages ?lo r"
  have rM: "2 ^ r \<le> ?M" using e by (simp add: power_increasing)
  note gb = grow_pages_bounds [OF I(2), of r, unfolded hdr_layout_full, OF rM, folded D_def]
  have regs: "div_ceil D ?M \<le> MAX_REGIONS" using gb(3) room by simp
  have D0: "0 < D" using gb(1) by simp
  let ?l = "paged_layout ?M ?H ?p D"
  have l: "l = ?l" by (simp add: l_def D_def)
  have big: "(MAX_REGIONS + 1) * (?M * ?p) < 2 ^ 64"
  proof -
    have "?M * ?p \<le> (?H + ?M) * ?p" by (intro mult_le_mono1) simp
    then have "(MAX_REGIONS + 1) * (?M * ?p) \<le> (MAX_REGIONS + 1) * ((?H + ?M) * ?p)" by (rule mult_le_mono2)
    then show ?thesis using B(4) by linarith
  qed
  have desired: "next_desired_size ?lo (2 ^ r * ?p) (?M * ?p) = ok (D * ?p)"
    unfolding D_def
  proof (rule next_desired_ok)
    have "dl_num_full ?lo + 3 \<le> MAX_REGIONS + 1" using room by (simp add: dl_regions_def split: if_splits)
    then have "(dl_num_full ?lo + 3) * (?M * ?p) \<le> (MAX_REGIONS + 1) * (?M * ?p)" by (rule mult_le_mono1)
    then show "(dl_num_full ?lo + 3) * (?M * ?p) < 2 ^ 64" using big by linarith
  qed (use rM f(1) in \<open>auto simp: hdr_layout_def layout_fields_ok_def split: if_splits\<close>)
  have Mb: "(?M + 1) * ?p < 2 ^ 64"
  proof -
    have "(?M + 1) * ?p \<le> (2 ^ 20 + 1) * 4096" using I(7) f(3) by (intro mult_le_mono) auto
    then show ?thesis by simp
  qed
  have Db: "D * ?p < 2 ^ 64"
  proof -
    have "D \<le> div_ceil D ?M * ?M" using div_ceil_bounds(1) I(8) .
    also have "\<dots> \<le> MAX_REGIONS * ?M" using regs by (rule mult_le_mono1)
    finally have "D * ?p \<le> MAX_REGIONS * ?M * ?p" by (rule mult_le_mono1)
    also have "\<dots> \<le> (MAX_REGIONS + 1) * (?M * ?p)" unfolding mult.assoc by (rule mult_le_mono1) simp
    finally show ?thesis using big by linarith
  qed
  have Dd: "D div ?M < 2 ^ 32"
    using regs div_ceil_cases [OF I(8), of D] by (simp add: MAX_REGIONS_def split: if_splits)
  have calc: "dl_calculate (D * ?p) ?M ?H ?p = ok ?l"
    using dl_calculate_pages [OF D0 I(8) f(2) _ Mb Db Dd] I(7) by simp
  note sh = paged_layout_shape [OF D0 I(8), where H = ?H and p = ?p]
  have man: "managed ?l" using paged_managed [OF D0 I(8,7) regs B(4)] .
  have full: "dl_full ?l = dl_full ?lo" unfolding sh(1) by (simp add: hdr_layout_def)
  have shape: "dl_shape ?l" using sh(2,4) by (auto simp: dl_shape_def dl_regions_def rl_size_def full split: option.splits)
  have len: "dl_len ?l = ok (dl_size ?l)" using dl_len_ok [OF shape] man by (simp add: managed_def)
  have sz: "dl_size ?lo \<le> dl_size ?l"
  proof -
    have "dl_size ?lo = ?p + (dl_regions ?lo * ?H + dl_pages ?lo) * ?p"
      by (simp add: dl_size_def rl_size_def dl_regions_def dl_pages_def hdr_layout_def algebra_simps)
    moreover have "(dl_regions ?lo * ?H + dl_pages ?lo) * ?p \<le> (div_ceil D ?M * ?H + D) * ?p"
      using gb by (intro mult_le_mono1 add_mono) auto
    ultimately show ?thesis unfolding sh(5) by linarith
  qed
  have c: "cmul 64 (2 ^ r) ?p = ok (2 ^ r * ?p)" "cmul 64 ?M ?p = ok (?M * ?p)"
  proof -
    have "2 ^ r * ?p \<le> ?M * ?p" using rM by (rule mult_le_mono1)
    moreover have "?M * ?p < 2 ^ 64" using Mb by simp
    ultimately have "2 ^ r * ?p < 2 ^ 64" "?M * ?p < 2 ^ 64" by linarith+
    then show "cmul 64 (2 ^ r) ?p = ok (2 ^ r * ?p)" "cmul 64 ?M ?p = ok (?M * ?p)" unfolding cmul_def by (simp_all only: if_True)
  qed
  have e20: "e \<le> 20" using I(7) e(1) by (metis power_increasing_iff one_less_numeral_iff semiring_norm(76))
  show "grow B r m = io_then (on_storage (cf_resize B (dl_size l)) m) (\<lambda>_ m.
     io_then (on_storage (sync_file B) m) (\<lambda>_ m. do {
       al \<leftarrow> ims_allocators (tm_state m);
       al \<leftarrow> al_resize_to al l;
       header \<leftarrow> hd_set_layout (tm_header m) l;
       ok (Inr (), m\<lparr>tm_state := (tm_state m)\<lparr>ims_allocators := Some al, ims_header := header\<rparr>\<rparr>) }))"
    using e20 e(2) sz unfolding l grow_def I(1) by (simp add: c desired calc len I(3) ps)
  show "managed l" "dl_full l = dl_full ?lo" "dl_regions ?lo \<le> dl_regions l" unfolding l using man full gb(2) sh(3) by simp_all
  have rp: "region_pages l i = min ?M (D - i * ?M)" if "i < dl_regions l" for i using sh(6) [of i] that unfolding l .
  show "region_pages ?lo i \<le> region_pages l i" if "i < dl_regions ?lo" for i
    using rp [of i] that region_pages_min [OF I(2) that] gb(1,2) sh(3) unfolding l by simp
  obtain i q where i: "i < div_ceil D ?M" "block r q \<subseteq> {(if i < dl_regions ?lo then region_pages ?lo i else 0)..<min ?M (D - i * ?M)}"
    using grow_block [OF I(2) _ e(2)] e(1) unfolding D_def by auto
  have il: "i < dl_regions l" using i(1) sh(3) unfolding l by simp
  show "\<exists>i q. i < dl_regions l \<and> block r q \<subseteq> {(if i < dl_regions ?lo then region_pages ?lo i else 0)..<region_pages l i}"
    using il i(2) unfolding rp [OF il, symmetric] by blast
qed

lemma paged_trailing:
  assumes "dl_trailing (paged_layout M H p D) = Some t"
  shows "rl_header_pages t = H" "rl_page_size t = p"
  using assms by (auto simp: paged_layout_def split: if_splits)

lemma max_order_ge:
  assumes "2 ^ r \<le> M" "M \<le> 2 ^ 20"
  shows "r \<le> max_order_of M"
proof -
  have "(2 :: nat) ^ r < 2 ^ bit_len M" "(2 :: nat) ^ r \<le> 2 ^ 20" using assms less_bit_len [of M] by linarith+
  then have "r < bit_len M" "r \<le> 20" by (simp_all only: power_strict_increasing_iff power_increasing_iff one_less_numeral_iff semiring_norm(76))
  then show ?thesis by simp
qed

lemma grow_ok:
  fixes m :: "'f tx_memory"
  assumes inv: "mem_inv P F (tm_state m)" and ps: "tm_page_size m = hd_page_size (tm_header m)"
    and e: "ims_cap (tm_state m) = 2 ^ e" "r \<le> e" and room: "dl_regions (ims_layout (tm_state m)) + 2 \<le> MAX_REGIONS"
  shows "\<exists>x cf st. grow B r m = ok (x, m\<lparr>tm_storage := cf, tm_state := st\<rparr>) \<and> (case x of Inl _ \<Rightarrow> st = tm_state m
    | Inr _ \<Rightarrow> ims_cap st = ims_cap (tm_state m) \<and> (\<exists>F'. mem_inv (grown (tm_state m) st P) F' st
        \<and> (\<exists>i q. i \<in> F' r \<and> block r q \<subseteq> grown (tm_state m) st P i)))"
proof -
  let ?st = "tm_state m" let ?h = "tm_header m" let ?lo = "ims_layout (tm_state m)"
  define l where "l = paged_layout (ims_cap ?st) (hd_region_header_pages ?h) (hd_page_size ?h) (grow_pages ?lo r)"
  note plan = grow_plan [OF assms, folded l_def]
  note I = mem_inv_layout [OF inv]
  obtain al where al: "ims_allocators ?st = Some al" "al_inv (ims_cap ?st) (max_order_of (ims_cap ?st)) (region_pages ?lo) P F al"
    "length (region_allocators al) = dl_regions ?lo" using mem_invD [OF inv] .
  have cap: "ims_cap ?st = rl_num_pages (dl_full l)" unfolding plan(3) by simp
  have "{region_pages l i..<region_pages ?lo i} \<subseteq> P i" if "i < dl_regions l" "i < dl_regions ?lo" for i using plan(5) [OF that(2)] by simp
  then obtain al' F' where al': "al_resize_to al l = ok al'" "length (region_allocators al') = dl_regions l"
    "al_inv (ims_cap ?st) (max_order_of (ims_cap ?st)) (region_pages l) (resized ?lo l P) F' al'"
    "\<forall>i<dl_regions l. (if i < dl_regions ?lo then region_pages ?lo i else 0) < region_pages l i \<longrightarrow> offers F' (max_order_of (ims_cap ?st)) i (resized ?lo l P i)"
    using al_resize_to_ok [OF al(2,3) plan(2) I(2) plan(3) cap refl] by auto
  have "rl_header_pages t = hd_region_header_pages ?h \<and> rl_page_size t = hd_page_size ?h" if "dl_trailing l = Some t" for t
    using paged_trailing that unfolding l_def by blast
  then obtain h' where h': "hd_set_layout ?h l = ok h'" "hdr_layout h' = l" "layout_fields_ok h'"
    "h' = ?h\<lparr>hd_trailing_pages := hd_trailing_pages h', hd_full_regions := hd_full_regions h'\<rparr>"
    using hd_set_layout_managed [OF plan(2,3)] inv by (auto simp: mem_inv_def)
  have hs: "hd_page_size h' = hd_page_size ?h" "hd_region_max_data_pages h' = ims_cap ?st"
    by (subst h'(4), simp)+
  define st where "st = ?st\<lparr>ims_allocators := Some al', ims_header := h'\<rparr>"
  have "mem_inv (grown ?st st P) F' st" using inv al'(2,3) h'(2,3) hs by (simp add: mem_inv_def st_def)
  moreover have "\<exists>i q. i \<in> F' r \<and> block r q \<subseteq> grown ?st st P i"
  proof -
    obtain i q where i: "i < dl_regions l" "block r q \<subseteq> {(if i < dl_regions ?lo then region_pages ?lo i else 0)..<region_pages l i}"
      using plan(6) by blast
    have ne: "(if i < dl_regions ?lo then region_pages ?lo i else 0) < region_pages l i" using i(2) block_first [of q r] by fastforce
    have sub: "block r q \<subseteq> resized ?lo l P i" using i(2) by (auto simp: resized_def split: if_splits)
    have "2 ^ r \<le> ims_cap ?st" using e by (simp add: power_increasing)
    then have "r \<le> max_order_of (ims_cap ?st)" using max_order_ge I(7) by blast
    then have "i \<in> F' r" using al'(4) i(1) ne sub by (auto simp: offers_def)
    then show ?thesis using sub h'(2) by (auto simp: st_def)
  qed
  ultimately have Inr: "ims_cap st = ims_cap ?st \<and> (\<exists>F'. mem_inv (grown ?st st P) F' st \<and> (\<exists>i q. i \<in> F' r \<and> block r q \<subseteq> grown ?st st P i))"
    using hs(2) by (auto simp: st_def)
  obtain x1 cf1 where c1: "on_storage (cf_resize B (dl_size l)) m = ok (x1, m\<lparr>tm_storage := cf1\<rparr>)"
    using on_storage_total [of "cf_resize B (dl_size l)" m] cf_resize_total by blast
  obtain x2 cf2 where c2: "on_storage (sync_file B) (m\<lparr>tm_storage := cf1\<rparr>) = ok (x2, m\<lparr>tm_storage := cf2\<rparr>)"
    using on_storage_total [of "sync_file B" "m\<lparr>tm_storage := cf1\<rparr>", OF sync_file_total] by auto
  show ?thesis
  proof (cases x1)
    case (Inl e)
    then have "grow B r m = ok (Inl e, m\<lparr>tm_storage := cf1, tm_state := ?st\<rparr>)" unfolding plan(1) c1 by (simp add: io_then_def)
    then show ?thesis by force
  next
    case x1: (Inr u)
    show ?thesis
    proof (cases x2)
      case (Inl e)
      then have "grow B r m = ok (Inl e, m\<lparr>tm_storage := cf2, tm_state := ?st\<rparr>)" unfolding plan(1) c1 using x1 c2 by (simp add: io_then_def)
      then show ?thesis by force
    next
      case (Inr v)
      then have "grow B r m = ok (Inr (), m\<lparr>tm_storage := cf2, tm_state := st\<rparr>)"
        unfolding plan(1) c1 using x1 c2 al(1) al'(1) h'(1) by (simp add: io_then_def st_def)
      then show ?thesis using \<open>ims_cap st = ims_cap ?st \<and> _\<close> by force
    qed
  qed
qed

lemma allocate_page_ok:
  fixes m :: "'f tx_memory"
  assumes inv: "mem_inv P F (tm_state m)" and ps: "tm_page_size m = hd_page_size (tm_header m)"
    and e: "ims_cap (tm_state m) = 2 ^ e" "order \<le> e" and room: "dl_regions (ims_layout (tm_state m)) + 2 \<le> MAX_REGIONS"
  shows "\<exists>x cf st Q F'. allocate_page B order low m = ok (x, m\<lparr>tm_storage := cf, tm_state := st\<rparr>)
    \<and> (case x of Inl _ \<Rightarrow> ims_header st = tm_header m \<and> mem_inv P F' st
       | Inr p \<Rightarrow> (Q = P \<and> ims_header st = tm_header m \<or> Q = grown (tm_state m) st P) \<and> took order low Q p \<and> mem_inv (without Q p) F' st)"
proof -
  note I = mem_inv_layout [OF inv]
  have "2 ^ order \<le> ims_cap (tm_state m)" using e by (simp add: power_increasing)
  then have o: "order \<le> max_order_of (ims_cap (tm_state m))" using max_order_ge I(7) by blast
  obtain r st1 F1 where r: "allocate_helper_retry order low (tm_state m) = ok (r, st1)" "ims_header st1 = tm_header m"
    "case r of Some p \<Rightarrow> took order low P p \<and> pn_region p < dl_regions (ims_layout (tm_state m)) \<and> mem_inv (without P p) F1 st1
       | None \<Rightarrow> mem_inv P F1 st1 \<and> (\<forall>i q. i \<in> F order \<longrightarrow> \<not> block order q \<subseteq> P i)"
    using retry_ok [OF inv o, of low] by blast
  show ?thesis
  proof (cases r)
    case (Some p)
    then have "allocate_page B order low m = ok (Inr p, m\<lparr>tm_storage := tm_storage m, tm_state := st1\<rparr>)"
      using r(1) by (simp add: allocate_page_def)
    then show ?thesis using r(2,3) Some by (intro exI [of _ "Inr p"] exI [of _ "tm_storage m"] exI [of _ st1] exI [of _ P] exI [of _ F1]) simp
  next
    case None
    let ?m = "m\<lparr>tm_state := st1\<rparr>"
    have inv1: "mem_inv P F1 (tm_state ?m)" using r(3) None by simp
    obtain x cf st2 where g: "grow B order ?m = ok (x, ?m\<lparr>tm_storage := cf, tm_state := st2\<rparr>)" "case x of Inl _ \<Rightarrow> st2 = tm_state ?m
      | Inr _ \<Rightarrow> ims_cap st2 = ims_cap (tm_state ?m) \<and> (\<exists>F'. mem_inv (grown (tm_state ?m) st2 P) F' st2
        \<and> (\<exists>i q. i \<in> F' order \<and> block order q \<subseteq> grown (tm_state ?m) st2 P i))"
      using grow_ok [OF inv1, of e order B] assms r(2) by auto
    show ?thesis
    proof (cases x)
      case (Inl er)
      then have "allocate_page B order low m = ok (Inl er, m\<lparr>tm_storage := cf, tm_state := st1\<rparr>)"
        using r(1) None g by (simp add: allocate_page_def io_then_def)
      then show ?thesis using r(2) inv1
        by (intro exI [of _ "Inl er"] exI [of _ cf] exI [of _ st1] exI [of _ P] exI [of _ F1]) simp
    next
      case (Inr u)
      let ?Q = "grown (tm_state m) st2 P"
      obtain F2 i q where F2: "ims_cap st2 = ims_cap (tm_state m)" "mem_inv ?Q F2 st2" "i \<in> F2 order" "block order q \<subseteq> ?Q i"
        using g(2) Inr r(2) by auto
      obtain r' st3 F3 where r': "allocate_helper_retry order low st2 = ok (r', st3)" "ims_header st3 = ims_header st2"
        "case r' of Some p \<Rightarrow> took order low ?Q p \<and> pn_region p < dl_regions (ims_layout st2) \<and> mem_inv (without ?Q p) F3 st3
          | None \<Rightarrow> mem_inv ?Q F3 st3 \<and> (\<forall>i q. i \<in> F2 order \<longrightarrow> \<not> block order q \<subseteq> ?Q i)"
        using retry_ok [OF F2(2), of order low] o F2(1) by auto
      then obtain p where p: "r' = Some p" using F2(3,4) by (cases r') auto
      have "allocate_page B order low m = ok (Inr p, m\<lparr>tm_storage := cf, tm_state := st3\<rparr>)"
        using r(1) None g(1) Inr r'(1) p by (simp add: allocate_page_def io_then_def)
      then show ?thesis using r'(2,3) p
        by (intro exI [of _ "Inr p"] exI [of _ cf] exI [of _ st3] exI [of _ ?Q] exI [of _ F3]) simp
    qed
  qed
qed

subsection \<open>Shrinking\<close>

lemma reduce_ok:
  assumes l: "managed l" and t: "\<And>t. dl_trailing l = Some t \<Longrightarrow> rl_header_pages t = H \<and> rl_page_size t = p"
    and full: "rl_header_pages (dl_full l) = H" "rl_page_size (dl_full l) = p"
    and num: "num < last_region_pages l \<or> num = last_region_pages l \<and> 1 < dl_regions l"
  shows "\<exists>l'. reduce_last_region l num = ok l' \<and> managed l' \<and> dl_full l' = dl_full l
    \<and> (\<forall>t. dl_trailing l' = Some t \<longrightarrow> rl_header_pages t = H \<and> rl_page_size t = p)
    \<and> dl_regions l' = (if num = last_region_pages l then dl_regions l - 1 else dl_regions l)
    \<and> (\<forall>i. Suc i < dl_regions l \<longrightarrow> region_pages l' i = region_pages l i)
    \<and> (num < last_region_pages l \<longrightarrow> region_pages l' (dl_regions l - 1) = region_pages l (dl_regions l - 1) - num)
    \<and> dl_size l' \<le> dl_size l"
proof (cases "dl_trailing l")
  case None
  let ?M = "rl_num_pages (dl_full l)"
  obtain n where n: "dl_num_full l = Suc n" using l None by (cases "dl_num_full l") (auto simp: managed_def dl_regions_def)
  have lp: "last_region_pages l = ?M" by (simp add: last_region_pages_def None)
  let ?l = "l\<lparr>dl_num_full := n, dl_trailing := if num < ?M then Some \<lparr>rl_num_pages = ?M - num, rl_header_pages = H, rl_page_size = p\<rparr> else None\<rparr>"
  have eq: "reduce_last_region l num = ok ?l"
    using None n full by (simp add: reduce_last_region_def csub_def rl_new_def)
  have b: "dl_bounded ?l" using l n by (auto simp: managed_def dl_bounded_def)
  have s: "rl_size \<lparr>rl_num_pages = ?M - num, rl_header_pages = H, rl_page_size = p\<rparr> \<le> rl_size (dl_full l)"
    using full by (simp add: rl_size_def)
  show ?thesis
    by (rule exI [of _ ?l])
      (use eq b s l None n num lp in \<open>auto simp: managed_def dl_regions_def region_pages_def last_region_pages_def dl_size_def\<close>)
next
  case (Some x)
  let ?t = "rl_num_pages x"
  have lp: "last_region_pages l = ?t" by (simp add: last_region_pages_def Some)
  have x: "rl_header_pages x = H" "rl_page_size x = p" using t Some by auto
  let ?l = "l\<lparr>dl_trailing := if ?t - num = 0 then None else Some (x\<lparr>rl_num_pages := ?t - num\<rparr>)\<rparr>"
  have eq: "reduce_last_region l num = ok ?l" using Some num lp by (auto simp: reduce_last_region_def csub_def)
  have b: "dl_bounded ?l" using l by (auto simp: managed_def dl_bounded_def)
  have s: "rl_size (x\<lparr>rl_num_pages := ?t - num\<rparr>) \<le> rl_size x" by (simp add: rl_size_def)
  show ?thesis
    by (rule exI [of _ ?l])
      (use eq b s l Some num lp x in \<open>auto simp: managed_def dl_regions_def region_pages_def last_region_pages_def dl_size_def\<close>)
qed

lemma uniform_len:
  assumes "managed l" "\<And>t. dl_trailing l = Some t \<Longrightarrow> rl_header_pages t = rl_header_pages (dl_full l) \<and> rl_page_size t = rl_page_size (dl_full l)"
  shows "dl_len l = ok (dl_size l)"
proof (rule dl_len_ok)
  show "dl_shape l" using assms by (auto simp: dl_shape_def managed_def dl_regions_def rl_size_def split: option.splits)
  show "dl_bounded l" using assms(1) by (simp add: managed_def)
qed

lemma mem_inv_cong:
  assumes "mem_inv P F st" "\<And>i. i < dl_regions (ims_layout st) \<Longrightarrow> P i = Q i"
  shows "mem_inv Q F st"
proof -
  obtain al where al: "ims_allocators st = Some al" "al_inv (ims_cap st) (max_order_of (ims_cap st)) (region_pages (ims_layout st)) P F al"
    "length (region_allocators al) = dl_regions (ims_layout st)" using mem_invD [OF assms(1)] .
  have "al_inv (ims_cap st) (max_order_of (ims_cap st)) (region_pages (ims_layout st)) Q F al"
    by (rule al_inv_cong [OF al(2)]) (use al(3) assms(2) in simp)
  then show ?thesis using assms(1) al by (simp add: mem_inv_def)
qed

text \<open>\<open>kept l l' P\<close>: going from \<open>l\<close> to \<open>l'\<close> loses no allocated page.\<close>

definition kept :: "db_layout \<Rightarrow> db_layout \<Rightarrow> (nat \<Rightarrow> nat set) \<Rightarrow> bool" where
  "kept l l' P \<longleftrightarrow> (\<forall>i<dl_regions l. {..<region_pages l i} - P i = (if i < dl_regions l' then {..<region_pages l' i} - P i else {}))"

lemma try_shrink_ok:
  assumes inv: "mem_inv P F st"
  shows "\<exists>b st' F'. try_shrink st force = ok (b, st') \<and> (\<not> b \<longrightarrow> st' = st)
    \<and> mem_inv (\<lambda>i. P i \<inter> {..<region_pages (ims_layout st') i}) F' st' \<and> kept (ims_layout st) (ims_layout st') P
    \<and> dl_size (ims_layout st') \<le> dl_size (ims_layout st) \<and> read_from_secondary st' = read_from_secondary st
    \<and> (\<exists>t n. ims_header st' = (ims_header st)\<lparr>hd_trailing_pages := t, hd_full_regions := n\<rparr>)"
proof -
  let ?l = "ims_layout st" let ?h = "ims_header st" let ?M = "ims_cap st"
  note I = mem_inv_layout [OF inv]
  obtain al where al: "ims_allocators st = Some al" "al_inv ?M (max_order_of ?M) (region_pages ?l) P F al"
    "length (region_allocators al) = dl_regions ?l" using mem_invD [OF inv] .
  define k where "k = dl_regions ?l - 1"
  define L where "L = region_pages ?l k"
  have k: "k < length (region_allocators al)" using al(3) I(6) by (simp add: k_def)
  define a where "a = region_allocators al ! k"
  note hp = al_heap [OF al(2) k, folded a_def L_def]
  have lp: "last_region_pages ?l = L" using region_pages_last [OF I(6)] by (simp add: L_def k_def)
  have P: "P i \<subseteq> {..<region_pages ?l i}" if "i < dl_regions ?l" for i using al_heap(6) [OF al(2)] that al(3) by simp
  obtain t where t: "trailing_free_pages a = ok t" "t \<le> L" "{L - t..<L} \<subseteq> P k"
    using buddy_queries_ok [OF hp(1)] hp(2,4) by auto
  have pre: "csub (dl_regions ?l) 1 = ok k" "get_region st k = ok a" using I(6) al(1) k by (auto simp: csub_def k_def get_region_def a_def)
  have stay: "mem_inv (\<lambda>i. P i \<inter> {..<region_pages ?l i}) F st"
    by (rule mem_inv_cong [OF inv]) (use P in blast)
  have same: "kept ?l ?l P" "\<exists>t n. ?h = ?h\<lparr>hd_trailing_pages := t, hd_full_regions := n\<rparr>"
    by (simp add: kept_def, rule exI [of _ "hd_trailing_pages ?h"], rule exI [of _ "hd_full_regions ?h"], simp)
  show ?thesis
  proof (cases "t = 0 \<or> t < L div 2 \<and> \<not> force")
    case True
    then have "try_shrink st force = ok (False, st)" unfolding try_shrink_def I(1,4) bind.bind_lunit pre t(1) hp(2) Let_def by auto
    then show ?thesis using stay same by blast
  next
    case False
    define num where "num = (if 1 < dl_regions ?l \<and> t = L then t else if force then min (L - 1) t else t div 2)"
    have num: "num < L \<or> num = L \<and> 1 < dl_regions ?l" "num \<le> t" using hp(4) t(2) by (auto simp: num_def)
    have tr: "rl_header_pages x = hd_region_header_pages ?h \<and> rl_page_size x = hd_page_size ?h" if "dl_trailing ?l = Some x" for x
      using that by (auto simp: hdr_layout_def split: if_splits)
    obtain l' where l': "reduce_last_region ?l num = ok l'" "managed l'" "dl_full l' = dl_full ?l"
      "\<And>x. dl_trailing l' = Some x \<Longrightarrow> rl_header_pages x = hd_region_header_pages ?h \<and> rl_page_size x = hd_page_size ?h"
      "dl_regions l' = (if num = L then dl_regions ?l - 1 else dl_regions ?l)"
      "\<And>i. Suc i < dl_regions ?l \<Longrightarrow> region_pages l' i = region_pages ?l i"
      "num < L \<Longrightarrow> region_pages l' k = L - num" "dl_size l' \<le> dl_size ?l"
      using reduce_ok [OF I(2) tr, of num] num(1) lp by (auto simp: L_def k_def)
    have pg: "region_pages l' i \<le> region_pages ?l i" "{region_pages l' i..<region_pages ?l i} \<subseteq> P i" if "i < dl_regions l'" for i
    proof -
      have i: "Suc i < dl_regions ?l \<or> i = k \<and> num < L" using that l'(5) num(1) k_def by (auto split: if_splits)
      then show "region_pages l' i \<le> region_pages ?l i" using l'(6) [of i] l'(7) by (auto simp: L_def)
      show "{region_pages l' i..<region_pages ?l i} \<subseteq> P i" using i l'(6) [of i] l'(7) t(3) num(2) by (auto simp: L_def subset_iff)
    qed
    have cap: "?M = rl_num_pages (dl_full l')" using l'(3) by simp
    obtain al' F' where al': "al_resize_to al l' = ok al'" "length (region_allocators al') = dl_regions l'"
      "al_inv ?M (max_order_of ?M) (region_pages l') (resized ?l l' P) F' al'"
      using al_resize_to_ok [OF al(2,3) l'(2) I(2) l'(3) cap refl] pg(2) by blast
    obtain h' where h': "hd_set_layout ?h l' = ok h'" "hdr_layout h' = l'" "layout_fields_ok h'"
      "h' = ?h\<lparr>hd_trailing_pages := hd_trailing_pages h', hd_full_regions := hd_full_regions h'\<rparr>"
      using hd_set_layout_managed [OF l'(2,3,4)] inv by (auto simp: mem_inv_def)
    have hs: "hd_page_size h' = hd_page_size ?h" "hd_region_max_data_pages h' = ?M" by (subst h'(4), simp)+
    let ?st = "st\<lparr>ims_allocators := Some al', ims_header := h'\<rparr>"
    have "dl_len l' = ok (dl_size l')" using l'(2-4) by (intro uniform_len) (auto simp: hdr_layout_def)
    moreover have "(if dl_regions ?l > 1 \<and> t = L then ok t else if force then do { x \<leftarrow> csub L 1; ok (min x t) } else ok (t div 2)) = ok num"
      using hp(4) by (simp add: num_def csub_def)
    ultimately have eq: "try_shrink st force = ok (True, ?st)"
      unfolding try_shrink_def I(1,4) bind.bind_lunit pre t(1) hp(2) Let_def
      using False l'(1,8) al(1) al'(1) h'(1) I(3) by auto
    have le: "dl_regions l' \<le> dl_regions ?l" using l'(5) by simp
    have "mem_inv (resized ?l l' P) F' ?st" using inv h'(2,3) hs al'(2,3) by (simp add: mem_inv_def)
    moreover have "resized ?l l' P i = P i \<inter> {..<region_pages l' i}" if "i < dl_regions l'" for i
      using that le pg(1) [OF that] by (auto simp: resized_def)
    ultimately have "mem_inv (\<lambda>i. P i \<inter> {..<region_pages l' i}) F' ?st" using h'(2) by (auto intro: mem_inv_cong)
    moreover have "kept ?l l' P"
      unfolding kept_def
    proof (intro allI impI)
      fix i assume i: "i < dl_regions ?l"
      show "{..<region_pages ?l i} - P i = (if i < dl_regions l' then {..<region_pages l' i} - P i else {})"
      proof (cases "i < dl_regions l'")
        case True
        then show ?thesis using pg [OF True] by (auto simp: subset_iff not_less)
      next
        case gone: False
        then have "i = k" "num = L" using i l'(5) by (auto simp: k_def split: if_splits)
        then have "{..<region_pages ?l i} \<subseteq> P i" using t(2,3) num(2) by (auto simp: L_def lessThan_atLeast0)
        then show ?thesis using gone by auto
      qed
    qed
    ultimately show ?thesis using eq l'(8) h'(2,4) by (intro exI [of _ True] exI [of _ ?st] exI [of _ F']) auto
  qed
qed

subsection \<open>Unpersisted allocations\<close>

text \<open>The two indices of the pages allocated by non-durable transactions agree, and no transaction has an empty entry.\<close>

definition index_core :: "'f tx_memory \<Rightarrow> bool" where
  "index_core m \<longleftrightarrow> distinct (map fst (unpersisted_allocations m)) \<and> (\<forall>p t. unpersisted_allocation_txn m p = Some t \<longleftrightarrow>
     (\<exists>A. map_of (unpersisted_allocations m) t = Some A \<and> p \<in> A))"

definition index_ok :: "'f tx_memory \<Rightarrow> bool" where
  "index_ok m \<longleftrightarrow> index_core m \<and> {} \<notin> ran (map_of (unpersisted_allocations m))"

declare map_of_eq_Some_iff [simp del]

lemma map_of_AList_update [simp]: "map_of (AList.update k v xs) = (map_of xs)(k \<mapsto> v)"
  by (rule ext) (simp add: update_conv)

lemma map_of_AList_delete [simp]: "map_of (AList.delete k xs) = (map_of xs)(k := None)"
  by (rule ext) (simp add: delete_conv)

lemma record_page_ok:
  assumes "index_core m" "map_of (unpersisted_allocations m) t = Some A" "unpersisted_allocation_txn m p \<in> {None, Some t}"
  shows "\<exists>m'. record_page t p m = ok m' \<and> index_core m' \<and> map_of (unpersisted_allocations m') = (map_of (unpersisted_allocations m))(t \<mapsto> insert p A)
    \<and> unpersisted_allocation_txn m' = (unpersisted_allocation_txn m)(p \<mapsto> t)"
proof (cases "p \<in> A")
  case True
  then have "unpersisted_allocation_txn m p = Some t" using assms(1,2) by (auto simp: index_core_def)
  then have "(unpersisted_allocation_txn m)(p \<mapsto> t) = unpersisted_allocation_txn m"
    "(map_of (unpersisted_allocations m))(t \<mapsto> insert p A) = map_of (unpersisted_allocations m)" using assms(2) True by (auto simp: insert_absorb)
  then show ?thesis using True assms(1,2) by (simp add: record_page_def)
next
  case False
  then have n: "unpersisted_allocation_txn m p = None" using assms by (auto simp: index_core_def)
  let ?m = "m\<lparr>unpersisted_allocations := AList.update t (insert p A) (unpersisted_allocations m),
         unpersisted_allocation_txn := (unpersisted_allocation_txn m)(p \<mapsto> t)\<rparr>"
  have "index_core ?m"
    unfolding index_core_def
  proof (intro conjI allI)
    show "distinct (map fst (unpersisted_allocations ?m))" using assms(1) by (simp add: index_core_def distinct_update)
    fix q u
    have "unpersisted_allocation_txn m q = Some u \<longleftrightarrow> (\<exists>A. map_of (unpersisted_allocations m) u = Some A \<and> q \<in> A)"
      using assms(1) by (simp add: index_core_def)
    then show "unpersisted_allocation_txn ?m q = Some u \<longleftrightarrow> (\<exists>A. map_of (unpersisted_allocations ?m) u = Some A \<and> q \<in> A)"
      using assms(2) n by (cases "q = p"; cases "u = t") auto
  qed
  then show ?thesis using False n assms(2) by (simp add: record_page_def)
qed

lemma record_pages_ok:
  assumes "index_core m" "map_of (unpersisted_allocations m) t = Some A" "\<And>p. p \<in> set ps \<Longrightarrow> unpersisted_allocation_txn m p \<in> {None, Some t}"
  shows "\<exists>m'. for_each ps (record_page t) m = ok m' \<and> index_core m' \<and> map_of (unpersisted_allocations m') = (map_of (unpersisted_allocations m))(t \<mapsto> set ps \<union> A)"
  using assms
proof (induction ps arbitrary: m A)
  case (Cons p ps)
  obtain m' where m': "record_page t p m = ok m'" "index_core m'" "map_of (unpersisted_allocations m') = (map_of (unpersisted_allocations m))(t \<mapsto> insert p A)"
    "unpersisted_allocation_txn m' = (unpersisted_allocation_txn m)(p \<mapsto> t)"
    using record_page_ok [OF Cons.prems(1,2), of p] Cons.prems(3) by auto
  have l: "map_of (unpersisted_allocations m') t = Some (insert p A)" using m'(3) by simp
  have pre: "unpersisted_allocation_txn m' q \<in> {None, Some t}" if "q \<in> set ps" for q using m'(4) Cons.prems(3) [of q] that by auto
  obtain m'' where "for_each ps (record_page t) m' = ok m''" "index_core m''" "map_of (unpersisted_allocations m'') = (map_of (unpersisted_allocations m'))(t \<mapsto> set ps \<union> insert p A)"
    using Cons.IH [OF m'(2) l pre] by blast
  moreover have "((map_of (unpersisted_allocations m))(t \<mapsto> insert p A))(t \<mapsto> set ps \<union> insert p A) = (map_of (unpersisted_allocations m))(t \<mapsto> set (p # ps) \<union> A)"
    by (rule ext) simp
  ultimately show ?case using m'(1) unfolding m'(3) by (metis for_each.simps(2) bind.bind_lunit)
qed (auto simp: map_upd_triv)

lemma record_unpersisted_ok:
  assumes m: "index_ok m" and ps: "\<And>p. p \<in> set ps \<Longrightarrow> unpersisted_allocation_txn m p \<in> {None, Some t}"
  shows "\<exists>m'. record_unpersisted_allocations t ps m = ok m' \<and> index_ok m'
    \<and> unpersisted_allocation_txn m' = (\<lambda>p. if p \<in> set ps then Some t else unpersisted_allocation_txn m p)"
proof (cases "ps = []")
  case True
  then show ?thesis using m by (simp add: record_unpersisted_allocations_def)
next
  case False
  let ?u = "unpersisted_allocations m"
  define A where "A = (case map_of ?u t of Some x \<Rightarrow> x | None \<Rightarrow> {})"
  define m1 where "m1 = (case map_of ?u t of None \<Rightarrow> m\<lparr>unpersisted_allocations := AList.update t {} ?u\<rparr> | Some _ \<Rightarrow> m)"
  have m1: "map_of (unpersisted_allocations m1) = (map_of ?u)(t \<mapsto> A)" "unpersisted_allocation_txn m1 = unpersisted_allocation_txn m"
    by (auto simp: m1_def A_def map_upd_triv split: option.splits)
  have c1: "index_core m1" using m unfolding index_ok_def index_core_def m1 
    by (auto simp: m1_def A_def distinct_update split: option.splits if_splits)
  obtain m' where m': "for_each ps (record_page t) m1 = ok m'" "index_core m'" "map_of (unpersisted_allocations m') = (map_of (unpersisted_allocations m1))(t \<mapsto> set ps \<union> A)"
    using record_pages_ok [OF c1, of t A ps] m1 ps by auto
  have "set ps \<union> A \<noteq> {}" using False by simp
  then have "{} \<notin> ran (map_of (unpersisted_allocations m'))" using m unfolding m'(3) m1(1) by (auto simp: index_ok_def ran_def split: if_splits)
  then have ok': "index_ok m'" using m'(2) by (simp add: index_ok_def)
  have "unpersisted_allocation_txn m' p = (if p \<in> set ps then Some t else unpersisted_allocation_txn m p)" for p
  proof -
    have a: "unpersisted_allocation_txn m' p = Some u \<longleftrightarrow> (\<exists>B. map_of (unpersisted_allocations m') u = Some B \<and> p \<in> B)" for u
      using m'(2) by (simp add: index_core_def)
    have b: "unpersisted_allocation_txn m p = Some u \<longleftrightarrow> (\<exists>B. map_of ?u u = Some B \<and> p \<in> B)" for u
      using m by (simp add: index_ok_def index_core_def)
    have "unpersisted_allocation_txn m' p = Some u \<longleftrightarrow> (if p \<in> set ps then Some t else unpersisted_allocation_txn m p) = Some u" for u
      using a [of u] b [of u] ps [of p] unfolding m'(3) m1(1) by (auto simp: A_def split: option.splits if_splits)
    then show ?thesis by (metis not_Some_eq)
  qed
  then show ?thesis using m'(1) ok' False unfolding record_unpersisted_allocations_def m1_def by (auto simp: fun_eq_iff)
qed

lemma remove_unpersisted_ok:
  assumes m: "index_ok m"
  shows "\<exists>m'. remove_unpersisted_allocation p m = ok m' \<and> index_ok m' \<and> unpersisted_allocation_txn m' = (unpersisted_allocation_txn m)(p := None)"
proof (cases "unpersisted_allocation_txn m p")
  case None
  moreover from None have "(unpersisted_allocation_txn m)(p := None) = unpersisted_allocation_txn m" by auto
  ultimately show ?thesis using m by (simp add: remove_unpersisted_allocation_def)
next
  case (Some t)
  let ?u = "unpersisted_allocations m"
  have c: "unpersisted_allocation_txn m q = Some s \<longleftrightarrow> (\<exists>B. map_of ?u s = Some B \<and> q \<in> B)" for q s using m by (simp add: index_ok_def index_core_def)
  obtain A where A: "map_of ?u t = Some A" "p \<in> A" using Some c by blast
  let ?v = "if A - {p} = {} then AList.delete t ?u else AList.update t (A - {p}) ?u"
  let ?m = "m\<lparr>unpersisted_allocation_txn := (unpersisted_allocation_txn m)(p := None), unpersisted_allocations := ?v\<rparr>"
  have "remove_unpersisted_allocation p m = ok ?m" using Some A by (simp add: remove_unpersisted_allocation_def)
  moreover have "distinct (map fst ?v)" using m by (auto simp: index_ok_def index_core_def distinct_update distinct_delete)
  moreover have "((unpersisted_allocation_txn m)(p := None)) q = Some s \<longleftrightarrow> (\<exists>B. map_of ?v s = Some B \<and> q \<in> B)" for q s
    using c [of q s] c [of q t] c [of p s] A Some by (cases "A - {p} = {}") auto
  moreover have "{} \<notin> ran (map_of ?v)" using m A(1) by (auto simp: index_ok_def ran_def split: if_splits)
  ultimately show ?thesis by (intro exI [of _ ?m]) (simp add: index_ok_def index_core_def)
qed

lemma after_ok:
  assumes "index_ok m" "t + 1 < 2 ^ 64"
  shows "unpersisted_allocations_after t m = ok {p. \<exists>u>t. unpersisted_allocation_txn m p = Some u}"
proof -
  have d: "distinct (map fst (unpersisted_allocations m))" using assms by (simp add: index_ok_def index_core_def)
  have c: "unpersisted_allocation_txn m p = Some u \<longleftrightarrow> (\<exists>A. (u, A) \<in> set (unpersisted_allocations m) \<and> p \<in> A)" for p u
    using assms(1) d by (simp add: index_ok_def index_core_def map_of_eq_Some_iff)
  have "\<Union> (set (map snd (filter (\<lambda>(u, _). t + 1 \<le> u) (unpersisted_allocations m)))) = {p. \<exists>u>t. unpersisted_allocation_txn m p = Some u}"
    unfolding c by (auto simp: Suc_le_eq) blast
  then show ?thesis using assms(2) by (simp add: unpersisted_allocations_after_def cadd_def)
qed

subsection \<open>Resetting the allocators\<close>

lemma reset_ok:
  assumes "layout_fields_ok (tm_header m)" "0 < hd_page_size (tm_header m)" "hd_page_size (tm_header m) \<le> 4096"
  shows "\<exists>al F. reset_allocator_state m = ok (m\<lparr>tm_state := (tm_state m)\<lparr>ims_allocators := Some al\<rparr>, allocated_pages := {}\<rparr>)
    \<and> mem_inv (\<lambda>i. {..<region_pages (ims_layout (tm_state m)) i}) F ((tm_state m)\<lparr>ims_allocators := Some al\<rparr>)"
proof -
  let ?l = "ims_layout (tm_state m)"
  have m: "managed ?l" using layout_bounds(2) [OF assms] assms(1)
    by (auto simp: managed_def layout_fields_ok_def hdr_layout_def dl_regions_def MAX_PAGE_INDEX_def)
  obtain al F where al: "al_new ?l = ok al" "length (region_allocators al) = dl_regions ?l"
    "al_inv (ims_cap (tm_state m)) (max_order_of (ims_cap (tm_state m))) (region_pages ?l) (\<lambda>i. {..<region_pages ?l i}) F al"
    using al_new_ok [OF m] by auto
  have "hd_layout (tm_header m) = ok ?l" using assms(1) by (intro hd_layout_ok) (simp add: layout_fields_ok_def)
  then show ?thesis using al assms by (auto simp: reset_allocator_state_def mem_inv_def intro!: exI [of _ al] exI [of _ F])
qed

text \<open>A file of one full region of 8 pages and a trailing region of 4.\<close>

definition small_header :: db_header where
  "small_header = \<lparr>hd_primary_slot = 0, hd_recovery_required = False, hd_two_phase_commit = True, hd_page_size = 512,
     hd_region_header_pages = 0, hd_region_max_data_pages = 8, hd_full_regions = 1, hd_trailing_pages = 4, hd_slots = [th_new 1, th_new 0]\<rparr>"

definition small_memory :: "byte list tx_memory" where
  "small_memory = \<lparr>tm_unpersisted = {}, unpersisted_allocations = [], unpersisted_allocation_txn = Map.empty,
     tm_storage = cf_new (replicate 6656 0) 512 4096, tm_state = ims_new small_header, open_dirty_pages = {}, read_page_ref_counts = Map.empty,
     allocated_pages = {}, tm_page_size = 512, tm_region_size = 4096, region_header_with_padding_size = 0\<rparr>"

lemma small_memory_reset:
  "\<exists>m al F. reset_allocator_state small_memory = ok m \<and> m = small_memory\<lparr>tm_state := (ims_new small_header)\<lparr>ims_allocators := Some al\<rparr>\<rparr>
    \<and> mem_inv (\<lambda>i. {..<region_pages (hdr_layout small_header) i}) F (tm_state m)"
  using reset_ok [of small_memory]
  by (auto simp: small_memory_def small_header_def ims_new_def layout_fields_ok_def MAX_PAGE_INDEX_def MAX_REGIONS_def)

subsection \<open>Properties\<close>


lemma small_order: "2 \<le> max_order_of 8" "ims_cap (ims_new small_header) = 8"
  by (simp_all add: bit_len.simps ims_new_def small_header_def)




text \<open>C4. Shrinking the file never panics and never loses an allocated page: the layout it leaves still has a region,
  is not longer than before, and has exactly the allocated pages it had; when it reports that it did nothing the state is unchanged.\<close>

theorem shrink_keeps_allocated:
  assumes "mem_inv P F st"
  shows "\<exists>b st' F'. try_shrink st force = ok (b, st') \<and> (\<not> b \<longrightarrow> st' = st)
    \<and> mem_inv (\<lambda>i. P i \<inter> {..<region_pages (ims_layout st') i}) F' st' \<and> kept (ims_layout st) (ims_layout st') P
    \<and> 0 < dl_regions (ims_layout st') \<and> dl_size (ims_layout st') \<le> dl_size (ims_layout st)"
proof -
  obtain b st' F' where b: "try_shrink st force = ok (b, st')" "\<not> b \<longrightarrow> st' = st"
    "mem_inv (\<lambda>i. P i \<inter> {..<region_pages (ims_layout st') i}) F' st'" "kept (ims_layout st) (ims_layout st') P"
    "dl_size (ims_layout st') \<le> dl_size (ims_layout st)"
    using try_shrink_ok [OF assms, of force] by blast
  then show ?thesis using mem_inv_layout(6) [OF b(3)] by (intro exI [of _ b] exI [of _ st'] exI [of _ F']) simp
qed

theorem shrink_keeps_allocated_witness:
  "\<exists>m b st'. reset_allocator_state small_memory = ok m \<and> try_shrink (tm_state m) True = ok (b, st') \<and> 0 < dl_regions (ims_layout st')"
proof -
  obtain m F where m: "reset_allocator_state small_memory = ok m"
    "mem_inv (\<lambda>i. {..<region_pages (hdr_layout small_header) i}) F (tm_state m)" using small_memory_reset by blast
  from shrink_keeps_allocated [OF m(2), of True] m(1) show ?thesis by blast
qed

text \<open>C22. The two indices of the pages allocated by non-durable commits stay consistent: recording the pages of a transaction,
  removing a page and draining the index keep them in agreement and never hit an assertion, and the pages
  allocated after a transaction are exactly those recorded for a later one.\<close>

theorem unpersisted_index_consistent:
  assumes "index_ok m" "\<forall>p\<in>set ps. unpersisted_allocation_txn m p \<in> {None, Some t}" "t + 1 < 2 ^ 64"
  shows "(\<exists>m'. record_unpersisted_allocations t ps m = ok m' \<and> index_ok m'
        \<and> unpersisted_allocation_txn m' = (\<lambda>p. if p \<in> set ps then Some t else unpersisted_allocation_txn m p))
    \<and> (\<exists>m'. remove_unpersisted_allocation p m = ok m' \<and> index_ok m' \<and> unpersisted_allocation_txn m' = (unpersisted_allocation_txn m)(p := None))
    \<and> index_ok (snd (take_unpersisted_allocations m))
    \<and> unpersisted_allocations_after t m = ok {p. \<exists>u>t. unpersisted_allocation_txn m p = Some u}"
  using record_unpersisted_ok [OF assms(1), of ps t] remove_unpersisted_ok [OF assms(1)] after_ok [OF assms(1,3)] assms(2)
  by (auto simp: take_unpersisted_allocations_def index_ok_def index_core_def)

theorem unpersisted_index_consistent_witness:
  "\<exists>m'. record_unpersisted_allocations 7 [\<lparr>pn_region = 0, pn_index = 1, pn_order = 2\<rparr>] small_memory = ok m' \<and> index_ok m'"
proof -
  have i: "index_ok small_memory" "unpersisted_allocation_txn small_memory = Map.empty"
    by (simp_all add: small_memory_def index_ok_def index_core_def)
  show ?thesis using unpersisted_index_consistent [OF i(1), of "[\<lparr>pn_region = 0, pn_index = 1, pn_order = 2\<rparr>]" 7] i(2) by auto
qed

end
