(* ===== verification/Page_Manager_Commit.thy ===== *)
theory Page_Manager_Commit
  imports Page_Manager_Ops Cached_File_Ops
begin

text \<open>
  Commit and crash safety.  \<open>commit\<close> puts the roots of the transaction into the secondary slot, writes the header, swaps the
  slots and writes the header again.  The lemmas show at which commit slot a file with either header opens, and that after a
  successful \<open>commit\<close> the file itself, not only the caches, opens at the new commit.
\<close>

subsection \<open>The headers of a commit\<close>

definition new_slot :: "db_header \<Rightarrow> btree_header option \<Rightarrow> btree_header option \<Rightarrow> nat \<Rightarrow> transaction_header" where
  "new_slot h d s t = (hd_slots h ! (hd_primary_slot h XOR 1))\<lparr>th_transaction_id := t, th_user_root := d, th_system_root := s\<rparr>"

definition staged :: "db_header \<Rightarrow> btree_header option \<Rightarrow> btree_header option \<Rightarrow> nat \<Rightarrow> db_header" where
  "staged h d s t = h\<lparr>hd_slots := (hd_slots h)[hd_primary_slot h XOR 1 := new_slot h d s t]\<rparr>"

definition committed :: "db_header \<Rightarrow> btree_header option \<Rightarrow> btree_header option \<Rightarrow> nat \<Rightarrow> bool \<Rightarrow> db_header" where
  "committed h d s t two_phase = (swap_primary_slot (staged h d s t))\<lparr>hd_two_phase_commit := two_phase\<rparr>"

definition root_ok :: "btree_header option \<Rightarrow> bool" where
  "root_ok r \<longleftrightarrow> (\<forall>x. r = Some x \<longrightarrow> bh_wf x)"

lemma wf_slots:
  assumes "hd_wf h"
  shows "hd_primary_slot h = 0 \<or> hd_primary_slot h = 1" "hd_primary_slot h XOR 1 < length (hd_slots h)" "hd_primary_slot h < length (hd_slots h)"
    "hd_primary_slot h XOR 1 \<noteq> hd_primary_slot h" "hd_primary_slot h XOR 1 XOR 1 = hd_primary_slot h"
    "hd_primary_slot h XOR 1 < 2"
  using assms by (auto simp: hd_wf_def less_2_cases)

lemma stage_commit_ok: "hd_wf h \<Longrightarrow> stage_commit h d s t = ok (staged h d s t)"
  using wf_slots(2) [of h] by (simp add: stage_commit_def update_secondary_slot_def staged_def new_slot_def)

lemma slots_ok:
  assumes "hd_wf h"
  shows "primary_slot h = ok (hd_slots h ! hd_primary_slot h)" "secondary_slot h = ok (hd_slots h ! (hd_primary_slot h XOR 1))"
    "primary_slot (staged h d s t) = primary_slot h" "secondary_slot (staged h d s t) = ok (new_slot h d s t)"
    "primary_slot (committed h d s t b) = ok (new_slot h d s t)" "secondary_slot (committed h d s t b) = primary_slot h"
proof -
  consider (a) "hd_primary_slot h = 0" | (b) "hd_primary_slot h = 1" using wf_slots(1) [OF assms] by linarith
  moreover have "length (hd_slots h) = 2" using assms by (simp add: hd_wf_def)
  ultimately show "primary_slot h = ok (hd_slots h ! hd_primary_slot h)" "secondary_slot h = ok (hd_slots h ! (hd_primary_slot h XOR 1))"
    "primary_slot (staged h d s t) = primary_slot h" "secondary_slot (staged h d s t) = ok (new_slot h d s t)"
    "primary_slot (committed h d s t b) = ok (new_slot h d s t)" "secondary_slot (committed h d s t b) = primary_slot h"
    by (cases; simp add: primary_slot_def secondary_slot_def staged_def committed_def swap_primary_slot_def)+
qed

lemma commit_wf:
  assumes "hd_wf h" "root_ok d" "root_ok s" "t < 2 ^ 64"
  shows "hd_wf (staged h d s t)" "hd_wf (committed h d s t b)"
proof -
  have "th_wf (hd_slots h ! (hd_primary_slot h XOR 1))" using assms(1) wf_slots(2) [OF assms(1)] by (auto simp: hd_wf_def list_all_length)
  then have n: "th_wf (new_slot h d s t)" using assms(2-4) by (auto simp: th_wf_def new_slot_def root_ok_def)
  then show "hd_wf (staged h d s t)"
    using assms(1) list_all_update [where P = th_wf, OF _ n] by (auto simp: hd_wf_def staged_def layout_fields_ok_def)
  then show "hd_wf (committed h d s t b)"
    using wf_slots(6) [OF assms(1)] by (auto simp: hd_wf_def committed_def swap_primary_slot_def layout_fields_ok_def staged_def)
qed

lemma hdr_layout_slots [simp]:
  "hdr_layout (h\<lparr>hd_slots := x\<rparr>) = hdr_layout h" "hdr_layout (h\<lparr>hd_primary_slot := n\<rparr>) = hdr_layout h" "hdr_layout (h\<lparr>hd_two_phase_commit := b\<rparr>) = hdr_layout h"
  by (simp_all add: hdr_layout_def)

lemma commit_layout: "hdr_layout (staged h d s t) = hdr_layout h" "hdr_layout (committed h d s t b) = hdr_layout h"
  by (simp_all add: staged_def committed_def swap_primary_slot_def)

text \<open>\<open>opens_at bs len slot\<close>: opening a file of length \<open>len\<close> with the header \<open>bs\<close> starts from \<open>slot\<close>.\<close>

definition opens_at :: "byte list \<Rightarrow> nat \<Rightarrow> nat \<Rightarrow> transaction_header \<Rightarrow> bool" where
  "opens_at bs ps len slot \<longleftrightarrow> (\<exists>u h clean. un_from_bytes bs ps = ok (Inr u) \<and> finalize u len = ok (Inr (h, clean)) \<and> primary_slot h = ok slot)"

lemma opens:
  assumes h: "hd_wf h" and ps: "0 < hd_page_size h" "hd_page_size h \<le> 4096"
    and slots: "primary_slot h = ok p" "secondary_slot h = ok q"
  shows "opens_at (header_bytes h) (hd_page_size h) (dl_size (hdr_layout h)) (if hd_two_phase_commit h \<or> th_transaction_id q \<le> th_transaction_id p then p else q)"
proof -
  let ?u = "\<lparr>un_inner = h, un_primary_corrupted = False, un_secondary_corrupted = False\<rparr>"
  have f: "layout_fields_ok h" using h by (simp add: hd_wf_def)
  note b = layout_bounds(1,2) [OF f ps]
  have l: "hd_layout h = ok (hdr_layout h)" "dl_len (hdr_layout h) = ok (dl_size (hdr_layout h))"
    using f hd_layout_ok [of h] dl_len_ok [OF b] by (auto simp: layout_fields_ok_def)
  have r: "reconcile_layout ?u (dl_size (hdr_layout h)) = ok (Inr (False, ?u))" by (simp add: reconcile_layout_def l)
  have sw: "primary_slot (swap_primary_slot h) = secondary_slot h" by (simp add: primary_slot_def secondary_slot_def swap_primary_slot_def)
  show ?thesis
    using hd_round_trip [OF h] slots sw unfolding opens_at_def
    by (intro exI [of _ ?u]) (auto simp: finalize_def r select_primary_slot_def)
qed

subsection \<open>The header on disk\<close>

text \<open>The cached file is consistent, no page is lent out, and the header page at offset 0 has its own cache entry.\<close>

definition cf_ready :: "('f \<Rightarrow> byte list) \<Rightarrow> (nat \<Rightarrow> nat) \<Rightarrow> (byte list \<Rightarrow> bool) \<Rightarrow> 'f cached_file \<Rightarrow> bool" where
  "cf_ready content sz Q cf \<longleftrightarrow> sz 0 = DB_HEADER_SIZE \<and> (\<exists>R W. cf_inv sz (file_bytes content cf) R W cf \<and> (\<forall>k. W k \<noteq> Some None)
     \<and> pages_fit sz (length (file_bytes content cf)) (insert 0 (dom R \<union> dom W)) \<and> Q (view sz (file_bytes content cf) W 0))"

text \<open>An iteration order of the write buffer.\<close>

definition iterates :: "('f cached_file \<Rightarrow> nat list) \<Rightarrow> bool" where
  "iterates it \<longleftrightarrow> (\<forall>cf. finite (dom (lru_map (write_buffer cf))) \<longrightarrow> distinct (it cf) \<and> set (it cf) = dom (lru_map (write_buffer cf)))"

context storage_backend
begin

lemma put_header_ok:
  assumes "cf_ready content sz Q cf" "hd_wf h"
  shows "\<exists>r cf'. put_header B h True cf = ok (r, cf') \<and> (case r of Inl _ \<Rightarrow> cb_io_failed (cf_file cf')
    | Inr _ \<Rightarrow> cf_ready content sz ((=) (header_bytes h)) cf' \<and> length (bytes_of cf') = length (bytes_of cf))"
proof -
  obtain R W where i: "cf_inv sz (bytes_of cf) R W cf" "\<And>k. W k \<noteq> Some None" "fits_with sz (bytes_of cf) R W 0" and sz: "sz 0 = 320"
    using assms(1) by (auto simp: cf_ready_def)
  obtain r cf1 where r: "cf_write B 0 (sz 0) True cf = ok (r, cf1)" "case r of
      Inl e \<Rightarrow> cb_io_failed (cf_file cf1)
    | Inr p \<Rightarrow> wp_offset p = 0
        \<and> wp_data p = (if True \<and> 0 \<notin> dom R \<and> 0 \<notin> dom W then replicate (sz 0) 0 else view sz (bytes_of cf) W 0)
        \<and> (\<exists>R' W'. cf_inv sz (bytes_of cf1) R' W' cf1 \<and> W' 0 = Some None \<and> length (bytes_of cf1) = length (bytes_of cf)
            \<and> dom R' \<subseteq> dom R \<and> dom W' \<subseteq> insert 0 (dom W)
            \<and> (\<forall>j. j \<noteq> 0 \<longrightarrow> (W' j = Some None \<longleftrightarrow> W j = Some None))
            \<and> (\<forall>j. j \<noteq> 0 \<longrightarrow> fits_with sz (bytes_of cf) R W j \<longrightarrow> view sz (bytes_of cf1) W' j = view sz (bytes_of cf) W j))"
    using cf_write_ok [OF i(1) _ i(3,2), of True] by auto
  show ?thesis
  proof (cases r)
    case (Inl e)
    then show ?thesis using r sz by (simp add: put_header_def io_then_def)
  next
    case (Inr p)
    then obtain R' W' where w: "wp_offset p = 0" "wp_data p = (if 0 \<notin> dom R \<and> 0 \<notin> dom W then replicate (sz 0) 0 else view sz (bytes_of cf) W 0)"
      "cf_inv sz (bytes_of cf1) R' W' cf1" "W' 0 = Some None" "length (bytes_of cf1) = length (bytes_of cf)"
      "dom R' \<subseteq> dom R" "dom W' \<subseteq> insert 0 (dom W)" "\<And>j. j \<noteq> 0 \<Longrightarrow> W' j \<noteq> Some None"
      using r(2) i(2) by auto
    have "0 + sz 0 \<le> length (bytes_of cf)" using i(3) by (auto simp: pages_fit_def)
    then have "length (page (bytes_of cf) 0 (sz 0)) = sz 0" by (intro length_page) simp
    moreover have "length v = sz 0" if "W 0 = Some (Some v)" for v using cf_coreD(7) [OF cf_inv_core(1) [OF i(1)] that] .
    ultimately have ld: "length (wp_data p) = 320" using w(2) sz by (auto simp: view_def split: option.splits)
    let ?p = "p\<lparr>wp_data := header_bytes h\<rparr>"
    have lh: "length (header_bytes h) = 320" using header_slices(1) [OF assms(2)] .
    obtain cf2 where d: "wp_drop ?p cf1 = ok cf2" "cf_inv sz (bytes_of cf1) R' (W'(0 \<mapsto> Some (header_bytes h))) cf2" "bytes_of cf2 = bytes_of cf1"
      using wp_drop_ok [OF w(3), of ?p] w(1,4) lh sz by auto
    have "put_header B h True cf = ok (Inr (), cf2)"
      using r(1) Inr sz d(1) hd_to_bytes_ok [OF assms(2)] ld lh by (simp add: put_header_def io_then_def)
    moreover have "fits_with sz (bytes_of cf2) R' (W'(0 \<mapsto> Some (header_bytes h))) 0"
      unfolding d(3) w(5) by (rule pages_fit_mono [OF i(3)]) (use w(6,7) in auto)
    then have "cf_ready content sz ((=) (header_bytes h)) cf2"
      using d(2,3) w(8) sz unfolding cf_ready_def
      by (intro conjI exI [of _ R'] exI [of _ "W'(0 \<mapsto> Some (header_bytes h))"]) (auto simp: view_def)
    ultimately show ?thesis using d(3) w(5) by (intro exI [of _ "Inr ()"] exI [of _ cf2]) simp
  qed
qed

lemma flush_header_ok:
  assumes "cf_ready content sz Q cf" "iterates it"
  shows "\<exists>r cf'. cf_flush B (it cf) cf = ok (r, cf') \<and> (case r of Inl _ \<Rightarrow> cb_io_failed (cf_file cf')
    | Inr _ \<Rightarrow> cf_ready content sz Q cf' \<and> length (bytes_of cf') = length (bytes_of cf) \<and> DB_HEADER_SIZE \<le> length (bytes_of cf')
        \<and> Q (take DB_HEADER_SIZE (bytes_of cf')))"
proof -
  obtain R W where i: "cf_inv sz (bytes_of cf) R W cf" "\<And>k. W k \<noteq> Some None" "fits_with sz (bytes_of cf) R W 0" "Q (view sz (bytes_of cf) W 0)"
    and sz: "sz 0 = 320" using assms(1) by (auto simp: cf_ready_def)
  note c = cf_coreD [OF cf_inv_core(1) [OF i(1)]]
  have it: "distinct (it cf)" "set (it cf) = dom W" using assms(2) c(3,13) by (auto simp: iterates_def)
  obtain r cf' where r: "cf_flush B (it cf) cf = ok (r, cf')" "case r of
      Inl e \<Rightarrow> cb_io_failed (cf_file cf')
    | Inr _ \<Rightarrow> (\<exists>R'. cf_inv sz (bytes_of cf') R' Map.empty cf' \<and> dom R' \<subseteq> dom R \<union> dom W) \<and> length (bytes_of cf') = length (bytes_of cf)
        \<and> (\<forall>j. fits_with sz (bytes_of cf) R W j \<longrightarrow> page (bytes_of cf') j (sz j) = view sz (bytes_of cf) W j)
        \<and> total_bytes cf' \<le> max (read_cache_bytes cf) (max_cache_size cf)"
    using cf_flush_ok [OF i(1) it i(2)] by blast
  show ?thesis
  proof (cases r)
    case (Inr u)
    then obtain R' where f: "cf_inv sz (bytes_of cf') R' Map.empty cf'" "dom R' \<subseteq> dom R \<union> dom W" "length (bytes_of cf') = length (bytes_of cf)"
      "page (bytes_of cf') 0 (sz 0) = view sz (bytes_of cf) W 0" using r(2) i(3) by auto
    have p: "page (bytes_of cf') 0 (sz 0) = take 320 (bytes_of cf')" by (simp add: page_def sz)
    have "fits_with sz (bytes_of cf') R' Map.empty 0" unfolding f(3) by (rule pages_fit_mono [OF i(3)]) (use f(2) in auto)
    then have "cf_ready content sz Q cf'" using f(1,4) i(4) sz unfolding cf_ready_def
      by (intro conjI exI [of _ R'] exI [of _ Map.empty]) (auto simp: view_def)
    moreover have "320 \<le> length (bytes_of cf')" using i(3) f(3) sz by (auto simp: pages_fit_def)
    ultimately show ?thesis using r(1) Inr f(3,4) i(4) p by (intro exI [of _ r] exI [of _ cf']) simp
  qed (use r in \<open>simp\<close>)
qed

lemma invalidate_above_file:
  fixes c c' :: "'f cached_file"
  assumes "invalidate_read_cache_above n c = ok c'"
  shows "cf_file c' = cf_file c"
proof -
  have rc: "remove_cached i k u = ok v \<Longrightarrow> cf_file v = cf_file u" for i k and u v :: "'f cached_file"
    by (auto simp: remove_cached_def bind_ok_iff case_prod_beta)
  have fe: "for_each xs body u = ok v \<Longrightarrow> (\<And>x a b. body x a = ok b \<Longrightarrow> cf_file b = cf_file a) \<Longrightarrow> cf_file v = cf_file u"
    for xs :: "nat list" and body and u v :: "'f cached_file"
  proof (induction xs arbitrary: u)
    case (Cons x xs)
    then obtain w where "body x u = ok w" "for_each xs body w = ok v" by (auto simp: bind_ok_iff)
    then show ?case using Cons by metis
  qed simp
  show ?thesis using assms unfolding invalidate_read_cache_above_def
    by (rule fe) (auto simp: bind_ok_iff Let_def intro: fe rc)
qed

lemma resize_ok:
  "\<exists>r cf'. cf_resize B n cf = ok (r, cf') \<and> (case r of Inl _ \<Rightarrow> cb_io_failed (cf_file cf') | Inr _ \<Rightarrow> bytes_of cf' = vec_resize (bytes_of cf) n)"
proof -
  let ?f = "cf_file cf"
  show ?thesis
  proof (cases rule: cb_run_cases [of "be_len B" ?f])
    case (success old f')
    let ?c = "cf\<lparr>cf_file := ?f\<lparr>cb_file := f'\<rparr>\<rparr>"
    have b: "bytes_of ?c = bytes_of cf" using len_law success(1) by (simp add: file_bytes_def)
    obtain c0 where c0: "invalidate_read_cache_above n ?c = ok c0" using invalidate_above_total by blast
    define c where "c = (if n < old then c0 else ?c)"
    have c: "(if n < old then invalidate_read_cache_above n ?c else ok ?c) = ok c" "cf_file c = cf_file ?c"
      using c0 invalidate_above_file [OF c0] by (simp_all add: c_def)
    have e: "cf_resize B n cf = on_file (cb_set_len B n) c"
      using success(3) c(1) by (simp add: cf_resize_def io_then_def on_file_def cb_len_def)
    show ?thesis
    proof (cases rule: cb_run_cases [of "\<lambda>f. be_set_len B f n" "cf_file c"])
      case s: (success x f'')
      then have "cf_resize B n cf = ok (Inr x, c\<lparr>cf_file := (cf_file c)\<lparr>cb_file := f''\<rparr>\<rparr>)"
        unfolding e by (simp add: on_file_def cb_set_len_def)
      moreover have "content f'' = vec_resize (bytes_of cf) n" using set_len_law [OF s(1)] c(2) b by (simp add: file_bytes_def)
      ultimately show ?thesis by (simp add: file_bytes_def)
    next
      case (failed er cb')
      then show ?thesis unfolding e by (simp add: on_file_def cb_set_len_def)
    qed
  next
    case (failed er cb')
    then show ?thesis by (simp add: cf_resize_def io_then_def on_file_def cb_len_def)
  qed
qed

text \<open>Composing steps that may fail: every failure and the last step establish \<open>G\<close>.\<close>

lemma io_then_rule:
  assumes "\<exists>r s. m = ok (r, s) \<and> (case r of Inl e \<Rightarrow> G (Inl e) s | Inr x \<Rightarrow> Q x s)"
    "\<And>x s. Q x s \<Longrightarrow> \<exists>r s'. f x s = ok (r, s') \<and> G r s'"
  shows "\<exists>r s. io_then m f = ok (r, s) \<and> G r s"
proof -
  obtain r s where r: "m = ok (r, s)" "case r of Inl e \<Rightarrow> G (Inl e) s | Inr x \<Rightarrow> Q x s" using assms(1) by blast
  show ?thesis
  proof (cases r)
    case (Inl e)
    then show ?thesis using r by (simp add: io_then_def)
  next
    case (Inr x)
    then show ?thesis using r assms(2) [of x s] by (simp add: io_then_def)
  qed
qed

lemma outcome_mono:
  assumes "\<exists>r s. m = ok (r, s) \<and> (case r of Inl e \<Rightarrow> P e s | Inr x \<Rightarrow> Q x s)"
    "\<And>e s. P e s \<Longrightarrow> P' e s" "\<And>x s. Q x s \<Longrightarrow> Q' x s"
  shows "\<exists>r s. m = ok (r, s) \<and> (case r of Inl e \<Rightarrow> P' e s | Inr x \<Rightarrow> Q' x s)"
proof -
  obtain r s where "m = ok (r, s)" "case r of Inl e \<Rightarrow> P e s | Inr x \<Rightarrow> Q x s" using assms(1) by blast
  then show ?thesis using assms(2,3) by (intro exI [of _ r] exI [of _ s]) (auto split: sum.splits)
qed

lemma on_storage_rule:
  assumes "\<exists>r cf. op (tm_storage m) = ok (r, cf) \<and> (case r of Inl e \<Rightarrow> cb_io_failed (cf_file cf) | Inr x \<Rightarrow> Q cf)"
  shows "\<exists>r m'. on_storage op m = ok (r, m') \<and> (case r of
      Inl e \<Rightarrow> cb_io_failed (cf_file (tm_storage m')) \<and> tm_state m' = tm_state m
    | Inr x \<Rightarrow> Q (tm_storage m') \<and> tm_state m' = tm_state m)"
proof -
  obtain r cf where "op (tm_storage m) = ok (r, cf)" "case r of Inl e \<Rightarrow> cb_io_failed (cf_file cf) | Inr x \<Rightarrow> Q cf" using assms by blast
  then have "on_storage op m = ok (r, m\<lparr>tm_storage := cf\<rparr>)"
    "case r of Inl e \<Rightarrow> cb_io_failed (cf_file (tm_storage (m\<lparr>tm_storage := cf\<rparr>))) | Inr x \<Rightarrow> Q (tm_storage (m\<lparr>tm_storage := cf\<rparr>))"
    by (auto simp: on_storage_def split: sum.splits)
  then show ?thesis by (intro exI [of _ r] exI [of _ "m\<lparr>tm_storage := cf\<rparr>"]) (auto split: sum.splits)
qed

text \<open>The part of \<open>commit\<close> after shrinking.\<close>

lemma vec_resize_props: "length (vec_resize xs n) = n" "k \<le> n \<Longrightarrow> k \<le> length xs \<Longrightarrow> take k (vec_resize xs n) = take k xs"
  by (auto simp: vec_resize_def min_def)

lemma write_steps_ok:
  fixes m :: "'f tx_memory" and two_phase :: bool
  assumes h: "hd_wf h" "root_ok d" "root_ok s" "t < 2 ^ 64" and ps: "DB_HEADER_SIZE \<le> hd_page_size h" "hd_page_size h \<le> 4096"
    and cf: "cf_ready content sz Q (tm_storage m)" and it: "iterates it" and st: "tm_header m = h"
    and len: "smaller \<or> length (bytes_of (tm_storage m)) = dl_size (hdr_layout h)"
  defines "H1 \<equiv> staged h d s t" and "H2 \<equiv> committed h d s t two_phase"
  defines "G \<equiv> \<lambda>r (m' :: 'f tx_memory). case r of Inl e \<Rightarrow> cb_io_failed (cf_file (tm_storage m')) \<and> tm_state m' = tm_state m
    | Inr (u :: unit) \<Rightarrow> take DB_HEADER_SIZE (bytes_of (tm_storage m')) = header_bytes H2 \<and> length (bytes_of (tm_storage m')) = dl_size (hdr_layout h)
        \<and> tm_state m' = (tm_state m)\<lparr>ims_header := H2, read_from_secondary := False\<rparr> \<and> tm_unpersisted m' = {} \<and> unpersisted_allocations m' = []"
  shows "\<exists>r m'. (io_then (write_header B H1 m) (\<lambda>_ m.
     io_then (if two_phase then on_storage (\<lambda>cf. cf_flush B (it cf) cf) m else ok (Inr (), m)) (\<lambda>_ m. do {
       let header = (swap_primary_slot H1)\<lparr>hd_two_phase_commit := two_phase\<rparr>;
       io_then (write_header B header m) (\<lambda>_ m.
       io_then (on_storage (\<lambda>cf. cf_flush B (it cf) cf) m) (\<lambda>_ m. do {
         io_then (if smaller then do {
             layout \<leftarrow> hd_layout header;
             len \<leftarrow> dl_len layout;
             on_storage (cf_resize B len) m }
           else ok (Inr (), m)) (\<lambda>_ m. do {
           let m = m\<lparr>tm_unpersisted := {}, unpersisted_allocations := [], unpersisted_allocation_txn := Map.empty\<rparr>;
           sl \<leftarrow> secondary_slot (tm_header m);
           assert_that (th_transaction_id sl = th_transaction_id (hd_slots h ! (hd_primary_slot h XOR 1)));
           ok (Inr (), m\<lparr>tm_state := (tm_state m)\<lparr>ims_header := header, read_from_secondary := False\<rparr>\<rparr>) }) })) }))) = ok (r, m') \<and> G r m'"
proof -
  have H2: "(swap_primary_slot H1)\<lparr>hd_two_phase_commit := two_phase\<rparr> = H2" by (simp add: H1_def H2_def committed_def)
  note wf = commit_wf [OF h]
  have f: "layout_fields_ok H2" "0 < hd_page_size H2" "hd_page_size H2 \<le> 4096" "hd_page_size H2 = hd_page_size h"
    using wf(2) ps by (auto simp: H2_def hd_wf_def committed_def staged_def swap_primary_slot_def)
  have l2: "hdr_layout H2 = hdr_layout h" unfolding H2_def by (rule commit_layout)
  have lay: "hd_layout H2 = ok (hdr_layout h)" "dl_len (hdr_layout h) = ok (dl_size (hdr_layout h))"
    using f(1) hd_layout_ok [of H2] dl_len_ok [OF layout_bounds(1,2) [OF f(1-3)]] l2 by (auto simp: layout_fields_ok_def)
  have big: "320 \<le> dl_size (hdr_layout h)" using layout_bounds(5) [OF f(1-3)] ps(1) f(4) l2 by simp
  define L where "L = length (bytes_of (tm_storage m))"
  define A where "A bs m' \<longleftrightarrow> cf_ready content sz ((=) bs) (tm_storage m') \<and> length (bytes_of (tm_storage m')) = L \<and> tm_state m' = tm_state m" for bs and m' :: "'f tx_memory"
  have put: "\<exists>r m''. write_header B x m' = ok (r, m'') \<and> (case r of Inl e \<Rightarrow> G (Inl e) m'' | Inr _ \<Rightarrow> A (header_bytes x) m'')"
    if "hd_wf x" "cf_ready content sz R (tm_storage m')" "length (bytes_of (tm_storage m')) = L" "tm_state m' = tm_state m" for x R m'
    unfolding write_header_def
    by (rule outcome_mono [OF on_storage_rule [where op = "put_header B x True" and m = m' and Q = "\<lambda>cf. cf_ready content sz ((=) (header_bytes x)) cf
        \<and> length (bytes_of cf) = length (bytes_of (tm_storage m'))", OF put_header_ok [OF that(2,1)]]])
      (use that(3,4) in \<open>auto simp: G_def A_def\<close>)
  have flush: "\<exists>r m''. on_storage (\<lambda>cf. cf_flush B (it cf) cf) m' = ok (r, m'') \<and> (case r of Inl e \<Rightarrow> G (Inl e) m''
      | Inr _ \<Rightarrow> A bs m'' \<and> 320 \<le> L \<and> take 320 (bytes_of (tm_storage m'')) = bs)" if "A bs m'" for bs m'
  proof -
    have c: "cf_ready content sz ((=) bs) (tm_storage m')" using that by (simp add: A_def)
    show ?thesis
      by (rule outcome_mono [OF on_storage_rule [where op = "\<lambda>cf. cf_flush B (it cf) cf" and m = m' and Q = "\<lambda>cf. cf_ready content sz ((=) bs) cf
          \<and> length (bytes_of cf) = length (bytes_of (tm_storage m')) \<and> 320 \<le> length (bytes_of cf) \<and> bs = take 320 (bytes_of cf)", OF flush_header_ok [OF c it]]])
        (use that in \<open>auto simp: G_def A_def\<close>)
  qed
  have smaller: "\<exists>r m''. (if smaller then do { layout \<leftarrow> hd_layout H2; len \<leftarrow> dl_len layout; on_storage (cf_resize B len) m' } else ok (Inr (), m')) = ok (r, m'')
      \<and> (case r of Inl e \<Rightarrow> G (Inl e) m'' | Inr _ \<Rightarrow> tm_state m'' = tm_state m \<and> length (bytes_of (tm_storage m'')) = dl_size (hdr_layout h)
          \<and> take 320 (bytes_of (tm_storage m'')) = header_bytes H2)"
    if "A (header_bytes H2) m' \<and> 320 \<le> L \<and> take 320 (bytes_of (tm_storage m')) = header_bytes H2" for m'
  proof (cases smaller)
    case True
    have "\<exists>r cf. cf_resize B (dl_size (hdr_layout h)) (tm_storage m') = ok (r, cf) \<and> (case r of Inl e \<Rightarrow> cb_io_failed (cf_file cf)
      | Inr x \<Rightarrow> bytes_of cf = vec_resize (bytes_of (tm_storage m')) (dl_size (hdr_layout h)))" by (rule resize_ok)
    note z = on_storage_rule [where op = "cf_resize B (dl_size (hdr_layout h))" and m = m'
        and Q = "\<lambda>cf. bytes_of cf = vec_resize (bytes_of (tm_storage m')) (dl_size (hdr_layout h))", OF this]
    have e: "(if smaller then do { layout \<leftarrow> hd_layout H2; len \<leftarrow> dl_len layout; on_storage (cf_resize B len) m' } else ok (Inr (), m'))
      = on_storage (cf_resize B (dl_size (hdr_layout h))) m'" using True lay by simp
    show ?thesis unfolding e
      by (rule outcome_mono [OF z]) (use that big in \<open>auto simp: G_def A_def vec_resize_props\<close>)
  next
    case False
    then show ?thesis using that len by (auto simp: A_def L_def)
  qed
  have fin: "secondary_slot (tm_header m) = ok (hd_slots h ! (hd_primary_slot h XOR 1))" using st slots_ok(2) [OF h(1)] by simp
  show ?thesis
    unfolding H2 Let_def
  proof (rule io_then_rule [where Q = "\<lambda>_. A (header_bytes H1)"], goal_cases)
    case 1
    show ?case by (rule put [OF _ cf]) (use wf(1) in \<open>simp_all add: L_def H1_def\<close>)
  next
    case (2 x m1)
    show ?case
    proof (rule io_then_rule [where Q = "\<lambda>_. A (header_bytes H1)"], goal_cases)
      case 1
      show ?case using flush [OF 2] 2 by (cases two_phase) (auto split: sum.splits)
    next
      case (2 x m2)
      show ?case
      proof (rule io_then_rule [where Q = "\<lambda>_. A (header_bytes H2)"], goal_cases)
        case 1
        show ?case by (rule put [of _ "(=) (header_bytes H1)"]) (use 2 wf(2) in \<open>simp_all add: A_def H2_def\<close>)
      next
        case (2 x m3)
        show ?case
        proof (rule io_then_rule [OF flush [OF 2]], rule io_then_rule [OF smaller], assumption, goal_cases)
          case (1 x m4 y m5)
          then show ?case using fin st by (simp add: G_def assert_that_def)
        qed
      qed
    qed
  qed
qed

lemma commit_ok:
  fixes m :: "'f tx_memory" and two_phase :: bool
  assumes inv: "mem_inv P F (tm_state m)" "hd_wf (tm_header m)" "DB_HEADER_SIZE \<le> hd_page_size (tm_header m)"
    and new: "root_ok d" "root_ok s" "t < 2 ^ 64" "th_transaction_id (hd_slots (tm_header m) ! hd_primary_slot (tm_header m)) \<le> t"
    and cf: "cf_ready content sz Q (tm_storage m)" "iterates it" "no_dirty_pages m"
    and len: "length (bytes_of (tm_storage m)) = dl_size (ims_layout (tm_state m))"
  shows "\<exists>r m'. tm_commit B it d s t two_phase policy m = ok (r, m') \<and> (\<exists>Q F'. mem_inv Q F' (tm_state m')
    \<and> kept (ims_layout (tm_state m)) (ims_layout (tm_state m')) P \<and> (\<forall>i. Q i \<subseteq> P i)) \<and> (case r of
      Inl e \<Rightarrow> cb_io_failed (cf_file (tm_storage m')) \<and> hd_slots (tm_header m') = hd_slots (tm_header m)
        \<and> hd_primary_slot (tm_header m') = hd_primary_slot (tm_header m)
    | Inr u \<Rightarrow> opens_at (take DB_HEADER_SIZE (bytes_of (tm_storage m'))) (hd_page_size (tm_header m')) (length (bytes_of (tm_storage m'))) (new_slot (tm_header m) d s t)
        \<and> primary_slot (tm_header m') = ok (new_slot (tm_header m) d s t) \<and> \<not> pending_non_durable_commit m' \<and> tm_unpersisted m' = {} \<and> unpersisted_allocations m' = [])"
proof (cases "check_io_errors (tm_storage m)")
  case (Inl e)
  then have "cb_io_failed (cf_file (tm_storage m))" by (auto simp: check_io_errors_def check_failure_def split: if_splits)
  moreover have "tm_commit B it d s t two_phase policy m = ok (Inl e, m)" unfolding tm_commit_def Inl using cf(3) by (simp add: assert_that_def)
  moreover have "\<exists>Q F'. mem_inv Q F' (tm_state m) \<and> kept (ims_layout (tm_state m)) (ims_layout (tm_state m)) P \<and> (\<forall>i. Q i \<subseteq> P i)"
    using inv(1) by (intro exI [of _ P] exI [of _ F]) (simp add: kept_def)
  ultimately show ?thesis by (intro exI [of _ "Inl e"] exI [of _ m]) simp
next
  case (Inr u)
  let ?h = "tm_header m"
  let ?op = "if policy \<noteq> Shrink_Never then try_shrink (tm_state m) (policy = Shrink_Maximum) else ok (False, tm_state m)"
  obtain b st' Q F' where s: "?op = ok (b, st')" "\<not> b \<longrightarrow> st' = tm_state m" "mem_inv Q F' st'" "kept (ims_layout (tm_state m)) (ims_layout st') P"
    "\<forall>i. Q i \<subseteq> P i" "\<exists>x n. ims_header st' = ?h\<lparr>hd_trailing_pages := x, hd_full_regions := n\<rparr>"
  proof (cases "policy = Shrink_Never")
    case True
    have e: "\<exists>x n. ?h = ?h\<lparr>hd_trailing_pages := x, hd_full_regions := n\<rparr>"
      by (rule exI [of _ "hd_trailing_pages ?h"], rule exI [of _ "hd_full_regions ?h"]) simp
    show ?thesis by (rule that [of False, OF _ _ inv(1) _ _ e]) (use True in \<open>simp_all add: kept_def\<close>)
  next
    case False
    from try_shrink_ok [OF inv(1), of "policy = Shrink_Maximum"] obtain b st' F' where
      "try_shrink (tm_state m) (policy = Shrink_Maximum) = ok (b, st')" "\<not> b \<longrightarrow> st' = tm_state m"
      "mem_inv (\<lambda>i. P i \<inter> {..<region_pages (ims_layout st') i}) F' st'" "kept (ims_layout (tm_state m)) (ims_layout st') P"
      "\<exists>x n. ims_header st' = ?h\<lparr>hd_trailing_pages := x, hd_full_regions := n\<rparr>" by blast
    then show ?thesis using that [of b st' "\<lambda>i. P i \<inter> {..<region_pages (ims_layout st') i}" F'] False by auto
  qed
  define m0 where "m0 = m\<lparr>tm_state := st'\<rparr>"
  define h where "h = ims_header st'"
  have f: "layout_fields_ok h" "hd_page_size h \<le> 4096" using s(3) by (simp_all add: mem_inv_def h_def)
  have same: "hd_slots h = hd_slots ?h" "hd_primary_slot h = hd_primary_slot ?h" "hd_page_size h = hd_page_size ?h" using s(6) by (auto simp: h_def)
  have wf: "hd_wf h" using inv(2) f(1) same by (simp add: hd_wf_def)
  have ns: "new_slot h d s t = new_slot ?h d s t" by (simp add: new_slot_def same)
  let ?H = "committed h d s t two_phase"
  have H: "hd_page_size ?H = hd_page_size h" "hdr_layout ?H = hdr_layout h" "hd_wf ?H"
    using commit_wf [OF wf new(1-3)] commit_layout by (simp_all add: committed_def staged_def swap_primary_slot_def)
  have w: "cf_ready content sz Q (tm_storage m0)" if "cf_ready content sz Q (tm_storage m)" for Q using that by (simp add: m0_def)
  have l0: "b \<or> length (bytes_of (tm_storage m0)) = dl_size (hdr_layout h)" using s(2) len by (auto simp: m0_def h_def)
  have th: "tm_header m0 = h" by (simp add: m0_def h_def)
  obtain r m' where r: "tm_commit B it d s t two_phase policy m = ok (r, m')"
    "case r of Inl e \<Rightarrow> cb_io_failed (cf_file (tm_storage m')) \<and> tm_state m' = tm_state m0
     | Inr u \<Rightarrow> take DB_HEADER_SIZE (bytes_of (tm_storage m')) = header_bytes ?H \<and> length (bytes_of (tm_storage m')) = dl_size (hdr_layout h)
        \<and> tm_state m' = (tm_state m0)\<lparr>ims_header := ?H, read_from_secondary := False\<rparr> \<and> tm_unpersisted m' = {} \<and> unpersisted_allocations m' = []"
    using write_steps_ok [OF wf new(1-3) _ f(2) w [OF cf(1)] cf(2) th l0, of two_phase] inv(3) same(3) Inr cf(3) s(1)
      slots_ok(2) [OF wf] stage_commit_ok [OF wf]
    unfolding tm_commit_def by (auto simp: assert_that_def m0_def h_def)
  have op: "opens_at (header_bytes ?H) (hd_page_size h) (dl_size (hdr_layout h)) (new_slot h d s t)"
    using opens [OF H(3), of "new_slot h d s t" "hd_slots h ! hd_primary_slot h"] slots_ok [OF wf] inv(3) same f(2) H new(4)
    by (simp add: new_slot_def)
  have k: "mem_inv Q F' ((tm_state m0)\<lparr>ims_header := ?H, read_from_secondary := False\<rparr>)"
    using s(3) H by (simp add: mem_inv_def m0_def h_def committed_def staged_def swap_primary_slot_def layout_fields_ok_def)
  show ?thesis
  proof (rule exI [of _ r], rule exI [of _ m'], intro conjI)
    show "\<exists>Q F'. mem_inv Q F' (tm_state m') \<and> kept (ims_layout (tm_state m)) (ims_layout (tm_state m')) P \<and> (\<forall>i. Q i \<subseteq> P i)"
      using r(2) s(3-5) k H(2) by (intro exI [of _ Q] exI [of _ F']) (auto simp: m0_def h_def split: sum.splits)
  qed (use r same op ns H slots_ok [OF wf] in \<open>auto simp: m0_def h_def pending_non_durable_commit_def split: sum.splits\<close>)
qed

end

subsection \<open>Properties\<close>

text \<open>C2. The two headers that a commit writes are safe to crash on.  The first one (the new roots in the secondary
  slot) opens at the old commit when the last commit was a two-phase one, and otherwise at the newer of the two slots;
  the second one (the slots swapped) opens at the new commit.\<close>

theorem commit_headers_atomic:
  assumes "hd_wf h" "0 < hd_page_size h" "hd_page_size h \<le> 4096" "root_ok d" "root_ok s" "t < 2 ^ 64" "primary_slot h = ok old" "th_transaction_id old < t"
  shows "\<exists>h1 b1 b2. stage_commit h d s t = ok h1 \<and> hd_to_bytes h1 True = ok b1
    \<and> hd_to_bytes ((swap_primary_slot h1)\<lparr>hd_two_phase_commit := two_phase\<rparr>) True = ok b2
    \<and> opens_at b1 (hd_page_size h) (dl_size (hdr_layout h)) (if hd_two_phase_commit h then old else new_slot h d s t)
    \<and> opens_at b2 (hd_page_size h) (dl_size (hdr_layout h)) (new_slot h d s t)
    \<and> th_transaction_id (new_slot h d s t) = t \<and> th_user_root (new_slot h d s t) = d \<and> th_system_root (new_slot h d s t) = s"
proof -
  note wf = commit_wf [OF assms(1,4-6)] note so = slots_ok [OF assms(1)]
  have e: "hd_page_size (staged h d s t) = hd_page_size h" "hd_page_size (committed h d s t two_phase) = hd_page_size h"
    "hd_two_phase_commit (staged h d s t) = hd_two_phase_commit h"
    by (simp_all add: staged_def committed_def swap_primary_slot_def)
  have "opens_at (header_bytes (staged h d s t)) (hd_page_size h) (dl_size (hdr_layout h)) (if hd_two_phase_commit h then old else new_slot h d s t)"
    using opens [OF wf(1), of old "new_slot h d s t"] so assms e commit_layout(1) by (simp add: new_slot_def)
  moreover have "opens_at (header_bytes (committed h d s t two_phase)) (hd_page_size h) (dl_size (hdr_layout h)) (new_slot h d s t)"
    using opens [OF wf(2) [of two_phase], of "new_slot h d s t" old] so assms e commit_layout(2) by (simp add: new_slot_def)
  ultimately show ?thesis
    using hd_to_bytes_ok [OF wf(1)] hd_to_bytes_ok [OF wf(2) [of two_phase]] stage_commit_ok [OF assms(1)]
    by (simp add: committed_def new_slot_def)
qed

lemma small_header_wf: "hd_wf small_header"
  by (simp add: small_header_def hd_wf_def th_wf_def th_new_def layout_fields_ok_def MAX_PAGE_INDEX_def MAX_REGIONS_def)

theorem commit_headers_atomic_witness:
  "\<exists>h1 b1. stage_commit small_header None None 2 = ok h1 \<and> hd_to_bytes h1 True = ok b1 \<and> opens_at b1 512 (dl_size (hdr_layout small_header)) (th_new 1)"
proof -
  have "primary_slot small_header = ok (th_new 1)" "hd_page_size small_header = 512" "hd_two_phase_commit small_header"
    by (simp_all add: small_header_def primary_slot_def)
  then show ?thesis using commit_headers_atomic [OF small_header_wf, of None None 2 "th_new 1" True] by (auto simp: root_ok_def th_new_def)
qed

text \<open>C1. A commit is durable.  On any storage device that obeys its contract \<open>commit\<close> never panics.  Either
  an I/O error is latched and the commit slots in memory are those of the previous commit, or the bytes of
  the file itself (not the caches) open at a slot with the id and roots of the transaction, the in-memory header
  agrees, no page is left unpersisted and the file has the length of the layout.  In both cases every page that was
  allocated before is still allocated, also when the file was shrunk.\<close>

theorem commit_durable:
  assumes "storage_backend B content" "mem_inv P F (tm_state m)" "hd_wf (tm_header m)" "DB_HEADER_SIZE \<le> hd_page_size (tm_header m)"
    "root_ok d" "root_ok s" "t < 2 ^ 64" "primary_slot (tm_header m) = ok old" "th_transaction_id old \<le> t"
    "cf_ready content sz (\<lambda>_. True) (tm_storage m)" "iterates it" "no_dirty_pages m"
    "length (file_bytes content (tm_storage m)) = dl_size (ims_layout (tm_state m))"
  shows "\<exists>r m'. tm_commit B it d s t two_phase policy m = ok (r, m') \<and> (\<exists>Q F'. mem_inv Q F' (tm_state m')
    \<and> kept (ims_layout (tm_state m)) (ims_layout (tm_state m')) P \<and> (\<forall>i. Q i \<subseteq> P i)) \<and> (case r of
      Inl e \<Rightarrow> cb_io_failed (cf_file (tm_storage m')) \<and> hd_slots (tm_header m') = hd_slots (tm_header m)
        \<and> hd_primary_slot (tm_header m') = hd_primary_slot (tm_header m)
    | Inr u \<Rightarrow> opens_at (take DB_HEADER_SIZE (file_bytes content (tm_storage m'))) (hd_page_size (tm_header m')) (length (file_bytes content (tm_storage m')))
          (new_slot (tm_header m) d s t)
        \<and> primary_slot (tm_header m') = ok (new_slot (tm_header m) d s t) \<and> \<not> pending_non_durable_commit m' \<and> tm_unpersisted m' = {} \<and> unpersisted_allocations m' = [])"
  using storage_backend.commit_ok [OF assms(1-7) _ assms(10-13)] assms(8,9) slots_ok(1) [OF assms(3)] by simp

theorem commit_durable_witness:
  "\<exists>m r m'. reset_allocator_state small_memory = ok m
    \<and> tm_commit in_memory_backend (\<lambda>cf. sorted_list_of_set (dom (lru_map (write_buffer cf)))) None None 2 True Shrink_Maximum m = ok (r, m')
    \<and> (r = Inr () \<longrightarrow> primary_slot (tm_header m') = ok (new_slot small_header None None 2))"
proof -
  obtain m al F where m: "reset_allocator_state small_memory = ok m" "m = small_memory\<lparr>tm_state := (ims_new small_header)\<lparr>ims_allocators := Some al\<rparr>\<rparr>"
    "mem_inv (\<lambda>i. {..<region_pages (hdr_layout small_header) i}) F (tm_state m)" using small_memory_reset by blast
  have h: "tm_header m = small_header" "tm_storage m = cf_new (replicate 6656 0) 512 4096" "no_dirty_pages m"
    by (simp_all add: m(2) ims_new_def small_memory_def no_dirty_pages_def)
  have fb: "file_bytes (\<lambda>g. g) (tm_storage m) = replicate 6656 0" by (simp add: h(2) file_bytes_def cf_new_def cb_new_def)
  let ?sz = "\<lambda>k :: nat. if k = 0 then 320 else 512 :: nat"
  have c: "cf_ready (\<lambda>g. g) ?sz (\<lambda>_. True) (tm_storage m)"
    using cf_new_inv [of 512 "replicate 6656 0" ?sz "replicate 6656 0" 4096] unfolding cf_ready_def fb
    by (intro conjI exI [of _ Map.empty]) (simp_all add: h(2) pages_fit_def)
  have it: "iterates (\<lambda>cf. sorted_list_of_set (dom (lru_map (write_buffer cf))))" by (simp add: iterates_def)
  have pre: "root_ok None" "(2 :: nat) < 2 ^ 64" "primary_slot (tm_header m) = ok (th_new 1)" "th_transaction_id (th_new 1) \<le> 2" "320 \<le> hd_page_size (tm_header m)"
    "length (file_bytes (\<lambda>g. g) (tm_storage m)) = dl_size (ims_layout (tm_state m))" "hd_wf (tm_header m)"
    using small_header_wf by (simp_all add: root_ok_def h(1) fb small_header_def primary_slot_def th_new_def hdr_layout_def dl_size_def rl_size_def)
  show ?thesis
    using commit_durable [OF in_memory.storage_backend_axioms m(3) pre(7,5,1,1,2-4) c it h(3) pre(6), of True Shrink_Maximum] m(1) h(1)
    by auto
qed

end
