(* ===== verification/Leaf_Page.thy ===== *)
theory Leaf_Page
  imports Page_Manager
begin

text \<open>
  Leaf pages of the B-tree, \<open>src/tree_store/btree_base.rs\<close>: \<open>LeafAccessor\<close>, which reads a page in place, its binary search,
  and the checksum of a leaf.

  A leaf holds its pairs as the ends of the keys and of the values (each only when the width is not fixed), followed by
  the keys and the values.  \<open>leaf_rep fk fv kvs page\<close> says that the bytes \<open>page\<close> are a leaf with the pairs \<open>kvs\<close>;
  the accessor lemmas relate every reader to it.  The order of the keys (\<open>K::compare\<close>) is a parameter, with the laws
  of the trait in the locale \<open>key_order\<close>.
\<close>

subsection \<open>Options and comparisons\<close>

text \<open>The question mark operator on \<open>Option\<close>.\<close>

definition opt_then :: "'a option rust \<Rightarrow> ('a \<Rightarrow> 'b option rust) \<Rightarrow> 'b option rust" where
  "opt_then m f = do { r \<leftarrow> m; case r of None \<Rightarrow> ok None | Some x \<Rightarrow> f x }"

definition unwrap :: "'a option rust \<Rightarrow> 'a rust" where
  "unwrap m = do { r \<leftarrow> m; r }"

datatype ordering = Less | Equal | Greater

subsection \<open>\<open>LeafAccessor\<close>\<close>

definition LEAF :: byte where "LEAF = 1"
definition BRANCH :: byte where "BRANCH = 2"

record leaf_accessor =
  la_page :: "byte list"
  la_fixed_key_size :: "nat option"
  la_fixed_value_size :: "nat option"
  la_num_pairs :: nat

definition la_new :: "byte list \<Rightarrow> nat option \<Rightarrow> nat option \<Rightarrow> leaf_accessor rust" where
  "la_new page fk fv = do {
     b \<leftarrow> index page 0;
     assert_that (b = LEAF);
     n \<leftarrow> sub_slice page 2 4;
     ok \<lparr>la_page = page, la_fixed_key_size = fk, la_fixed_value_size = fv, la_num_pairs = le_nat n\<rparr> }"

definition la_key_section_start :: "leaf_accessor \<Rightarrow> nat" where
  "la_key_section_start a = (let offset = 4;
     offset = (if la_fixed_key_size a = None then offset + 4 * la_num_pairs a else offset);
     offset = (if la_fixed_value_size a = None then offset + 4 * la_num_pairs a else offset) in offset)"

text \<open>An end offset: \<open>page.get(offset..offset + 4)\<close> as a \<open>u32\<close>.\<close>

definition end_u32 :: "byte list \<Rightarrow> nat \<Rightarrow> nat option" where
  "end_u32 page offset = (if offset + 4 \<le> length page then Some (le_nat (take 4 (drop offset page))) else None)"

definition la_key_end :: "leaf_accessor \<Rightarrow> nat \<Rightarrow> nat option rust" where
  "la_key_end a n = (if n \<ge> la_num_pairs a then ok None
     else case la_fixed_key_size a of
       Some fixed \<Rightarrow> do { x \<leftarrow> cmul 64 fixed (n + 1); y \<leftarrow> cadd 64 (la_key_section_start a) x; ok (Some y) }
     | None \<Rightarrow> ok (end_u32 (la_page a) (4 + 4 * n)))"

definition la_key_start :: "leaf_accessor \<Rightarrow> nat \<Rightarrow> nat option rust" where
  "la_key_start a n = (if n = 0 then ok (Some (la_key_section_start a)) else la_key_end a (n - 1))"

definition la_value_end :: "leaf_accessor \<Rightarrow> nat \<Rightarrow> nat option rust" where
  "la_value_end a n = (if n \<ge> la_num_pairs a then ok None
     else case la_fixed_value_size a of
       Some fixed \<Rightarrow> opt_then (la_key_end a (la_num_pairs a - 1)) (\<lambda>k. do {
         x \<leftarrow> cmul 64 fixed (n + 1); y \<leftarrow> cadd 64 k x; ok (Some y) })
     | None \<Rightarrow> do {
         let offset = 4 + 4 * n;
         let offset = (if la_fixed_key_size a = None then offset + 4 * la_num_pairs a else offset);
         ok (end_u32 (la_page a) offset) })"

definition la_value_start :: "leaf_accessor \<Rightarrow> nat \<Rightarrow> nat option rust" where
  "la_value_start a n = (if n = 0 then do { l \<leftarrow> csub (la_num_pairs a) 1; la_key_end a l } else la_value_end a (n - 1))"

definition la_value_range :: "leaf_accessor \<Rightarrow> nat \<Rightarrow> (nat \<times> nat) option rust" where
  "la_value_range a n = opt_then (la_value_start a n) (\<lambda>s. opt_then (la_value_end a n) (\<lambda>e. ok (Some (s, e))))"

definition offset_of_first_value :: "leaf_accessor \<Rightarrow> nat rust" where
  "offset_of_first_value a = unwrap (la_value_start a 0)"

definition length_of_values :: "leaf_accessor \<Rightarrow> nat \<Rightarrow> nat \<Rightarrow> nat rust" where
  "length_of_values a start stop = (if stop = 0 then ok 0 else do {
     end_offset \<leftarrow> unwrap (la_value_end a (stop - 1));
     start_offset \<leftarrow> unwrap (la_value_start a start);
     csub end_offset start_offset })"

definition length_of_keys :: "leaf_accessor \<Rightarrow> nat \<Rightarrow> nat \<Rightarrow> nat rust" where
  "length_of_keys a start stop = (if stop = 0 then ok 0 else do {
     end_offset \<leftarrow> unwrap (la_key_end a (stop - 1));
     start_offset \<leftarrow> unwrap (la_key_start a start);
     csub end_offset start_offset })"

definition length_of_pairs :: "leaf_accessor \<Rightarrow> nat \<Rightarrow> nat \<Rightarrow> nat rust" where
  "length_of_pairs a start stop = do {
     v \<leftarrow> length_of_values a start stop;
     k \<leftarrow> length_of_keys a start stop;
     cadd 64 v k }"

definition la_total_length :: "leaf_accessor \<Rightarrow> nat rust" where
  "la_total_length a = do { l \<leftarrow> csub (la_num_pairs a) 1; unwrap (la_value_end a l) }"

definition key_unchecked :: "leaf_accessor \<Rightarrow> nat \<Rightarrow> byte list rust" where
  "key_unchecked a n = do {
     s \<leftarrow> unwrap (la_key_start a n);
     e \<leftarrow> unwrap (la_key_end a n);
     sub_slice (la_page a) s e }"

definition la_entry :: "leaf_accessor \<Rightarrow> nat \<Rightarrow> (byte list \<times> byte list) option rust" where
  "la_entry a n =
     opt_then (la_key_start a n) (\<lambda>ks. opt_then (la_key_end a n) (\<lambda>ke. do {
     key \<leftarrow> sub_slice (la_page a) ks ke;
     opt_then (la_value_start a n) (\<lambda>vs. opt_then (la_value_end a n) (\<lambda>ve. do {
     value \<leftarrow> sub_slice (la_page a) vs ve;
     ok (Some (key, value)) })) }))"

definition entry_ranges :: "leaf_accessor \<Rightarrow> nat \<Rightarrow> ((nat \<times> nat) \<times> (nat \<times> nat)) option rust" where
  "entry_ranges a n =
     opt_then (la_key_start a n) (\<lambda>ks. opt_then (la_key_end a n) (\<lambda>ke.
     opt_then (la_value_start a n) (\<lambda>vs. opt_then (la_value_end a n) (\<lambda>ve. ok (Some ((ks, ke), (vs, ve)))))))"

definition last_entry :: "leaf_accessor \<Rightarrow> (byte list \<times> byte list) rust" where
  "last_entry a = do { l \<leftarrow> csub (la_num_pairs a) 1; unwrap (la_entry a l) }"

text \<open>Binary search, with the loop variables \<open>min_entry\<close> and \<open>max_entry\<close>.\<close>

function position_loop :: "(byte list \<Rightarrow> byte list \<Rightarrow> ordering rust) \<Rightarrow> leaf_accessor \<Rightarrow> byte list \<Rightarrow> nat \<Rightarrow> nat \<Rightarrow> (nat \<times> bool) rust" where
  "position_loop compare a query min_entry max_entry =
     (if min_entry < max_entry then do {
        let mid = (min_entry + max_entry) div 2;
        key \<leftarrow> key_unchecked a mid;
        ord \<leftarrow> compare query key;
        case ord of
          Less \<Rightarrow> position_loop compare a query min_entry mid
        | Equal \<Rightarrow> ok (mid, True)
        | Greater \<Rightarrow> position_loop compare a query (mid + 1) max_entry }
      else do {
        assert_that (min_entry = max_entry);
        ok (min_entry, False) })"
  by auto
termination
  by (relation "measure (\<lambda>(c, a, q, lo, hi). hi - lo)") auto

declare position_loop.simps [simp del]

definition la_position :: "(byte list \<Rightarrow> byte list \<Rightarrow> ordering rust) \<Rightarrow> leaf_accessor \<Rightarrow> byte list \<Rightarrow> (nat \<times> bool) rust" where
  "la_position compare a query = position_loop compare a query 0 (la_num_pairs a)"

definition find_key :: "(byte list \<Rightarrow> byte list \<Rightarrow> ordering rust) \<Rightarrow> leaf_accessor \<Rightarrow> byte list \<Rightarrow> nat option rust" where
  "find_key compare a query = do { (entry, found) \<leftarrow> la_position compare a query; ok (if found then Some entry else None) }"

definition leaf_checksum :: "byte list \<Rightarrow> nat option \<Rightarrow> nat option \<Rightarrow> (storage_error + u128) rust" where
  "leaf_checksum page fk fv = do {
     a \<leftarrow> la_new page fk fv;
     if la_num_pairs a < 1 then ok (Inl (Se_Corrupted ''Number of pairs is zero''))
     else do {
       r \<leftarrow> la_value_end a (la_num_pairs a - 1);
       case r of None \<Rightarrow> ok (Inl (Se_Corrupted ''Couldn't find offset for pair''))
       | Some stop \<Rightarrow>
           if stop > length page then ok (Inl (Se_Corrupted ''Last offset beyond end of data''))
           else do { bs \<leftarrow> sub_slice page 0 stop; c \<leftarrow> xxh3_checksum bs; ok (Inr c) } } }"

subsection \<open>The bytes of a leaf\<close>

definition ptr_size :: "nat option \<Rightarrow> nat" where
  "ptr_size fixed = (if fixed = None then 4 else 0)"

fun ends :: "nat \<Rightarrow> byte list list \<Rightarrow> nat list" where
  "ends start [] = []"
| "ends start (x # xs) = (start + length x) # ends (start + length x) xs"

definition ptr_bytes :: "nat option \<Rightarrow> nat list \<Rightarrow> byte list" where
  "ptr_bytes fixed ps = (if fixed = None then concat (map (le_bytes 4) ps) else [])"

definition widths :: "nat option \<Rightarrow> byte list list \<Rightarrow> bool" where
  "widths fixed xs \<longleftrightarrow> (\<forall>w. fixed = Some w \<longrightarrow> (\<forall>x\<in>set xs. length x = w))"

definition data_start :: "nat option \<Rightarrow> nat option \<Rightarrow> nat \<Rightarrow> nat" where
  "data_start fk fv n = 4 + ptr_size fk * n + ptr_size fv * n"

definition key_off :: "nat option \<Rightarrow> nat option \<Rightarrow> (byte list \<times> byte list) list \<Rightarrow> nat \<Rightarrow> nat" where
  "key_off fk fv kvs i = data_start fk fv (length kvs) + length (concat (take i (map fst kvs)))"

definition val_off :: "nat option \<Rightarrow> nat option \<Rightarrow> (byte list \<times> byte list) list \<Rightarrow> nat \<Rightarrow> nat" where
  "val_off fk fv kvs i = data_start fk fv (length kvs) + length (concat (map fst kvs)) + length (concat (take i (map snd kvs)))"

definition leaf_head :: "byte \<Rightarrow> nat \<Rightarrow> byte list" where
  "leaf_head b n = [LEAF, b] @ le_bytes 2 n"

definition leaf_bytes :: "byte \<Rightarrow> nat option \<Rightarrow> nat option \<Rightarrow> (byte list \<times> byte list) list \<Rightarrow> byte list" where
  "leaf_bytes b fk fv kvs = leaf_head b (length kvs)
     @ ptr_bytes fk (ends (key_off fk fv kvs 0) (map fst kvs)) @ ptr_bytes fv (ends (val_off fk fv kvs 0) (map snd kvs))
     @ concat (map fst kvs) @ concat (map snd kvs)"

definition leaf_wf :: "nat option \<Rightarrow> nat option \<Rightarrow> (byte list \<times> byte list) list \<Rightarrow> bool" where
  "leaf_wf fk fv kvs \<longleftrightarrow> kvs \<noteq> [] \<and> length kvs < 2 ^ 16 \<and> widths fk (map fst kvs) \<and> widths fv (map snd kvs)
     \<and> val_off fk fv kvs (length kvs) < 2 ^ 32"

definition leaf_rep :: "nat option \<Rightarrow> nat option \<Rightarrow> (byte list \<times> byte list) list \<Rightarrow> byte list \<Rightarrow> bool" where
  "leaf_rep fk fv kvs page \<longleftrightarrow> leaf_wf fk fv kvs \<and> (\<exists>b rest. page = leaf_bytes b fk fv kvs @ rest)"

lemma length_ends [simp]: "length (ends o' xs) = length xs"
  by (induction xs arbitrary: o') auto

lemma nth_ends: "i < length xs \<Longrightarrow> ends o' xs ! i = o' + length (concat (take (Suc i) xs))"
proof (induction xs arbitrary: o' i)
  case (Cons x xs)
  then show ?case by (cases i) auto
qed simp

lemma ends_append: "ends o' (xs @ ys) = ends o' xs @ ends (o' + length (concat xs)) ys"
  by (induction xs arbitrary: o') (auto simp: add.assoc)

lemma ends_shift: "ends (o' + d) xs = map (\<lambda>p. p + d) (ends o' xs)"
proof (induction xs arbitrary: o')
  case (Cons x xs)
  have "o' + d + length x = (o' + length x) + d" by simp
  then show ?case using Cons [of "o' + length x"] by (simp only: ends.simps list.map)
qed simp

lemma length_u32s [simp]: "length (concat (map (le_bytes 4) ps)) = 4 * length ps"
  by (induction ps) auto

lemma length_ptr_bytes: "length (ptr_bytes fixed ps) = ptr_size fixed * length ps"
  by (simp add: ptr_bytes_def ptr_size_def)

lemma ptr_bytes_append: "ptr_bytes fixed (ps @ qs) = ptr_bytes fixed ps @ ptr_bytes fixed qs"
  by (simp add: ptr_bytes_def)

lemma length_concat_take: "i \<le> length xs \<Longrightarrow> length (concat (take i xs)) \<le> length (concat xs)"
  by (metis append_take_drop_id concat_append le_add1 length_append)

lemma length_concat_take_mono: "i \<le> j \<Longrightarrow> length (concat (take i xs)) \<le> length (concat (take j xs))"
  by (metis le_add1 length_append concat_append take_add le_Suc_ex)

lemma concat_take_Suc: "i < length xs \<Longrightarrow> concat (take (Suc i) xs) = concat (take i xs) @ xs ! i"
  by (simp add: take_Suc_conv_app_nth)

lemma fixed_offset: "widths (Some w) xs \<Longrightarrow> i \<le> length xs \<Longrightarrow> length (concat (take i xs)) = w * i"
proof (induction i)
  case (Suc i)
  then show ?case by (simp add: concat_take_Suc widths_def)
qed simp

lemma end_u32_ptr:
  "i < length ps \<Longrightarrow> ps ! i < 2 ^ 32 \<Longrightarrow> off = length A + 4 * i \<Longrightarrow> end_u32 (A @ concat (map (le_bytes 4) ps) @ C) off = Some (ps ! i)"
proof -
  assume i: "i < length ps" "ps ! i < 2 ^ 32" "off = length A + 4 * i"
  let ?e = "map (le_bytes 4) ps"
  have l: "length (concat ?e) = 4 * length ps" by simp
  have "take 4 (drop (i * 4) (concat ?e)) = le_bytes 4 (ps ! i)" by (subst nth_chunk) (use i(1) in auto)
  then have "take 4 (drop off (A @ concat ?e @ C)) = le_bytes 4 (ps ! i)"
    using i(1,3) l by (simp add: mult.commute take_append)
  then show ?thesis using i l by (simp add: end_u32_def)
qed

lemma slice_segment:
  assumes "i < length xs" "s = length A + length (concat (take i xs))" "e = length A + length (concat (take (Suc i) xs))"
  shows "sub_slice (A @ concat xs @ C) s e = ok (xs ! i)"
proof -
  have "concat xs = concat (take i xs) @ xs ! i @ concat (drop (Suc i) xs)"
    using assms(1) by (metis append.assoc concat_append concat_take_Suc append_take_drop_id)
  then have "A @ concat xs @ C = (A @ concat (take i xs)) @ xs ! i @ concat (drop (Suc i) xs) @ C" by simp
  moreover have "e = s + length (xs ! i)" using assms by (simp add: concat_take_Suc)
  ultimately show ?thesis using assms(2) slice_append_mid [of s "A @ concat (take i xs)" e "xs ! i"] by simp
qed

subsection \<open>Reading a leaf\<close>

lemma opt_then_simps [simp]: "opt_then (ok (Some x)) f = f x" "opt_then (ok None) f = ok None" "opt_then panic f = panic"
  by (simp_all add: opt_then_def)

lemma unwrap_simps [simp]: "unwrap (ok (Some x)) = ok x" "unwrap (ok None) = panic"
  by (simp_all add: unwrap_def)

abbreviation acc :: "nat option \<Rightarrow> nat option \<Rightarrow> (byte list \<times> byte list) list \<Rightarrow> byte list \<Rightarrow> leaf_accessor" where
  "acc fk fv kvs page \<equiv> \<lparr>la_page = page, la_fixed_key_size = fk, la_fixed_value_size = fv, la_num_pairs = length kvs\<rparr>"

lemma leaf_repE:
  assumes "leaf_rep fk fv kvs page"
  obtains b rest where "page = leaf_bytes b fk fv kvs @ rest" "leaf_wf fk fv kvs"
  using assms by (auto simp: leaf_rep_def)

lemma length_leaf_head [simp]: "length (leaf_head b n) = 4"
  by (simp add: leaf_head_def)

lemma key_section_acc [simp]: "la_key_section_start (acc fk fv kvs page) = data_start fk fv (length kvs)"
  by (simp add: la_key_section_start_def data_start_def ptr_size_def Let_def)

lemma off_bounds:
  assumes "leaf_wf fk fv kvs"
  shows "key_off fk fv kvs i < 2 ^ 32" "val_off fk fv kvs i < 2 ^ 32" "data_start fk fv (length kvs) \<le> key_off fk fv kvs i"
    "key_off fk fv kvs i \<le> val_off fk fv kvs 0" "val_off fk fv kvs i \<le> val_off fk fv kvs (length kvs)"
    "key_off fk fv kvs (length kvs) = val_off fk fv kvs 0"
proof -
  have v: "length (concat (take i (map snd kvs))) \<le> length (concat (map snd kvs))" for i
    by (cases "i \<le> length kvs") (auto intro: length_concat_take)
  have k: "length (concat (take i (map fst kvs))) \<le> length (concat (map fst kvs))" for i
    by (cases "i \<le> length kvs") (auto intro: length_concat_take)
  show "data_start fk fv (length kvs) \<le> key_off fk fv kvs i" "key_off fk fv kvs i \<le> val_off fk fv kvs 0"
    "key_off fk fv kvs (length kvs) = val_off fk fv kvs 0" "val_off fk fv kvs i \<le> val_off fk fv kvs (length kvs)"
    using k [of i] v [of i] by (simp_all add: key_off_def val_off_def)
  then show "key_off fk fv kvs i < 2 ^ 32" "val_off fk fv kvs i < 2 ^ 32"
    using assms v [of 0] by (simp_all add: leaf_wf_def val_off_def)
qed

lemma la_new_ok:
  assumes "leaf_rep fk fv kvs page"
  shows "la_new page fk fv = ok (acc fk fv kvs page)"
proof -
  obtain b rest where p: "page = leaf_bytes b fk fv kvs @ rest" "leaf_wf fk fv kvs" using leaf_repE [OF assms] .
  have "page = [LEAF, b] @ le_bytes 2 (length kvs) @ drop 4 page" "page ! 0 = LEAF" "0 < length page"
    by (simp_all add: p(1) leaf_bytes_def leaf_head_def)
  moreover from this have "sub_slice page 2 4 = ok (le_bytes 2 (length kvs))"
    using slice_append_mid [of 2 "[LEAF, b]" 4 "le_bytes 2 (length kvs)" "drop 4 page"] by simp
  ultimately show ?thesis using p(2) by (simp add: la_new_def leaf_wf_def)
qed

lemma la_key_end_ok:
  assumes rep: "leaf_rep fk fv kvs page"
  shows "i < length kvs \<Longrightarrow> la_key_end (acc fk fv kvs page) i = ok (Some (key_off fk fv kvs (Suc i)))"
    "length kvs \<le> i \<Longrightarrow> la_key_end (acc fk fv kvs page) i = ok None"
proof -
  obtain b rest where p: "page = leaf_bytes b fk fv kvs @ rest" and wf: "leaf_wf fk fv kvs" using leaf_repE [OF rep] .
  assume i: "i < length kvs"
  note b = off_bounds [OF wf]
  show "la_key_end (acc fk fv kvs page) i = ok (Some (key_off fk fv kvs (Suc i)))"
  proof (cases fk)
    case None
    let ?ps = "ends (key_off fk fv kvs 0) (map fst kvs)"
    have "?ps ! i = key_off fk fv kvs (Suc i)" using i by (simp add: nth_ends key_off_def)
    then show ?thesis using i None p b(1) [of "Suc i"]
        end_u32_ptr [of i ?ps "4 + 4 * i" "leaf_head b (length kvs)" "ptr_bytes fv (ends (val_off fk fv kvs 0) (map snd kvs)) @ concat (map fst kvs) @ concat (map snd kvs) @ rest"]
      by (simp add: la_key_end_def leaf_bytes_def ptr_bytes_def [of None])
  next
    case (Some w)
    then have w: "length (concat (take (Suc i) (map fst kvs))) = w * Suc i" using fixed_offset [of w "map fst kvs" "Suc i"] wf i by (simp add: leaf_wf_def)
    then show ?thesis using i Some b(1) [of "Suc i"] by (simp add: la_key_end_def key_off_def cmul_def cadd_def)
  qed
qed (simp add: la_key_end_def)

lemma la_key_start_ok:
  assumes rep: "leaf_rep fk fv kvs page"
  shows "i \<le> length kvs \<Longrightarrow> la_key_start (acc fk fv kvs page) i = ok (Some (key_off fk fv kvs i))"
    "length kvs < i \<Longrightarrow> la_key_start (acc fk fv kvs page) i = ok None"
  using la_key_end_ok [OF rep, of "i - 1"] by (auto simp: la_key_start_def key_off_def)

lemma la_value_end_ok:
  assumes rep: "leaf_rep fk fv kvs page"
  shows "i < length kvs \<Longrightarrow> la_value_end (acc fk fv kvs page) i = ok (Some (val_off fk fv kvs (Suc i)))"
    "length kvs \<le> i \<Longrightarrow> la_value_end (acc fk fv kvs page) i = ok None"
proof -
  obtain b rest where p: "page = leaf_bytes b fk fv kvs @ rest" and wf: "leaf_wf fk fv kvs" using leaf_repE [OF rep] .
  assume i: "i < length kvs"
  note b = off_bounds [OF wf]
  show "la_value_end (acc fk fv kvs page) i = ok (Some (val_off fk fv kvs (Suc i)))"
  proof (cases fv)
    case None
    let ?ps = "ends (val_off fk fv kvs 0) (map snd kvs)"
    have "?ps ! i = val_off fk fv kvs (Suc i)" using i by (simp add: nth_ends val_off_def)
    then show ?thesis using i None p b(2) [of "Suc i"]
        end_u32_ptr [of i ?ps "4 + 4 * i + ptr_size fk * length kvs" "leaf_head b (length kvs) @ ptr_bytes fk (ends (key_off fk fv kvs 0) (map fst kvs))" "concat (map fst kvs) @ concat (map snd kvs) @ rest"]
      by (cases fk) (simp_all add: la_value_end_def leaf_bytes_def ptr_bytes_def [of None] length_ptr_bytes ptr_size_def Let_def)
  next
    case (Some w)
    then have w: "length (concat (take (Suc i) (map snd kvs))) = w * Suc i" using fixed_offset [of w "map snd kvs" "Suc i"] wf i by (simp add: leaf_wf_def)
    have "la_key_end (acc fk fv kvs page) (length kvs - 1) = ok (Some (val_off fk fv kvs 0))"
      using la_key_end_ok(1) [OF rep, of "length kvs - 1"] i b(6) by (metis Suc_diff_1 diff_less less_nat_zero_code neq0_conv zero_less_one)
    then show ?thesis using i Some w b(2) [of "Suc i"] by (simp add: la_value_end_def val_off_def cmul_def cadd_def)
  qed
qed (simp add: la_value_end_def)

lemma la_value_start_ok:
  assumes rep: "leaf_rep fk fv kvs page"
  shows "i \<le> length kvs \<Longrightarrow> la_value_start (acc fk fv kvs page) i = ok (Some (val_off fk fv kvs i))"
    "length kvs < i \<Longrightarrow> la_value_start (acc fk fv kvs page) i = ok None"
proof -
  have wf: "leaf_wf fk fv kvs" "kvs \<noteq> []" using rep by (auto simp: leaf_rep_def leaf_wf_def)
  show "i \<le> length kvs \<Longrightarrow> la_value_start (acc fk fv kvs page) i = ok (Some (val_off fk fv kvs i))"
    using la_key_end_ok(1) [OF rep, of "length kvs - 1"] la_value_end_ok(1) [OF rep, of "i - 1"] wf(2) off_bounds(6) [OF wf(1)]
    by (cases "i = 0") (auto simp: la_value_start_def csub_def Suc_le_eq)
qed (use la_value_end_ok(2) [OF rep, of "i - 1"] in \<open>auto simp: la_value_start_def\<close>)

lemmas accessor_ok = la_key_start_ok la_key_end_ok la_value_start_ok la_value_end_ok

lemma total_length_ok: "leaf_rep fk fv kvs page \<Longrightarrow> la_total_length (acc fk fv kvs page) = ok (val_off fk fv kvs (length kvs))"
  using la_value_end_ok(1) [of fk fv kvs page "length kvs - 1"] by (auto simp: la_total_length_def leaf_rep_def leaf_wf_def csub_def Suc_le_eq)

lemma length_leaf_bytes: "length (leaf_bytes b fk fv kvs) = val_off fk fv kvs (length kvs)"
  by (simp add: leaf_bytes_def val_off_def data_start_def length_ptr_bytes)

lemma rep_length: "leaf_rep fk fv kvs page \<Longrightarrow> val_off fk fv kvs (length kvs) \<le> length page"
  by (auto simp: leaf_rep_def length_leaf_bytes)

lemma leaf_slices:
  assumes rep: "leaf_rep fk fv kvs page" and i: "i < length kvs"
  shows "sub_slice page (key_off fk fv kvs i) (key_off fk fv kvs (Suc i)) = ok (fst (kvs ! i))"
    "sub_slice page (val_off fk fv kvs i) (val_off fk fv kvs (Suc i)) = ok (snd (kvs ! i))"
proof -
  obtain b rest where p: "page = leaf_bytes b fk fv kvs @ rest" and wf: "leaf_wf fk fv kvs" using leaf_repE [OF rep] .
  let ?A = "leaf_head b (length kvs) @ ptr_bytes fk (ends (key_off fk fv kvs 0) (map fst kvs)) @ ptr_bytes fv (ends (val_off fk fv kvs 0) (map snd kvs))"
  have A: "length ?A = data_start fk fv (length kvs)" by (simp add: length_ptr_bytes data_start_def)
  show "sub_slice page (key_off fk fv kvs i) (key_off fk fv kvs (Suc i)) = ok (fst (kvs ! i))"
    using slice_segment [of i "map fst kvs" "key_off fk fv kvs i" ?A "key_off fk fv kvs (Suc i)" "concat (map snd kvs) @ rest"] i A
    by (simp add: key_off_def p leaf_bytes_def)
  show "sub_slice page (val_off fk fv kvs i) (val_off fk fv kvs (Suc i)) = ok (snd (kvs ! i))"
    using slice_segment [of i "map snd kvs" "val_off fk fv kvs i" "?A @ concat (map fst kvs)" "val_off fk fv kvs (Suc i)" rest] i A
    by (simp add: val_off_def p leaf_bytes_def)
qed

lemma la_entry_ok:
  assumes rep: "leaf_rep fk fv kvs page"
  shows "la_entry (acc fk fv kvs page) i = ok (if i < length kvs then Some (kvs ! i) else None)"
    "i < length kvs \<Longrightarrow> key_unchecked (acc fk fv kvs page) i = ok (fst (kvs ! i))"
  using accessor_ok [OF rep, of i] leaf_slices [OF rep, of i]
  by (cases "i < length kvs"; cases "i = length kvs"; simp add: la_entry_def key_unchecked_def)+

subsection \<open>Searching a leaf\<close>

text \<open>What the trait \<open>Key\<close> promises of \<open>compare\<close> on the encodings of a type: a total order.\<close>

locale key_order =
  fixes compare :: "byte list \<Rightarrow> byte list \<Rightarrow> ordering rust" and valid :: "byte list \<Rightarrow> bool"
  assumes compare_total: "valid a \<Longrightarrow> valid b \<Longrightarrow> \<exists>r. compare a b = ok r"
    and compare_refl: "valid a \<Longrightarrow> compare a a = ok Equal"
    and compare_flip: "valid a \<Longrightarrow> valid b \<Longrightarrow> compare a b = ok Less \<longleftrightarrow> compare b a = ok Greater"
    and compare_trans: "valid a \<Longrightarrow> valid b \<Longrightarrow> valid c \<Longrightarrow> compare a b \<noteq> ok Greater \<Longrightarrow> compare b c \<noteq> ok Greater \<Longrightarrow> compare a c \<noteq> ok Greater"
begin

abbreviation lt :: "byte list \<Rightarrow> byte list \<Rightarrow> bool" where
  "lt a b \<equiv> compare a b = ok Less"

abbreviation same :: "byte list \<Rightarrow> byte list \<Rightarrow> bool" where
  "same a b \<equiv> compare a b = ok Equal"

lemma compare_cases:
  assumes "valid a" "valid b"
  obtains "lt a b" "compare b a = ok Greater" | "same a b" "same b a" | "lt b a" "compare a b = ok Greater"
proof -
  obtain r r' where r: "compare a b = ok r" "compare b a = ok r'" using compare_total assms by blast
  show ?thesis
  proof (cases r)
    case Equal
    then have "r' = Equal" using r compare_flip [OF assms] compare_flip [OF assms(2,1)] by (cases r') auto
    then show ?thesis using that(2) r Equal by simp
  qed (use that r compare_flip [OF assms] compare_flip [OF assms(2,1)] in auto)
qed

lemma le_lt_trans:
  assumes v: "valid a" "valid b" "valid c"
  shows "compare a b \<noteq> ok Greater \<Longrightarrow> lt b c \<Longrightarrow> lt a c" "lt a b \<Longrightarrow> compare b c \<noteq> ok Greater \<Longrightarrow> lt a c"
proof -
  show "lt a c" if l: "compare a b \<noteq> ok Greater" "lt b c"
  proof (rule compare_cases [OF v(1,3)])
    assume "same a c" "same c a"
    then show ?thesis using compare_trans [OF v(3,1,2)] l compare_flip [OF v(2,3)] by auto
  qed (use compare_trans [OF v] l in auto)
  show "lt a c" if l: "lt a b" "compare b c \<noteq> ok Greater"
  proof (rule compare_cases [OF v(1,3)])
    assume "same a c" "same c a"
    then show ?thesis using compare_trans [OF v(2,3,1)] l compare_flip [OF v(1,2)] by auto
  qed (use compare_trans [OF v] l in auto)
qed

lemma lt_trans: "valid a \<Longrightarrow> valid b \<Longrightarrow> valid c \<Longrightarrow> lt a b \<Longrightarrow> lt b c \<Longrightarrow> lt a c"
  using le_lt_trans(1) [of a b c] by simp

definition sorted_keys :: "byte list list \<Rightarrow> bool" where
  "sorted_keys ks \<longleftrightarrow> sorted_wrt lt ks \<and> (\<forall>k\<in>set ks. valid k)"

lemma sorted_keysD:
  assumes "sorted_keys ks"
  shows "\<And>j. j < length ks \<Longrightarrow> valid (ks ! j)" "\<And>i j. i < j \<Longrightarrow> j < length ks \<Longrightarrow> lt (ks ! i) (ks ! j)"
  using assms by (auto simp: sorted_keys_def sorted_wrt_iff_nth_less)

lemma sorted_pairsD:
  assumes "sorted_keys (map fst kvs)"
  shows "\<And>j. j < length kvs \<Longrightarrow> valid (fst (kvs ! j))" "\<And>i j. i < j \<Longrightarrow> j < length kvs \<Longrightarrow> lt (fst (kvs ! i)) (fst (kvs ! j))"
  using sorted_keysD [OF assms] by auto

text \<open>The place of a key: the number of keys below it, and whether an equal key is there.\<close>

definition place :: "byte list list \<Rightarrow> byte list \<Rightarrow> nat \<times> bool" where
  "place ks q = (length (filter (\<lambda>k. lt k q) ks), list_ex (same q) ks)"

lemma filter_split:
  assumes "i \<le> length ks" "\<And>j. j < i \<Longrightarrow> P (ks ! j)" "\<And>j. i \<le> j \<Longrightarrow> j < length ks \<Longrightarrow> \<not> P (ks ! j)"
  shows "length (filter P ks) = i"
proof -
  have a: "filter P (take i ks) = take i ks" using assms(1,2) by (auto simp: filter_id_conv in_set_conv_nth)
  have "filter P (drop i ks) = []" using assms(3) by (fastforce simp: filter_empty_conv in_set_conv_nth)
  then have "filter P ks = take i ks" using a by (metis append_take_drop_id append_Nil2 filter_append)
  then show ?thesis using assms(1) by simp
qed

lemma placeI:
  assumes s: "sorted_keys ks" and q: "valid q" "i \<le> length ks" "\<And>j. j < i \<Longrightarrow> lt (ks ! j) q" "\<And>j. i < j \<Longrightarrow> j < length ks \<Longrightarrow> lt q (ks ! j)"
    and f: "i < length ks \<Longrightarrow> (if found then same q (ks ! i) else lt q (ks ! i))" "i = length ks \<Longrightarrow> \<not> found"
  shows "place ks q = (i, found)"
proof -
  note S = sorted_keysD [OF s]
  have no: "\<not> lt (ks ! j) q" "j \<noteq> i \<Longrightarrow> \<not> same q (ks ! j)" if "i \<le> j" "j < length ks" for j
    using that q(4) [of j] f(1) compare_flip [OF q(1) S(1)] compare_flip [OF S(1) q(1)] by (cases "i = j"; fastforce split: if_splits)+
  have no': "\<not> same q (ks ! j)" if "j < i" for j
    using that q(2,3) compare_flip [OF S(1) [of j] q(1)] by auto
  have "length (filter (\<lambda>k. lt k q) ks) = i" by (rule filter_split [OF q(2)]) (use q(3) no in auto)
  moreover have "list_ex (same q) ks = found"
  proof (cases found)
    case True
    then have "i < length ks" using f(2) q(2) by (cases "i = length ks") auto
    then show ?thesis using f(1) True nth_mem [of i ks] by (auto simp: list_ex_iff)
  next
    case False
    have "\<not> same q (ks ! j)" if "j < length ks" for j
      using that no no' f(1) False by (cases "j < i"; cases "j = i") auto
    then show ?thesis using False by (auto simp: list_ex_iff in_set_conv_nth)
  qed
  ultimately show ?thesis by (simp add: place_def)
qed

lemma position_loop_ok:
  assumes rep: "leaf_rep fk fv kvs page" and s: "sorted_keys (map fst kvs)" and q: "valid q"
  shows "lo \<le> hi \<Longrightarrow> hi \<le> length kvs \<Longrightarrow> \<forall>j<lo. lt (fst (kvs ! j)) q \<Longrightarrow> \<forall>j<length kvs. hi \<le> j \<longrightarrow> lt q (fst (kvs ! j)) \<Longrightarrow>
    position_loop compare (acc fk fv kvs page) q lo hi = ok (place (map fst kvs) q)"
proof (induction "hi - lo" arbitrary: lo hi rule: less_induct)
  case less
  note S = sorted_pairsD [OF s]
  let ?mid = "(lo + hi) div 2" let ?k = "fst (kvs ! ?mid)"
  show ?case
  proof (cases "lo < hi")
    case True
    have m: "lo \<le> ?mid" "?mid < hi" "?mid < length kvs" using True less(3) by auto
    note e = position_loop.simps [of compare "acc fk fv kvs page" q lo hi] la_entry_ok(2) [OF rep m(3)]
    have below: "lt (fst (kvs ! j)) q" if "lt ?k q" "j \<le> ?mid" for j
      using that S(1) [of j] S(1) [of ?mid] S(2) [of j ?mid] m(3) lt_trans [OF _ _ q, of "fst (kvs ! j)" ?k] by (cases "j = ?mid") auto
    have above: "lt q (fst (kvs ! j))" if "lt q ?k" "?mid \<le> j" "j < length kvs" for j
      using that S(1) [of j] S(1) [of ?mid] S(2) [of ?mid j] m(3) lt_trans [OF q, of ?k "fst (kvs ! j)"] by (cases "j = ?mid") auto
    consider "lt q ?k" | "same q ?k" "same ?k q" | "lt ?k q" "compare q ?k = ok Greater" using compare_cases [OF q S(1) [OF m(3)]] by blast
    then show ?thesis
    proof cases
      case l: 1
      then have "position_loop compare (acc fk fv kvs page) q lo ?mid = ok (place (map fst kvs) q)"
        using less(2-5) m True above by (intro less(1)) auto
      then show ?thesis using e True l by (simp add: Let_def)
    next
      case l: 2
      have "place (map fst kvs) q = (?mid, True)"
      proof (rule placeI [OF s q])
        fix j
        show "j < ?mid \<Longrightarrow> lt (map fst kvs ! j) q"
          using m(3) S(1) [of j] S(1) [of ?mid] S(2) [of j ?mid] le_lt_trans(2) [of "fst (kvs ! j)" ?k q] q l by simp
        show "?mid < j \<Longrightarrow> j < length (map fst kvs) \<Longrightarrow> lt q (map fst kvs ! j)"
          using m(3) S(1) [of j] S(1) [of ?mid] S(2) [of ?mid j] le_lt_trans(1) [of q ?k "fst (kvs ! j)"] q l by simp
      qed (use m l in auto)
      then show ?thesis using e True l by (simp add: Let_def)
    next
      case l: 3
      then have "position_loop compare (acc fk fv kvs page) q (?mid + 1) hi = ok (place (map fst kvs) q)"
        using less(2-5) m True below by (intro less(1)) auto
      then show ?thesis using e True l by (simp add: Let_def)
    qed
  next
    case False
    have "place (map fst kvs) q = (lo, False)"
      by (rule placeI [OF s q]) (use False less(2-5) in auto)
    then show ?thesis using position_loop.simps [of compare "acc fk fv kvs page" q lo hi] False less(2) by simp
  qed
qed

lemma la_position_ok:
  "leaf_rep fk fv kvs page \<Longrightarrow> sorted_keys (map fst kvs) \<Longrightarrow> valid q \<Longrightarrow> la_position compare (acc fk fv kvs page) q = ok (place (map fst kvs) q)"
  unfolding la_position_def by (simp add: position_loop_ok)

end

end
