(* ===== verification/Leaf_Builder.thy ===== *)
theory Leaf_Builder
  imports Leaf_Page
begin

text \<open>
  Writing leaf pages, \<open>src/tree_store/btree_base.rs\<close>: \<open>RawLeafBuilder\<close>, which fills the bytes of a page, and
  \<open>LeafBuilder\<close>, which collects pairs and builds one page or splits them over two.

  The operation that allocates a page is an argument of the builders, with what they rely on in the locale
  \<open>page_source\<close>; it is interpreted on \<open>PageAllocator::allocate\<close>.
\<close>

subsection \<open>\<open>RawLeafBuilder\<close>\<close>

record raw_leaf_builder =
  rlb_page :: "byte list"
  rlb_fixed_key_size :: "nat option"
  rlb_fixed_value_size :: "nat option"
  rlb_num_pairs :: nat
  provisioned_key_bytes :: nat
  pairs_written :: nat

definition rlb_required_bytes :: "nat \<Rightarrow> nat \<Rightarrow> nat option \<Rightarrow> nat option \<Rightarrow> nat" where
  "rlb_required_bytes num_pairs keys_values_bytes key_size value_size = (let result = 4;
     result = (if key_size = None then result + num_pairs * 4 else result);
     result = (if value_size = None then result + num_pairs * 4 else result) in
     result + keys_values_bytes)"

definition fill :: "byte list \<Rightarrow> nat \<Rightarrow> nat \<Rightarrow> byte \<Rightarrow> byte list rust" where
  "fill page start stop x = do { r \<leftarrow> sub_slice page start stop; write_at page start (replicate (length r) x) }"

definition rlb_new :: "byte list \<Rightarrow> nat \<Rightarrow> nat option \<Rightarrow> nat option \<Rightarrow> nat \<Rightarrow> raw_leaf_builder rust" where
  "rlb_new page num_pairs fk fv key_bytes = do {
     page \<leftarrow> index_set page 0 LEAF;
     n \<leftarrow> try_into 16 num_pairs;
     page \<leftarrow> write_at page 2 (le_bytes 2 n);
     let last = 4;
     let last = (if fk = None then last + 4 * num_pairs else last);
     let last = (if fv = None then last + 4 * num_pairs else last);
     page \<leftarrow> fill page 4 last 0xFF;
     ok \<lparr>rlb_page = page, rlb_fixed_key_size = fk, rlb_fixed_value_size = fv, rlb_num_pairs = num_pairs,
       provisioned_key_bytes = key_bytes, pairs_written = 0\<rparr> }"

definition rlb_key_section_start :: "raw_leaf_builder \<Rightarrow> nat" where
  "rlb_key_section_start b = (let offset = 4;
     offset = (if rlb_fixed_key_size b = None then offset + 4 * rlb_num_pairs b else offset);
     offset = (if rlb_fixed_value_size b = None then offset + 4 * rlb_num_pairs b else offset) in offset)"

text \<open>Reading an end offset that must be there.\<close>

definition read_u32 :: "byte list \<Rightarrow> nat \<Rightarrow> nat rust" where
  "read_u32 page offset = do { bs \<leftarrow> sub_slice page offset (offset + 4); ok (le_nat bs) }"

definition rlb_value_end :: "raw_leaf_builder \<Rightarrow> nat \<Rightarrow> nat rust" where
  "rlb_value_end b n = (case rlb_fixed_value_size b of
      Some fixed \<Rightarrow> do {
        x \<leftarrow> cmul 64 fixed (n + 1);
        cadd 64 (rlb_key_section_start b + provisioned_key_bytes b) x }
    | None \<Rightarrow> do {
        let offset = 4 + 4 * n;
        let offset = (if rlb_fixed_key_size b = None then offset + 4 * rlb_num_pairs b else offset);
        read_u32 (rlb_page b) offset })"

definition rlb_key_end :: "raw_leaf_builder \<Rightarrow> nat \<Rightarrow> nat rust" where
  "rlb_key_end b n = (case rlb_fixed_key_size b of
      Some fixed \<Rightarrow> do { x \<leftarrow> cmul 64 fixed (n + 1); cadd 64 (rlb_key_section_start b) x }
    | None \<Rightarrow> read_u32 (rlb_page b) (4 + 4 * n))"

definition put_u32 :: "byte list \<Rightarrow> nat \<Rightarrow> nat \<Rightarrow> byte list rust" where
  "put_u32 page offset x = do { x \<leftarrow> try_into 32 x; write_at page offset (le_bytes 4 x) }"

definition rlb_append :: "byte list \<Rightarrow> byte list \<Rightarrow> raw_leaf_builder \<Rightarrow> raw_leaf_builder rust" where
  "rlb_append key value b = do {
     (case rlb_fixed_key_size b of Some w \<Rightarrow> assert_that (w = length key) | None \<Rightarrow> ok ());
     (case rlb_fixed_value_size b of Some w \<Rightarrow> assert_that (w = length value) | None \<Rightarrow> ok ());
     key_offset \<leftarrow> (if pairs_written b = 0 then ok (rlb_key_section_start b) else rlb_key_end b (pairs_written b - 1));
     value_offset \<leftarrow> (if pairs_written b = 0 then ok (rlb_key_section_start b + provisioned_key_bytes b)
       else rlb_value_end b (pairs_written b - 1));
     let n = pairs_written b;
     page \<leftarrow> (if rlb_fixed_key_size b = None then put_u32 (rlb_page b) (4 + 4 * n) (key_offset + length key)
       else ok (rlb_page b));
     page \<leftarrow> write_at page key_offset key;
     written_key_len \<leftarrow> csub (key_offset + length key) (rlb_key_section_start b);
     assert_that (written_key_len \<le> provisioned_key_bytes b);
     page \<leftarrow> (if rlb_fixed_value_size b = None then do {
         let offset = 4 + 4 * n;
         let offset = (if rlb_fixed_key_size b = None then offset + 4 * rlb_num_pairs b else offset);
         put_u32 page offset (value_offset + length value) }
       else ok page);
     page \<leftarrow> write_at page value_offset value;
     ok (b\<lparr>rlb_page := page, pairs_written := n + 1\<rparr>) }"

text \<open>Dropping the builder checks that everything was written, and leaves the page.\<close>

definition rlb_drop :: "raw_leaf_builder \<Rightarrow> byte list rust" where
  "rlb_drop b = do {
     assert_that (pairs_written b = rlb_num_pairs b);
     l \<leftarrow> csub (rlb_num_pairs b) 1;
     e \<leftarrow> rlb_key_end b l;
     assert_that (rlb_key_section_start b + provisioned_key_bytes b = e);
     ok (rlb_page b) }"

text \<open>The sequence \<open>RawLeafBuilder::new\<close>, \<open>append\<close> for each pair, \<open>drop\<close> of the callers.\<close>

definition write_leaf :: "byte list \<Rightarrow> (byte list \<times> byte list) list \<Rightarrow> nat \<Rightarrow> nat option \<Rightarrow> nat option \<Rightarrow> nat \<Rightarrow> byte list rust" where
  "write_leaf page kvs num_pairs fk fv key_bytes = do {
     b \<leftarrow> rlb_new page num_pairs fk fv key_bytes;
     b \<leftarrow> for_each kvs (\<lambda>(k, v). rlb_append k v) b;
     rlb_drop b }"

subsection \<open>\<open>LeafBuilder\<close>\<close>

record leaf_builder =
  lb_pairs :: "(byte list \<times> byte list) list"
  lb_fixed_key_size :: "nat option"
  lb_fixed_value_size :: "nat option"
  total_key_bytes :: nat
  total_value_bytes :: nat

definition lb_new :: "nat option \<Rightarrow> nat option \<Rightarrow> leaf_builder" where
  "lb_new fk fv = \<lparr>lb_pairs = [], lb_fixed_key_size = fk, lb_fixed_value_size = fv, total_key_bytes = 0, total_value_bytes = 0\<rparr>"

definition lb_push :: "byte list \<Rightarrow> byte list \<Rightarrow> leaf_builder \<Rightarrow> leaf_builder" where
  "lb_push key value b = b\<lparr>lb_pairs := lb_pairs b @ [(key, value)],
     total_key_bytes := total_key_bytes b + length key, total_value_bytes := total_value_bytes b + length value\<rparr>"

definition strictly_ascending :: "nat list \<Rightarrow> bool" where
  "strictly_ascending xs \<longleftrightarrow> list_all (\<lambda>(a, b). a < b) (zip xs (tl xs))"

definition push_all_except_indexes :: "leaf_accessor \<Rightarrow> nat list \<Rightarrow> leaf_builder \<Rightarrow> leaf_builder rust" where
  "push_all_except_indexes a except b = do {
     assert_that (strictly_ascending except);
     (b, next_except) \<leftarrow> for_each [0..<la_num_pairs a] (\<lambda>i (b, next_except).
       if next_except < length except \<and> except ! next_except = i then ok (b, next_except + 1)
       else do {
         (k, v) \<leftarrow> unwrap (la_entry a i);
         ok (lb_push k v b, next_except) }) (b, 0);
     assert_that (next_except = length except);
     ok b }"

definition push_all_except :: "leaf_accessor \<Rightarrow> nat option \<Rightarrow> leaf_builder \<Rightarrow> leaf_builder rust" where
  "push_all_except a except b = (case except of Some i \<Rightarrow> push_all_except_indexes a [i] b | None \<Rightarrow> push_all_except_indexes a [] b)"

definition lb_required_bytes :: "leaf_builder \<Rightarrow> nat \<Rightarrow> nat \<Rightarrow> nat" where
  "lb_required_bytes b num_pairs keys_values_bytes =
     rlb_required_bytes num_pairs keys_values_bytes (lb_fixed_key_size b) (lb_fixed_value_size b)"

definition U16_MAX :: nat where "U16_MAX = 65535"

definition lb_should_split :: "nat \<Rightarrow> leaf_builder \<Rightarrow> bool" where
  "lb_should_split page_size b = (let
     required_size = lb_required_bytes b (length (lb_pairs b)) (total_key_bytes b + total_value_bytes b);
     too_many_pairs = length (lb_pairs b) > U16_MAX in
     (required_size > page_size \<or> too_many_pairs) \<and> length (lb_pairs b) > 1)"

text \<open>The first loop of \<open>build_split\<close>: the shortest prefix with half of the bytes, as the number of its pairs and
  the lengths of their keys and values.\<close>

fun divide :: "nat \<Rightarrow> (byte list \<times> byte list) list \<Rightarrow> nat \<times> nat \<times> nat \<Rightarrow> nat \<times> nat \<times> nat" where
  "divide total_size [] s = s"
| "divide total_size ((key, value) # pairs) (division, first_split_key_bytes, first_split_value_bytes) = (let
     first_split_key_bytes = first_split_key_bytes + length key;
     first_split_value_bytes = first_split_value_bytes + length value;
     division = division + 1 in
     if first_split_key_bytes + first_split_value_bytes \<ge> total_size div 2
     then (division, first_split_key_bytes, first_split_value_bytes)
     else divide total_size pairs (division, first_split_key_bytes, first_split_value_bytes))"

definition lb_division :: "leaf_builder \<Rightarrow> (nat \<times> nat \<times> nat) rust" where
  "lb_division b = do {
     let total_size = total_key_bytes b + total_value_bytes b;
     l \<leftarrow> csub (length (lb_pairs b)) 1;
     let (division, first_split_key_bytes, first_split_value_bytes) = divide total_size (take l (lb_pairs b)) (0, 0, 0);
     let max_pairs = U16_MAX;
     assert_that (length (lb_pairs b) \<le> 2 * max_pairs);
     let clamped = max (length (lb_pairs b) - max_pairs) (min division max_pairs);
     ok (if clamped \<noteq> division then (clamped, sum_list (map (length \<circ> fst) (take clamped (lb_pairs b))),
           sum_list (map (length \<circ> snd) (take clamped (lb_pairs b))))
         else (division, first_split_key_bytes, first_split_value_bytes)) }"

definition pm_memory :: "page_mut \<Rightarrow> byte list" where
  "pm_memory page = wp_data (pm_mem page)"

definition set_memory :: "page_mut \<Rightarrow> byte list \<Rightarrow> page_mut" where
  "set_memory page bs = page\<lparr>pm_mem := (pm_mem page)\<lparr>wp_data := bs\<rparr>\<rparr>"

definition lb_build_split :: "(nat \<Rightarrow> 's \<Rightarrow> ((storage_error + page_mut) \<times> 's) rust) \<Rightarrow> leaf_builder \<Rightarrow> 's \<Rightarrow>
    ((storage_error + page_mut \<times> byte list \<times> page_mut) \<times> 's) rust" where
  "lb_build_split allocate b s = do {
     (division, first_split_key_bytes, first_split_value_bytes) \<leftarrow> lb_division b;
     let required_size = lb_required_bytes b division (first_split_key_bytes + first_split_value_bytes);
     io_then (allocate required_size s) (\<lambda>page1 s. do {
       mem1 \<leftarrow> write_leaf (pm_memory page1) (take division (lb_pairs b)) division (lb_fixed_key_size b) (lb_fixed_value_size b) first_split_key_bytes;
       x \<leftarrow> csub (total_key_bytes b + total_value_bytes b) first_split_key_bytes;
       x \<leftarrow> csub x first_split_value_bytes;
       n \<leftarrow> csub (length (lb_pairs b)) division;
       let required_size = lb_required_bytes b n x;
       io_then (allocate required_size s) (\<lambda>page2 s. do {
         kb \<leftarrow> csub (total_key_bytes b) first_split_key_bytes;
         mem2 \<leftarrow> write_leaf (pm_memory page2) (drop division (lb_pairs b)) n (lb_fixed_key_size b) (lb_fixed_value_size b) kb;
         l \<leftarrow> csub division 1;
         (k, _) \<leftarrow> index (lb_pairs b) l;
         ok (Inr (set_memory page1 mem1, k, set_memory page2 mem2), s) }) }) }"

definition lb_build :: "(nat \<Rightarrow> 's \<Rightarrow> ((storage_error + page_mut) \<times> 's) rust) \<Rightarrow> leaf_builder \<Rightarrow> 's \<Rightarrow> ((storage_error + page_mut) \<times> 's) rust" where
  "lb_build allocate b s = do {
     let required_size = lb_required_bytes b (length (lb_pairs b)) (total_key_bytes b + total_value_bytes b);
     io_then (allocate required_size s) (\<lambda>page s. do {
       mem \<leftarrow> write_leaf (pm_memory page) (lb_pairs b) (length (lb_pairs b)) (lb_fixed_key_size b) (lb_fixed_value_size b) (total_key_bytes b);
       ok (Inr (set_memory page mem), s) }) }"

subsection \<open>A written leaf\<close>

lemma write_at_mid: "off = length A \<Longrightarrow> length v \<le> length X \<Longrightarrow> write_at (A @ X @ C) off v = ok (A @ v @ drop (length v) X @ C)"
  by (simp add: write_at_def)

lemma length_concat_sum: "length (concat xs) = sum_list (map length xs)"
  by (simp add: length_concat)

text \<open>The page of a builder after the pairs \<open>done\<close>; \<open>X1\<close> to \<open>X3\<close> is space still to be written.\<close>

definition partial_leaf :: "nat option \<Rightarrow> nat option \<Rightarrow> (byte list \<times> byte list) list \<Rightarrow> nat \<Rightarrow> raw_leaf_builder \<Rightarrow> bool" where
  "partial_leaf fk fv kvs j b \<longleftrightarrow> (\<exists>x X1 X2 X3 rest. b = \<lparr>rlb_page = leaf_head x (length kvs)
       @ (ptr_bytes fk (ends (key_off fk fv kvs 0) (take j (map fst kvs))) @ X1) @ (ptr_bytes fv (ends (val_off fk fv kvs 0) (take j (map snd kvs))) @ X2)
       @ (concat (take j (map fst kvs)) @ X3) @ concat (take j (map snd kvs)) @ rest,
       rlb_fixed_key_size = fk, rlb_fixed_value_size = fv, rlb_num_pairs = length kvs, provisioned_key_bytes = length (concat (map fst kvs)), pairs_written = j\<rparr>
     \<and> length X1 = ptr_size fk * (length kvs - j) \<and> length X2 = ptr_size fv * (length kvs - j)
     \<and> length X3 = length (concat (drop j (map fst kvs))) \<and> length (concat (drop j (map snd kvs))) \<le> length rest)"

lemma rlb_new_ok:
  assumes wf: "leaf_wf fk fv kvs" and len: "val_off fk fv kvs (length kvs) \<le> length page"
  shows "\<exists>b. rlb_new page (length kvs) fk fv (length (concat (map fst kvs))) = ok b \<and> partial_leaf fk fv kvs 0 b"
proof -
  let ?n = "length kvs"
  have l4: "data_start fk fv ?n + length (concat (map fst kvs)) + length (concat (map snd kvs)) \<le> length page" "4 \<le> length page"
    using len by (simp_all add: val_off_def data_start_def)
  obtain y0 x y2 y3 R where p: "page = [y0, x, y2, y3] @ R" using l4(2) by (auto simp: Suc_le_length_iff numeral_eq_Suc)
  have set0: "index_set page 0 LEAF = ok (page[0 := LEAF])" by (rule index_set_ok) (simp add: p)
  have w: "write_at (page[0 := LEAF]) 2 (le_bytes 2 ?n) = ok (leaf_head x ?n @ R)"
    by (simp add: p write_at_def leaf_head_def)
  define q where "q = ptr_size fk * ?n + ptr_size fv * ?n"
  have q: "q \<le> length R" using l4 p by (simp add: q_def data_start_def)
  have "fill (leaf_head x ?n @ R) 4 (4 + q) 0xFF = ok (leaf_head x ?n @ replicate q 0xFF @ drop q R)"
    using q write_at_mid [of 4 "leaf_head x ?n" "replicate q 0xFF" R "[]"] by (simp add: fill_def sub_slice_def)
  moreover have "(if fv = None then (if fk = None then 4 + 4 * ?n else 4) + 4 * ?n else if fk = None then 4 + 4 * ?n else 4) = 4 + q"
    by (simp add: q_def ptr_size_def)
  ultimately have e: "rlb_new page ?n fk fv (length (concat (map fst kvs))) = ok \<lparr>rlb_page = leaf_head x ?n @ replicate q 0xFF @ drop q R,
      rlb_fixed_key_size = fk, rlb_fixed_value_size = fv, rlb_num_pairs = ?n, provisioned_key_bytes = length (concat (map fst kvs)), pairs_written = 0\<rparr>"
    using w wf set0 by (simp add: rlb_new_def try_into_def leaf_wf_def Let_def)
  let ?K = "length (concat (map fst kvs))"
  have r: "?K + length (concat (map snd kvs)) \<le> length (drop q R)" using l4 p by (simp add: q_def data_start_def)
  obtain Y Z where YZ: "drop q R = Y @ Z" "length Y = ?K" "length (concat (map snd kvs)) \<le> length Z"
    by (rule that [OF append_take_drop_id [of ?K, symmetric]]) (use r in auto)
  have s: "replicate q 0xFF = replicate (ptr_size fk * ?n) (0xFF :: byte) @ replicate (ptr_size fv * ?n) 0xFF" by (simp add: q_def replicate_add)
  have "partial_leaf fk fv kvs 0 \<lparr>rlb_page = leaf_head x ?n @ replicate q 0xFF @ drop q R, rlb_fixed_key_size = fk, rlb_fixed_value_size = fv,
      rlb_num_pairs = ?n, provisioned_key_bytes = ?K, pairs_written = 0\<rparr>" unfolding partial_leaf_def s
    by (rule exI [of _ x], rule exI [of _ "replicate (ptr_size fk * ?n) 0xFF"], rule exI [of _ "replicate (ptr_size fv * ?n) 0xFF"],
        rule exI [of _ Y], rule exI [of _ Z]) (simp add: ptr_bytes_def YZ)
  then show ?thesis using e by blast
qed

lemma put_ptr:
  assumes "ptr_size fixed \<le> length X" "off = length A + 4 * length ps" "v < 2 ^ 32"
  shows "(if fixed = None then put_u32 (A @ (ptr_bytes fixed ps @ X) @ C) off v else ok (A @ (ptr_bytes fixed ps @ X) @ C))
    = ok (A @ (ptr_bytes fixed (ps @ [v]) @ drop (ptr_size fixed) X) @ C)"
proof (cases fixed)
  case None
  then show ?thesis
    using assms write_at_mid [of off "A @ ptr_bytes fixed ps" "le_bytes 4 v" X C]
    by (simp add: put_u32_def try_into_def ptr_size_def length_ptr_bytes ptr_bytes_append) (simp add: ptr_bytes_def)
qed (simp add: ptr_bytes_def ptr_size_def)

lemma read_ptr:
  assumes "i < length ps" "ps ! i < 2 ^ 32" "off = length A + 4 * i"
  shows "read_u32 (A @ concat (map (le_bytes 4) ps) @ C) off = ok (ps ! i)"
  using end_u32_ptr [OF assms, of C] by (simp add: read_u32_def sub_slice_def end_u32_def split: if_splits)

lemma take_ends: "take j (ends o' xs) = ends o' (take j xs)"
proof (induction xs arbitrary: j o')
  case (Cons x xs)
  then show ?case by (cases j) auto
qed simp

lemma ends_take_Suc: "j < length xs \<Longrightarrow> ends o' (take (Suc j) xs) = ends o' (take j xs) @ [o' + length (concat (take (Suc j) xs))]"
  by (simp add: take_Suc_conv_app_nth ends_append)

lemma rlb_offsets:
  assumes wf: "leaf_wf fk fv kvs" and b: "partial_leaf fk fv kvs j b" and j: "0 < j" "j \<le> length kvs"
  shows "rlb_key_end b (j - 1) = ok (key_off fk fv kvs j)" "rlb_value_end b (j - 1) = ok (val_off fk fv kvs j)"
    "rlb_key_section_start b = data_start fk fv (length kvs)"
proof -
  obtain x X1 X2 X3 rest where e: "b = \<lparr>rlb_page = leaf_head x (length kvs)
       @ (ptr_bytes fk (ends (key_off fk fv kvs 0) (take j (map fst kvs))) @ X1) @ (ptr_bytes fv (ends (val_off fk fv kvs 0) (take j (map snd kvs))) @ X2)
       @ (concat (take j (map fst kvs)) @ X3) @ concat (take j (map snd kvs)) @ rest,
       rlb_fixed_key_size = fk, rlb_fixed_value_size = fv, rlb_num_pairs = length kvs, provisioned_key_bytes = length (concat (map fst kvs)), pairs_written = j\<rparr>"
    and X: "length X1 = ptr_size fk * (length kvs - j)" using b unfolding partial_leaf_def by blast
  note bd = off_bounds [OF wf]
  show s: "rlb_key_section_start b = data_start fk fv (length kvs)" by (simp add: e rlb_key_section_start_def data_start_def ptr_size_def Let_def)
  have jj: "Suc (j - 1) = j" using j(1) by simp
  have n1: "ends o' (take j xs) ! (j - 1) = o' + length (concat (take j xs))" if "length xs = length kvs" for o' xs
    using that j nth_ends [of "j - 1" "take j xs" o'] jj by simp
  show "rlb_key_end b (j - 1) = ok (key_off fk fv kvs j)"
  proof (cases fk)
    case None
    then show ?thesis using j bd(1) [of j] n1 [of "map fst kvs" "key_off fk fv kvs 0"]
        read_ptr [of "j - 1" "ends (key_off fk fv kvs 0) (take j (map fst kvs))" "4 + 4 * (j - 1)" "leaf_head x (length kvs)"]
      by (simp add: rlb_key_end_def e ptr_bytes_def [of None] key_off_def)
  next
    case (Some w)
    then have "length (concat (take j (map fst kvs))) = w * j" using fixed_offset [of w "map fst kvs" j] wf j by (simp add: leaf_wf_def)
    then show ?thesis using Some bd(1) [of j] s j jj by (simp add: rlb_key_end_def e key_off_def cmul_def cadd_def)
  qed
  show "rlb_value_end b (j - 1) = ok (val_off fk fv kvs j)"
  proof (cases fv)
    case None
    have l: "length (leaf_head x (length kvs) @ ptr_bytes fk (ends (key_off fk fv kvs 0) (take j (map fst kvs))) @ X1) = 4 + ptr_size fk * length kvs"
      using j X by (simp add: length_ptr_bytes flip: distrib_left)
    from None show ?thesis using j bd(2) [of j] n1 [of "map snd kvs" "val_off fk fv kvs 0"] l
        read_ptr [of "j - 1" "ends (val_off fk fv kvs 0) (take j (map snd kvs))" "4 + 4 * (j - 1) + ptr_size fk * length kvs"
          "leaf_head x (length kvs) @ ptr_bytes fk (ends (key_off fk fv kvs 0) (take j (map fst kvs))) @ X1"]
      by (cases fk) (simp_all add: rlb_value_end_def e ptr_bytes_def [of None] val_off_def ptr_size_def Let_def)
  next
    case (Some w)
    then have "length (concat (take j (map snd kvs))) = w * j" using fixed_offset [of w "map snd kvs" j] wf j by (simp add: leaf_wf_def)
    then show ?thesis using Some bd(2) [of j] s j jj by (simp add: rlb_value_end_def e val_off_def cmul_def cadd_def)
  qed
qed

lemma append_step:
  assumes wf: "leaf_wf fk fv kvs" and b: "partial_leaf fk fv kvs j b" and j: "j < length kvs"
  shows "\<exists>b'. rlb_append (fst (kvs ! j)) (snd (kvs ! j)) b = ok b' \<and> partial_leaf fk fv kvs (Suc j) b'"
proof -
  let ?n = "length kvs" let ?k = "fst (kvs ! j)" let ?v = "snd (kvs ! j)"
  define ks where "ks = map fst kvs" define vs where "vs = map snd kvs"
  define P where "P = ends (key_off fk fv kvs 0) (take j ks)" define Q where "Q = ends (val_off fk fv kvs 0) (take j vs)"
  define KD where "KD = concat (take j ks)" define VD where "VD = concat (take j vs)"
  obtain x X1 X2 X3 rest where e: "b = \<lparr>rlb_page = leaf_head x ?n @ (ptr_bytes fk P @ X1) @ (ptr_bytes fv Q @ X2) @ (KD @ X3) @ VD @ rest,
       rlb_fixed_key_size = fk, rlb_fixed_value_size = fv, rlb_num_pairs = ?n, provisioned_key_bytes = length (concat ks), pairs_written = j\<rparr>"
    and X: "length X1 = ptr_size fk * (?n - j)" "length X2 = ptr_size fv * (?n - j)" "length X3 = length (concat (drop j ks))" "length (concat (drop j vs)) \<le> length rest"
    using b unfolding partial_leaf_def ks_def [symmetric] vs_def [symmetric] P_def [symmetric] Q_def [symmetric] KD_def [symmetric] VD_def [symmetric] by blast
  note bd = off_bounds [OF wf]
  have kj: "ks ! j = ?k" "vs ! j = ?v" "j < length ks" "j < length vs" "length P = j" "length Q = j" using j by (simp_all add: ks_def vs_def P_def Q_def)
  have dr: "drop j ks = ?k # drop (Suc j) ks" "drop j vs = ?v # drop (Suc j) vs" using kj Cons_nth_drop_Suc by metis+
  have off: "(if j = 0 then ok (data_start fk fv ?n) else rlb_key_end b (j - 1)) = ok (key_off fk fv kvs j)"
    "(if j = 0 then ok (data_start fk fv ?n + length (concat ks)) else rlb_value_end b (j - 1)) = ok (val_off fk fv kvs j)"
    using rlb_offsets [OF wf b] j by (auto simp: key_off_def val_off_def ks_def)
  have kk: "key_off fk fv kvs j + length ?k = key_off fk fv kvs (Suc j)" "val_off fk fv kvs j + length ?v = val_off fk fv kvs (Suc j)"
    using kj by (simp_all add: key_off_def val_off_def concat_take_Suc flip: ks_def vs_def)
  have sec: "rlb_key_section_start b = data_start fk fv ?n" by (simp add: e rlb_key_section_start_def data_start_def ptr_size_def Let_def)
  have w: "(case fk of Some w \<Rightarrow> assert_that (w = length ?k) | None \<Rightarrow> ok ()) = ok ()" "(case fv of Some w \<Rightarrow> assert_that (w = length ?v) | None \<Rightarrow> ok ()) = ok ()"
    using wf j by (auto simp: leaf_wf_def widths_def split: option.splits)
  have sz: "ptr_size fk \<le> length X1" "ptr_size fv \<le> length X2" "length ?k \<le> length X3" "length ?v \<le> length rest"
    using X dr j by (auto simp: ptr_size_def)
  define X1' where "X1' = drop (ptr_size fk) X1" define X2' where "X2' = drop (ptr_size fv) X2"
  define P' where "P' = ptr_bytes fk (P @ [key_off fk fv kvs (Suc j)])" define Q' where "Q' = ptr_bytes fv (Q @ [val_off fk fv kvs (Suc j)])"
  have lens: "length (P' @ X1') = ptr_size fk * ?n" "length (ptr_bytes fv Q @ X2) = ptr_size fv * ?n" "length (Q' @ X2') = ptr_size fv * ?n"
    using X j kj by (auto simp: P'_def Q'_def X1'_def X2'_def length_ptr_bytes ptr_size_def)
  have pb: "rlb_page b = leaf_head x ?n @ (ptr_bytes fk P @ X1) @ (ptr_bytes fv Q @ X2) @ (KD @ X3) @ VD @ rest" by (simp add: e)
  have s1: "(if fk = None then put_u32 (rlb_page b) (4 + 4 * j) (key_off fk fv kvs (Suc j)) else ok (rlb_page b))
      = ok (leaf_head x ?n @ (P' @ X1') @ (ptr_bytes fv Q @ X2) @ (KD @ X3) @ VD @ rest)"
    unfolding pb P'_def X1'_def by (rule put_ptr) (use sz(1) kj(5) bd(1) [of "Suc j"] in auto)
  have s2: "write_at (leaf_head x ?n @ (P' @ X1') @ (ptr_bytes fv Q @ X2) @ (KD @ X3) @ VD @ rest) (key_off fk fv kvs j) ?k
      = ok ((leaf_head x ?n @ (P' @ X1')) @ (ptr_bytes fv Q @ X2) @ (KD @ ?k @ drop (length ?k) X3) @ VD @ rest)"
    using write_at_mid [of "key_off fk fv kvs j" "leaf_head x ?n @ (P' @ X1') @ (ptr_bytes fv Q @ X2) @ KD" ?k X3 "VD @ rest"] sz(3) lens
    by (simp add: key_off_def data_start_def KD_def flip: ks_def)
  define off2 where "off2 = (if fk = None then 4 + 4 * j + 4 * ?n else 4 + 4 * j)"
  have s3: "(if fv = None then put_u32 ((leaf_head x ?n @ (P' @ X1')) @ (ptr_bytes fv Q @ X2) @ (KD @ ?k @ drop (length ?k) X3) @ VD @ rest) off2 (val_off fk fv kvs (Suc j))
       else ok ((leaf_head x ?n @ (P' @ X1')) @ (ptr_bytes fv Q @ X2) @ (KD @ ?k @ drop (length ?k) X3) @ VD @ rest))
      = ok ((leaf_head x ?n @ (P' @ X1')) @ (Q' @ X2') @ (KD @ ?k @ drop (length ?k) X3) @ VD @ rest)"
    unfolding Q'_def X2'_def by (rule put_ptr) (use sz(2) lens kj(6) bd(2) [of "Suc j"] in \<open>auto simp: off2_def ptr_size_def\<close>)
  have "concat ks = KD @ ?k @ concat (drop (Suc j) ks)" using append_take_drop_id [of j ks] dr(1) by (metis KD_def concat.simps(2) concat_append)
  then have ck: "length (concat ks) = length KD + length X3" using X(3) dr(1) by simp
  have s4: "write_at ((leaf_head x ?n @ (P' @ X1')) @ (Q' @ X2') @ (KD @ ?k @ drop (length ?k) X3) @ VD @ rest) (val_off fk fv kvs j) ?v
      = ok ((leaf_head x ?n @ (P' @ X1')) @ (Q' @ X2') @ (KD @ ?k @ drop (length ?k) X3) @ VD @ ?v @ drop (length ?v) rest)"
    using write_at_mid [of "val_off fk fv kvs j" "leaf_head x ?n @ (P' @ X1') @ (Q' @ X2') @ (KD @ ?k @ drop (length ?k) X3) @ VD" ?v rest "[]"] sz(3,4) lens ck
    by (simp add: val_off_def data_start_def VD_def flip: ks_def vs_def)
  let ?b = "b\<lparr>rlb_page := (leaf_head x ?n @ (P' @ X1')) @ (Q' @ X2') @ (KD @ ?k @ drop (length ?k) X3) @ VD @ ?v @ drop (length ?v) rest, pairs_written := j + 1\<rparr>"
  have bb: "rlb_fixed_key_size b = fk" "rlb_fixed_value_size b = fv" "rlb_num_pairs b = ?n" "provisioned_key_bytes b = length (concat ks)" "pairs_written b = j" by (simp_all add: e)
  have fits: "csub (key_off fk fv kvs (Suc j)) (data_start fk fv ?n) = ok (length (concat (take (Suc j) ks)))" "length (concat (take (Suc j) ks)) \<le> length (concat ks)"
    using length_concat_take [of "Suc j" ks] kj by (simp_all add: csub_def key_off_def flip: ks_def)
  have "rlb_append ?k ?v b = ok ?b"
    unfolding rlb_append_def bb sec w bind.bind_lunit Let_def
    unfolding off kk fits bind.bind_lunit s1 s2 assert_that_bind [OF fits(2)] off2_def [symmetric] s3 s4 by (simp add: ac_simps)
  moreover have "partial_leaf fk fv kvs (Suc j) ?b"
  proof -
    have "concat (take (Suc j) ks) = KD @ ?k" "concat (take (Suc j) vs) = VD @ ?v" using kj by (simp_all add: KD_def VD_def concat_take_Suc)
    moreover have "ptr_bytes fk (ends (key_off fk fv kvs 0) (take (Suc j) ks)) = P'" "ptr_bytes fv (ends (val_off fk fv kvs 0) (take (Suc j) vs)) = Q'"
      using kj by (simp_all add: P'_def Q'_def P_def Q_def ends_take_Suc) (simp_all add: key_off_def val_off_def ks_def vs_def)
    moreover have "length X1' = ptr_size fk * (?n - Suc j)" "length X2' = ptr_size fv * (?n - Suc j)"
      using X j by (auto simp: X1'_def X2'_def ptr_size_def)
    moreover have "length (drop (length ?k) X3) = length (concat (drop (Suc j) ks))" "length (concat (drop (Suc j) vs)) \<le> length (drop (length ?v) rest)"
      using X dr by simp_all
    ultimately show ?thesis unfolding partial_leaf_def ks_def [symmetric] vs_def [symmetric]
      by (intro exI [of _ x] exI [of _ X1'] exI [of _ X2'] exI [of _ "drop (length ?k) X3"] exI [of _ "drop (length ?v) rest"]) (simp add: e)
  qed
  ultimately show ?thesis by blast
qed

lemma put_u32_length: "put_u32 page off x = ok page' \<Longrightarrow> length page' = length page"
  by (auto simp: put_u32_def bind_ok_iff dest: length_write_at)

lemma rlb_append_length: "rlb_append k v b = ok b' \<Longrightarrow> length (rlb_page b') = length (rlb_page b)"
  by (auto simp: rlb_append_def bind_ok_iff Let_def dest!: length_write_at put_u32_length split: if_splits)

lemma rlb_new_length: "rlb_new page n fk fv kb = ok b \<Longrightarrow> length (rlb_page b) = length page"
  by (auto simp: rlb_new_def fill_def bind_ok_iff Let_def index_set_def dest!: length_write_at split: if_splits)

lemma write_leaf_ok:
  assumes wf: "leaf_wf fk fv kvs" and len: "val_off fk fv kvs (length kvs) \<le> length page" "n = length kvs" "kb = length (concat (map fst kvs))"
  shows "\<exists>page'. write_leaf page kvs n fk fv kb = ok page' \<and> leaf_rep fk fv kvs page' \<and> length page' = length page"
proof -
  obtain b where b: "rlb_new page (length kvs) fk fv (length (concat (map fst kvs))) = ok b" "partial_leaf fk fv kvs 0 b"
    using rlb_new_ok [OF wf len(1)] by blast
  obtain b' where b': "for_each kvs (\<lambda>(k, v). rlb_append k v) b = ok b'" "partial_leaf fk fv kvs (length kvs) b'" "length (rlb_page b') = length page"
  proof -
    let ?I = "\<lambda>k b. partial_leaf fk fv kvs k b \<and> length (rlb_page b) = length page"
    have "\<exists>u'. (\<lambda>(k, v). rlb_append k v) (kvs ! k) u = ok u' \<and> ?I (Suc k) u'" if "k < length kvs" "?I k u" for k u
      using append_step [OF wf _ that(1), of u] that(2) rlb_append_length by (metis case_prod_beta)
    then show ?thesis using for_each_inv [of ?I b kvs "\<lambda>(k, v). rlb_append k v"] b rlb_new_length [OF b(1)] that by blast
  qed
  obtain x X1 X2 X3 rest where e: "b' = \<lparr>rlb_page = leaf_head x (length kvs)
       @ (ptr_bytes fk (ends (key_off fk fv kvs 0) (map fst kvs)) @ X1) @ (ptr_bytes fv (ends (val_off fk fv kvs 0) (map snd kvs)) @ X2)
       @ (concat (map fst kvs) @ X3) @ concat (map snd kvs) @ rest,
       rlb_fixed_key_size = fk, rlb_fixed_value_size = fv, rlb_num_pairs = length kvs, provisioned_key_bytes = length (concat (map fst kvs)), pairs_written = length kvs\<rparr>"
    and X: "X1 = []" "X2 = []" "X3 = []" using b'(2) unfolding partial_leaf_def by auto
  have n: "0 < length kvs" using wf by (simp add: leaf_wf_def)
  have "rlb_drop b' = ok (rlb_page b')"
    using rlb_offsets(1,3) [OF wf b'(2) n] n by (simp add: rlb_drop_def csub_def Suc_le_eq key_off_def) (simp add: e)
  moreover have "rlb_page b' = leaf_bytes x fk fv kvs @ rest" by (simp add: e X leaf_bytes_def)
  ultimately show ?thesis using b(1) b'(1,3) wf len(2,3) by (auto simp: write_leaf_def leaf_rep_def)
qed

subsection \<open>Building\<close>

definition lb_wf :: "nat option \<Rightarrow> nat option \<Rightarrow> leaf_builder \<Rightarrow> bool" where
  "lb_wf fk fv b \<longleftrightarrow> lb_fixed_key_size b = fk \<and> lb_fixed_value_size b = fv \<and> total_key_bytes b = length (concat (map fst (lb_pairs b)))
     \<and> total_value_bytes b = length (concat (map snd (lb_pairs b)))"

lemma lb_wf_new [simp]: "lb_wf fk fv (lb_new fk fv)" "lb_pairs (lb_new fk fv) = []"
  by (simp_all add: lb_wf_def lb_new_def)

lemma lb_wf_push [simp]: "lb_wf fk fv b \<Longrightarrow> lb_wf fk fv (lb_push k v b)" "lb_pairs (lb_push k v b) = lb_pairs b @ [(k, v)]"
  by (simp_all add: lb_wf_def lb_push_def)

lemma required_bytes_eq: "rlb_required_bytes n x fk fv = data_start fk fv n + x"
  by (simp add: rlb_required_bytes_def data_start_def ptr_size_def Let_def)

lemma divide_ok:
  assumes "divide T ps (d, k, v) = (d', k', v')"
  shows "d \<le> d' \<and> d' \<le> d + length ps \<and> (ps \<noteq> [] \<longrightarrow> d < d') \<and> k' = k + length (concat (take (d' - d) (map fst ps))) \<and> v' = v + length (concat (take (d' - d) (map snd ps)))"
  using assms
proof (induction T ps "(d, k, v)" arbitrary: d k v rule: divide.induct)
  case (2 T key val ps d k v)
  show ?case
  proof (cases "k + length key + (v + length val) \<ge> T div 2")
    case True
    then show ?thesis using 2(2) by auto
  next
    case False
    then have e: "divide T ps (d + 1, k + length key, v + length val) = (d', k', v')" using 2(2) by (simp add: Let_def)
    then have "d + 1 \<le> d' \<and> d' \<le> d + 1 + length ps \<and> k' = k + length key + length (concat (take (d' - (d + 1)) (map fst ps)))
        \<and> v' = v + length val + length (concat (take (d' - (d + 1)) (map snd ps)))" using 2(1) False by simp
    then show ?thesis by (auto simp: take_Cons' Suc_diff_le)
  qed
qed simp

lemma lb_division_ok:
  assumes b: "lb_wf fk fv b" and n: "2 \<le> length (lb_pairs b)" "length (lb_pairs b) \<le> 2 * 65535"
  shows "\<exists>d. lb_division b = ok (d, length (concat (map fst (take d (lb_pairs b)))), length (concat (map snd (take d (lb_pairs b)))))
    \<and> 0 < d \<and> d < length (lb_pairs b) \<and> d \<le> 65535 \<and> length (lb_pairs b) - d \<le> 65535"
proof -
  let ?n = "length (lb_pairs b)" let ?T = "total_key_bytes b + total_value_bytes b"
  obtain d k v where d: "divide ?T (take (?n - 1) (lb_pairs b)) (0, 0, 0) = (d, k, v)" by (metis prod_cases3)
  have "take (?n - 1) (lb_pairs b) \<noteq> []" using n(1) by auto
  then have D: "0 < d" "d \<le> ?n - 1" "k = length (concat (map fst (take d (lb_pairs b))))" "v = length (concat (map snd (take d (lb_pairs b))))"
    using divide_ok [OF d] n(1) take_take [of d "?n - 1" "lb_pairs b"] by (auto simp: take_map min_absorb1)
  define c where "c = max (?n - 65535) (min d 65535)"
  have c: "0 < c" "c < ?n" "c \<le> 65535" "?n - c \<le> 65535" using D(1,2) n by (auto simp: c_def max_def min_def)
  have "lb_division b = ok (if c \<noteq> d then (c, length (concat (map fst (take c (lb_pairs b)))), length (concat (map snd (take c (lb_pairs b))))) else (d, k, v))"
    using n d by (simp add: lb_division_def csub_def Let_def c_def U16_MAX_def length_concat comp_def)
  then show ?thesis using c D by (intro exI [of _ c]) auto
qed

abbreviation leaf_size :: "nat option \<Rightarrow> nat option \<Rightarrow> (byte list \<times> byte list) list \<Rightarrow> nat" where
  "leaf_size fk fv kvs \<equiv> val_off fk fv kvs (length kvs)"

lemma leaf_wf_part:
  assumes "widths fk (map fst (xs @ ys))" "widths fv (map snd (xs @ ys))" "leaf_size fk fv (xs @ ys) < 2 ^ 32"
  shows "xs \<noteq> [] \<Longrightarrow> length xs \<le> 65535 \<Longrightarrow> leaf_wf fk fv xs" "ys \<noteq> [] \<Longrightarrow> length ys \<le> 65535 \<Longrightarrow> leaf_wf fk fv ys"
  using assms by (auto simp: leaf_wf_def widths_def val_off_def data_start_def ptr_size_def algebra_simps split: if_splits)

lemma strictly_ascending_Cons: "strictly_ascending (x # xs) \<longleftrightarrow> (\<forall>y\<in>set xs. x < y) \<and> strictly_ascending xs"
proof -
  have "strictly_ascending ys \<longleftrightarrow> sorted_wrt (<) ys" for ys
  proof (induction ys rule: induct_list012)
    case (3 a b ys)
    then show ?case by (auto simp: strictly_ascending_def intro: less_trans)
  qed (simp_all add: strictly_ascending_def)
  then show ?thesis by simp
qed

text \<open>The pairs of a leaf without those at some indexes.\<close>

definition without_indexes :: "nat set \<Rightarrow> 'a list \<Rightarrow> 'a list" where
  "without_indexes I xs = map snd (filter (\<lambda>(i, _). i \<notin> I) (enumerate 0 xs))"

lemma without_indexes_append: "without_indexes I (xs @ [x]) = without_indexes I xs @ (if length xs \<in> I then [] else [x])"
  by (simp add: without_indexes_def enumerate_append_eq)

lemma push_all_except_ok:
  assumes rep: "leaf_rep fk fv kvs page" and b: "lb_wf fk fv b" and ex: "strictly_ascending except" "\<forall>i\<in>set except. i < length kvs"
  shows "\<exists>b'. push_all_except_indexes (acc fk fv kvs page) except b = ok b' \<and> lb_wf fk fv b' \<and> lb_pairs b' = lb_pairs b @ without_indexes (set except) kvs"
proof -
  let ?body = "\<lambda>i (b, next_except). if next_except < length except \<and> except ! next_except = i then ok (b, next_except + 1)
       else do { (k, v) \<leftarrow> unwrap (la_entry (acc fk fv kvs page) i); ok (lb_push k v b, next_except) }"
  have so: "sorted_wrt (<) except" using ex(1) by (induction except) (auto simp: strictly_ascending_Cons)
  define I where "I k s \<longleftrightarrow> lb_wf fk fv (fst s) \<and> lb_pairs (fst s) = lb_pairs b @ without_indexes (set except) (take k kvs)
     \<and> snd s \<le> length except \<and> (\<forall>j<length except. j < snd s \<longleftrightarrow> except ! j < k)" for k and s :: "leaf_builder \<times> nat"
  have "I 0 (b, 0)" using b by (simp add: I_def without_indexes_def)
  moreover have "\<exists>v. ?body ([0..<length kvs] ! k) u = ok v \<and> I (Suc k) v" if k: "k < length [0..<length kvs]" "I k u" for k u
  proof -
    obtain b1 n where u: "u = (b1, n)" by (cases u)
    have i: "lb_wf fk fv b1" "lb_pairs b1 = lb_pairs b @ without_indexes (set except) (take k kvs)" "n \<le> length except" "\<forall>j<length except. j < n \<longleftrightarrow> except ! j < k"
      using k(2) by (simp_all add: I_def u)
    have kl: "k < length kvs" "[0..<length kvs] ! k = k" using k(1) by auto
    have wi: "without_indexes (set except) (take (Suc k) kvs) = without_indexes (set except) (take k kvs) @ (if k \<in> set except then [] else [kvs ! k])"
      using without_indexes_append [of "set except" "take k kvs" "kvs ! k"] kl by (simp add: take_Suc_conv_app_nth)
    show ?thesis
    proof (cases "n < length except \<and> except ! n = k")
      case True
      then have "j < Suc n \<longleftrightarrow> except ! j < Suc k" if "j < length except" for j
        using i(4) that sorted_wrt_nth_less [OF so, of n j] by (cases "j < n"; cases "j = n") (auto simp: less_Suc_eq)
      moreover have "k \<in> set except" using True nth_mem by blast
      ultimately show ?thesis using True i kl wi by (simp add: I_def u)
    next
      case False
      have not: "except ! j \<noteq> k" if "j < length except" for j
      proof (cases j n rule: linorder_cases)
        case greater
        then show ?thesis using i(4) that sorted_wrt_nth_less [OF so, of n j] by (metis less_irrefl less_trans)
      qed (use i(4) that False in auto)
      then have "k \<notin> set except" by (auto simp: in_set_conv_nth)
      moreover have "j < n \<longleftrightarrow> except ! j < Suc k" if "j < length except" for j using i(4) not that by (auto simp: less_Suc_eq)
      ultimately have "I (Suc k) (lb_push (fst (kvs ! k)) (snd (kvs ! k)) b1, n)" using i wi by (simp add: I_def)
      moreover have "?body k (b1, n) = ok (lb_push (fst (kvs ! k)) (snd (kvs ! k)) b1, n)"
        using False la_entry_ok(1) [OF rep, of k] kl(1) by (auto simp: case_prod_beta)
      ultimately show ?thesis unfolding u kl(2) by blast
    qed
  qed
  ultimately obtain t where t: "for_each [0..<length kvs] ?body (b, 0) = ok t" "I (length kvs) t" using for_each_inv [of I "(b, 0)" "[0..<length kvs]" ?body] by auto
  have "snd t = length except"
  proof (rule ccontr)
    assume "snd t \<noteq> length except"
    then have "snd t < length except" using t(2) by (simp add: I_def)
    then show False using t(2) ex(2) nth_mem [of "snd t" except] by (auto simp: I_def)
  qed
  then show ?thesis using t ex(1) by (cases t) (simp add: push_all_except_indexes_def I_def)
qed

text \<open>\<open>passes m r Q\<close>: \<open>r\<close> panics or fails where \<open>m\<close> does, and where \<open>m\<close> returns \<open>Q\<close> holds of its result.\<close>

definition passes :: "((storage_error + 'a) \<times> 's) rust \<Rightarrow> ((storage_error + 'b) \<times> 's) rust \<Rightarrow> ('a \<Rightarrow> 's \<Rightarrow> bool) \<Rightarrow> bool" where
  "passes m r Q \<longleftrightarrow> (case m of None \<Rightarrow> r = panic | Some (Inl e, s) \<Rightarrow> r = ok (Inl e, s) | Some (Inr x, s) \<Rightarrow> Q x s)"

lemma passesI: "r = io_then m f \<Longrightarrow> (\<And>x s. m = ok (Inr x, s) \<Longrightarrow> Q x s) \<Longrightarrow> passes m r Q"
  by (auto simp: passes_def io_then_def split: option.splits sum.splits)

text \<open>What the builders rely on: an allocated page has at least the size asked for.\<close>

locale page_source =
  fixes allocate :: "nat \<Rightarrow> 's \<Rightarrow> ((storage_error + page_mut) \<times> 's) rust"
  assumes allocate_size: "allocate n s = ok (Inr page, s') \<Longrightarrow> n \<le> length (pm_memory page)"
begin

lemma lb_build_ok:
  assumes b: "lb_wf fk fv b" and wf: "leaf_wf fk fv (lb_pairs b)"
  shows "passes (allocate (leaf_size fk fv (lb_pairs b)) s) (lb_build allocate b s) (\<lambda>page s'.
    \<exists>mem. lb_build allocate b s = ok (Inr (set_memory page mem), s') \<and> leaf_rep fk fv (lb_pairs b) mem \<and> length mem = length (pm_memory page))"
proof (rule passesI)
  let ?size = "leaf_size fk fv (lb_pairs b)"
  have f: "lb_fixed_key_size b = fk" "lb_fixed_value_size b = fv" "total_key_bytes b = length (concat (map fst (lb_pairs b)))" using b by (simp_all add: lb_wf_def)
  have r: "lb_required_bytes b (length (lb_pairs b)) (total_key_bytes b + total_value_bytes b) = ?size"
    using b by (simp add: lb_required_bytes_def required_bytes_eq lb_wf_def val_off_def)
  show e: "lb_build allocate b s = io_then (allocate ?size s) (\<lambda>page s. do {
       mem \<leftarrow> write_leaf (pm_memory page) (lb_pairs b) (length (lb_pairs b)) fk fv (total_key_bytes b);
       ok (Inr (set_memory page mem), s) })" by (simp only: lb_build_def r f(1,2) Let_def)
  fix page s' assume "allocate ?size s = ok (Inr page, s')"
  then show "\<exists>mem. lb_build allocate b s = ok (Inr (set_memory page mem), s') \<and> leaf_rep fk fv (lb_pairs b) mem \<and> length mem = length (pm_memory page)"
    using write_leaf_ok [OF wf allocate_size _ f(3)] e by (fastforce simp: io_then_def)
qed

lemma lb_build_split_ok:
  assumes b: "lb_wf fk fv b" and wd: "widths fk (map fst (lb_pairs b))" "widths fv (map snd (lb_pairs b))" "leaf_size fk fv (lb_pairs b) < 2 ^ 32"
    and n: "2 \<le> length (lb_pairs b)" "length (lb_pairs b) \<le> 2 * 65535"
  shows "\<exists>l r. lb_pairs b = l @ r \<and> l \<noteq> [] \<and> r \<noteq> [] \<and> passes (allocate (leaf_size fk fv l) s) (lb_build_split allocate b s) (\<lambda>page1 s'.
    passes (allocate (leaf_size fk fv r) s') (lb_build_split allocate b s) (\<lambda>page2 s''.
      \<exists>mem1 mem2. lb_build_split allocate b s = ok (Inr (set_memory page1 mem1, fst (last l), set_memory page2 mem2), s'')
          \<and> leaf_rep fk fv l mem1 \<and> length mem1 = length (pm_memory page1) \<and> leaf_rep fk fv r mem2 \<and> length mem2 = length (pm_memory page2)))"
proof -
  obtain d where d: "lb_division b = ok (d, length (concat (map fst (take d (lb_pairs b)))), length (concat (map snd (take d (lb_pairs b)))))"
    "0 < d" "d < length (lb_pairs b)" "d \<le> 65535" "length (lb_pairs b) - d \<le> 65535" using lb_division_ok [OF b n] by blast
  define l where "l = take d (lb_pairs b)" define r where "r = drop d (lb_pairs b)"
  have lr: "lb_pairs b = l @ r" "l \<noteq> []" "r \<noteq> []" "length l = d" "length (lb_pairs b) - d = length r" using d by (auto simp: l_def r_def)
  have wf: "leaf_wf fk fv l" "leaf_wf fk fv r" using leaf_wf_part [of fk l r fv] wd lr d(4,5) by auto
  have f: "lb_fixed_key_size b = fk" "lb_fixed_value_size b = fv" "total_key_bytes b = length (concat (map fst l)) + length (concat (map fst r))"
    "total_value_bytes b = length (concat (map snd l)) + length (concat (map snd r))" using b lr(1) by (simp_all add: lb_wf_def)
  have q: "lb_required_bytes b d (length (concat (map fst l)) + length (concat (map snd l))) = leaf_size fk fv l"
    "lb_required_bytes b (length r) (length (concat (map fst r)) + length (concat (map snd r))) = leaf_size fk fv r"
    using f lr by (simp_all add: lb_required_bytes_def required_bytes_eq val_off_def)
  have w1: "\<exists>mem. write_leaf (pm_memory page) l d fk fv (length (concat (map fst l))) = ok mem \<and> leaf_rep fk fv l mem \<and> length mem = length (pm_memory page)"
    if "allocate (leaf_size fk fv l) s = ok (Inr page, s')" for page s s' using write_leaf_ok [OF wf(1) allocate_size [OF that]] lr by simp
  have w2: "\<exists>mem. write_leaf (pm_memory page) r (length r) fk fv (length (concat (map fst r))) = ok mem \<and> leaf_rep fk fv r mem \<and> length mem = length (pm_memory page)"
    if "allocate (leaf_size fk fv r) s = ok (Inr page, s')" for page s s' using write_leaf_ok [OF wf(2) allocate_size [OF that]] by simp
  have c: "csub (total_key_bytes b + total_value_bytes b) (length (concat (map fst l))) = ok (length (concat (map fst r)) + total_value_bytes b)"
    "csub (length (concat (map fst r)) + total_value_bytes b) (length (concat (map snd l))) = ok (length (concat (map fst r)) + length (concat (map snd r)))"
    "csub (length (lb_pairs b)) d = ok (length r)" "csub (total_key_bytes b) (length (concat (map fst l))) = ok (length (concat (map fst r)))" "csub d 1 = ok (d - 1)"
    "index (lb_pairs b) (d - 1) = ok (last l)"
    using f lr d(2,3) by (auto simp: csub_def last_conv_nth nth_append)
  have e: "lb_build_split allocate b s = io_then (allocate (leaf_size fk fv l) s) (\<lambda>page1 s. do {
       mem1 \<leftarrow> write_leaf (pm_memory page1) l d fk fv (length (concat (map fst l)));
       io_then (allocate (leaf_size fk fv r) s) (\<lambda>page2 s. do {
         mem2 \<leftarrow> write_leaf (pm_memory page2) r (length r) fk fv (length (concat (map fst r)));
         ok (Inr (set_memory page1 mem1, fst (last l), set_memory page2 mem2), s) }) })"
    unfolding lb_build_split_def d(1) bind.bind_lunit prod.case Let_def
    unfolding l_def [symmetric] r_def [symmetric] f(1,2) c q bind.bind_lunit case_prod_beta ..
  show ?thesis
  proof (intro exI [of _ l] exI [of _ r] conjI lr(1-3), rule passesI [OF e])
    fix page1 s1 assume a1: "allocate (leaf_size fk fv l) s = ok (Inr page1, s1)"
    then obtain mem1 where m1: "write_leaf (pm_memory page1) l d fk fv (length (concat (map fst l))) = ok mem1" "leaf_rep fk fv l mem1" "length mem1 = length (pm_memory page1)"
      using w1 by blast
    then have e1: "lb_build_split allocate b s = io_then (allocate (leaf_size fk fv r) s1) (\<lambda>page2 s. do {
         mem2 \<leftarrow> write_leaf (pm_memory page2) r (length r) fk fv (length (concat (map fst r)));
         ok (Inr (set_memory page1 mem1, fst (last l), set_memory page2 mem2), s) })" using a1 by (simp add: e io_then_def)
    show "passes (allocate (leaf_size fk fv r) s1) (lb_build_split allocate b s) (\<lambda>page2 s''.
      \<exists>mem1 mem2. lb_build_split allocate b s = ok (Inr (set_memory page1 mem1, fst (last l), set_memory page2 mem2), s'')
          \<and> leaf_rep fk fv l mem1 \<and> length mem1 = length (pm_memory page1) \<and> leaf_rep fk fv r mem2 \<and> length mem2 = length (pm_memory page2))"
    proof (rule passesI [OF e1])
      fix page2 s2 assume a2: "allocate (leaf_size fk fv r) s1 = ok (Inr page2, s2)"
      then obtain mem2 where m2: "write_leaf (pm_memory page2) r (length r) fk fv (length (concat (map fst r))) = ok mem2" "leaf_rep fk fv r mem2" "length mem2 = length (pm_memory page2)"
        using w2 by blast
      then show "\<exists>mem1 mem2. lb_build_split allocate b s = ok (Inr (set_memory page1 mem1, fst (last l), set_memory page2 mem2), s2)
          \<and> leaf_rep fk fv l mem1 \<and> length mem1 = length (pm_memory page1) \<and> leaf_rep fk fv r mem2 \<and> length mem2 = length (pm_memory page2)"
        using m1(2,3) a2 by (intro exI [of _ mem1] exI [of _ mem2]) (simp add: e1 io_then_def)
    qed
  qed
qed

end

text \<open>\<open>PageAllocator::allocate\<close> with the tracker of the caller.\<close>

definition pa_source :: "'f backend \<Rightarrow> nat \<Rightarrow> page_tracker_policy \<times> page_allocator \<times> 'f tx_memory \<Rightarrow>
    ((storage_error + page_mut) \<times> page_tracker_policy \<times> page_allocator \<times> 'f tx_memory) rust" where
  "pa_source B n = (\<lambda>(allocated, st). pa_allocate B n allocated st)"

lemma io_then_Inr: "io_then m f = ok (Inr y, s') \<longleftrightarrow> (\<exists>x s. m = ok (Inr x, s) \<and> f x s = ok (Inr y, s'))"
  by (cases m) (auto simp: io_then_def split: sum.splits)

lemma allocate_helper_size: "allocate_helper B n low m = ok (Inr page, m') \<Longrightarrow> n \<le> length (pm_memory page)"
  by (auto simp: allocate_helper_def io_then_Inr bind_ok_iff Let_def pm_memory_def)

interpretation pa: page_source "pa_source B" for B :: "'f backend"
proof
  fix n s page s'
  assume "pa_source B n s = ok (Inr page, s')"
  then show "n \<le> length (pm_memory page)"
    by (cases s) (auto simp: pa_source_def pa_allocate_def pa_allocate_with_def tm_allocate_def bind_ok_iff split: sum.split_asm,
        metis allocate_helper_size obj_sumE)
qed

end
