(* ===== verification/Leaf_Mutator.thy ===== *)
theory Leaf_Mutator
  imports Leaf_Builder
begin

text \<open>
  Changing a leaf page in place, \<open>src/tree_store/btree_base.rs\<close>: \<open>LeafMutator\<close> replaces a value, inserts a pair and
  removes one or several pairs by moving the bytes of the page within it.  Each operation is shown to turn the bytes of a
  leaf with some pairs into the bytes of a leaf with the changed list of pairs, without a failed
  assertion, an overflow, or an access outside of the page.
\<close>

subsection \<open>Signed arithmetic and moves within a slice\<close>

definition to_isize :: "nat \<Rightarrow> int rust" where
  "to_isize n = (if n < 2 ^ 63 then ok (int n) else panic)"

definition ciadd :: "int \<Rightarrow> int \<Rightarrow> int rust" where
  "ciadd a b = (if - (2 ^ 63) \<le> a + b \<and> a + b < 2 ^ 63 then ok (a + b) else panic)"

definition int_into :: "nat \<Rightarrow> int \<Rightarrow> nat rust" where
  "int_into w i = (if 0 \<le> i \<and> i < 2 ^ w then ok (nat i) else panic)"

definition copy_within :: "byte list \<Rightarrow> nat \<Rightarrow> nat \<Rightarrow> nat \<Rightarrow> byte list rust" where
  "copy_within page start stop dest = do { bs \<leftarrow> sub_slice page start stop; write_at page dest bs }"

subsection \<open>\<open>LeafMutator\<close>\<close>

definition lm_new :: "byte list \<Rightarrow> unit rust" where
  "lm_new page = do { b \<leftarrow> index page 0; assert_that (b = LEAF) }"

definition sufficient_replace_inplace_space :: "byte list \<Rightarrow> nat \<Rightarrow> nat option \<Rightarrow> nat option \<Rightarrow> byte list \<Rightarrow> bool rust" where
  "sufficient_replace_inplace_space page position fk fv new_value = do {
     a \<leftarrow> la_new page fk fv;
     total \<leftarrow> la_total_length a;
     remaining \<leftarrow> csub (length page) total;
     r \<leftarrow> la_value_range a position;
     existing_value_len \<leftarrow> (case r of Some (s, e) \<Rightarrow> csub e s | None \<Rightarrow> ok 0);
     x \<leftarrow> to_isize (length new_value);
     y \<leftarrow> to_isize existing_value_len;
     required_delta \<leftarrow> ciadd x (- y);
     t \<leftarrow> csub total existing_value_len;
     new_total_length \<leftarrow> cadd 64 t (length new_value);
     if new_total_length > 2 ^ 32 - 1 then ok False
     else do { rem \<leftarrow> to_isize remaining; ok (required_delta \<le> rem) } }"

definition sufficient_insert_inplace_space :: "byte list \<Rightarrow> page_number \<Rightarrow> nat \<Rightarrow> nat option \<Rightarrow> nat option \<Rightarrow> byte list \<Rightarrow> byte list \<Rightarrow> bool rust" where
  "sufficient_insert_inplace_space page page_number position fk fv new_key new_value = do {
     a \<leftarrow> la_new page fk fv;
     if la_num_pairs a \<ge> U16_MAX then ok False
     else if pn_order page_number > 0 \<and> position < la_num_pairs a then ok False
     else do {
       total \<leftarrow> la_total_length a;
       remaining \<leftarrow> csub (length page) total;
       let required_delta = length new_key + length new_value;
       let required_delta = (if fk = None then required_delta + 4 else required_delta);
       let required_delta = (if fv = None then required_delta + 4 else required_delta);
       t \<leftarrow> cadd 64 total required_delta;
       if t > 2 ^ 32 - 1 then ok False else ok (required_delta \<le> remaining) } }"

definition update_key_end :: "nat option \<Rightarrow> nat \<Rightarrow> int \<Rightarrow> byte list \<Rightarrow> byte list rust" where
  "update_key_end fk i delta page = (if fk \<noteq> None then ok page else do {
     let offset = 4 + 4 * i;
     ptr \<leftarrow> read_u32 page offset;
     p \<leftarrow> to_isize ptr;
     p \<leftarrow> ciadd p delta;
     p \<leftarrow> int_into 32 p;
     write_at page offset (le_bytes 4 p) })"

definition update_value_end :: "nat option \<Rightarrow> nat option \<Rightarrow> nat \<Rightarrow> int \<Rightarrow> byte list \<Rightarrow> byte list rust" where
  "update_value_end fk fv i delta page = (if fv \<noteq> None then ok page else do {
     a \<leftarrow> la_new page fk fv;
     let offset = 4 + 4 * i;
     let offset = (if fk = None then offset + 4 * la_num_pairs a else offset);
     ptr \<leftarrow> read_u32 page offset;
     p \<leftarrow> to_isize ptr;
     p \<leftarrow> ciadd p delta;
     p \<leftarrow> int_into 32 p;
     write_at page offset (le_bytes 4 p) })"

definition lm_replace :: "nat option \<Rightarrow> nat option \<Rightarrow> nat \<Rightarrow> byte list \<Rightarrow> byte list \<Rightarrow> byte list rust" where
  "lm_replace fk fv i value page = do {
     lm_new page;
     a \<leftarrow> la_new page fk fv;
     let num_pairs = la_num_pairs a;
     l \<leftarrow> csub num_pairs 1;
     last_value_end \<leftarrow> unwrap (la_value_end a l);
     r \<leftarrow> la_value_start a (i + 1);
     let shift_value_start = (case r of Some x \<Rightarrow> x | None \<Rightarrow> last_value_end);
     r \<leftarrow> la_value_range a i;
     existing_value_len \<leftarrow> (case r of Some (s, e) \<Rightarrow> csub e s | None \<Rightarrow> ok 0);
     x \<leftarrow> to_isize (length value);
     y \<leftarrow> to_isize existing_value_len;
     value_delta \<leftarrow> ciadd x (- y);
     total \<leftarrow> la_total_length a;
     t \<leftarrow> to_isize total;
     t \<leftarrow> ciadd t value_delta;
     n \<leftarrow> to_isize (length page);
     assert_that (t \<le> n);
     page \<leftarrow> for_each [i..<num_pairs] (\<lambda>j. update_value_end fk fv j value_delta) page;
     s \<leftarrow> to_isize shift_value_start;
     s \<leftarrow> ciadd s value_delta;
     dest \<leftarrow> int_into 64 s;
     page \<leftarrow> copy_within page shift_value_start last_value_end dest;
     dest \<leftarrow> csub dest (length value);
     write_at page dest value }"

definition lm_insert :: "nat option \<Rightarrow> nat option \<Rightarrow> nat \<Rightarrow> byte list \<Rightarrow> byte list \<Rightarrow> byte list \<Rightarrow> byte list rust" where
  "lm_insert fk fv i key value page = do {
     lm_new page;
     a \<leftarrow> la_new page fk fv;
     let delta = length key + length value;
     let delta = (if fk = None then delta + 4 else delta);
     let delta = (if fv = None then delta + 4 else delta);
     required_delta \<leftarrow> to_isize delta;
     total \<leftarrow> la_total_length a;
     t \<leftarrow> to_isize total;
     t \<leftarrow> ciadd t required_delta;
     len \<leftarrow> to_isize (length page);
     assert_that (t \<le> len);
     let num_pairs = la_num_pairs a;
     l \<leftarrow> csub num_pairs 1;
     last_key_end \<leftarrow> unwrap (la_key_end a l);
     last_value_end \<leftarrow> unwrap (la_value_end a l);
     r \<leftarrow> la_key_start a i;
     let shift_key_start = (case r of Some x \<Rightarrow> x | None \<Rightarrow> last_key_end);
     r \<leftarrow> la_value_start a i;
     let shift_value_start = (case r of Some x \<Rightarrow> x | None \<Rightarrow> last_value_end);
     let key_ptr_size = (if fk = None then 4 else 0);
     let value_ptr_size = (if fv = None then 4 else 0);
     page \<leftarrow> for_each [0..<i] (\<lambda>j page. do {
       d \<leftarrow> to_isize (key_ptr_size + value_ptr_size);
       page \<leftarrow> update_key_end fk j d page;
       value_delta \<leftarrow> to_isize (key_ptr_size + value_ptr_size + length key);
       update_value_end fk fv j value_delta page }) page;
     page \<leftarrow> for_each [i..<num_pairs] (\<lambda>j page. do {
       key_delta \<leftarrow> to_isize (key_ptr_size + value_ptr_size + length key);
       page \<leftarrow> update_key_end fk j key_delta page;
       v \<leftarrow> to_isize (length value);
       value_delta \<leftarrow> ciadd key_delta v;
       update_value_end fk fv j value_delta page }) page;
     let new_num_pairs = num_pairs + 1;
     n \<leftarrow> try_into 16 new_num_pairs;
     page \<leftarrow> write_at page 2 (le_bytes 2 n);
     let dest = shift_value_start + key_ptr_size + value_ptr_size + length key + length value;
     page \<leftarrow> copy_within page shift_value_start last_value_end dest;
     inserted_value_end \<leftarrow> try_into 32 dest;
     dest \<leftarrow> csub dest (length value);
     page \<leftarrow> write_at page dest value;
     m \<leftarrow> csub shift_value_start shift_key_start;
     dest \<leftarrow> csub dest m;
     page \<leftarrow> copy_within page shift_key_start shift_value_start dest;
     inserted_key_end \<leftarrow> try_into 32 dest;
     dest \<leftarrow> csub dest (length key);
     page \<leftarrow> write_at page dest key;
     let start = 4 + key_ptr_size * num_pairs + value_ptr_size * i;
     m \<leftarrow> csub shift_key_start start;
     dest \<leftarrow> csub dest m;
     assert_that (dest = 4 + key_ptr_size * new_num_pairs + value_ptr_size * (i + 1));
     page \<leftarrow> copy_within page start shift_key_start dest;
     (page, dest) \<leftarrow> (if fv = None then do {
         dest \<leftarrow> csub dest 4;
         page \<leftarrow> write_at page dest (le_bytes 4 inserted_value_end);
         ok (page, dest) } else ok (page, dest));
     let start = 4 + key_ptr_size * i;
     let stop = 4 + key_ptr_size * num_pairs + value_ptr_size * i;
     m \<leftarrow> csub stop start;
     dest \<leftarrow> csub dest m;
     assert_that (dest = 4 + key_ptr_size * (i + 1));
     page \<leftarrow> copy_within page start stop dest;
     (page, dest) \<leftarrow> (if fk = None then do {
         dest \<leftarrow> csub dest 4;
         page \<leftarrow> write_at page dest (le_bytes 4 inserted_key_end);
         ok (page, dest) } else ok (page, dest));
     assert_that (dest = 4 + key_ptr_size * i);
     ok page }"

definition lm_remove :: "nat option \<Rightarrow> nat option \<Rightarrow> nat \<Rightarrow> byte list \<Rightarrow> byte list rust" where
  "lm_remove fk fv i page = do {
     lm_new page;
     a \<leftarrow> la_new page fk fv;
     let num_pairs = la_num_pairs a;
     assert_that (i < num_pairs);
     assert_that (num_pairs > 1);
     key_start \<leftarrow> unwrap (la_key_start a i);
     key_end \<leftarrow> unwrap (la_key_end a i);
     value_start \<leftarrow> unwrap (la_value_start a i);
     value_end \<leftarrow> unwrap (la_value_end a i);
     last_value_end \<leftarrow> unwrap (la_value_end a (num_pairs - 1));
     let key_ptr_size = (if fk = None then 4 else 0);
     let value_ptr_size = (if fv = None then 4 else 0);
     key_len \<leftarrow> csub key_end key_start;
     value_len \<leftarrow> csub value_end value_start;
     d \<leftarrow> to_isize (key_ptr_size + value_ptr_size);
     k \<leftarrow> to_isize key_len;
     v \<leftarrow> to_isize value_len;
     key_delta \<leftarrow> ciadd (- d) (- k);
     page \<leftarrow> for_each [0..<i] (\<lambda>j page. do {
       page \<leftarrow> update_key_end fk j (- d) page;
       update_value_end fk fv j key_delta page }) page;
     page \<leftarrow> for_each [i + 1..<num_pairs] (\<lambda>j page. do {
       page \<leftarrow> update_key_end fk j key_delta page;
       value_delta \<leftarrow> ciadd key_delta (- v);
       update_value_end fk fv j value_delta page }) page;
     let new_num_pairs = num_pairs - 1;
     n \<leftarrow> try_into 16 new_num_pairs;
     page \<leftarrow> write_at page 2 (le_bytes 2 n);
     let dest = 4 + key_ptr_size * i;
     let start = 4 + key_ptr_size * (i + 1);
     let stop = 4 + key_ptr_size * num_pairs + value_ptr_size * i;
     page \<leftarrow> copy_within page start stop dest;
     m \<leftarrow> csub stop start;
     let dest = dest + m;
     assert_that (dest = 4 + key_ptr_size * new_num_pairs + value_ptr_size * i);
     let start = 4 + key_ptr_size * num_pairs + value_ptr_size * (i + 1);
     page \<leftarrow> copy_within page start key_start dest;
     m \<leftarrow> csub key_start start;
     let dest = dest + m;
     preceding_key_len \<leftarrow> csub key_start (4 + (key_ptr_size + value_ptr_size) * num_pairs);
     assert_that (dest = 4 + (key_ptr_size + value_ptr_size) * new_num_pairs + preceding_key_len);
     page \<leftarrow> copy_within page key_end value_start dest;
     m \<leftarrow> csub value_start key_end;
     let dest = dest + m;
     x \<leftarrow> csub value_start (4 + (key_ptr_size + value_ptr_size) * num_pairs);
     preceding_data_len \<leftarrow> csub x key_len;
     assert_that (dest = 4 + (key_ptr_size + value_ptr_size) * new_num_pairs + preceding_data_len);
     copy_within page value_end last_value_end dest }"

text \<open>\<open>compact_before_hole\<close> and \<open>compact_tail\<close> on the page with the offsets \<open>source\<close> and \<open>dest\<close>.\<close>

definition compact_before_hole :: "nat \<times> nat \<Rightarrow> byte list \<times> nat \<times> nat \<Rightarrow> (byte list \<times> nat \<times> nat) rust" where
  "compact_before_hole = (\<lambda>(hole_start, hole_end) (page, source, dest). do {
     assert_that (source \<le> hole_start);
     (page, dest) \<leftarrow> (if source < hole_start then do {
         page \<leftarrow> (if source \<noteq> dest then copy_within page source hole_start dest else ok page);
         ok (page, dest + (hole_start - source)) }
       else ok (page, dest));
     ok (page, hole_end, dest) })"

definition compact_tail :: "nat \<Rightarrow> byte list \<times> nat \<times> nat \<Rightarrow> (byte list \<times> nat \<times> nat) rust" where
  "compact_tail stop = (\<lambda>(page, source, dest).
     if source < stop then do {
       page \<leftarrow> (if source \<noteq> dest then copy_within page source stop dest else ok page);
       ok (page, source, dest + (stop - source)) }
     else ok (page, source, dest))"

record removed_leaf_ranges =
  rr_indices :: "nat list"
  rr_key_ranges :: "(nat \<times> nat) list"
  rr_value_ranges :: "(nat \<times> nat) list"
  rr_key_bytes :: nat
  rr_value_bytes :: nat
  rr_old_total_len :: nat
  rr_num_pairs :: nat

definition range_len :: "nat \<times> nat \<Rightarrow> nat" where
  "range_len r = snd r - fst r"

definition update_removed_indices :: "nat option \<Rightarrow> nat option \<Rightarrow> nat \<Rightarrow> removed_leaf_ranges \<Rightarrow> byte list \<Rightarrow> byte list rust" where
  "update_removed_indices fk fv removed_pointer_bytes rr page = do {
     (page, removed, _, _) \<leftarrow> for_each [0..<rr_num_pairs rr] (\<lambda>i (page, removed, removed_key_bytes_before, removed_value_bytes_before).
       if removed < length (rr_indices rr) \<and> rr_indices rr ! removed = i then do {
         kr \<leftarrow> index (rr_key_ranges rr) removed;
         vr \<leftarrow> index (rr_value_ranges rr) removed;
         ok (page, removed + 1, removed_key_bytes_before + range_len kr, removed_value_bytes_before + range_len vr) }
       else do {
         page \<leftarrow> (if fk = None then do {
             d \<leftarrow> to_isize (removed_pointer_bytes + removed_key_bytes_before);
             update_key_end fk i (- d) page } else ok page);
         page \<leftarrow> (if fv = None then do {
             d \<leftarrow> to_isize (removed_pointer_bytes + rr_key_bytes rr + removed_value_bytes_before);
             update_value_end fk fv i (- d) page } else ok page);
         ok (page, removed, removed_key_bytes_before, removed_value_bytes_before) }) (page, 0, 0, 0);
     assert_that (removed = length (rr_indices rr));
     ok page }"

definition remove_index_ranges :: "nat option \<Rightarrow> nat option \<Rightarrow> removed_leaf_ranges \<Rightarrow> byte list \<Rightarrow> byte list rust" where
  "remove_index_ranges fk fv rr page = do {
     let indices = rr_indices rr;
     assert_that (length indices = length (rr_key_ranges rr));
     assert_that (length indices = length (rr_value_ranges rr));
     assert_that (strictly_ascending indices);
     assert_that (indices \<noteq> [] \<and> last indices < rr_num_pairs rr);
     assert_that (length indices < rr_num_pairs rr);
     let key_ptr_size = (if fk = None then 4 else 0);
     let value_ptr_size = (if fv = None then 4 else 0);
     let new_num_pairs = rr_num_pairs rr - length indices;
     let removed_pointer_bytes = (key_ptr_size + value_ptr_size) * length indices;
     page \<leftarrow> update_removed_indices fk fv removed_pointer_bytes rr page;
     let st = (page, 4, 4);
     st \<leftarrow> (if key_ptr_size \<noteq> 0 then for_each indices (\<lambda>index. do {
         let start = 4 + key_ptr_size * index;
         compact_before_hole (start, start + key_ptr_size) }) st else ok st);
     st \<leftarrow> (if value_ptr_size \<noteq> 0 then do {
         let value_pointers_start = 4 + key_ptr_size * rr_num_pairs rr;
         for_each indices (\<lambda>index. do {
           let start = value_pointers_start + value_ptr_size * index;
           compact_before_hole (start, start + value_ptr_size) }) st } else ok st);
     st \<leftarrow> for_each (rr_key_ranges rr) compact_before_hole st;
     st \<leftarrow> for_each (rr_value_ranges rr) compact_before_hole st;
     (page, source, dest) \<leftarrow> compact_tail (rr_old_total_len rr) st;
     x \<leftarrow> csub (rr_old_total_len rr) removed_pointer_bytes;
     x \<leftarrow> csub x (rr_key_bytes rr);
     x \<leftarrow> csub x (rr_value_bytes rr);
     assert_that (dest = x);
     n \<leftarrow> try_into 16 new_num_pairs;
     write_at page 2 (le_bytes 2 n) }"

definition remove_indices :: "nat option \<Rightarrow> nat option \<Rightarrow> nat list \<Rightarrow> byte list \<Rightarrow> byte list rust" where
  "remove_indices fk fv indices page = do {
     lm_new page;
     a \<leftarrow> la_new page fk fv;
     assert_that (indices \<noteq> []);
     assert_that (strictly_ascending indices);
     assert_that (last indices < la_num_pairs a);
     assert_that (length indices < la_num_pairs a);
     (key_ranges, value_ranges, key_bytes, value_bytes) \<leftarrow> for_each indices (\<lambda>index (key_ranges, value_ranges, key_bytes, value_bytes). do {
       (key, value) \<leftarrow> unwrap (entry_ranges a index);
       ok (key_ranges @ [key], value_ranges @ [value], key_bytes + range_len key, value_bytes + range_len value) }) ([], [], 0, 0);
     total \<leftarrow> la_total_length a;
     remove_index_ranges fk fv \<lparr>rr_indices = indices, rr_key_ranges = key_ranges, rr_value_ranges = value_ranges,
       rr_key_bytes = key_bytes, rr_value_bytes = value_bytes, rr_old_total_len = total, rr_num_pairs = la_num_pairs a\<rparr> page }"

subsection \<open>Moving segments\<close>

lemma move_right:
  assumes "start = length A" "stop = length A + length S" "dest = length A + length X"
  shows "\<exists>X'. length X' = length X \<and> copy_within (A @ S @ X @ T) start stop dest = ok (A @ X' @ S @ T)"
  using assms by (intro exI [of _ "take (length X) (S @ X)"]) (simp add: copy_within_def sub_slice_def write_at_def)

lemma move_left:
  assumes "start = length A + length X" "stop = start + length S" "dest = length A"
  shows "\<exists>X'. length X' = length X \<and> copy_within (A @ X @ S @ T) start stop dest = ok (A @ S @ X' @ T)"
  using assms by (intro exI [of _ "drop (length S) (X @ S)"]) (simp add: copy_within_def sub_slice_def write_at_def)

lemma put_before:
  assumes "length v \<le> length X" "dest = length A + length X - length v"
  shows "\<exists>X'. length X' = length X - length v \<and> write_at (A @ X @ T) dest v = ok (A @ X' @ v @ T)"
  using assms by (intro exI [of _ "take (length X - length v) X"]) (simp add: write_at_def)

subsection \<open>Updating the pointers\<close>

text \<open>Adding \<open>d\<close> to the pointers \<open>a..<m\<close>.\<close>

definition bump :: "int \<Rightarrow> nat \<Rightarrow> nat" where
  "bump d p = nat (int p + d)"

definition bump_range :: "nat \<Rightarrow> nat \<Rightarrow> int \<Rightarrow> nat list \<Rightarrow> nat list" where
  "bump_range a m d ps = take a ps @ map (bump d) (take (m - a) (drop a ps)) @ drop m ps"

definition in_u32 :: "int \<Rightarrow> nat \<Rightarrow> bool" where
  "in_u32 d p \<longleftrightarrow> p < 2 ^ 32 \<and> 0 \<le> int p + d \<and> int p + d < 2 ^ 32"

lemma length_bump_range [simp]: "a \<le> m \<Longrightarrow> m \<le> length ps \<Longrightarrow> length (bump_range a m d ps) = length ps"
  by (simp add: bump_range_def)

lemma bump_range_step:
  assumes "a \<le> m" "m < length ps"
  shows "bump_range a m d ps ! m = ps ! m" "(bump_range a m d ps)[m := bump d (ps ! m)] = bump_range a (Suc m) d ps"
proof -
  define Q where "Q = take a ps @ map (bump d) (take (m - a) (drop a ps))"
  have l: "length Q = m" using assms by (simp add: Q_def)
  have d: "drop m ps = ps ! m # drop (Suc m) ps" using assms Cons_nth_drop_Suc by metis
  have b: "bump_range a m d ps = Q @ ps ! m # drop (Suc m) ps" by (simp add: bump_range_def Q_def d)
  show "bump_range a m d ps ! m = ps ! m" using l by (simp add: b nth_append)
  have "take (Suc m - a) (drop a ps) = take (m - a) (drop a ps) @ [ps ! m]"
    using assms by (simp add: Suc_diff_le take_Suc_conv_app_nth)
  then show "(bump_range a m d ps)[m := bump d (ps ! m)] = bump_range a (Suc m) d ps"
    using l by (simp add: b list_update_append) (simp add: bump_range_def Q_def)
qed

lemma put_word: "length A = off \<Longrightarrow> i < length ps \<Longrightarrow>
    write_at (A @ concat (map (le_bytes 4) ps) @ C) (off + 4 * i) (le_bytes 4 p) = ok (A @ concat (map (le_bytes 4) (ps[i := p])) @ C)"
proof -
  assume a: "length A = off" "i < length ps"
  have s: "ps = take i ps @ ps ! i # drop (Suc i) ps" using a(2) by (rule id_take_nth_drop)
  have "ps[i := p] = take i ps @ p # drop (Suc i) ps" using a(2) by (rule upd_conv_take_nth_drop)
  moreover have "A @ concat (map (le_bytes 4) ps) @ C = (A @ concat (map (le_bytes 4) (take i ps))) @ le_bytes 4 (ps ! i) @ concat (map (le_bytes 4) (drop (Suc i) ps)) @ C"
    by (subst s) simp
  moreover have "length (A @ concat (map (le_bytes 4) (take i ps))) = off + 4 * i" using a by simp
  ultimately show ?thesis
    using write_at_mid [of "off + 4 * i" "A @ concat (map (le_bytes 4) (take i ps))" "le_bytes 4 p" "le_bytes 4 (ps ! i)"] by simp
qed

lemma update_ptr:
  assumes "in_u32 d p" "abs d < 2 ^ 62"
  shows "to_isize p = ok (int p)" "ciadd (int p) d = ok (int p + d)" "int_into 32 (int p + d) = ok (bump d p)"
  using assms by (auto simp: in_u32_def to_isize_def ciadd_def int_into_def bump_def)

lemma update_key_end_ok:
  assumes "length H = 4" "i < length kp" "in_u32 d (kp ! i)" "abs d < 2 ^ 62"
  shows "update_key_end fk i d (H @ ptr_bytes fk kp @ C) = ok (H @ ptr_bytes fk (kp[i := bump d (kp ! i)]) @ C)"
proof (cases fk)
  case None
  have "read_u32 (H @ ptr_bytes fk kp @ C) (4 + 4 * i) = ok (kp ! i)"
    using assms None read_ptr [of i kp "4 + 4 * i" H C] by (simp add: ptr_bytes_def in_u32_def)
  moreover have "write_at (H @ ptr_bytes fk kp @ C) (4 + 4 * i) (le_bytes 4 (bump d (kp ! i))) = ok (H @ ptr_bytes fk (kp[i := bump d (kp ! i)]) @ C)"
    using assms None put_word [of H 4 i kp C "bump d (kp ! i)"] by (simp add: ptr_bytes_def)
  ultimately show ?thesis using None by (simp add: update_key_end_def update_ptr [OF assms(3,4)])
qed (simp add: update_key_end_def ptr_bytes_def)

lemma update_value_end_ok:
  assumes "length kp = n" "n < 2 ^ 16" "i < length vp" "in_u32 d (vp ! i)" "abs d < 2 ^ 62"
  shows "update_value_end fk fv i d (leaf_head x n @ ptr_bytes fk kp @ ptr_bytes fv vp @ C)
    = ok (leaf_head x n @ ptr_bytes fk kp @ ptr_bytes fv (vp[i := bump d (vp ! i)]) @ C)"
proof (cases fv)
  case None
  let ?pg = "leaf_head x n @ ptr_bytes fk kp @ ptr_bytes fv vp @ C"
  let ?A = "leaf_head x n @ ptr_bytes fk kp"
  define off where "off = (if fk = None then 4 + 4 * i + 4 * n else 4 + 4 * i)"
  have la: "la_new ?pg fk fv = ok \<lparr>la_page = ?pg, la_fixed_key_size = fk, la_fixed_value_size = fv, la_num_pairs = n\<rparr>"
    using assms(2) slice_append_mid [of 2 "[LEAF, x]" 4 "le_bytes 2 n" "ptr_bytes fk kp @ ptr_bytes fv vp @ C"] by (simp add: la_new_def leaf_head_def)
  have off: "off = length ?A + 4 * i" using assms(1) by (simp add: off_def length_ptr_bytes ptr_size_def)
  have rd: "read_u32 ?pg off = ok (vp ! i)"
    using assms(3,4) None read_ptr [of i vp off ?A C] off by (simp add: ptr_bytes_def [of None] in_u32_def)
  have wr: "write_at ?pg off (le_bytes 4 (bump d (vp ! i))) = ok (leaf_head x n @ ptr_bytes fk kp @ ptr_bytes fv (vp[i := bump d (vp ! i)]) @ C)"
    using assms(3) None put_word [of ?A "length ?A" i vp C "bump d (vp ! i)"] off by (simp add: ptr_bytes_def [of None])
  have "update_value_end fk fv i d ?pg = do { ptr \<leftarrow> read_u32 ?pg off; p \<leftarrow> to_isize ptr; p \<leftarrow> ciadd p d; p \<leftarrow> int_into 32 p; write_at ?pg off (le_bytes 4 p) }"
    unfolding update_value_end_def la bind.bind_lunit Let_def leaf_accessor.simps off_def using None by simp
  then show ?thesis by (simp add: rd wr update_ptr [OF assms(4,5)])
qed (simp add: update_value_end_def ptr_bytes_def)

lemma update_ptrs_ok:
  assumes n: "length kp = n" "length vp = n" "n < 2 ^ 16" "a \<le> m" "m \<le> n"
    and d: "\<And>j. a \<le> j \<Longrightarrow> j < m \<Longrightarrow> in_u32 dk (kp ! j) \<and> in_u32 dv (vp ! j)" "abs dk < 2 ^ 62" "abs dv < 2 ^ 62"
    and body: "\<And>j page. body j page = do { page \<leftarrow> update_key_end fk j dk page; update_value_end fk fv j dv page }"
  shows "for_each [a..<m] body (leaf_head x n @ ptr_bytes fk kp @ ptr_bytes fv vp @ C)
    = ok (leaf_head x n @ ptr_bytes fk (bump_range a m dk kp) @ ptr_bytes fv (bump_range a m dv vp) @ C)"
proof -
  define S where "S k = leaf_head x n @ ptr_bytes fk (bump_range a (a + k) dk kp) @ ptr_bytes fv (bump_range a (a + k) dv vp) @ C" for k
  have "\<exists>v. body ([a..<m] ! k) u = ok v \<and> v = S (Suc k)" if k: "k < length [a..<m]" "u = S k" for k u
  proof -
    have b: "a + k < m" "[a..<m] ! k = a + k" "a + k < n" using k(1) n by auto
    note st = bump_range_step [of a "a + k" kp dk] bump_range_step [of a "a + k" vp dv]
    have "update_key_end fk (a + k) dk u = ok (leaf_head x n @ ptr_bytes fk (bump_range a (Suc (a + k)) dk kp) @ ptr_bytes fv (bump_range a (a + k) dv vp) @ C)"
      using update_key_end_ok [of "leaf_head x n" "a + k" "bump_range a (a + k) dk kp" dk fk] b n d(1) [of "a + k"] d(2) st by (simp add: k(2) S_def)
    moreover have "update_value_end fk fv (a + k) dv (leaf_head x n @ ptr_bytes fk (bump_range a (Suc (a + k)) dk kp) @ ptr_bytes fv (bump_range a (a + k) dv vp) @ C) = ok (S (Suc k))"
      using update_value_end_ok [of "bump_range a (Suc (a + k)) dk kp" n "a + k" "bump_range a (a + k) dv vp" dv fk fv x C] b n d(1) [of "a + k"] d(3) st by (simp add: S_def)
    ultimately show ?thesis by (simp add: body b(2))
  qed
  moreover have "S 0 = leaf_head x n @ ptr_bytes fk kp @ ptr_bytes fv vp @ C" by (simp add: S_def bump_range_def)
  moreover have "S (m - a) = leaf_head x n @ ptr_bytes fk (bump_range a m dk kp) @ ptr_bytes fv (bump_range a m dv vp) @ C" using n(4) by (simp add: S_def)
  ultimately show ?thesis using for_each_inv [of "\<lambda>k u. u = S k" "S 0" "[a..<m]" body] by simp
qed

subsection \<open>Inserting a pair\<close>

lemma bump_parts:
  "length E1 = i \<Longrightarrow> bump_range 0 i d (E1 @ E2) = map (bump d) E1 @ E2"
  "length E1 = i \<Longrightarrow> length (E1 @ E2) = n \<Longrightarrow> bump_range i n d (E1 @ E2) = E1 @ map (bump d) E2"
  by (simp_all add: bump_range_def)

lemma bump_ends: "map (bump (int d)) (ends o' xs) = ends (o' + d) xs"
proof -
  have "bump (int d) = (\<lambda>p. p + d)" by (simp add: bump_def fun_eq_iff nat_add_distrib)
  then show ?thesis by (simp add: ends_shift)
qed

lemma leaf_bytes_split:
  "leaf_bytes b fk fv (L @ R) = leaf_head b (length L + length R)
     @ ptr_bytes fk (ends (key_off fk fv (L @ R) 0) (map fst L) @ ends (key_off fk fv (L @ R) (length L)) (map fst R))
     @ ptr_bytes fv (ends (val_off fk fv (L @ R) 0) (map snd L) @ ends (val_off fk fv (L @ R) (length L)) (map snd R))
     @ concat (map fst L) @ concat (map fst R) @ concat (map snd L) @ concat (map snd R)"
  by (simp add: leaf_bytes_def ends_append key_off_def val_off_def)

lemma put_ptr_before:
  assumes "length X = e + ptr_size f" "dest = length A + length X" "v < 2 ^ 32"
  shows "\<exists>X'. length X' = e \<and> (if f = None then do { dest \<leftarrow> csub dest 4; page \<leftarrow> write_at (A @ X @ T) dest (le_bytes 4 v); ok (page, dest) } else ok (A @ X @ T, dest))
    = ok (A @ X' @ ptr_bytes f [v] @ T, length A + e)"
proof (cases f)
  case None
  then obtain X' where "length X' = e" "write_at (A @ X @ T) (dest - 4) (le_bytes 4 v) = ok (A @ X' @ le_bytes 4 v @ T)"
    using put_before [of "le_bytes 4 v" X "dest - 4" A T] assms(1,2) by (auto simp: ptr_size_def)
  then show ?thesis using None assms by (intro exI [of _ X']) (simp add: csub_def ptr_bytes_def ptr_size_def)
qed (use assms in \<open>simp add: ptr_size_def ptr_bytes_def\<close>)

lemma ends_bound: "p \<in> set (ends o' xs) \<Longrightarrow> o' \<le> p \<and> p \<le> o' + length (concat xs)"
  by (induction xs arbitrary: o') (auto, fastforce+)

lemma off_insert:
  "data_start fk fv (Suc n) = data_start fk fv n + ptr_size fk + ptr_size fv"
  "key_off fk fv (L @ (k, v) # R) 0 = key_off fk fv (L @ R) 0 + ptr_size fk + ptr_size fv"
  "key_off fk fv (L @ (k, v) # R) (length L) = key_off fk fv (L @ R) (length L) + ptr_size fk + ptr_size fv"
  "val_off fk fv (L @ (k, v) # R) 0 = val_off fk fv (L @ R) 0 + ptr_size fk + ptr_size fv + length k"
  "val_off fk fv (L @ (k, v) # R) (length L) = val_off fk fv (L @ R) (length L) + ptr_size fk + ptr_size fv + length k"
  "leaf_size fk fv (L @ (k, v) # R) = leaf_size fk fv (L @ R) + ptr_size fk + ptr_size fv + length k + length v"
  by (simp_all add: data_start_def key_off_def val_off_def)

lemma leaf_bytes_insert:
  "leaf_bytes b fk fv (L @ (k, v) # R) = leaf_head b (Suc (length L + length R))
     @ ptr_bytes fk (ends (key_off fk fv (L @ R) 0 + (ptr_size fk + ptr_size fv)) (map fst L)) @ ptr_bytes fk [key_off fk fv (L @ R) (length L) + (ptr_size fk + ptr_size fv) + length k]
     @ ptr_bytes fk (ends (key_off fk fv (L @ R) (length L) + (ptr_size fk + ptr_size fv + length k)) (map fst R))
     @ ptr_bytes fv (ends (val_off fk fv (L @ R) 0 + (ptr_size fk + ptr_size fv + length k)) (map snd L)) @ ptr_bytes fv [val_off fk fv (L @ R) (length L) + (ptr_size fk + ptr_size fv + length k) + length v]
     @ ptr_bytes fv (ends (val_off fk fv (L @ R) (length L) + (ptr_size fk + ptr_size fv + length k + length v)) (map snd R))
     @ concat (map fst L) @ k @ concat (map fst R) @ concat (map snd L) @ v @ concat (map snd R)"
  using leaf_bytes_split [of b fk fv L "(k, v) # R"] by (simp add: ptr_bytes_def off_insert ac_simps)

lemma insert_pointers_ok:
  assumes wf: "leaf_wf fk fv (L @ R)" and small: "leaf_size fk fv (L @ (k, v) # R) < 2 ^ 32"
  shows "for_each [0..<length L] (\<lambda>j page. do {
       d \<leftarrow> to_isize (ptr_size fk + ptr_size fv);
       page \<leftarrow> update_key_end fk j d page;
       value_delta \<leftarrow> to_isize (ptr_size fk + ptr_size fv + length k);
       update_value_end fk fv j value_delta page }) (leaf_bytes b fk fv (L @ R) @ rest) \<bind>
     for_each [length L..<length L + length R] (\<lambda>j page. do {
       key_delta \<leftarrow> to_isize (ptr_size fk + ptr_size fv + length k);
       page \<leftarrow> update_key_end fk j key_delta page;
       v \<leftarrow> to_isize (length v);
       value_delta \<leftarrow> ciadd key_delta v;
       update_value_end fk fv j value_delta page })
   = ok (leaf_head b (length L + length R)
     @ ptr_bytes fk (ends (key_off fk fv (L @ R) 0 + (ptr_size fk + ptr_size fv)) (map fst L)) @ ptr_bytes fk (ends (key_off fk fv (L @ R) (length L) + (ptr_size fk + ptr_size fv + length k)) (map fst R))
     @ ptr_bytes fv (ends (val_off fk fv (L @ R) 0 + (ptr_size fk + ptr_size fv + length k)) (map snd L)) @ ptr_bytes fv (ends (val_off fk fv (L @ R) (length L) + (ptr_size fk + ptr_size fv + length k + length v)) (map snd R))
     @ concat (map fst L) @ concat (map fst R) @ concat (map snd L) @ concat (map snd R) @ rest)"
proof -
  let ?i = "length L" let ?n = "length L + length R"
  define d where "d = ptr_size fk + ptr_size fv"
  define C where "C = concat (map fst L) @ concat (map fst R) @ concat (map snd L) @ concat (map snd R) @ rest"
  define E1 where "E1 = ends (key_off fk fv (L @ R) 0) (map fst L)" define E2 where "E2 = ends (key_off fk fv (L @ R) ?i) (map fst R)"
  define F1 where "F1 = ends (val_off fk fv (L @ R) 0) (map snd L)" define F2 where "F2 = ends (val_off fk fv (L @ R) ?i) (map snd R)"
  have l: "length E1 = ?i" "length E2 = length R" "length F1 = ?i" "length F2 = length R" by (simp_all add: E1_def E2_def F1_def F2_def)
  have sz: "leaf_size fk fv (L @ R) + d + length k + length v < 2 ^ 32" using small unfolding off_insert(6) d_def by simp
  have "d \<le> 8" by (simp add: d_def ptr_size_def)
  have n: "?n < 2 ^ 16" using wf by (simp add: leaf_wf_def)
  have kv: "key_off fk fv (L @ R) ?i + length (concat (map fst R)) = val_off fk fv (L @ R) 0" "val_off fk fv (L @ R) 0 \<le> leaf_size fk fv (L @ R)"
    "val_off fk fv (L @ R) ?i + length (concat (map snd R)) = leaf_size fk fv (L @ R)" "key_off fk fv (L @ R) 0 + length (concat (map fst L)) = key_off fk fv (L @ R) ?i"
    "val_off fk fv (L @ R) 0 + length (concat (map snd L)) = val_off fk fv (L @ R) ?i"
    by (simp_all add: key_off_def val_off_def)
  have up: "p \<le> leaf_size fk fv (L @ R)" if "p \<in> set (E1 @ E2) \<union> set (F1 @ F2)" for p
    using that kv ends_bound unfolding E1_def E2_def F1_def F2_def by (fastforce simp del: concat_append)
  have in1: "in_u32 (int x) ((E1 @ E2) ! j)" "in_u32 (int x) ((F1 @ F2) ! j)" if "j < ?n" "x \<le> d + length k + length v" for j x
    using up [of "(E1 @ E2) ! j"] up [of "(F1 @ F2) ! j"] nth_mem [of j "E1 @ E2"] nth_mem [of j "F1 @ F2"] l that sz by (auto simp: in_u32_def)
  have isz: "to_isize x = ok (int x)" if "x < 2 ^ 32" for x using that by (simp add: to_isize_def)
  define d2 where "d2 = d + length k" define d3 where "d3 = d2 + length v"
  have dd: "d \<le> d + length k + length v" "d2 \<le> d + length k + length v" "d3 \<le> d + length k + length v" by (simp_all add: d2_def d3_def)
  have lt: "d < 2 ^ 32" "d2 < 2 ^ 32" "d3 < 2 ^ 32" "length v < 2 ^ 32" using dd sz by linarith+
  have t: "to_isize d = ok (int d)" "to_isize d2 = ok (int d2)" "to_isize (length v) = ok (int (length v))"
    using lt isz by auto
  have t4: "ciadd (int d2) (int (length v)) = ok (int d3)" using lt(3) by (simp add: ciadd_def d3_def)
  have ab: "\<bar>int x\<bar> < 2 ^ 62" if "x \<le> d + length k + length v" for x using that sz by simp
  note ab3 = ab [OF dd(1)] ab [OF dd(2)] ab [OF dd(3)]
  have p0: "leaf_bytes b fk fv (L @ R) @ rest = leaf_head b ?n @ ptr_bytes fk (E1 @ E2) @ ptr_bytes fv (F1 @ F2) @ C"
    unfolding leaf_bytes_split E1_def E2_def F1_def F2_def C_def by simp
  have s1: "for_each [0..<?i] (\<lambda>j page. do { dd \<leftarrow> to_isize d; page \<leftarrow> update_key_end fk j dd page; value_delta \<leftarrow> to_isize d2; update_value_end fk fv j value_delta page })
      (leaf_head b ?n @ ptr_bytes fk (E1 @ E2) @ ptr_bytes fv (F1 @ F2) @ C)
    = ok (leaf_head b ?n @ ptr_bytes fk (bump_range 0 ?i (int d) (E1 @ E2)) @ ptr_bytes fv (bump_range 0 ?i (int d2) (F1 @ F2)) @ C)"
    by (rule update_ptrs_ok [OF _ _ n _ _ _ ab3(1,2)]) (use l in1 dd in \<open>auto simp: t\<close>)
  have s2: "for_each [?i..<?n] (\<lambda>j page. do { key_delta \<leftarrow> to_isize d2; page \<leftarrow> update_key_end fk j key_delta page; v \<leftarrow> to_isize (length v);
       value_delta \<leftarrow> ciadd key_delta v; update_value_end fk fv j value_delta page })
      (leaf_head b ?n @ ptr_bytes fk (map (bump (int d)) E1 @ E2) @ ptr_bytes fv (map (bump (int d2)) F1 @ F2) @ C)
    = ok (leaf_head b ?n @ ptr_bytes fk (bump_range ?i ?n (int d2) (map (bump (int d)) E1 @ E2)) @ ptr_bytes fv (bump_range ?i ?n (int d3) (map (bump (int d2)) F1 @ F2)) @ C)"
  proof (rule update_ptrs_ok [OF _ _ n _ _ _ ab3(2,3)])
    fix j assume "?i \<le> j" "j < ?n"
    then show "in_u32 (int d2) ((map (bump (int d)) E1 @ E2) ! j) \<and> in_u32 (int d3) ((map (bump (int d2)) F1 @ F2) ! j)"
      using in1 [of j d2] in1 [of j d3] l dd by (simp add: nth_append)
  qed (use l in \<open>auto simp: t t4\<close>)
  have b1: "bump_range 0 ?i x (E1 @ E2) = map (bump x) E1 @ E2" "bump_range 0 ?i x (F1 @ F2) = map (bump x) F1 @ F2" for x
    using l by (simp_all add: bump_parts)
  have b2: "bump_range ?i ?n x (map f E1 @ E2) = map f E1 @ map (bump x) E2" "bump_range ?i ?n x (map f F1 @ F2) = map f F1 @ map (bump x) F2" for x f
    using l by (simp_all add: bump_parts)
  show ?thesis unfolding p0 d_def [symmetric] d2_def [symmetric] d3_def [symmetric] s1 b1 bind.bind_lunit s2 b2
    unfolding E1_def E2_def F1_def F2_def bump_ends ptr_bytes_append append.assoc C_def ..
qed

lemma rep_split:
  assumes rep: "leaf_rep fk fv kvs page" and i: "i \<le> length kvs"
  obtains L R b rest where "kvs = L @ R" "length L = i" "page = leaf_bytes b fk fv (L @ R) @ rest" "leaf_wf fk fv (L @ R)"
  using leaf_repE [OF rep] append_take_drop_id [of i kvs] i by (metis length_take min.absorb2)

lemma leaf_head_write: "write_at (leaf_head b n @ C) 2 (le_bytes 2 m) = ok (leaf_head b m @ C)"
  by (simp add: leaf_head_def write_at_def)

lemma lm_new_ok: "leaf_rep fk fv kvs page \<Longrightarrow> lm_new page = ok ()"
  by (auto simp: leaf_rep_def leaf_bytes_def leaf_head_def lm_new_def)

lemma lm_insert_ok:
  assumes rep: "leaf_rep fk fv kvs page" and i: "i \<le> length kvs" and w: "widths fk [k]" "widths fv [v]"
    and n: "length kvs < 65535" and small: "leaf_size fk fv (take i kvs @ (k, v) # drop i kvs) < 2 ^ 32"
    and fits: "leaf_size fk fv (take i kvs @ (k, v) # drop i kvs) \<le> length page" "length page < 2 ^ 63"
  shows "\<exists>page'. lm_insert fk fv i k v page = ok page' \<and> leaf_rep fk fv (take i kvs @ (k, v) # drop i kvs) page' \<and> length page' = length page"
proof -
  obtain L R b rest where p: "kvs = L @ R" "length L = i" "page = leaf_bytes b fk fv (L @ R) @ rest" "leaf_wf fk fv (L @ R)" using rep_split [OF rep i] .
  have td: "take i kvs = L" "drop i kvs = R" using p by auto
  define N where "N = length L + length R"
  define K where "K = ptr_size fk" define V where "V = ptr_size fv" define d where "d = K + V"
  define KS where "KS = key_off fk fv (L @ R) i" define VS where "VS = val_off fk fv (L @ R) i" define LE where "LE = leaf_size fk fv (L @ R)"
  define P1 where "P1 = ptr_bytes fk (ends (key_off fk fv (L @ R) 0 + (K + V)) (map fst L))"
  define P2 where "P2 = ptr_bytes fk (ends (KS + (K + V + length k)) (map fst R))"
  define Q1 where "Q1 = ptr_bytes fv (ends (val_off fk fv (L @ R) 0 + (K + V + length k)) (map snd L))"
  define Q2 where "Q2 = ptr_bytes fv (ends (VS + (K + V + length k + length v)) (map snd R))"
  define kl kr vl vr where "kl = concat (map fst L)" and "kr = concat (map fst R)" and "vl = concat (map snd L)" and "vr = concat (map snd R)"
  define H where "H = leaf_head b (N + 1)"
  have lens: "length P1 = K * i" "length P2 = K * length R" "length Q1 = V * i" "length Q2 = V * length R" "length H = 4" "N = i + length R"
    using p(2) by (simp_all add: P1_def P2_def Q1_def Q2_def length_ptr_bytes K_def V_def H_def N_def)
  have offs: "KS = 4 + K * N + V * N + length kl" "VS = KS + length kr + length vl" "LE = VS + length vr" "0 < N"
    using p(2,4) by (auto simp: KS_def VS_def LE_def key_off_def val_off_def data_start_def K_def V_def N_def kl_def kr_def vl_def vr_def leaf_wf_def)
  have sz: "LE + d + length k + length v < 2 ^ 32" "LE + d + length k + length v \<le> length page" "length page = LE + length rest"
    using small fits(1) p(3) length_leaf_bytes [of b fk fv "L @ R"] unfolding td off_insert(6) by (simp_all add: LE_def d_def K_def V_def)
  obtain X T where XT: "rest = X @ T" "length X = d + length k + length v"
    using sz(2,3) that [of "take (d + length k + length v) rest" "drop (d + length k + length v) rest"] by auto
  note acc = la_new_ok [OF rep] total_length_ok [OF rep] la_key_end_ok(1) [OF rep, of "N - 1"] la_value_end_ok(1) [OF rep, of "N - 1"]
     la_key_start_ok(1) [OF rep i] la_value_start_ok(1) [OF rep i]
  define A1 where "A1 = H @ P1 @ P2 @ Q1 @ Q2 @ kl @ kr @ vl"
  define A2 where "A2 = H @ P1 @ P2 @ Q1 @ Q2 @ kl"
  define A3 where "A3 = H @ P1 @ P2 @ Q1"
  define A4 where "A4 = H @ P1"
  have la: "length A1 = VS" "length A2 = KS" "length A3 = 4 + K * N + V * i" "length A4 = 4 + K * i"
    by (simp_all add: A1_def A2_def A3_def A4_def lens offs distrib_left)
  obtain X1 where s1: "length X1 = d + length k + length v" "copy_within (A1 @ vr @ X @ T) VS LE (VS + K + V + length k + length v) = ok (A1 @ X1 @ vr @ T)"
    using move_right [of VS A1 LE vr "VS + K + V + length k + length v" X T] la offs XT(2) by (auto simp: d_def)
  obtain X2 where s2: "length X2 = d + length k" "write_at (A1 @ X1 @ vr @ T) (VS + d + length k) v = ok (A1 @ X2 @ v @ vr @ T)"
    using put_before [of v X1 "VS + d + length k" A1 "vr @ T"] s1(1) la by auto
  obtain X3 where s3: "length X3 = d + length k" "copy_within (A2 @ (kr @ vl) @ X2 @ v @ vr @ T) KS VS (KS + d + length k) = ok (A2 @ X3 @ (kr @ vl) @ v @ vr @ T)"
    using move_right [of KS A2 VS "kr @ vl" "KS + d + length k" X2 "v @ vr @ T"] la offs s2(1) by (auto simp: ac_simps)
  obtain X4 where s4: "length X4 = d" "write_at (A2 @ X3 @ (kr @ vl) @ v @ vr @ T) (KS + d) k = ok (A2 @ X4 @ k @ (kr @ vl) @ v @ vr @ T)"
    using put_before [of k X3 "KS + d" A2 "(kr @ vl) @ v @ vr @ T"] s3(1) la by auto
  obtain X5 where s5: "length X5 = d" "copy_within (A3 @ (Q2 @ kl) @ X4 @ k @ (kr @ vl) @ v @ vr @ T) (4 + K * N + V * i) KS (4 + K * N + V * i + d)
      = ok (A3 @ X5 @ (Q2 @ kl) @ k @ (kr @ vl) @ v @ vr @ T)"
    using move_right [of "4 + K * N + V * i" A3 KS "Q2 @ kl" "4 + K * N + V * i + d" X4 "k @ (kr @ vl) @ v @ vr @ T"] la lens offs s4(1) by (auto simp: distrib_left)
  have ve: "VS + K + V + length k + length v < 2 ^ 32" "KS + d + length k < 2 ^ 32" using sz(1) offs by (auto simp: d_def)
  obtain X6 where s6: "length X6 = K" "(if fv = None then do { dest \<leftarrow> csub (4 + K * N + V * i + d) 4;
         page \<leftarrow> write_at (A3 @ X5 @ (Q2 @ kl) @ k @ (kr @ vl) @ v @ vr @ T) dest (le_bytes 4 (VS + K + V + length k + length v)); ok (page, dest) }
       else ok (A3 @ X5 @ (Q2 @ kl) @ k @ (kr @ vl) @ v @ vr @ T, 4 + K * N + V * i + d))
      = ok (A3 @ X6 @ ptr_bytes fv [VS + K + V + length k + length v] @ (Q2 @ kl) @ k @ (kr @ vl) @ v @ vr @ T, 4 + K * N + V * i + K)"
    using put_ptr_before [of X5 K fv "4 + K * N + V * i + d" A3 "VS + K + V + length k + length v" "(Q2 @ kl) @ k @ (kr @ vl) @ v @ vr @ T"] s5(1) la ve
    by (auto simp: d_def V_def)
  define T6 where "T6 = ptr_bytes fv [VS + K + V + length k + length v] @ (Q2 @ kl) @ k @ (kr @ vl) @ v @ vr @ T"
  obtain X7 where s7: "length X7 = K" "copy_within (A4 @ (P2 @ Q1) @ X6 @ T6) (4 + K * i) (4 + K * N + V * i) (4 + K * i + K) = ok (A4 @ X7 @ (P2 @ Q1) @ T6)"
    using move_right [of "4 + K * i" A4 "4 + K * N + V * i" "P2 @ Q1" "4 + K * i + K" X6 T6] la lens s6(1) by (auto simp: distrib_left)
  obtain X8 where s8: "length X8 = 0" "(if fk = None then do { dest \<leftarrow> csub (4 + K * i + K) 4;
         page \<leftarrow> write_at (A4 @ X7 @ (P2 @ Q1) @ T6) dest (le_bytes 4 (KS + d + length k)); ok (page, dest) } else ok (A4 @ X7 @ (P2 @ Q1) @ T6, 4 + K * i + K))
      = ok (A4 @ X8 @ ptr_bytes fk [KS + d + length k] @ (P2 @ Q1) @ T6, 4 + K * i)"
    using put_ptr_before [of X7 0 fk "4 + K * i + K" A4 "KS + d + length k" "(P2 @ Q1) @ T6"] s7(1) la ve by (auto simp: K_def)
  obtain pg where lp: "for_each [0..<i] (\<lambda>j page. do { d \<leftarrow> to_isize (K + V); page \<leftarrow> update_key_end fk j d page;
         value_delta \<leftarrow> to_isize (K + V + length k); update_value_end fk fv j value_delta page }) page = ok pg"
      "for_each [i..<N] (\<lambda>j page. do { key_delta \<leftarrow> to_isize (K + V + length k); page \<leftarrow> update_key_end fk j key_delta page; v \<leftarrow> to_isize (length v);
         value_delta \<leftarrow> ciadd key_delta v; update_value_end fk fv j value_delta page }) pg
       = ok (leaf_head b N @ P1 @ P2 @ Q1 @ Q2 @ kl @ kr @ vl @ vr @ X @ T)"
    using insert_pointers_ok [OF p(4), of k v b rest] small p(2,3) XT(1) unfolding td bind_ok_iff
    by (auto simp: N_def K_def V_def P1_def P2_def Q1_def Q2_def KS_def VS_def kl_def kr_def vl_def vr_def)
  have e: "(if fv = None then (if fk = None then length k + length v + 4 else length k + length v) + 4 else if fk = None then length k + length v + 4 else length k + length v) = d + length k + length v"
    "(if fk = None then 4 else 0) = K" "(if fv = None then 4 else 0) = V" by (simp_all add: d_def K_def V_def ptr_size_def)
  have NN: "length kvs = N" using p by (simp add: N_def)
  have isz: "to_isize (d + length k + length v) = ok (int (d + length k + length v))" "to_isize LE = ok (int LE)" "to_isize (length page) = ok (int (length page))"
    "ciadd (int LE) (int (d + length k + length v)) = ok (int LE + int (d + length k + length v))" "int LE + int (d + length k + length v) \<le> int (length page)"
    using sz fits(2) by (auto simp: to_isize_def ciadd_def)
  define a0 where "a0 = acc fk fv kvs page"
  have a: "la_new page fk fv = ok a0" "la_num_pairs a0 = N" "la_total_length a0 = ok LE" "unwrap (la_value_end a0 (N - 1)) = ok LE"
    "\<exists>x. unwrap (la_key_end a0 (N - 1)) = ok x" "la_key_start a0 i = ok (Some KS)" "la_value_start a0 i = ok (Some VS)"
    using acc offs(4) NN p(1) by (simp_all add: LE_def KS_def VS_def a0_def)
  obtain lke where lke: "unwrap (la_key_end a0 (N - 1)) = ok lke" using a(5) by blast
  have c1: "csub N 1 = ok (N - 1)" using offs(4) by (simp add: csub_def Suc_le_eq)
  have c: "try_into 16 (N + 1) = ok (N + 1)" "try_into 32 (VS + K + V + length k + length v) = ok (VS + K + V + length k + length v)"
    "csub (VS + K + V + length k + length v) (length v) = ok (VS + d + length k)" "csub VS KS = ok (length kr + length vl)"
    "csub (VS + d + length k) (length kr + length vl) = ok (KS + d + length k)" "try_into 32 (KS + d + length k) = ok (KS + d + length k)"
    "csub (KS + d + length k) (length k) = ok (KS + d)" "csub KS (4 + K * N + V * i) = ok (KS - (4 + K * N + V * i))"
    "csub (KS + d) (KS - (4 + K * N + V * i)) = ok (4 + K * N + V * i + d)" "csub (4 + K * N + V * i) (4 + K * i) = ok (K * length R + V * i)"
    "csub (4 + K * N + V * i + K) (K * length R + V * i) = ok (4 + K * i + K)"
    using offs n NN ve lens(6) by (auto simp: csub_def try_into_def d_def algebra_simps)
  have as: "4 + K * N + V * i + d = 4 + K * (N + 1) + V * (i + 1)" "4 + K * i + K = 4 + K * (i + 1)" by (simp_all add: d_def)
  have w0: "write_at (leaf_head b N @ P1 @ P2 @ Q1 @ Q2 @ kl @ kr @ vl @ vr @ X @ T) 2 (le_bytes 2 (N + 1)) = ok (A1 @ vr @ X @ T)"
    by (simp add: leaf_head_write A1_def H_def)
  have x: "A1 @ X2 @ v @ vr @ T = A2 @ (kr @ vl) @ X2 @ v @ vr @ T" "A2 @ X4 @ k @ (kr @ vl) @ v @ vr @ T = A3 @ (Q2 @ kl) @ X4 @ k @ (kr @ vl) @ v @ vr @ T"
    "A3 @ X6 @ T6 = A4 @ (P2 @ Q1) @ X6 @ T6" by (simp_all add: A1_def A2_def A3_def A4_def)
  have s2': "write_at (A1 @ X1 @ vr @ T) (VS + d + length k) v = ok (A2 @ (kr @ vl) @ X2 @ v @ vr @ T)" using s2(2) x(1) by simp
  have s4': "write_at (A2 @ X3 @ (kr @ vl) @ v @ vr @ T) (KS + d) k = ok (A3 @ (Q2 @ kl) @ X4 @ k @ (kr @ vl) @ v @ vr @ T)" using s4(2) x(2) by simp
  note s6' = s6(2) [folded T6_def, unfolded x(3)]
  have "lm_insert fk fv i k v page = ok (A4 @ X8 @ ptr_bytes fk [KS + d + length k] @ (P2 @ Q1) @ T6)"
    unfolding lm_insert_def lm_new_ok [OF rep] a(1) bind.bind_lunit Let_def e a(2)
    unfolding isz a bind.bind_lunit assert_that_bind [OF isz(5)] c1 lke option.case
    unfolding lp bind.bind_lunit c w0 s1(2) s2' s3(2) s4' assert_that_bind [OF as(1)] s5(2) s6' prod.case s7(2) s8(2)
    by (simp add: assert_that_def)
  moreover have "A4 @ X8 @ ptr_bytes fk [KS + d + length k] @ (P2 @ Q1) @ T6 = leaf_bytes b fk fv (L @ (k, v) # R) @ T"
    using s8(1) p(2) unfolding leaf_bytes_insert T6_def A4_def H_def P1_def P2_def Q1_def Q2_def kl_def kr_def vl_def vr_def KS_def VS_def K_def V_def d_def N_def
    by (simp add: ac_simps)
  moreover have "leaf_wf fk fv (L @ (k, v) # R)"
    using p(4) w n small unfolding td by (simp add: leaf_wf_def widths_def p(1) ball_Un)
  moreover have "length (leaf_bytes b fk fv (L @ (k, v) # R) @ T) = length page"
    using sz(3) XT length_leaf_bytes [of b fk fv "L @ (k, v) # R"] unfolding off_insert(6) by (simp add: LE_def d_def K_def V_def)
  ultimately show ?thesis unfolding td leaf_rep_def by auto
qed

subsection \<open>Replacing a value\<close>

lemma update_values_ok:
  assumes n: "length kp = n" "length vp = n" "n < 2 ^ 16" "a \<le> n" and d: "\<And>j. a \<le> j \<Longrightarrow> j < n \<Longrightarrow> in_u32 dv (vp ! j)" "abs dv < 2 ^ 62"
  shows "for_each [a..<n] (\<lambda>j. update_value_end fk fv j dv) (leaf_head x n @ ptr_bytes fk kp @ ptr_bytes fv vp @ C)
    = ok (leaf_head x n @ ptr_bytes fk kp @ ptr_bytes fv (bump_range a n dv vp) @ C)"
proof -
  define S where "S k = leaf_head x n @ ptr_bytes fk kp @ ptr_bytes fv (bump_range a (a + k) dv vp) @ C" for k
  have "\<exists>v. update_value_end fk fv ([a..<n] ! k) dv u = ok v \<and> v = S (Suc k)" if k: "k < length [a..<n]" "u = S k" for k u
    using update_value_end_ok [of kp n "a + k" "bump_range a (a + k) dv vp" dv fk fv x C] bump_range_step [of a "a + k" vp dv] k n d by (simp add: S_def)
  moreover have "S 0 = leaf_head x n @ ptr_bytes fk kp @ ptr_bytes fv vp @ C" by (simp add: S_def bump_range_def)
  moreover have "S (n - a) = leaf_head x n @ ptr_bytes fk kp @ ptr_bytes fv (bump_range a n dv vp) @ C" using n(4) by (simp add: S_def)
  ultimately show ?thesis using for_each_inv [of "\<lambda>k u. u = S k" "S 0" "[a..<n]" "\<lambda>j. update_value_end fk fv j dv"] by simp
qed

lemma move_any:
  assumes "start = length A + length B" "stop = start + length S" "dest = length A + m" "length A + m + length S \<le> length (A @ B @ S @ T)"
  shows "\<exists>Y Z. length Y = m \<and> length (Y @ S @ Z) = length (B @ S @ T) \<and> copy_within (A @ B @ S @ T) start stop dest = ok (A @ Y @ S @ Z)"
  using assms by (intro exI [of _ "take m (B @ S @ T)"] exI [of _ "drop (m + length S) (B @ S @ T)"]) (auto simp: copy_within_def sub_slice_def write_at_def)

lemma bump_ends_diff: "map (bump (int a - int b)) (ends (x + b) xs) = ends (x + a) xs"
proof (induction xs arbitrary: x)
  case (Cons y xs)
  have "bump (int a - int b) (x + b + length y) = x + a + length y" by (simp add: bump_def)
  then show ?case using Cons [of "x + length y"] by (simp add: ac_simps)
qed simp

lemma leaf_bytes_mid:
  "leaf_bytes b fk fv (L @ (k, v) # R) = (leaf_head b (length L + 1 + length R)
     @ ptr_bytes fk (ends (key_off fk fv (L @ (k, v) # R) 0) (map fst L @ k # map fst R))
     @ ptr_bytes fv (ends (val_off fk fv (L @ (k, v) # R) 0) (map snd L) @ ends (val_off fk fv (L @ (k, v) # R) (length L)) (v # map snd R)))
     @ (concat (map fst L) @ k @ concat (map fst R) @ concat (map snd L)) @ v @ concat (map snd R)"
  by (simp add: leaf_bytes_def ends_append val_off_def)

lemma off_value:
  "key_off fk fv (L @ (k, v) # R) i = key_off fk fv (L @ (k, v') # R) i" "val_off fk fv (L @ (k, v) # R) 0 = val_off fk fv (L @ (k, v') # R) 0"
  "val_off fk fv (L @ (k, v) # R) (length L) = val_off fk fv (L @ (k, v') # R) (length L)"
  "leaf_size fk fv (L @ (k, v) # R) = val_off fk fv (L @ (k, v) # R) (length L) + length v + length (concat (map snd R))"
  by (simp_all add: key_off_def val_off_def)

lemma lm_replace_ok:
  assumes rep: "leaf_rep fk fv (L @ (k, v0) # R) page" and w: "widths fv [v]" and small: "leaf_size fk fv (L @ (k, v) # R) < 2 ^ 32"
    and fits: "leaf_size fk fv (L @ (k, v) # R) \<le> length page" "length page < 2 ^ 63"
  shows "\<exists>page'. lm_replace fk fv (length L) v page = ok page' \<and> leaf_rep fk fv (L @ (k, v) # R) page' \<and> length page' = length page"
proof -
  let ?kvs = "L @ (k, v0) # R" let ?i = "length L" let ?n = "length ?kvs"
  obtain b rest where p: "page = leaf_bytes b fk fv ?kvs @ rest" "leaf_wf fk fv ?kvs" using leaf_repE [OF rep] .
  define VS where "VS = val_off fk fv ?kvs ?i" define V0 where "V0 = val_off fk fv ?kvs 0" define LE where "LE = leaf_size fk fv ?kvs"
  define vr where "vr = concat (map snd R)"
  define d where "d = int (length v) - int (length v0)"
  define kp where "kp = ends (key_off fk fv ?kvs 0) (map fst L @ k # map fst R)"
  define F where "F = ends V0 (map snd L) @ ends VS (v0 # map snd R)"
  define C where "C = concat (map fst L) @ k @ concat (map fst R) @ concat (map snd L)"
  define H where "H = leaf_head b ?n"
  have off: "LE = VS + length v0 + length vr" "val_off fk fv ?kvs (Suc ?i) = VS + length v0" "V0 + length (concat (map snd L)) = VS"
    by (simp_all add: LE_def VS_def V0_def val_off_def vr_def)
  have sz: "VS + length v + length vr < 2 ^ 32" "VS + length v + length vr \<le> length page" "LE < 2 ^ 32" "length page = LE + length rest"
    using small fits(1) p off_value(4) [of fk fv L k v R] off_value(3) [of fk fv L k v R v0] length_leaf_bytes [of b fk fv ?kvs]
    by (simp_all add: VS_def LE_def vr_def leaf_wf_def)
  have pg: "page = H @ ptr_bytes fk kp @ ptr_bytes fv F @ (C @ v0 @ vr @ rest)"
    unfolding p(1) leaf_bytes_mid by (simp add: H_def kp_def F_def C_def vr_def V0_def VS_def)
  have lF: "length F = ?n" "length kp = ?n" "?n < 2 ^ 16" "length (ends V0 (map snd L)) = ?i" using p(2) by (simp_all add: F_def kp_def leaf_wf_def)
  have inF: "in_u32 d (F ! j)" if "?i \<le> j" "j < ?n" for j
  proof -
    have "F ! j \<in> set (ends VS (v0 # map snd R))" using that lF(4) nth_mem [of "j - ?i" "ends VS (v0 # map snd R)"] by (simp add: F_def nth_append del: ends.simps)
    then have "VS + length v0 \<le> F ! j \<and> F ! j \<le> LE" using ends_bound [of "F ! j" "VS + length v0" "map snd R"] off(1) by (auto simp: vr_def)
    then show ?thesis using sz off by (auto simp: in_u32_def d_def)
  qed
  have loop: "for_each [?i..<?n] (\<lambda>j. update_value_end fk fv j d) page = ok (H @ ptr_bytes fk kp @ ptr_bytes fv (bump_range ?i ?n d F) @ (C @ v0 @ vr @ rest))"
    unfolding pg H_def by (rule update_values_ok) (use lF inF sz off in \<open>auto simp: d_def\<close>)
  have bF: "bump_range ?i ?n d F = ends V0 (map snd L) @ ends VS (v # map snd R)"
    using lF bump_ends_diff [of "length v" "length v0" VS "map snd R"] bump_parts(2) [OF lF(4), of "ends VS (v0 # map snd R)" ?n d]
    by (simp add: F_def d_def) (simp add: bump_def)
  define A where "A = H @ ptr_bytes fk kp @ ptr_bytes fv (ends V0 (map snd L) @ ends VS (v # map snd R)) @ C"
  have lA: "length A = VS" by (simp add: A_def H_def length_ptr_bytes kp_def C_def VS_def val_off_def data_start_def)
  obtain Y Z where YZ: "length Y = length v" "length (Y @ vr @ Z) = length (v0 @ vr @ rest)" "copy_within (A @ v0 @ vr @ rest) (VS + length v0) LE (VS + length v) = ok (A @ Y @ vr @ Z)"
    using move_any [of "VS + length v0" A v0 LE vr "VS + length v" "length v" rest] lA off(1) sz by auto
  have wr: "write_at (A @ Y @ vr @ Z) VS v = ok (A @ v @ vr @ Z)" using write_at_mid [of VS A v Y "vr @ Z"] lA YZ(1) by simp
  have i: "to_isize (length v) = ok (int (length v))" "to_isize (length v0) = ok (int (length v0))" "to_isize LE = ok (int LE)" "to_isize (length page) = ok (int (length page))"
    "to_isize (VS + length v0) = ok (int (VS + length v0))" "ciadd (int (length v)) (- int (length v0)) = ok d" "ciadd (int LE) d = ok (int LE + d)" "int LE + d \<le> int (length page)"
    "ciadd (int (VS + length v0)) d = ok (int (VS + length v))" "int_into 64 (int (VS + length v)) = ok (VS + length v)" "csub (VS + length v) (length v) = ok VS"
    "csub (VS + length v0) VS = ok (length v0)" "csub ?n 1 = ok (?n - 1)"
    using sz off(1) fits(2) by (auto simp: to_isize_def ciadd_def d_def int_into_def csub_def)
  have a: "la_num_pairs (acc fk fv ?kvs page) = ?n" "la_total_length (acc fk fv ?kvs page) = ok LE" "unwrap (la_value_end (acc fk fv ?kvs page) (?n - 1)) = ok LE"
    "la_value_start (acc fk fv ?kvs page) (?i + 1) = ok (Some (VS + length v0))" "la_value_range (acc fk fv ?kvs page) ?i = ok (Some (VS, VS + length v0))"
    using total_length_ok [OF rep] la_value_end_ok(1) [OF rep, of "?n - 1"] la_value_start_ok(1) [OF rep, of "?i + 1"] la_value_start_ok(1) [OF rep, of ?i] la_value_end_ok(1) [OF rep, of ?i]
    by (simp_all add: LE_def VS_def [symmetric] off(2) la_value_range_def)
  have pA: "H @ ptr_bytes fk kp @ ptr_bytes fv (ends V0 (map snd L) @ ends VS (v # map snd R)) @ (C @ v0 @ vr @ rest) = A @ v0 @ vr @ rest" by (simp add: A_def)
  have "lm_replace fk fv ?i v page = ok (A @ v @ vr @ Z)"
    unfolding lm_replace_def lm_new_ok [OF rep] la_new_ok [OF rep] bind.bind_lunit Let_def a i
    unfolding option.case prod.case i bind.bind_lunit assert_that_bind [OF i(8)] loop bF pA YZ(3) wr ..
  moreover have "A @ v @ vr @ Z = leaf_bytes b fk fv (L @ (k, v) # R) @ Z"
    unfolding leaf_bytes_mid A_def H_def kp_def C_def vr_def V0_def VS_def
    using off_value(1) [of fk fv L k v0 R 0 v] off_value(2,3) [of fk fv L k v0 R v] by (simp del: ends.simps)
  moreover have "leaf_wf fk fv (L @ (k, v) # R)" using p(2) w small by (simp add: leaf_wf_def widths_def ball_Un)
  moreover have "length (A @ v @ vr @ Z) = length page" using YZ(1,2) sz(4) off(1) lA by simp
  ultimately show ?thesis unfolding leaf_rep_def by blast
qed

subsection \<open>Removing a pair\<close>

lemma bump_ends_minus: "map (bump (- int d)) (ends (x + d) xs) = ends x xs"
  using bump_ends_diff [of 0 d x xs] by simp

lemma bump_mid:
  assumes "length E1 = i" "length E2 = m" "n = i + 1 + m"
  shows "bump_range (i + 1) n y (bump_range 0 i x (E1 @ e # E2)) = map (bump x) E1 @ e # map (bump y) E2"
proof -
  have "bump_range 0 i x (E1 @ e # E2) = (map (bump x) E1 @ [e]) @ E2" using bump_parts(1) [OF assms(1), of x "e # E2"] by simp
  then show ?thesis using bump_parts(2) [of "map (bump x) E1 @ [e]" "i + 1" E2 n y] assms by simp
qed

lemma leaf_bytes_mid2:
  "leaf_bytes b fk fv (L @ (k, v) # R) = leaf_head b (length L + 1 + length R)
     @ ptr_bytes fk (ends (key_off fk fv (L @ (k, v) # R) 0) (map fst L) @ key_off fk fv (L @ (k, v) # R) (Suc (length L)) # ends (key_off fk fv (L @ (k, v) # R) (Suc (length L))) (map fst R))
     @ ptr_bytes fv (ends (val_off fk fv (L @ (k, v) # R) 0) (map snd L) @ val_off fk fv (L @ (k, v) # R) (Suc (length L)) # ends (val_off fk fv (L @ (k, v) # R) (Suc (length L))) (map snd R))
     @ concat (map fst L) @ k @ concat (map fst R) @ concat (map snd L) @ v @ concat (map snd R)"
  by (simp add: leaf_bytes_def ends_append val_off_def key_off_def ac_simps)

lemma remove_pointers_ok:
  fixes L R :: "(byte list \<times> byte list) list"
  assumes wf: "leaf_wf fk fv (L @ (k, v) # R)"
  defines "d \<equiv> ptr_size fk + ptr_size fv" and "kvs \<equiv> L @ (k, v) # R"
  shows "for_each [0..<length L] (\<lambda>j page. do { page \<leftarrow> update_key_end fk j (- int d) page; update_value_end fk fv j (- int (d + length k)) page }) (leaf_bytes b fk fv kvs @ rest) \<bind>
     for_each [length L + 1..<length kvs] (\<lambda>j page. do { page \<leftarrow> update_key_end fk j (- int (d + length k)) page; update_value_end fk fv j (- int (d + length k + length v)) page })
   = ok (leaf_head b (length kvs)
     @ ptr_bytes fk (ends (key_off fk fv (L @ R) 0) (map fst L)) @ ptr_bytes fk [key_off fk fv kvs (Suc (length L))] @ ptr_bytes fk (ends (key_off fk fv (L @ R) (length L)) (map fst R))
     @ ptr_bytes fv (ends (val_off fk fv (L @ R) 0) (map snd L)) @ ptr_bytes fv [val_off fk fv kvs (Suc (length L))] @ ptr_bytes fv (ends (val_off fk fv (L @ R) (length L)) (map snd R))
     @ concat (map fst L) @ k @ concat (map fst R) @ concat (map snd L) @ v @ concat (map snd R) @ rest)"
proof -
  let ?i = "length L" let ?n = "length kvs"
  define C where "C = concat (map fst L) @ k @ concat (map fst R) @ concat (map snd L) @ v @ concat (map snd R) @ rest"
  define K0 K1 V0 V1 where "K0 = key_off fk fv (L @ R) 0" and "K1 = key_off fk fv (L @ R) ?i" and "V0 = val_off fk fv (L @ R) 0" and "V1 = val_off fk fv (L @ R) ?i"
  define e f where "e = key_off fk fv kvs (Suc ?i)" and "f = val_off fk fv kvs (Suc ?i)"
  define d2 d3 where "d2 = d + length k" and "d3 = d2 + length v"
  define E1 E2 F1 F2 where "E1 = ends (K0 + d) (map fst L)" and "E2 = ends (K1 + d2) (map fst R)" and "F1 = ends (V0 + d2) (map snd L)" and "F2 = ends (V1 + d3) (map snd R)"
  have o: "key_off fk fv kvs 0 = K0 + d" "e = K1 + d2" "val_off fk fv kvs 0 = V0 + d2" "f = V1 + d3"
    by (simp_all add: kvs_def e_def f_def K0_def K1_def V0_def V1_def d_def d2_def d3_def key_off_def val_off_def data_start_def)
  have p0: "leaf_bytes b fk fv kvs @ rest = leaf_head b ?n @ ptr_bytes fk (E1 @ e # E2) @ ptr_bytes fv (F1 @ f # F2) @ C"
    unfolding kvs_def leaf_bytes_mid2 C_def E1_def E2_def F1_def F2_def using o by (simp add: kvs_def e_def f_def)
  have n: "?n < 2 ^ 16" "?n = ?i + 1 + length R" using wf by (simp_all add: kvs_def leaf_wf_def)
  have l: "length E1 = ?i" "length E2 = length R" "length F1 = ?i" "length F2 = length R" by (simp_all add: E1_def E2_def F1_def F2_def)
  have tot: "V1 + d3 + length (concat (map snd R)) = leaf_size fk fv kvs" "K1 + d2 + length (concat (map fst R)) = V0 + d2" "K0 + length (concat (map fst L)) = K1"
    "V0 + length (concat (map snd L)) = V1" "leaf_size fk fv kvs < 2 ^ 32"
    using wf by (simp_all add: kvs_def K0_def K1_def V0_def V1_def d_def d2_def d3_def key_off_def val_off_def data_start_def leaf_wf_def)
  have bounds: "\<forall>p\<in>set E1. d \<le> p \<and> p < 2 ^ 32" "\<forall>p\<in>set E2. d2 \<le> p \<and> p < 2 ^ 32" "\<forall>p\<in>set F1. d2 \<le> p \<and> p < 2 ^ 32" "\<forall>p\<in>set F2. d3 \<le> p \<and> p < 2 ^ 32"
    using tot unfolding E1_def E2_def F1_def F2_def d3_def d2_def by (auto dest!: ends_bound)
  have in': "in_u32 (- int x) p" if "x \<le> p" "p < 2 ^ 32" for x p using that by (simp add: in_u32_def)
  have ab: "\<bar>- int d\<bar> < 2 ^ 62" "\<bar>- int d2\<bar> < 2 ^ 62" "\<bar>- int d3\<bar> < 2 ^ 62" using tot by (auto simp: d2_def d3_def)
  have s1: "for_each [0..<?i] (\<lambda>j page. do { page \<leftarrow> update_key_end fk j (- int d) page; update_value_end fk fv j (- int d2) page })
      (leaf_head b ?n @ ptr_bytes fk (E1 @ e # E2) @ ptr_bytes fv (F1 @ f # F2) @ C)
    = ok (leaf_head b ?n @ ptr_bytes fk (bump_range 0 ?i (- int d) (E1 @ e # E2)) @ ptr_bytes fv (bump_range 0 ?i (- int d2) (F1 @ f # F2)) @ C)"
    by (rule update_ptrs_ok [OF _ _ n(1) _ _ _ ab(1,2)]) (use l n(2) bounds in' in \<open>auto simp: nth_append\<close>)
  have s2: "for_each [?i + 1..<?n] (\<lambda>j page. do { page \<leftarrow> update_key_end fk j (- int d2) page; update_value_end fk fv j (- int d3) page })
      (leaf_head b ?n @ ptr_bytes fk (bump_range 0 ?i (- int d) (E1 @ e # E2)) @ ptr_bytes fv (bump_range 0 ?i (- int d2) (F1 @ f # F2)) @ C)
    = ok (leaf_head b ?n @ ptr_bytes fk (bump_range (?i + 1) ?n (- int d2) (bump_range 0 ?i (- int d) (E1 @ e # E2)))
        @ ptr_bytes fv (bump_range (?i + 1) ?n (- int d3) (bump_range 0 ?i (- int d2) (F1 @ f # F2))) @ C)"
  proof (rule update_ptrs_ok [OF _ _ n(1) _ _ _ ab(2,3)])
    fix j assume j: "?i + 1 \<le> j" "j < ?n"
    define m where "m = j - Suc ?i"
    have m: "j = Suc (?i + m)" "m < length R" using j n(2) by (auto simp: m_def)
    have "bump_range 0 ?i x (E1 @ e # E2) ! j = E2 ! m" "bump_range 0 ?i x (F1 @ f # F2) ! j = F2 ! m" for x
      using l m by (simp_all add: bump_parts nth_append)
    moreover have "E2 ! m \<in> set E2" "F2 ! m \<in> set F2" using m(2) l by simp_all
    ultimately show "in_u32 (- int d2) (bump_range 0 ?i (- int d) (E1 @ e # E2) ! j) \<and> in_u32 (- int d3) (bump_range 0 ?i (- int d2) (F1 @ f # F2) ! j)"
      using bounds(2,4) in' by simp
  qed (use l n(2) in auto)
  show ?thesis unfolding p0 d2_def [symmetric] d3_def [symmetric] s1 bind.bind_lunit s2 bump_mid [OF l(1,2) n(2)] bump_mid [OF l(3,4) n(2)]
    unfolding E1_def E2_def F1_def F2_def bump_ends_minus K0_def [symmetric] K1_def [symmetric] V0_def [symmetric] V1_def [symmetric] e_def [symmetric] f_def [symmetric] C_def
    by (simp add: ptr_bytes_def)
qed

lemma lm_remove_ok:
  assumes rep: "leaf_rep fk fv (L @ (k, v) # R) page" and ne: "L @ R \<noteq> []"
  shows "\<exists>page'. lm_remove fk fv (length L) page = ok page' \<and> leaf_rep fk fv (L @ R) page' \<and> length page' = length page"
proof -
  define kvs where "kvs = L @ (k, v) # R" let ?i = "length L"
  define N where "N = length kvs"
  obtain b rest where p: "page = leaf_bytes b fk fv kvs @ rest" "leaf_wf fk fv kvs" using leaf_repE [OF rep] unfolding kvs_def .
  define K V d where "K = ptr_size fk" and "V = ptr_size fv" and "d = K + V"
  define ks ke vs ve le where "ks = key_off fk fv kvs ?i" and "ke = key_off fk fv kvs (Suc ?i)" and "vs = val_off fk fv kvs ?i" and "ve = val_off fk fv kvs (Suc ?i)" and "le = leaf_size fk fv kvs"
  define kl kr vl vr where "kl = concat (map fst L)" and "kr = concat (map fst R)" and "vl = concat (map snd L)" and "vr = concat (map snd R)"
  define P1 P2 where "P1 = ptr_bytes fk (ends (key_off fk fv (L @ R) 0) (map fst L))" and "P2 = ptr_bytes fk (ends (key_off fk fv (L @ R) ?i) (map fst R))"
  define Q1 Q2 where "Q1 = ptr_bytes fv (ends (val_off fk fv (L @ R) 0) (map snd L))" and "Q2 = ptr_bytes fv (ends (val_off fk fv (L @ R) ?i) (map snd R))"
  define pk pv where "pk = ptr_bytes fk [ke]" and "pv = ptr_bytes fv [ve]"
  define H where "H = leaf_head b (N - 1)"
  have NN: "N = ?i + 1 + length R" "1 < N" "N < 2 ^ 16" using ne p(2) by (auto simp: N_def kvs_def leaf_wf_def)
  have lens: "length P1 = K * ?i" "length P2 = K * length R" "length Q1 = V * ?i" "length Q2 = V * length R" "length H = 4" "length pk = K" "length pv = V"
    by (simp_all add: P1_def P2_def Q1_def Q2_def length_ptr_bytes K_def V_def H_def pk_def pv_def)
  have o: "ks = 4 + K * N + V * N + length kl" "ke = ks + length k" "vs = ke + length kr + length vl" "ve = vs + length v" "le = ve + length vr"
    by (simp_all add: ks_def ke_def vs_def ve_def le_def key_off_def val_off_def data_start_def K_def V_def N_def kl_def kr_def vl_def vr_def kvs_def)
  have le: "le < 2 ^ 32" using p(2) by (simp add: le_def leaf_wf_def)
  obtain pg where lp: "for_each [0..<?i] (\<lambda>j page. do { page \<leftarrow> update_key_end fk j (- int d) page; update_value_end fk fv j (- int (d + length k)) page }) page = ok pg"
    "for_each [?i + 1..<N] (\<lambda>j page. do { page \<leftarrow> update_key_end fk j (- int (d + length k)) page; update_value_end fk fv j (- int (d + length k + length v)) page }) pg
     = ok (leaf_head b N @ P1 @ pk @ P2 @ Q1 @ pv @ Q2 @ kl @ k @ kr @ vl @ v @ vr @ rest)"
    using remove_pointers_ok [OF p(2) [unfolded kvs_def], of b rest] p(1) unfolding bind_ok_iff
    by (auto simp: N_def K_def V_def d_def P1_def P2_def Q1_def Q2_def pk_def pv_def ke_def ve_def kl_def kr_def vl_def vr_def kvs_def)
  define A4 A3 A2 A1 where "A4 = H @ P1" and "A3 = H @ P1 @ P2 @ Q1" and "A2 = H @ P1 @ P2 @ Q1 @ Q2 @ kl" and "A1 = H @ P1 @ P2 @ Q1 @ Q2 @ kl @ kr @ vl"
  define D3 D2 D1 where "D3 = 4 + K * (N - 1) + V * ?i" and "D2 = D3 + V * length R + length kl" and "D1 = D2 + length kr + length vl"
  have la: "length A4 = 4 + K * ?i" "length A3 = D3" "length A2 = D2" "length A1 = D1"
    using NN(1) by (simp_all add: A4_def A3_def A2_def A1_def lens D3_def D2_def D1_def distrib_left)
  have tail: "D2 + d = ks" "D1 + d + length k = vs" using NN(1) o by (auto simp: D2_def D3_def D1_def d_def distrib_left)
  have m1: "4 + K * (?i + 1) = length A4 + length pk" "4 + K * N + V * ?i = 4 + K * (?i + 1) + length (P2 @ Q1)" "4 + K * ?i = length A4"
    using la lens NN(1) by (simp_all add: distrib_left)
  obtain X1 where s1: "length X1 = length pk" "copy_within (A4 @ pk @ (P2 @ Q1) @ pv @ (Q2 @ kl) @ k @ (kr @ vl) @ v @ vr @ rest) (4 + K * (?i + 1)) (4 + K * N + V * ?i) (4 + K * ?i)
      = ok (A4 @ (P2 @ Q1) @ X1 @ pv @ (Q2 @ kl) @ k @ (kr @ vl) @ v @ vr @ rest)"
    using move_left [OF m1] by blast
  have m2: "4 + K * N + V * (?i + 1) = length A3 + length (X1 @ pv)" "ks = 4 + K * N + V * (?i + 1) + length (Q2 @ kl)" "D3 = length A3"
    using la lens NN(1) s1(1) o(1) by (simp_all add: distrib_left D3_def)
  obtain X2 where s2: "length X2 = length (X1 @ pv)" "copy_within (A3 @ (X1 @ pv) @ (Q2 @ kl) @ k @ (kr @ vl) @ v @ vr @ rest) (4 + K * N + V * (?i + 1)) ks D3
      = ok (A3 @ (Q2 @ kl) @ X2 @ k @ (kr @ vl) @ v @ vr @ rest)" using move_left [OF m2] by blast
  have m3: "ke = length A2 + length (X2 @ k)" "vs = ke + length (kr @ vl)" "D2 = length A2" using la lens s1(1) s2(1) o tail by (simp_all add: d_def)
  obtain X3 where s3: "length X3 = length (X2 @ k)" "copy_within (A2 @ (X2 @ k) @ (kr @ vl) @ v @ vr @ rest) ke vs D2 = ok (A2 @ (kr @ vl) @ X3 @ v @ vr @ rest)"
    using move_left [OF m3] by blast
  have m4: "ve = length A1 + length (X3 @ v)" "le = ve + length vr" "D1 = length A1" using la lens s1(1) s2(1) s3(1) o tail by (simp_all add: d_def)
  obtain X4 where s4: "length X4 = length (X3 @ v)" "copy_within (A1 @ (X3 @ v) @ vr @ rest) ve le D1 = ok (A1 @ vr @ X4 @ rest)"
    using move_left [OF m4] by blast
  define a0 where "a0 = acc fk fv kvs page"
  have i: "?i < length kvs" "?i \<le> length kvs" "N - 1 < length kvs" using NN by (simp_all add: N_def)
  note rep' = rep [folded kvs_def]
  have sn: "Suc (length kvs - Suc 0) = length kvs" using NN(2) by (simp add: N_def)
  have ac: "la_new page fk fv = ok a0" "la_num_pairs a0 = N" "unwrap (la_key_start a0 ?i) = ok ks" "unwrap (la_key_end a0 ?i) = ok ke"
    "unwrap (la_value_start a0 ?i) = ok vs" "unwrap (la_value_end a0 ?i) = ok ve" "unwrap (la_value_end a0 (N - 1)) = ok le"
    using la_new_ok [OF rep'] la_key_start_ok(1) [OF rep' i(2)] la_key_end_ok(1) [OF rep' i(1)] la_value_start_ok(1) [OF rep' i(2)] la_value_end_ok(1) [OF rep' i(1)]
      la_value_end_ok(1) [OF rep' i(3)]
    by (simp_all add: sn a0_def N_def ks_def ke_def vs_def ve_def le_def)
  have z: "(if fk = None then 4 else 0) = K" "(if fv = None then 4 else 0) = V" "K + V = d" by (simp_all add: K_def V_def d_def ptr_size_def)
  have d8: "d \<le> 8" by (simp add: d_def K_def V_def ptr_size_def)
  have c: "csub ke ks = ok (length k)" "csub ve vs = ok (length v)" "to_isize d = ok (int d)" "to_isize (length k) = ok (int (length k))" "to_isize (length v) = ok (int (length v))"
    "ciadd (- int d) (- int (length k)) = ok (- int (d + length k))" "ciadd (- int (d + length k)) (- int (length v)) = ok (- int (d + length k + length v))"
    "try_into 16 (N - 1) = ok (N - 1)" "csub (4 + K * N + V * ?i) (4 + K * (?i + 1)) = ok (K * length R + V * ?i)"
    "csub ks (4 + K * N + V * (?i + 1)) = ok (V * length R + length kl)" "csub ks (4 + d * N) = ok (length kl)" "csub vs ke = ok (length kr + length vl)"
    "csub vs (4 + d * N) = ok (length kl + length k + length kr + length vl)" "csub (length kl + length k + length kr + length vl) (length k) = ok (length kl + length kr + length vl)"
    using o le d8 NN by (auto simp: csub_def to_isize_def ciadd_def try_into_def d_def algebra_simps)
  have as: "?i < N" "N > 1" "4 + K * ?i + (K * length R + V * ?i) = 4 + K * (N - 1) + V * ?i"
    "4 + K * ?i + (K * length R + V * ?i) + (V * length R + length kl) = 4 + d * (N - 1) + length kl"
    "4 + K * ?i + (K * length R + V * ?i) + (V * length R + length kl) + (length kr + length vl) = 4 + d * (N - 1) + (length kl + length kr + length vl)"
    using NN by (auto simp: d_def algebra_simps)
  have dd: "4 + K * ?i + (K * length R + V * ?i) = D3" "D3 + (V * length R + length kl) = D2" "D2 + (length kr + length vl) = D1"
    using NN by (auto simp: D3_def D2_def D1_def algebra_simps)
  have w0: "write_at (leaf_head b N @ P1 @ pk @ P2 @ Q1 @ pv @ Q2 @ kl @ k @ kr @ vl @ v @ vr @ rest) 2 (le_bytes 2 (N - 1))
      = ok (A4 @ pk @ (P2 @ Q1) @ pv @ (Q2 @ kl) @ k @ (kr @ vl) @ v @ vr @ rest)" by (simp add: leaf_head_write A4_def H_def)
  have s1': "copy_within (A4 @ pk @ (P2 @ Q1) @ pv @ (Q2 @ kl) @ k @ (kr @ vl) @ v @ vr @ rest) (4 + K * (?i + 1)) (4 + K * N + V * ?i) (4 + K * ?i)
      = ok (A3 @ (X1 @ pv) @ (Q2 @ kl) @ k @ (kr @ vl) @ v @ vr @ rest)" using s1(2) by (simp add: A3_def A4_def)
  have s2': "copy_within (A3 @ (X1 @ pv) @ (Q2 @ kl) @ k @ (kr @ vl) @ v @ vr @ rest) (4 + K * N + V * (?i + 1)) ks D3 = ok (A2 @ (X2 @ k) @ (kr @ vl) @ v @ vr @ rest)"
    using s2(2) by (simp add: A2_def A3_def)
  have s3': "copy_within (A2 @ (X2 @ k) @ (kr @ vl) @ v @ vr @ rest) ke vs D2 = ok (A1 @ (X3 @ v) @ vr @ rest)" using s3(2) by (simp add: A1_def A2_def)
  have "lm_remove fk fv ?i page = ok (A1 @ vr @ X4 @ rest)"
    unfolding lm_remove_def lm_new_ok [OF rep] ac bind.bind_lunit Let_def z assert_that_bind [OF as(1)] assert_that_bind [OF as(2)] c lp w0
    unfolding s1' bind.bind_lunit c dd s2' s3' s4(2) using as(3-5) [unfolded dd] by simp
  moreover have "A1 @ vr @ X4 @ rest = leaf_bytes b fk fv (L @ R) @ X4 @ rest"
    unfolding leaf_bytes_split A1_def H_def P1_def P2_def Q1_def Q2_def kl_def kr_def vl_def vr_def ptr_bytes_append using NN(1) by simp
  moreover have "leaf_wf fk fv (L @ R)" using p(2) ne unfolding kvs_def
    by (auto simp: leaf_wf_def widths_def val_off_def data_start_def ptr_size_def split: if_splits)
  moreover have "length (A1 @ vr @ X4 @ rest) = length page"
    using s4(1) s3(1) s2(1) s1(1) lens la tail o p(1) length_leaf_bytes [of b fk fv kvs] by (simp add: le_def d_def)
  ultimately show ?thesis unfolding leaf_rep_def by blast
qed

end
