(* ===== verification/Leaf_Removal.thy ===== *)
theory Leaf_Removal
  imports Leaf_Mutator
begin

text \<open>
  Removing several pairs from a leaf in one pass, \<open>LeafMutator::remove_indices\<close> of \<open>src/tree_store/btree_base.rs\<close>.
  The page is seen as a sequence of blocks (pointers, keys, values), some of which are holes; compaction moves every run of
  kept blocks to the left once.
\<close>

subsection \<open>Compacting blocks\<close>

fun holes :: "nat \<Rightarrow> (bool \<times> byte list) list \<Rightarrow> (nat \<times> nat) list" where
  "holes off [] = []"
| "holes off ((hole, x) # bs) = (if hole then [(off, off + length x)] else []) @ holes (off + length x) bs"

definition kept_bytes :: "(bool \<times> byte list) list \<Rightarrow> byte list" where
  "kept_bytes bs = concat (map snd (filter (\<lambda>b. \<not> fst b) bs))"

text \<open>The state of a compaction: \<open>D\<close> is compacted, \<open>X\<close> free, and \<open>S\<close> is kept but not moved yet.\<close>

definition compacting :: "byte list \<Rightarrow> byte list \<Rightarrow> byte list \<Rightarrow> byte list \<Rightarrow> byte list \<times> nat \<times> nat \<Rightarrow> bool" where
  "compacting D X S T st \<longleftrightarrow> st = (D @ X @ S @ T, length D + length X, length D)"

lemma compact_hole:
  assumes "compacting D X S (x @ T) st" "h = length (D @ X @ S)"
  shows "\<exists>X' st'. compact_before_hole (h, h + length x) st = ok st' \<and> compacting (D @ S) X' [] T st' \<and> length X' = length X + length x"
proof -
  have e: "st = (D @ X @ S @ x @ T, length D + length X, length D)" using assms(1) by (simp add: compacting_def)
  obtain X1 where X1: "length X1 = length X" "copy_within (D @ X @ S @ x @ T) (length D + length X) h (length D) = ok (D @ S @ X1 @ x @ T)"
    using move_left [of "length D + length X" D X h S "length D" "x @ T"] assms(2) by auto
  show ?thesis
  proof (cases "S = [] \<or> X = []")
    case True
    then show ?thesis using assms(2)
      by (intro exI [of _ "X @ x"] exI [of _ "((D @ S) @ (X @ x) @ T, h + length x, length (D @ S))"])
         (auto simp: e compact_before_hole_def compacting_def)
  next
    case False
    then show ?thesis using assms(2) X1
      by (intro exI [of _ "X1 @ x"] exI [of _ "((D @ S) @ (X1 @ x) @ T, h + length x, length (D @ S))"])
         (auto simp: e compact_before_hole_def compacting_def)
  qed
qed

lemma compact_blocks:
  assumes "compacting D X S (concat (map snd bs) @ T) st" "off = length (D @ X @ S)"
  shows "\<exists>D' X' S' st'. for_each (holes off bs) compact_before_hole st = ok st' \<and> compacting D' X' S' T st' \<and> D' @ S' = D @ S @ kept_bytes bs
    \<and> length (D' @ X' @ S') = length (D @ X @ S @ concat (map snd bs))"
  using assms
proof (induction bs arbitrary: D X S st off)
  case Nil
  then show ?case by (auto simp: kept_bytes_def)
next
  case (Cons b bs)
  obtain hole x where b: "b = (hole, x)" by (cases b)
  show ?case
  proof (cases hole)
    case True
    have c: "compacting D X S (x @ concat (map snd bs) @ T) st" using Cons.prems(1) b by simp
    from compact_hole [OF c Cons.prems(2)] obtain X1 st1 where s: "compact_before_hole (off, off + length x) st = ok st1"
      "compacting (D @ S) X1 [] (concat (map snd bs) @ T) st1" "length X1 = length X + length x" by blast
    have "off + length x = length ((D @ S) @ X1 @ [])" using s(3) Cons.prems(2) by simp
    from Cons.IH [OF s(2) this] obtain D' X' S' st' where "for_each (holes (off + length x) bs) compact_before_hole st1 = ok st'"
      "compacting D' X' S' T st'" "D' @ S' = (D @ S) @ [] @ kept_bytes bs" "length (D' @ X' @ S') = length ((D @ S) @ X1 @ [] @ concat (map snd bs))" by blast
    then show ?thesis using True b s(1,3) by (intro exI [of _ D'] exI [of _ X'] exI [of _ S'] exI [of _ st']) (simp add: kept_bytes_def)
  next
    case False
    have c: "compacting D X (S @ x) (concat (map snd bs) @ T) st" using Cons.prems(1) b by (simp add: compacting_def)
    have "off + length x = length (D @ X @ S @ x)" using Cons.prems(2) by simp
    from Cons.IH [OF c this] obtain D' X' S' st' where "for_each (holes (off + length x) bs) compact_before_hole st = ok st'"
      "compacting D' X' S' T st'" "D' @ S' = D @ (S @ x) @ kept_bytes bs" "length (D' @ X' @ S') = length (D @ X @ (S @ x) @ concat (map snd bs))" by blast
    then show ?thesis using False b by (intro exI [of _ D'] exI [of _ X'] exI [of _ S'] exI [of _ st']) (simp add: kept_bytes_def)
  qed
qed

lemma compact_tail_ok:
  assumes "compacting D X S T st" "stop = length (D @ X @ S)"
  shows "\<exists>X' src. compact_tail stop st = ok (D @ S @ X' @ T, src, length (D @ S)) \<and> length X' = length X"
proof -
  have e: "st = (D @ X @ S @ T, length D + length X, length D)" using assms(1) by (simp add: compacting_def)
  obtain X1 where X1: "length X1 = length X" "copy_within (D @ X @ S @ T) (length D + length X) stop (length D) = ok (D @ S @ X1 @ T)"
    using move_left [of "length D + length X" D X stop S "length D" T] assms(2) by auto
  then show ?thesis using assms(2) by (cases "S = []"; cases "X = []") (auto simp: e compact_tail_def)
qed

subsection \<open>Lists without some indexes\<close>

abbreviation flags :: "nat set \<Rightarrow> nat \<Rightarrow> bool list" where
  "flags I n \<equiv> map (\<lambda>i. i \<in> I) [0..<n]"

abbreviation only_indexes :: "nat set \<Rightarrow> 'a list \<Rightarrow> 'a list" where
  "only_indexes I xs \<equiv> without_indexes (- I) xs"

lemma kept_bytes_without: "length xs = n \<Longrightarrow> kept_bytes (zip (flags I n) xs) = concat (without_indexes I xs)"
proof (induction xs arbitrary: n rule: rev_induct)
  case (snoc x xs)
  then show ?case by (cases n) (auto simp: kept_bytes_def without_indexes_append)
qed (simp add: kept_bytes_def without_indexes_def)

lemma holes_append: "holes off (as @ bs) = holes off as @ holes (off + length (concat (map snd as))) bs"
  by (induction off as rule: holes.induct) (auto simp: add.assoc)

lemma holes_flags:
  "length xs = n \<Longrightarrow> holes off (zip (flags I n) xs) =
    map (\<lambda>j. (off + length (concat (take j xs)), off + length (concat (take (Suc j) xs)))) (filter (\<lambda>j. j \<in> I) [0..<n])"
proof (induction xs arbitrary: n rule: rev_induct)
  case (snoc x xs)
  then obtain m where m: "n = Suc m" "length xs = m" by auto
  have "map (\<lambda>j. (off + length (concat (take j (xs @ [x]))), off + length (concat (take (Suc j) (xs @ [x]))))) (filter (\<lambda>j. j \<in> I) [0..<m])
      = map (\<lambda>j. (off + length (concat (take j xs)), off + length (concat (take (Suc j) xs)))) (filter (\<lambda>j. j \<in> I) [0..<m])"
    using m by (intro map_cong) auto
  then show ?case using snoc.IH [of m] m by (simp add: holes_append)
qed simp

lemma ascending_filter:
  assumes "strictly_ascending xs" "\<forall>i\<in>set xs. i < n"
  shows "filter (\<lambda>j. j \<in> set xs) [0..<n] = xs"
proof -
  have s: "sorted_wrt (<) xs" using assms(1) by (induction xs) (auto simp: strictly_ascending_Cons)
  show ?thesis
  proof (rule sorted_distinct_set_unique)
    show "sorted xs" "distinct xs" using s by (auto simp: strict_sorted_iff)
    show "set (filter (\<lambda>j. j \<in> set xs) [0..<n]) = set xs" using assms(2) by auto
  qed (auto intro: sorted_filter [of "\<lambda>x. x", simplified])
qed

lemma without_Nil [simp]: "without_indexes I [] = []"
  by (simp add: without_indexes_def)

lemma length_without: "length (without_indexes I xs) + length (filter (\<lambda>j. j \<in> I) [0..<length xs]) = length xs"
  by (induction xs rule: rev_induct) (auto simp: without_indexes_append)

lemma without_split: "length (concat (without_indexes I xs)) + length (concat (only_indexes I xs)) = length (concat xs)"
  by (induction xs rule: rev_induct) (auto simp: without_indexes_append)

lemma without_map: "without_indexes I (map f xs) = map f (without_indexes I xs)"
  by (induction xs rule: rev_induct) (auto simp: without_indexes_append)

lemma set_without: "set (without_indexes I xs) \<subseteq> set xs"
  by (auto simp: without_indexes_def in_set_enumerate_eq)

lemma ends_without:
  assumes "length ps = length xs" "\<And>i. i < length xs \<Longrightarrow> i \<notin> I \<Longrightarrow> ps ! i = o' + length (concat (without_indexes I (take (Suc i) xs)))"
  shows "without_indexes I ps = ends o' (without_indexes I xs)"
  using assms
proof (induction xs arbitrary: ps rule: rev_induct)
  case (snoc x xs)
  then obtain qs q where p: "ps = qs @ [q]" "length qs = length xs" by (metis append_butlast_last_id length_butlast length_append_singleton diff_Suc_1 length_0_conv nat.distinct(1))
  have "without_indexes I qs = ends o' (without_indexes I xs)"
  proof (rule snoc.IH [OF p(2)])
    fix i assume i: "i < length xs" "i \<notin> I"
    then show "qs ! i = o' + length (concat (without_indexes I (take (Suc i) xs)))"
      using snoc.prems(2) [of i] p by (simp add: nth_append)
  qed
  moreover have "length xs \<notin> I \<Longrightarrow> q = o' + length (concat (without_indexes I (xs @ [x])))"
    using snoc.prems(2) [of "length xs"] p by (simp add: nth_append)
  ultimately show ?case using p by (auto simp: without_indexes_append ends_append)
qed (simp add: without_indexes_def)

lemma upt_split: "i < n \<Longrightarrow> [0..<n] = [0..<i] @ i # [Suc i..<n]"
  using upt_add_eq_append [of 0 i "n - i"] upt_conv_Cons [of i n] by simp

lemma index_count:
  assumes "i < n" "xs = filter P [0..<n]" "c = length (filter P [0..<i])"
  shows "c < length xs \<and> xs ! c = i \<longleftrightarrow> P i"
proof -
  have e: "xs = filter P [0..<i] @ (if P i then [i] else []) @ filter P [Suc i..<n]" using assms(1,2) upt_split [OF assms(1)] by simp
  show ?thesis
  proof (cases "P i")
    case False
    have "xs ! c \<in> set (filter P [Suc i..<n])" if "c < length xs"
      using that nth_mem [of 0 "filter P [Suc i..<n]"] unfolding e assms(3) using False by (simp add: nth_append)
    then show ?thesis using False by auto
  qed (simp add: e assms(3))
qed

lemma only_split: "length (concat (without_indexes I (take i xs))) + length (concat (only_indexes I (take i xs))) = length (concat (take i xs))"
  by (rule without_split)

lemma only_take_Suc:
  "i < length xs \<Longrightarrow> length (concat (only_indexes I (take (Suc i) xs))) = length (concat (only_indexes I (take i xs))) + (if i \<in> I then length (xs ! i) else 0)"
  by (simp add: take_Suc_conv_app_nth without_indexes_append min_def)

text \<open>The pointers after the first \<open>i\<close> steps of \<open>update_removed_indices\<close>: those of kept pairs have their new value.\<close>

definition new_ptr :: "nat set \<Rightarrow> nat \<Rightarrow> byte list list \<Rightarrow> nat \<Rightarrow> nat" where
  "new_ptr I start xs j = start + length (concat (without_indexes I (take (Suc j) xs)))"

definition ptrs_at :: "nat set \<Rightarrow> nat \<Rightarrow> nat \<Rightarrow> byte list list \<Rightarrow> nat \<Rightarrow> nat list" where
  "ptrs_at I old new xs i = map (\<lambda>j. if j < i \<and> j \<notin> I then new_ptr I new xs j else ends old xs ! j) [0..<length xs]"

lemma ptrs_at_0: "ptrs_at I old new xs 0 = ends old xs"
  by (auto simp: ptrs_at_def intro: nth_equalityI)

lemma ptrs_at_skip: "i \<in> I \<Longrightarrow> ptrs_at I old new xs (Suc i) = ptrs_at I old new xs i"
  by (auto simp: ptrs_at_def less_Suc_eq)

lemma ptrs_at_step:
  assumes "i < length xs" "i \<notin> I" "old = new + r"
  shows "length (ptrs_at I old new xs i) = length xs" "bump (- int (r + length (concat (only_indexes I (take i xs))))) (ptrs_at I old new xs i ! i) = new_ptr I new xs i"
    "(ptrs_at I old new xs i)[i := new_ptr I new xs i] = ptrs_at I old new xs (Suc i)"
    "ptrs_at I old new xs i ! i = old + length (concat (take (Suc i) xs))"
proof -
  show l: "length (ptrs_at I old new xs i) = length xs" by (simp add: ptrs_at_def)
  show v: "ptrs_at I old new xs i ! i = old + length (concat (take (Suc i) xs))" using assms(1) by (simp add: ptrs_at_def nth_ends)
  have "length (concat (take (Suc i) xs)) = length (concat (without_indexes I (take (Suc i) xs))) + length (concat (only_indexes I (take i xs)))"
    using only_split [of I "Suc i" xs] only_take_Suc [OF assms(1), of I] assms(2) by simp
  then show "bump (- int (r + length (concat (only_indexes I (take i xs))))) (ptrs_at I old new xs i ! i) = new_ptr I new xs i"
    unfolding v new_ptr_def by (simp add: bump_def assms(3))
  show "(ptrs_at I old new xs i)[i := new_ptr I new xs i] = ptrs_at I old new xs (Suc i)"
    by (rule nth_equalityI) (use assms(1,2) in \<open>auto simp: ptrs_at_def nth_list_update less_Suc_eq\<close>)
qed

lemma ptrs_at_end: "without_indexes I (ptrs_at I old new xs (length xs)) = ends new (without_indexes I xs)"
  by (rule ends_without) (simp_all add: ptrs_at_def new_ptr_def)

subsection \<open>Removing pairs\<close>

text \<open>The ranges that \<open>remove_indices\<close> collects.\<close>

definition ranges_of :: "nat option \<Rightarrow> nat option \<Rightarrow> (byte list \<times> byte list) list \<Rightarrow> nat list \<Rightarrow> removed_leaf_ranges" where
  "ranges_of fk fv kvs ixs = \<lparr>rr_indices = ixs, rr_key_ranges = map (\<lambda>j. (key_off fk fv kvs j, key_off fk fv kvs (Suc j))) ixs,
     rr_value_ranges = map (\<lambda>j. (val_off fk fv kvs j, val_off fk fv kvs (Suc j))) ixs,
     rr_key_bytes = length (concat (only_indexes (set ixs) (map fst kvs))), rr_value_bytes = length (concat (only_indexes (set ixs) (map snd kvs))),
     rr_old_total_len = leaf_size fk fv kvs, rr_num_pairs = length kvs\<rparr>"

lemma ptr_bytes_fixed [simp]: "ptr_bytes (Some w) ps = []"
  by (simp add: ptr_bytes_def)

lemma range_len_off: "j < length kvs \<Longrightarrow> range_len (key_off fk fv kvs j, key_off fk fv kvs (Suc j)) = length (fst (kvs ! j))"
  "j < length kvs \<Longrightarrow> range_len (val_off fk fv kvs j, val_off fk fv kvs (Suc j)) = length (snd (kvs ! j))"
  by (simp_all add: range_len_def key_off_def val_off_def concat_take_Suc)

lemma update_one:
  fixes r :: nat
  assumes "p < 2 ^ 32" "r \<le> p"
  shows "in_u32 (- int r) p" "\<bar>- int r\<bar> < 2 ^ 62" "to_isize r = ok (int r)"
  using assms by (auto simp: in_u32_def to_isize_def)

lemma update_removed_ok:
  assumes wf: "leaf_wf fk fv kvs" and ixs: "ixs = filter (\<lambda>j. j \<in> I) [0..<length kvs]" "I = set ixs"
    and K0: "key_off fk fv kvs 0 = K' + r" and V0: "val_off fk fv kvs 0 = V' + (r + length (concat (only_indexes I (map fst kvs))))"
  shows "update_removed_indices fk fv r (ranges_of fk fv kvs ixs) (leaf_bytes b fk fv kvs @ rest) = ok (leaf_head b (length kvs)
     @ ptr_bytes fk (ptrs_at I (key_off fk fv kvs 0) K' (map fst kvs) (length kvs)) @ ptr_bytes fv (ptrs_at I (val_off fk fv kvs 0) V' (map snd kvs) (length kvs))
     @ concat (map fst kvs) @ concat (map snd kvs) @ rest)"
proof -
  let ?n = "length kvs" let ?R = "ranges_of fk fv kvs ixs"
  define ks vs where "ks = map fst kvs" and "vs = map snd kvs"
  define kb where "kb = length (concat (only_indexes I ks))"
  define C where "C = concat ks @ concat vs @ rest"
  define kp where "kp = ptrs_at I (key_off fk fv kvs 0) K' ks" define vp where "vp = ptrs_at I (val_off fk fv kvs 0) V' vs"
  define S where "S i = (leaf_head b ?n @ ptr_bytes fk (kp i) @ ptr_bytes fv (vp i) @ C, length (filter (\<lambda>j. j \<in> I) [0..<i]),
     length (concat (only_indexes I (take i ks))), length (concat (only_indexes I (take i vs))))" for i
  define body where "body = (\<lambda>i (page, removed, removed_key_bytes_before, removed_value_bytes_before).
       if removed < length (rr_indices ?R) \<and> rr_indices ?R ! removed = i then do {
         kr \<leftarrow> index (rr_key_ranges ?R) removed;
         vr \<leftarrow> index (rr_value_ranges ?R) removed;
         ok (page, removed + 1, removed_key_bytes_before + range_len kr, removed_value_bytes_before + range_len vr) }
       else do {
         page \<leftarrow> (if fk = None then do {
             d \<leftarrow> to_isize (r + removed_key_bytes_before);
             update_key_end fk i (- d) page } else ok page);
         page \<leftarrow> (if fv = None then do {
             d \<leftarrow> to_isize (r + rr_key_bytes ?R + removed_value_bytes_before);
             update_value_end fk fv i (- d) page } else ok page);
         ok (page, removed, removed_key_bytes_before, removed_value_bytes_before) })"
  note o = off_bounds [OF wf]
  have n: "?n < 2 ^ 16" "length ks = ?n" "length vs = ?n" "length (kp i) = ?n" "length (vp i) = ?n" for i using wf by (simp_all add: leaf_wf_def ks_def vs_def kp_def vp_def ptrs_at_def)
  have R: "rr_indices ?R = ixs" "rr_key_bytes ?R = kb" by (simp_all add: ranges_of_def kb_def ks_def ixs(2))
  have step: "body i (S i) = ok (S (Suc i))" if i: "i < ?n" for i
  proof (cases "i \<in> I")
    case True
    let ?c = "length (filter (\<lambda>j. j \<in> I) [0..<i])"
    have c: "?c < length ixs" "ixs ! ?c = i" using index_count [OF i ixs(1) refl] True by auto
    have "kp (Suc i) = kp i" "vp (Suc i) = vp i" using True by (simp_all add: kp_def vp_def ptrs_at_skip)
    moreover have "index (rr_key_ranges ?R) ?c = ok (key_off fk fv kvs i, key_off fk fv kvs (Suc i))" "index (rr_value_ranges ?R) ?c = ok (val_off fk fv kvs i, val_off fk fv kvs (Suc i))"
      using c by (simp_all add: ranges_of_def)
    ultimately show ?thesis using True c i range_len_off [OF i] n(2,3) only_take_Suc [of i ks I] only_take_Suc [of i vs I]
      by (simp add: body_def S_def R) (simp add: ks_def vs_def)
  next
    case False
    let ?c = "length (filter (\<lambda>j. j \<in> I) [0..<i])"
    have c: "\<not> (?c < length ixs \<and> ixs ! ?c = i)" using index_count [OF i ixs(1) refl] False by auto
    define kd vd where "kd = r + length (concat (only_indexes I (take i ks)))" and "vd = r + kb + length (concat (only_indexes I (take i vs)))"
    note K = ptrs_at_step [of i ks I "key_off fk fv kvs 0" K' r, folded kp_def kd_def] note V = ptrs_at_step [of i vs I "val_off fk fv kvs 0" V' "r + kb", folded vp_def vd_def]
    have kv: "i < length ks" "i < length vs" "key_off fk fv kvs 0 = K' + r" "val_off fk fv kvs 0 = V' + (r + kb)" using i n K0 V0 by (simp_all add: kb_def ks_def)
    note K = K [OF kv(1) False kv(3)] note V = V [OF kv(2) False kv(4)]
    have pk: "kp i ! i = key_off fk fv kvs (Suc i)" "vp i ! i = val_off fk fv kvs (Suc i)" using K(4) V(4) by (simp_all add: key_off_def val_off_def ks_def vs_def)
    have le: "kd \<le> kp i ! i" "vd \<le> vp i ! i"
      using K(4) V(4) kv(3,4) only_split [of I "Suc i" ks] only_split [of I "Suc i" vs] only_take_Suc [OF kv(1), of I] only_take_Suc [OF kv(2), of I] False by (simp_all add: kd_def vd_def)
    note u = update_one [OF o(1) [of "Suc i", folded pk] le(1)] note w = update_one [OF o(2) [of "Suc i", folded pk] le(2)]
    have uk: "update_key_end fk i (- int kd) (leaf_head b ?n @ ptr_bytes fk (kp i) @ ptr_bytes fv (vp i) @ C) = ok (leaf_head b ?n @ ptr_bytes fk (kp (Suc i)) @ ptr_bytes fv (vp i) @ C)"
      using update_key_end_ok [of "leaf_head b ?n" i "kp i" "- int kd" fk "ptr_bytes fv (vp i) @ C"] i n(4) u K(2,3) by simp
    have uv: "update_value_end fk fv i (- int vd) (leaf_head b ?n @ ptr_bytes fk (kp (Suc i)) @ ptr_bytes fv (vp i) @ C) = ok (leaf_head b ?n @ ptr_bytes fk (kp (Suc i)) @ ptr_bytes fv (vp (Suc i)) @ C)"
      using update_value_end_ok [of "kp (Suc i)" ?n i "vp i" "- int vd" fk fv b C] i n w V(2,3) by simp
    have "(if fk = None then do { d \<leftarrow> to_isize kd; update_key_end fk i (- d) (leaf_head b ?n @ ptr_bytes fk (kp i) @ ptr_bytes fv (vp i) @ C) } else ok (leaf_head b ?n @ ptr_bytes fk (kp i) @ ptr_bytes fv (vp i) @ C))
        = ok (leaf_head b ?n @ ptr_bytes fk (kp (Suc i)) @ ptr_bytes fv (vp i) @ C)" using uk u(3) by (cases fk) simp_all
    moreover have "(if fv = None then do { d \<leftarrow> to_isize vd; update_value_end fk fv i (- d) (leaf_head b ?n @ ptr_bytes fk (kp (Suc i)) @ ptr_bytes fv (vp i) @ C) } else ok (leaf_head b ?n @ ptr_bytes fk (kp (Suc i)) @ ptr_bytes fv (vp i) @ C))
        = ok (leaf_head b ?n @ ptr_bytes fk (kp (Suc i)) @ ptr_bytes fv (vp (Suc i)) @ C)" using uv w(3) by (cases fv) simp_all
    ultimately have "body i (S i) = ok (leaf_head b ?n @ ptr_bytes fk (kp (Suc i)) @ ptr_bytes fv (vp (Suc i)) @ C, ?c, length (concat (only_indexes I (take i ks))), length (concat (only_indexes I (take i vs))))"
      unfolding body_def S_def prod.case R kd_def [symmetric] vd_def [symmetric] using c by (simp only: if_False bind.bind_lunit)
    then show ?thesis using False only_take_Suc [OF kv(1), of I] only_take_Suc [OF kv(2), of I] by (simp add: S_def)
  qed
  have loop: "for_each [0..<?n] body (S 0) = ok (S ?n)"
    using for_each_inv [of "\<lambda>k u. u = S k" "S 0" "[0..<?n]" body] step by auto
  have S0: "S 0 = (leaf_bytes b fk fv kvs @ rest, 0, 0, 0)" by (simp add: S_def kp_def vp_def ptrs_at_0 leaf_bytes_def ks_def vs_def C_def)
  have np: "rr_num_pairs ?R = ?n" by (simp add: ranges_of_def)
  show ?thesis
    unfolding update_removed_indices_def np body_def [symmetric] S0 [symmetric] loop
    using ixs(1) by (simp add: S_def ranges_of_def C_def ks_def vs_def kp_def vp_def)
qed

text \<open>The page after the pointers are updated, as blocks.\<close>

definition leaf_blocks :: "nat option \<Rightarrow> nat option \<Rightarrow> nat set \<Rightarrow> nat list \<Rightarrow> nat list \<Rightarrow> (byte list \<times> byte list) list \<Rightarrow> (bool \<times> byte list) list" where
  "leaf_blocks fk fv I kp vp kvs = (if fk = None then zip (flags I (length kvs)) (map (le_bytes 4) kp) else [])
     @ (if fv = None then zip (flags I (length kvs)) (map (le_bytes 4) vp) else [])
     @ zip (flags I (length kvs)) (map fst kvs) @ zip (flags I (length kvs)) (map snd kvs)"

lemma map_snd_zip_flags: "length xs = n \<Longrightarrow> map snd (zip (flags I n) xs) = xs"
  by simp

lemma blocks_bytes:
  assumes "length kp = length kvs" "length vp = length kvs"
  shows "concat (map snd (leaf_blocks fk fv I kp vp kvs)) = ptr_bytes fk kp @ ptr_bytes fv vp @ concat (map fst kvs) @ concat (map snd kvs)"
    "kept_bytes (leaf_blocks fk fv I kp vp kvs) = ptr_bytes fk (without_indexes I kp) @ ptr_bytes fv (without_indexes I vp)
       @ concat (without_indexes I (map fst kvs)) @ concat (without_indexes I (map snd kvs))"
proof -
  have a: "kept_bytes (as @ bs) = kept_bytes as @ kept_bytes bs" "kept_bytes [] = []" for as bs by (simp_all add: kept_bytes_def)
  show "concat (map snd (leaf_blocks fk fv I kp vp kvs)) = ptr_bytes fk kp @ ptr_bytes fv vp @ concat (map fst kvs) @ concat (map snd kvs)"
    using assms by (cases fk; cases fv) (simp_all add: leaf_blocks_def ptr_bytes_def)
  show "kept_bytes (leaf_blocks fk fv I kp vp kvs) = ptr_bytes fk (without_indexes I kp) @ ptr_bytes fv (without_indexes I vp)
       @ concat (without_indexes I (map fst kvs)) @ concat (without_indexes I (map snd kvs))"
    using assms by (cases fk; cases fv) (simp_all add: leaf_blocks_def ptr_bytes_def a kept_bytes_without without_map)
qed

lemma words_take: "j \<le> length ps \<Longrightarrow> length (concat (take j (map (le_bytes 4) ps))) = 4 * j"
  by (simp add: take_map)

lemma holes_words:
  assumes "length ps = n" "ixs = filter (\<lambda>j. j \<in> I) [0..<n]"
  shows "holes off (zip (flags I n) (map (le_bytes 4) ps)) = map (\<lambda>j. (off + 4 * j, off + 4 * j + 4)) ixs"
proof -
  have "holes off (zip (flags I n) (map (le_bytes 4) ps)) = map (\<lambda>j. (off + length (concat (take j (map (le_bytes 4) ps))), off + length (concat (take (Suc j) (map (le_bytes 4) ps))))) ixs"
    using assms by (simp add: holes_flags)
  also have "\<dots> = map (\<lambda>j. (off + 4 * j, off + 4 * j + 4)) ixs"
    by (rule map_cong [OF refl]) (use assms in \<open>auto simp: words_take\<close>)
  finally show ?thesis .
qed

lemma for_each_map: "for_each (map f xs) body = for_each xs (\<lambda>x. body (f x))"
proof (induction xs)
  case (Cons x xs)
  then show ?case by (intro ext) simp
qed (simp add: fun_eq_iff)

lemma compact_all:
  fixes fk fv :: "nat option"
  assumes kp: "length kp = length kvs" "length vp = length kvs" and ixs: "ixs = filter (\<lambda>j. j \<in> I) [0..<length kvs]"
  defines "K \<equiv> ptr_size fk" and "V \<equiv> ptr_size fv" and "n \<equiv> length kvs"
  shows "do { st \<leftarrow> (if K \<noteq> 0 then for_each ixs (\<lambda>index. do { let start = 4 + K * index; compact_before_hole (start, start + K) }) st else ok st);
     st \<leftarrow> (if V \<noteq> 0 then do { let value_pointers_start = 4 + K * n;
         for_each ixs (\<lambda>index. do { let start = value_pointers_start + V * index; compact_before_hole (start, start + V) }) st } else ok st);
     st \<leftarrow> for_each (rr_key_ranges (ranges_of fk fv kvs ixs)) compact_before_hole st;
     for_each (rr_value_ranges (ranges_of fk fv kvs ixs)) compact_before_hole st }
   = for_each (holes 4 (leaf_blocks fk fv I kp vp kvs)) compact_before_hole st"
proof -
  let ?z = "zip (flags I n)"
  have k: "holes (data_start fk fv n) (?z (map fst kvs)) = rr_key_ranges (ranges_of fk fv kvs ixs)"
    using ixs by (simp add: holes_flags n_def ranges_of_def key_off_def)
  have v: "holes (data_start fk fv n + length (concat (map fst kvs))) (?z (map snd kvs)) = rr_value_ranges (ranges_of fk fv kvs ixs)"
    using ixs by (simp add: holes_flags n_def ranges_of_def val_off_def)
  have p: "holes off (?z (map (le_bytes 4) ps)) = map (\<lambda>j. (off + 4 * j, off + 4 * j + 4)) ixs" if "length ps = n" for off ps
    using holes_words [OF that] ixs by (simp add: n_def)
  have h: "holes 4 (leaf_blocks fk fv I kp vp kvs) = (if fk = None then map (\<lambda>j. (4 + 4 * j, 4 + 4 * j + 4)) ixs else [])
      @ (if fv = None then map (\<lambda>j. (4 + K * n + 4 * j, 4 + K * n + 4 * j + 4)) ixs else [])
      @ rr_key_ranges (ranges_of fk fv kvs ixs) @ rr_value_ranges (ranges_of fk fv kvs ixs)"
    unfolding leaf_blocks_def holes_append n_def [symmetric] k [symmetric] v [symmetric]
    using kp p by (auto simp: n_def K_def ptr_size_def data_start_def ac_simps)
  show ?thesis unfolding h for_each_append
    by (cases fk; cases fv) (simp_all add: K_def V_def ptr_size_def for_each_map Let_def)
qed

lemma only_sum: "ixs = filter (\<lambda>j. j \<in> I) [0..<length xs] \<Longrightarrow> length (concat (only_indexes I xs)) = sum_list (map (\<lambda>j. length (xs ! j)) ixs)"
proof (induction xs arbitrary: ixs rule: rev_induct)
  case (snoc x xs)
  have "sum_list (map (\<lambda>j. length ((xs @ [x]) ! j)) (filter (\<lambda>j. j \<in> I) [0..<length xs])) = sum_list (map (\<lambda>j. length (xs ! j)) (filter (\<lambda>j. j \<in> I) [0..<length xs]))"
    by (rule arg_cong [where f = sum_list], rule map_cong) (auto simp: nth_append)
  then show ?case using snoc.IH [OF refl] snoc.prems by (simp add: without_indexes_append)
qed simp

lemma entry_ranges_ok:
  assumes "leaf_rep fk fv kvs page" "j < length kvs"
  shows "entry_ranges (acc fk fv kvs page) j = ok (Some ((key_off fk fv kvs j, key_off fk fv kvs (Suc j)), (val_off fk fv kvs j, val_off fk fv kvs (Suc j))))"
  using accessor_ok [OF assms(1), of j] assms(2) by (simp add: entry_ranges_def)

lemma collect_ranges_ok:
  assumes rep: "leaf_rep fk fv kvs page" and ixs: "ixs = filter (\<lambda>j. j \<in> I) [0..<length kvs]" "I = set ixs"
  shows "for_each ixs (\<lambda>index (key_ranges, value_ranges, key_bytes, value_bytes). do {
       (key, value) \<leftarrow> unwrap (entry_ranges (acc fk fv kvs page) index);
       ok (key_ranges @ [key], value_ranges @ [value], key_bytes + range_len key, value_bytes + range_len value) }) ([], [], 0, 0)
     = ok (rr_key_ranges (ranges_of fk fv kvs ixs), rr_value_ranges (ranges_of fk fv kvs ixs), rr_key_bytes (ranges_of fk fv kvs ixs), rr_value_bytes (ranges_of fk fv kvs ixs))"
proof -
  define S where "S js = (map (\<lambda>j. (key_off fk fv kvs j, key_off fk fv kvs (Suc j))) js, map (\<lambda>j. (val_off fk fv kvs j, val_off fk fv kvs (Suc j))) js,
     sum_list (map (\<lambda>j. length (fst (kvs ! j))) js), sum_list (map (\<lambda>j. length (snd (kvs ! j))) js))" for js
  define body where "body = (\<lambda>index (key_ranges, value_ranges, key_bytes, value_bytes). do {
       (key, value) \<leftarrow> unwrap (entry_ranges (acc fk fv kvs page) index);
       ok (key_ranges @ [key], value_ranges @ [value], key_bytes + range_len key, value_bytes + range_len value) })"
  have step: "body j (S js) = ok (S (js @ [j]))" if "j < length kvs" for j js
    using entry_ranges_ok [OF rep that] range_len_off [OF that] by (simp add: body_def S_def)
  have "for_each js body (S is') = ok (S (is' @ js))" if "\<forall>j\<in>set js. j < length kvs" for js is'
    using that by (induction js arbitrary: is') (simp_all add: step)
  from this [of ixs "[]"] have "for_each ixs body ([], [], 0, 0) = ok (S ixs)" using ixs(1) by (simp add: S_def)
  moreover have "map (\<lambda>j. length (map fst kvs ! j)) ixs = map (\<lambda>j. length (fst (kvs ! j))) ixs" "map (\<lambda>j. length (map snd kvs ! j)) ixs = map (\<lambda>j. length (snd (kvs ! j))) ixs"
    using ixs(1) by auto
  then have "S ixs = (rr_key_ranges (ranges_of fk fv kvs ixs), rr_value_ranges (ranges_of fk fv kvs ixs), rr_key_bytes (ranges_of fk fv kvs ixs), rr_value_bytes (ranges_of fk fv kvs ixs))"
    using only_sum [of ixs I "map fst kvs", unfolded length_map, OF ixs(1)] only_sum [of ixs I "map snd kvs", unfolded length_map, OF ixs(1)]
    by (simp only: S_def ranges_of_def removed_leaf_ranges.simps ixs(2))
  ultimately show ?thesis by (simp add: body_def)
qed

lemma leaf_wf_without:
  assumes "leaf_wf fk fv kvs" "without_indexes I kvs \<noteq> []"
  shows "leaf_wf fk fv (without_indexes I kvs)"
proof -
  have l: "length (without_indexes I kvs) \<le> length kvs" using length_without [of I kvs] by simp
  have "length (concat (map fst (without_indexes I kvs))) \<le> length (concat (map fst kvs))" "length (concat (map snd (without_indexes I kvs))) \<le> length (concat (map snd kvs))"
    using without_split [of I "map fst kvs"] without_split [of I "map snd kvs"] by (simp_all add: without_map)
  moreover have "ptr_size fk * length (without_indexes I kvs) \<le> ptr_size fk * length kvs" "ptr_size fv * length (without_indexes I kvs) \<le> ptr_size fv * length kvs" using l by simp_all
  ultimately have "val_off fk fv (without_indexes I kvs) (length (without_indexes I kvs)) \<le> val_off fk fv kvs (length kvs)"
    by (simp only: val_off_def data_start_def take_all length_map order_refl)
  moreover have "widths fk (map fst (without_indexes I kvs))" "widths fv (map snd (without_indexes I kvs))"
    using assms(1) subsetD [OF set_without [of I kvs]] unfolding leaf_wf_def widths_def by (auto split: option.splits)
  ultimately show ?thesis using assms l by (simp add: leaf_wf_def)
qed

lemma remove_index_ranges_ok:
  assumes wf: "leaf_wf fk fv kvs" and page: "page = leaf_bytes b fk fv kvs @ rest"
    and ix: "ixs \<noteq> []" "strictly_ascending ixs" "\<forall>i\<in>set ixs. i < length kvs" "length ixs < length kvs"
  shows "\<exists>rest'. remove_index_ranges fk fv (ranges_of fk fv kvs ixs) page = ok (leaf_bytes b fk fv (without_indexes (set ixs) kvs) @ rest')
     \<and> length (leaf_bytes b fk fv (without_indexes (set ixs) kvs) @ rest') = length page"
proof -
  define I where "I = set ixs" define kvs' where "kvs' = without_indexes I kvs"
  define n m where "n = length kvs" and "m = length ixs"
  define K V r where "K = ptr_size fk" and "V = ptr_size fv" and "r = (K + V) * m"
  define kb vb where "kb = length (concat (only_indexes I (map fst kvs)))" and "vb = length (concat (only_indexes I (map snd kvs)))"
  define K' V' where "K' = key_off fk fv kvs' 0" and "V' = val_off fk fv kvs' 0"
  let ?R = "ranges_of fk fv kvs ixs"
  have f: "ixs = filter (\<lambda>j. j \<in> I) [0..<length kvs]" using ascending_filter [OF ix(2,3)] by (simp add: I_def)
  have l: "length kvs' + m = n" using length_without [of I kvs] f by (simp add: kvs'_def m_def n_def)
  have ws: "length (concat (map fst kvs')) + kb = length (concat (map fst kvs))" "length (concat (map snd kvs')) + vb = length (concat (map snd kvs))"
    using without_split [of I "map fst kvs"] without_split [of I "map snd kvs"] by (simp_all add: kvs'_def kb_def vb_def without_map)
  have ds: "data_start fk fv n = data_start fk fv (length kvs') + r" by (simp add: data_start_def r_def K_def V_def l [symmetric] algebra_simps)
  have K0: "key_off fk fv kvs 0 = K' + r" using ds by (simp add: key_off_def K'_def n_def)
  have V0: "val_off fk fv kvs 0 = V' + (r + kb)" using ds ws(1) by (simp add: val_off_def V'_def n_def)
  define kp vp where "kp = ptrs_at I (key_off fk fv kvs 0) K' (map fst kvs) n" and "vp = ptrs_at I (val_off fk fv kvs 0) V' (map snd kvs) n"
  define bs where "bs = leaf_blocks fk fv I kp vp kvs"
  have kl: "length kp = length kvs" "length vp = length kvs" by (simp_all add: kp_def vp_def ptrs_at_def)
  have kw: "without_indexes I kp = ends K' (map fst kvs')" "without_indexes I vp = ends V' (map snd kvs')"
    using ptrs_at_end [of I _ _ "map fst kvs"] ptrs_at_end [of I _ _ "map snd kvs"] by (simp_all add: kp_def vp_def n_def kvs'_def without_map)
  have up: "update_removed_indices fk fv r ?R page = ok (leaf_head b n @ concat (map snd bs) @ rest)"
    using update_removed_ok [OF wf f I_def K0 V0 [unfolded kb_def], of b rest] blocks_bytes(1) [OF kl, of fk fv I]
    by (simp add: page bs_def kp_def vp_def n_def)
  have cp: "compacting (leaf_head b n) [] [] (concat (map snd bs) @ rest) (leaf_head b n @ concat (map snd bs) @ rest, 4, 4)" "4 = length (leaf_head b n @ [] @ [])"
    by (simp_all add: compacting_def)
  from compact_blocks [OF cp] obtain D X S st where c: "for_each (holes 4 bs) compact_before_hole (leaf_head b n @ concat (map snd bs) @ rest, 4, 4) = ok st"
    "compacting D X S rest st" "D @ S = leaf_head b n @ [] @ kept_bytes bs" "length (D @ X @ S) = length (leaf_head b n @ [] @ [] @ concat (map snd bs))" by blast
  have kept: "kept_bytes bs = ptr_bytes fk (ends K' (map fst kvs')) @ ptr_bytes fv (ends V' (map snd kvs')) @ concat (map fst kvs') @ concat (map snd kvs')"
    unfolding bs_def blocks_bytes(2) [OF kl] kw by (simp add: kvs'_def without_map)
  have tl: "leaf_size fk fv kvs = length (D @ X @ S)"
    unfolding c(4) bs_def blocks_bytes(1) [OF kl] by (simp add: val_off_def data_start_def length_ptr_bytes kl)
  from compact_tail_ok [OF c(2) tl] obtain X' src where t: "compact_tail (leaf_size fk fv kvs) st = ok (D @ S @ X' @ rest, src, length (D @ S))" "length X' = length X" by blast
  have DS: "D @ S @ Y = leaf_head b n @ kept_bytes bs @ Y" for Y using c(3) by (metis append.assoc append_Nil)
  have dl: "length (D @ S) = leaf_size fk fv kvs'" unfolding c(3) kept
    by (simp add: val_off_def data_start_def length_ptr_bytes)
  have sz: "leaf_size fk fv kvs = leaf_size fk fv kvs' + vb + kb + r" using ds ws by (simp add: val_off_def n_def)
  have lb: "leaf_head b (length kvs') @ kept_bytes bs @ Y = leaf_bytes b fk fv kvs' @ Y" for Y by (simp add: kept leaf_bytes_def K'_def V'_def)
  have nm: "n - m = length kvs'" "length kvs' < 2 ^ 16" using l wf by (auto simp: leaf_wf_def n_def)
  have R: "rr_indices ?R = ixs" "rr_num_pairs ?R = n" "rr_key_bytes ?R = kb" "rr_value_bytes ?R = vb" "rr_old_total_len ?R = leaf_size fk fv kvs"
    "length (rr_key_ranges ?R) = length ixs" "length (rr_value_ranges ?R) = length ixs"
    by (simp_all add: ranges_of_def n_def kb_def vb_def I_def)
  have z: "(if fk = None then 4 else 0) = K" "(if fv = None then 4 else 0) = V" by (simp_all add: K_def V_def ptr_size_def)
  have la: "last ixs < n" using ix(1,3) by (simp add: n_def)
  have as: "assert_that (strictly_ascending ixs) = ok ()" "assert_that (ixs \<noteq> [] \<and> last ixs < n) = ok ()" "assert_that (length ixs < n) = ok ()" "assert_that (length ixs = length ixs) = ok ()"
    using ix la by (simp_all add: n_def)
  have cs: "csub (leaf_size fk fv kvs) r = ok (leaf_size fk fv kvs' + vb + kb)" "csub (leaf_size fk fv kvs' + vb + kb) kb = ok (leaf_size fk fv kvs' + vb)"
    "csub (leaf_size fk fv kvs' + vb) vb = ok (leaf_size fk fv kvs')" "assert_that (leaf_size fk fv kvs' = leaf_size fk fv kvs') = ok ()" "try_into 16 (length kvs') = ok (length kvs')"
    using nm(2) by (simp_all add: csub_def sz try_into_def)
  have all: "do { st \<leftarrow> (if K \<noteq> 0 then for_each ixs (\<lambda>index. do { let start = 4 + K * index; compact_before_hole (start, start + K) }) st0 else ok st0);
     st \<leftarrow> (if V \<noteq> 0 then do { let value_pointers_start = 4 + K * n;
         for_each ixs (\<lambda>index. do { let start = value_pointers_start + V * index; compact_before_hole (start, start + V) }) st } else ok st);
     st \<leftarrow> for_each (rr_key_ranges ?R) compact_before_hole st;
     st \<leftarrow> for_each (rr_value_ranges ?R) compact_before_hole st;
     g st } = for_each (holes 4 bs) compact_before_hole st0 \<bind> g" for st0 and g :: "_ \<Rightarrow> byte list rust"
    unfolding bs_def compact_all [OF kl f, where fk = fk and fv = fv and st = st0, folded K_def V_def n_def, symmetric] bind_assoc ..
  have w: "write_at (D @ S @ X' @ rest) 2 (le_bytes 2 (length kvs')) = ok (leaf_bytes b fk fv kvs' @ X' @ rest)"
    unfolding DS leaf_head_write lb ..
  have "remove_index_ranges fk fv ?R page = ok (leaf_bytes b fk fv kvs' @ X' @ rest)"
    unfolding remove_index_ranges_def R z m_def [symmetric] unfolding Let_def [of K] Let_def [of V] Let_def [of ixs] m_def [symmetric] unfolding Let_def [of "(K + V) * m"] r_def [symmetric]
    unfolding m_def as bind.bind_lunit up unfolding Let_def [of "n - length ixs"] Let_def [of "(_, 4, 4)"] all Let_def [of r]
    unfolding up c(1) bind.bind_lunit t(1) prod.case cs dl nm(1) [unfolded m_def] by (simp only: bind.bind_lunit cs w)
  moreover have "length (leaf_bytes b fk fv kvs' @ X' @ rest) = length page"
    using t(2) tl dl by (simp add: page length_leaf_bytes)
  ultimately show ?thesis unfolding I_def kvs'_def by blast
qed

lemma remove_indices_ok:
  assumes rep: "leaf_rep fk fv kvs page" and ix: "ixs \<noteq> []" "strictly_ascending ixs" "\<forall>i\<in>set ixs. i < length kvs" "length ixs < length kvs"
  shows "\<exists>page'. remove_indices fk fv ixs page = ok page' \<and> leaf_rep fk fv (without_indexes (set ixs) kvs) page' \<and> length page' = length page"
proof -
  obtain b rest where p: "page = leaf_bytes b fk fv kvs @ rest" "leaf_wf fk fv kvs" using leaf_repE [OF rep] .
  have f: "ixs = filter (\<lambda>j. j \<in> set ixs) [0..<length kvs]" using ascending_filter [OF ix(2,3)] by simp
  from remove_index_ranges_ok [OF p(2,1) ix] obtain rest' where r: "remove_index_ranges fk fv (ranges_of fk fv kvs ixs) page = ok (leaf_bytes b fk fv (without_indexes (set ixs) kvs) @ rest')"
    "length (leaf_bytes b fk fv (without_indexes (set ixs) kvs) @ rest') = length page" by blast
  have e: "\<lparr>rr_indices = ixs, rr_key_ranges = rr_key_ranges (ranges_of fk fv kvs ixs), rr_value_ranges = rr_value_ranges (ranges_of fk fv kvs ixs),
     rr_key_bytes = rr_key_bytes (ranges_of fk fv kvs ixs), rr_value_bytes = rr_value_bytes (ranges_of fk fv kvs ixs), rr_old_total_len = leaf_size fk fv kvs, rr_num_pairs = length kvs\<rparr> = ranges_of fk fv kvs ixs"
    by (simp add: ranges_of_def)
  have la: "last ixs < length kvs" using ix(1,3) by simp
  have "remove_indices fk fv ixs page = remove_index_ranges fk fv (ranges_of fk fv kvs ixs) page"
    using ix la by (simp add: remove_indices_def lm_new_ok [OF rep] la_new_ok [OF rep] collect_ranges_ok [OF rep f refl] total_length_ok [OF rep] e)
  moreover have "without_indexes (set ixs) kvs \<noteq> []" using length_without [of "set ixs" kvs] arg_cong [OF f, of length] ix(4) by auto
  then have "leaf_wf fk fv (without_indexes (set ixs) kvs)" using leaf_wf_without [OF p(2)] by simp
  ultimately show ?thesis using r by (auto simp: leaf_rep_def)
qed

end
