(* ===== verification/Key_Types.thy ===== *)
theory Key_Types
  imports Leaf_Page "HOL-Library.List_Lexorder"
begin

text \<open>
  The key types of \<open>src/types.rs\<close>: how values are encoded (\<open>as_bytes\<close>, \<open>from_bytes\<close>) and how encoded keys are compared
  (\<open>Key::compare\<close>).  The trait asks for a total order on the encodings, which is the locale \<open>key_order\<close>; it is discharged
  here for \<open>()\<close>, \<open>bool\<close>, \<open>&[u8]\<close>, \<open>&str\<close>, \<open>String\<close>, \<open>char\<close>, the integers, and, for every key type, \<open>Option<T>\<close> and \<open>[T; N]\<close>.
\<close>

subsection \<open>\<open>Ord::cmp\<close> of the standard library\<close>

definition ord_cmp :: "'a::linorder \<Rightarrow> 'a \<Rightarrow> ordering" where
  "ord_cmp a b = (if a < b then Less else if a = b then Equal else Greater)"

fun slice_cmp :: "byte list \<Rightarrow> byte list \<Rightarrow> ordering" where
  "slice_cmp [] [] = Equal"
| "slice_cmp [] (_ # _) = Less"
| "slice_cmp (_ # _) [] = Greater"
| "slice_cmp (x # xs) (y # ys) = (case ord_cmp x y of Equal \<Rightarrow> slice_cmp xs ys | c \<Rightarrow> c)"

text \<open>\<open>std::str::from_utf8\<close>: the well-formed sequences of the Unicode standard.\<close>

abbreviation cont :: "byte \<Rightarrow> bool" where
  "cont b \<equiv> 0x80 \<le> b \<and> b \<le> 0xBF"

fun utf8_valid :: "byte list \<Rightarrow> bool" where
  "utf8_valid [] = True"
| "utf8_valid (a # bs) = (
     if a < 0x80 then utf8_valid bs
     else if 0xC2 \<le> a \<and> a \<le> 0xDF then (case bs of b # r \<Rightarrow> cont b \<and> utf8_valid r | _ \<Rightarrow> False)
     else if 0xE0 \<le> a \<and> a \<le> 0xEF then (case bs of b # c # r \<Rightarrow>
         cont b \<and> (a = 0xE0 \<longrightarrow> 0xA0 \<le> b) \<and> (a = 0xED \<longrightarrow> b \<le> 0x9F) \<and> cont c \<and> utf8_valid r | _ \<Rightarrow> False)
     else if 0xF0 \<le> a \<and> a \<le> 0xF4 then (case bs of b # c # d # r \<Rightarrow>
         cont b \<and> (a = 0xF0 \<longrightarrow> 0x90 \<le> b) \<and> (a = 0xF4 \<longrightarrow> b \<le> 0x8F) \<and> cont c \<and> cont d \<and> utf8_valid r | _ \<Rightarrow> False)
     else False)"

subsection \<open>Types without parts\<close>

definition unit_compare :: "byte list \<Rightarrow> byte list \<Rightarrow> ordering rust" where
  "unit_compare data1 data2 = ok Equal"

definition bool_from_bytes :: "byte list \<Rightarrow> bool rust" where
  "bool_from_bytes data = do { b \<leftarrow> index data 0; if b = 0 then ok False else if b = 1 then ok True else panic }"

definition bool_as_bytes :: "bool \<Rightarrow> byte list" where
  "bool_as_bytes value = (if value then [1] else [0])"

definition bool_compare :: "byte list \<Rightarrow> byte list \<Rightarrow> ordering rust" where
  "bool_compare data1 data2 = do { value1 \<leftarrow> bool_from_bytes data1; value2 \<leftarrow> bool_from_bytes data2; ok (ord_cmp value1 value2) }"

definition bytes_compare :: "byte list \<Rightarrow> byte list \<Rightarrow> ordering rust" where
  "bytes_compare data1 data2 = ok (slice_cmp data1 data2)"

definition str_from_bytes :: "byte list \<Rightarrow> byte list rust" where
  "str_from_bytes data = (if utf8_valid data then ok data else panic)"

definition str_compare :: "byte list \<Rightarrow> byte list \<Rightarrow> ordering rust" where
  "str_compare data1 data2 = do { str1 \<leftarrow> str_from_bytes data1; str2 \<leftarrow> str_from_bytes data2; ok (slice_cmp str1 str2) }"

text \<open>\<open>char::from_u32\<close> refuses surrogates and what is above the last code point.\<close>

definition is_char :: "nat \<Rightarrow> bool" where
  "is_char c \<longleftrightarrow> c < 0xD800 \<or> 0xDFFF < c \<and> c \<le> 0x10FFFF"

definition char_from_bytes :: "byte list \<Rightarrow> nat rust" where
  "char_from_bytes data = do {
     b0 \<leftarrow> index data 0; b1 \<leftarrow> index data 1; b2 \<leftarrow> index data 2;
     let c = le_nat [b0, b1, b2, 0];
     if is_char c then ok c else panic }"

definition char_as_bytes :: "nat \<Rightarrow> byte list" where
  "char_as_bytes c = (let bytes = le_bytes 4 c in [bytes ! 0, bytes ! 1, bytes ! 2])"

definition char_compare :: "byte list \<Rightarrow> byte list \<Rightarrow> ordering rust" where
  "char_compare data1 data2 = do { a \<leftarrow> char_from_bytes data1; b \<leftarrow> char_from_bytes data2; ok (ord_cmp a b) }"

text \<open>The macros \<open>le_value!\<close> and \<open>le_impl!\<close> at an unsigned or signed type of \<open>w\<close> bytes.\<close>

definition uint_from_bytes :: "nat \<Rightarrow> byte list \<Rightarrow> nat rust" where
  "uint_from_bytes w data = (if length data = w then ok (le_nat data) else panic)"

definition uint_as_bytes :: "nat \<Rightarrow> nat \<Rightarrow> byte list" where
  "uint_as_bytes w value = le_bytes w value"

definition uint_compare :: "nat \<Rightarrow> byte list \<Rightarrow> byte list \<Rightarrow> ordering rust" where
  "uint_compare w data1 data2 = do { a \<leftarrow> uint_from_bytes w data1; b \<leftarrow> uint_from_bytes w data2; ok (ord_cmp a b) }"

definition sint_from_bytes :: "nat \<Rightarrow> byte list \<Rightarrow> int rust" where
  "sint_from_bytes w data = (if length data = w then
     ok (if 2 * le_nat data < 256 ^ w then int (le_nat data) else int (le_nat data) - 256 ^ w) else panic)"

definition sint_as_bytes :: "nat \<Rightarrow> int \<Rightarrow> byte list" where
  "sint_as_bytes w value = le_bytes w (nat (value mod 256 ^ w))"

definition sint_compare :: "nat \<Rightarrow> byte list \<Rightarrow> byte list \<Rightarrow> ordering rust" where
  "sint_compare w data1 data2 = do { a \<leftarrow> sint_from_bytes w data1; b \<leftarrow> sint_from_bytes w data2; ok (ord_cmp a b) }"

subsection \<open>\<open>Option<T>\<close>\<close>

definition option_fixed_width :: "nat option \<Rightarrow> nat option" where
  "option_fixed_width fixed = map_option (\<lambda>x. x + 1) fixed"

definition option_from_bytes :: "(byte list \<Rightarrow> 'v rust) \<Rightarrow> byte list \<Rightarrow> 'v option rust" where
  "option_from_bytes from_bytes data = do {
     b \<leftarrow> index data 0;
     if b = 0 then ok None
     else if b = 1 then do { d \<leftarrow> sub_slice data 1 (length data); x \<leftarrow> from_bytes d; ok (Some x) }
     else panic }"

definition option_as_bytes :: "nat option \<Rightarrow> ('v \<Rightarrow> byte list) \<Rightarrow> 'v option \<Rightarrow> byte list" where
  "option_as_bytes fixed as_bytes value = (case value of
     Some x \<Rightarrow> [1] @ as_bytes x
   | None \<Rightarrow> (case fixed of Some fixed_width \<Rightarrow> [0] @ replicate fixed_width 0 | None \<Rightarrow> [0]))"

definition option_compare :: "(byte list \<Rightarrow> byte list \<Rightarrow> ordering rust) \<Rightarrow> byte list \<Rightarrow> byte list \<Rightarrow> ordering rust" where
  "option_compare compare data1 data2 = do {
     a \<leftarrow> index data1 0;
     b \<leftarrow> index data2 0;
     if a = 0 then ok (if b = 0 then Equal else Less)
     else if b = 0 then ok Greater
     else do { d1 \<leftarrow> sub_slice data1 1 (length data1); d2 \<leftarrow> sub_slice data2 1 (length data2); compare d1 d2 } }"

subsection \<open>\<open>[T; N]\<close>\<close>

text \<open>A \<open>u32\<close> read with \<open>data[range].try_into().unwrap()\<close>.\<close>

definition end_at :: "byte list \<Rightarrow> nat \<Rightarrow> nat rust" where
  "end_at data i = do { r \<leftarrow> sub_slice data (4 * i) (4 * (i + 1)); ok (le_nat r) }"

definition array_from_bytes :: "nat option \<Rightarrow> (byte list \<Rightarrow> 'v rust) \<Rightarrow> nat \<Rightarrow> byte list \<Rightarrow> 'v list rust" where
  "array_from_bytes fixed_width from_bytes N data = (case fixed_width of
     Some fixed \<Rightarrow> for_each [0..<N] (\<lambda>i result. do {
       d \<leftarrow> sub_slice data (fixed * i) (fixed * (i + 1));
       x \<leftarrow> from_bytes d;
       ok (result @ [x]) }) []
   | None \<Rightarrow> do {
       (result, _) \<leftarrow> for_each [0..<N] (\<lambda>i (result, start). do {
         stop \<leftarrow> end_at data i;
         d \<leftarrow> sub_slice data start stop;
         x \<leftarrow> from_bytes d;
         ok (result @ [x], stop) }) ([], 4 * N);
       ok result })"

definition array_as_bytes :: "nat option \<Rightarrow> ('v \<Rightarrow> byte list) \<Rightarrow> nat \<Rightarrow> 'v list \<Rightarrow> byte list rust" where
  "array_as_bytes fixed_width as_bytes N value = (case fixed_width of
     Some fixed \<Rightarrow> for_each value (\<lambda>item result. ok (result @ as_bytes item)) []
   | None \<Rightarrow> for_each [0..<N] (\<lambda>i result. do {
       x \<leftarrow> index value i;
       let result = result @ as_bytes x;
       stop \<leftarrow> try_into 32 (length result);
       write_at result (4 * i) (le_bytes 4 stop) }) (replicate (4 * N) 0))"

primrec array_compare_fixed :: "(byte list \<Rightarrow> byte list \<Rightarrow> ordering rust) \<Rightarrow> nat \<Rightarrow> byte list \<Rightarrow> byte list \<Rightarrow> nat list \<Rightarrow> ordering rust" where
  "array_compare_fixed compare fixed data1 data2 [] = ok Equal"
| "array_compare_fixed compare fixed data1 data2 (i # is) = do {
     a \<leftarrow> sub_slice data1 (fixed * i) (fixed * (i + 1));
     b \<leftarrow> sub_slice data2 (fixed * i) (fixed * (i + 1));
     comparison \<leftarrow> compare a b;
     if comparison \<noteq> Equal then ok comparison else array_compare_fixed compare fixed data1 data2 is }"

primrec array_compare_var :: "(byte list \<Rightarrow> byte list \<Rightarrow> ordering rust) \<Rightarrow> byte list \<Rightarrow> byte list \<Rightarrow> nat list \<Rightarrow> nat \<Rightarrow> nat \<Rightarrow> ordering rust" where
  "array_compare_var compare data1 data2 [] start1 start2 = ok Equal"
| "array_compare_var compare data1 data2 (i # is) start1 start2 = do {
     end1 \<leftarrow> end_at data1 i;
     end2 \<leftarrow> end_at data2 i;
     a \<leftarrow> sub_slice data1 start1 end1;
     b \<leftarrow> sub_slice data2 start2 end2;
     comparison \<leftarrow> compare a b;
     if comparison \<noteq> Equal then ok comparison else array_compare_var compare data1 data2 is end1 end2 }"

definition array_compare :: "nat option \<Rightarrow> (byte list \<Rightarrow> byte list \<Rightarrow> ordering rust) \<Rightarrow> nat \<Rightarrow> byte list \<Rightarrow> byte list \<Rightarrow> ordering rust" where
  "array_compare fixed_width compare N data1 data2 = (case fixed_width of
     Some fixed \<Rightarrow> array_compare_fixed compare fixed data1 data2 [0..<N]
   | None \<Rightarrow> array_compare_var compare data1 data2 [0..<N] (4 * N) (4 * N))"

subsection \<open>Orders through a decoder\<close>

lemma slice_cmp_eq: "slice_cmp xs ys = ord_cmp xs ys"
  by (induction xs ys rule: slice_cmp.induct) (auto simp: ord_cmp_def split: ordering.splits)

lemma decoded_order:
  fixes dec :: "byte list \<Rightarrow> 'v::linorder rust"
  assumes "\<And>a b. compare a b = do { x \<leftarrow> dec a; y \<leftarrow> dec b; ok (ord_cmp x y) }" "\<And>a. valid a \<Longrightarrow> \<exists>x. dec a = ok x"
  shows "key_order compare valid"
proof
  fix a b c assume v: "valid a" "valid b" "valid c"
  obtain x y z where d: "dec a = ok x" "dec b = ok y" "dec c = ok z" using assms(2) v by metis
  show "compare a b \<noteq> ok Greater \<Longrightarrow> compare b c \<noteq> ok Greater \<Longrightarrow> compare a c \<noteq> ok Greater"
    by (auto simp: assms(1) d ord_cmp_def split: if_splits)
next
  fix a b assume v: "valid a" "valid b"
  obtain x y where d: "dec a = ok x" "dec b = ok y" using assms(2) v by metis
  show "(compare a b = ok Less) = (compare b a = ok Greater)" "\<exists>r. compare a b = ok r"
    by (auto simp: assms(1) d ord_cmp_def split: if_splits)
next
  fix a assume "valid a"
  then show "compare a a = ok Equal" using assms(2) by (force simp: assms(1) ord_cmp_def)
qed

definition decodes :: "(byte list \<Rightarrow> 'v rust) \<Rightarrow> byte list \<Rightarrow> bool" where
  "decodes from_bytes data \<longleftrightarrow> from_bytes data \<noteq> panic"

lemma decodesD: "decodes f d \<Longrightarrow> \<exists>x. f d = ok x"
  by (auto simp: decodes_def)

interpretation key_unit: key_order unit_compare "\<lambda>d. d = []"
  by unfold_locales (simp_all add: unit_compare_def)

interpretation key_bool: key_order bool_compare "decodes bool_from_bytes"
  by (rule decoded_order [OF bool_compare_def decodesD])

interpretation key_bytes: key_order bytes_compare "\<lambda>_. True"
  by (rule decoded_order [of _ ok]) (simp_all add: bytes_compare_def slice_cmp_eq)

interpretation key_str: key_order str_compare "decodes str_from_bytes"
  by (rule decoded_order [OF str_compare_def [unfolded slice_cmp_eq] decodesD])

interpretation key_char: key_order char_compare "decodes char_from_bytes"
  by (rule decoded_order [OF char_compare_def decodesD])

interpretation key_uint: key_order "uint_compare w" "\<lambda>d. length d = w" for w
  by (rule decoded_order [OF uint_compare_def]) (simp add: uint_from_bytes_def)

interpretation key_sint: key_order "sint_compare w" "\<lambda>d. length d = w" for w
  by (rule decoded_order [OF sint_compare_def]) (simp add: sint_from_bytes_def)

subsection \<open>Orders of nested types\<close>

definition option_valid :: "(byte list \<Rightarrow> bool) \<Rightarrow> byte list \<Rightarrow> bool" where
  "option_valid valid d \<longleftrightarrow> (case d of [] \<Rightarrow> False | b # r \<Rightarrow> b = 0 \<or> b = 1 \<and> valid r)"

text \<open>The bytes of an array whose items have the encodings \<open>xs\<close>.\<close>

definition array_layout :: "nat option \<Rightarrow> byte list list \<Rightarrow> byte list" where
  "array_layout fixed xs = ptr_bytes fixed (ends (4 * length xs) xs) @ concat xs"

definition array_items :: "nat option \<Rightarrow> (byte list \<Rightarrow> bool) \<Rightarrow> nat \<Rightarrow> byte list list \<Rightarrow> bool" where
  "array_items fixed valid N xs \<longleftrightarrow> length xs = N \<and> widths fixed xs \<and> list_all valid xs \<and> 4 * N + length (concat xs) < 2 ^ 32"

definition array_valid :: "nat option \<Rightarrow> (byte list \<Rightarrow> bool) \<Rightarrow> nat \<Rightarrow> byte list \<Rightarrow> bool" where
  "array_valid fixed valid N d \<longleftrightarrow> (\<exists>xs. array_items fixed valid N xs \<and> d = array_layout fixed xs)"

fun lex_compare :: "(byte list \<Rightarrow> byte list \<Rightarrow> ordering rust) \<Rightarrow> byte list list \<Rightarrow> byte list list \<Rightarrow> ordering rust" where
  "lex_compare compare (x # xs) (y # ys) = do { c \<leftarrow> compare x y; if c \<noteq> Equal then ok c else lex_compare compare xs ys }"
| "lex_compare compare _ _ = ok Equal"

lemma fixed_item:
  assumes "widths (Some w) xs" "i < length xs"
  shows "sub_slice (array_layout (Some w) xs) (w * i) (w * (i + 1)) = ok (xs ! i)"
  using slice_segment [of i xs "w * i" "[]" "w * (i + 1)" "[]"] fixed_offset [OF assms(1), of i] fixed_offset [OF assms(1), of "Suc i"] assms(2)
  by (simp add: array_layout_def ptr_bytes_def)

lemma var_item:
  assumes "4 * length xs + length (concat xs) < 2 ^ 32" "i < length xs"
  shows "end_at (array_layout None xs) i = ok (4 * length xs + length (concat (take (Suc i) xs)))"
    "sub_slice (array_layout None xs) (4 * length xs + length (concat (take i xs))) (4 * length xs + length (concat (take (Suc i) xs))) = ok (xs ! i)"
proof -
  let ?p = "ends (4 * length xs) xs"
  have "?p ! i < 2 ^ 32" using assms length_concat_take [of "Suc i" xs] by (simp add: nth_ends)
  then have "end_u32 ([] @ concat (map (le_bytes 4) ?p) @ concat xs) (4 * i) = Some (?p ! i)" using assms(2) by (intro end_u32_ptr) simp_all
  then show "end_at (array_layout None xs) i = ok (4 * length xs + length (concat (take (Suc i) xs)))"
    using assms(2) by (auto simp: end_u32_def end_at_def sub_slice_def array_layout_def ptr_bytes_def nth_ends split: if_splits)
  show "sub_slice (array_layout None xs) (4 * length xs + length (concat (take i xs))) (4 * length xs + length (concat (take (Suc i) xs))) = ok (xs ! i)"
    using slice_segment [OF assms(2), of _ "concat (map (le_bytes 4) ?p)" _ "[]"] by (simp add: array_layout_def ptr_bytes_def)
qed

lemma array_compare_fixed_lex:
  assumes "widths (Some w) xs" "widths (Some w) ys" "length xs = N" "length ys = N"
  shows "i \<le> N \<Longrightarrow> array_compare_fixed compare w (array_layout (Some w) xs) (array_layout (Some w) ys) [i..<N] = lex_compare compare (drop i xs) (drop i ys)"
proof (induction rule: inc_induct)
  case (step i)
  then show ?case using assms fixed_item [OF assms(1), of i] fixed_item [OF assms(2), of i]
    by (simp add: upt_conv_Cons Cons_nth_drop_Suc [symmetric] del: mult_Suc_right cong: if_cong)
qed (use assms in simp)

lemma array_compare_var_lex:
  assumes "4 * N + length (concat xs) < 2 ^ 32" "4 * N + length (concat ys) < 2 ^ 32" "length xs = N" "length ys = N"
  shows "i \<le> N \<Longrightarrow> array_compare_var compare (array_layout None xs) (array_layout None ys) [i..<N] (4 * N + length (concat (take i xs))) (4 * N + length (concat (take i ys)))
    = lex_compare compare (drop i xs) (drop i ys)"
proof (induction rule: inc_induct)
  case (step i)
  have i: "i < length xs" "i < length ys" using step assms by auto
  note v = var_item [OF _ i(1)] var_item [OF _ i(2)]
  show ?case using step assms v
    by (simp add: upt_conv_Cons Cons_nth_drop_Suc [symmetric] cong: if_cong)
qed (use assms in simp)

lemma array_compare_lex:
  assumes "array_items fixed valid N xs" "array_items fixed valid N ys"
  shows "array_compare fixed compare N (array_layout fixed xs) (array_layout fixed ys) = lex_compare compare xs ys"
  using assms array_compare_fixed_lex [of _ xs ys N 0 compare] array_compare_var_lex [of N xs ys 0 compare]
  by (cases fixed) (simp_all add: array_items_def array_compare_def)

context key_order
begin

lemma option_order: "key_order (option_compare compare) (option_valid valid)"
proof -
  have c: "option_compare compare (x # xs) (y # ys) = (if x = 0 then ok (if y = 0 then Equal else Less) else if y = 0 then ok Greater else compare xs ys)" for x xs y ys
    by (simp add: option_compare_def index_def sub_slice_def)
  show ?thesis
  proof
    fix a b d assume "option_valid valid a" "option_valid valid b" "option_valid valid d"
    then show "option_compare compare a b \<noteq> ok Greater \<Longrightarrow> option_compare compare b d \<noteq> ok Greater \<Longrightarrow> option_compare compare a d \<noteq> ok Greater"
      using compare_trans [of "tl a" "tl b" "tl d"] by (auto simp: option_valid_def c split: list.splits if_splits)
  next
    fix a b assume "option_valid valid a" "option_valid valid b"
    then show "(option_compare compare a b = ok Less) = (option_compare compare b a = ok Greater)" "\<exists>r. option_compare compare a b = ok r"
      using compare_flip [of "tl a" "tl b"] compare_total [of "tl a" "tl b"] by (auto simp: option_valid_def c split: list.splits if_splits)
  next
    fix a assume "option_valid valid a"
    then show "option_compare compare a a = ok Equal" using compare_refl [of "tl a"] by (auto simp: option_valid_def c split: list.splits)
  qed
qed

lemma same_trans:
  assumes v: "valid a" "valid b" "valid c" and s: "same a b" "same b c"
  shows "same a c"
proof -
  have "same b a" "same c b" using s by (cases rule: compare_cases [OF v(1,2)]; cases rule: compare_cases [OF v(2,3)]; simp)+
  then show ?thesis using compare_trans [OF v] compare_trans [OF v(3,2,1)] s by (cases rule: compare_cases [OF v(1,3)]) simp_all
qed

lemma lex_total: "length xs = length ys \<Longrightarrow> list_all valid xs \<Longrightarrow> list_all valid ys \<Longrightarrow> \<exists>r. lex_compare compare xs ys = ok r"
proof (induction xs ys rule: list_induct2)
  case (Cons x xs y ys)
  then show ?case using compare_total [of x y] by auto
qed simp

lemma lex_refl: "list_all valid xs \<Longrightarrow> lex_compare compare xs xs = ok Equal"
  by (induction xs) (auto simp: compare_refl)

lemma lex_flip:
  "length xs = length ys \<Longrightarrow> list_all valid xs \<Longrightarrow> list_all valid ys \<Longrightarrow> lex_compare compare xs ys = ok Less \<longleftrightarrow> lex_compare compare ys xs = ok Greater"
proof (induction xs ys rule: list_induct2)
  case (Cons x xs y ys)
  have v: "valid x" "valid y" using Cons.prems by auto
  show ?case using Cons by (cases rule: compare_cases [OF v]) auto
qed simp

lemma lex_trans:
  assumes "length xs = length ys" "length ys = length zs" "list_all valid xs" "list_all valid ys" "list_all valid zs"
    "lex_compare compare xs ys \<noteq> ok Greater" "lex_compare compare ys zs \<noteq> ok Greater"
  shows "lex_compare compare xs zs \<noteq> ok Greater"
  using assms
proof (induction xs ys zs rule: list_induct3)
  case (Cons x xs y ys z zs)
  have v: "valid x" "valid y" "valid z" using Cons.prems by auto
  show ?case
  proof (cases rule: compare_cases [OF v(1,2)])
    case 1
    then have "lt x z" using le_lt_trans(2) [OF v] Cons.prems by (cases rule: compare_cases [OF v(2,3)]) auto
    then show ?thesis by simp
  next
    case xy: 2
    show ?thesis
    proof (cases rule: compare_cases [OF v(2,3)])
      case 1
      then have "lt x z" using le_lt_trans(1) [OF v] xy by simp
      then show ?thesis by simp
    next
      case 2
      then have "same x z" using same_trans [OF v] xy by simp
      then show ?thesis using Cons xy 2 by simp
    qed (use Cons.prems in auto)
  qed (use Cons.prems in auto)
qed simp

lemma array_order: "key_order (array_compare fixed compare N) (array_valid fixed valid N)"
proof
  fix a b c assume "array_valid fixed valid N a" "array_valid fixed valid N b" "array_valid fixed valid N c"
  then obtain xs ys zs where x: "array_items fixed valid N xs" "array_items fixed valid N ys" "array_items fixed valid N zs"
    and e: "a = array_layout fixed xs" "b = array_layout fixed ys" "c = array_layout fixed zs" unfolding array_valid_def by blast
  show "array_compare fixed compare N a b \<noteq> ok Greater \<Longrightarrow> array_compare fixed compare N b c \<noteq> ok Greater \<Longrightarrow> array_compare fixed compare N a c \<noteq> ok Greater"
    unfolding e array_compare_lex [OF x(1,2)] array_compare_lex [OF x(2,3)] array_compare_lex [OF x(1,3)]
    using lex_trans [of xs ys zs] x by (simp add: array_items_def)
next
  fix a b assume "array_valid fixed valid N a" "array_valid fixed valid N b"
  then obtain xs ys where x: "array_items fixed valid N xs" "array_items fixed valid N ys" and e: "a = array_layout fixed xs" "b = array_layout fixed ys"
    unfolding array_valid_def by blast
  show "(array_compare fixed compare N a b = ok Less) = (array_compare fixed compare N b a = ok Greater)" "\<exists>r. array_compare fixed compare N a b = ok r"
    unfolding e array_compare_lex [OF x] array_compare_lex [OF x(2,1)] using lex_flip [of xs ys] lex_total [of xs ys] x by (simp_all add: array_items_def)
next
  fix a assume "array_valid fixed valid N a"
  then show "array_compare fixed compare N a a = ok Equal"
    unfolding array_valid_def using array_compare_lex [of fixed valid N] lex_refl by (auto simp: array_items_def)
qed

end

subsection \<open>Decoding encodings\<close>

lemma bool_round_trip: "bool_from_bytes (bool_as_bytes v) = ok v"
  by (cases v) (simp_all add: bool_from_bytes_def bool_as_bytes_def index_def)

lemma uint_round_trip: "v < 256 ^ w \<Longrightarrow> uint_from_bytes w (uint_as_bytes w v) = ok v"
  by (simp add: uint_from_bytes_def uint_as_bytes_def)

lemma sint_round_trip:
  assumes "- (256 ^ w) \<le> 2 * v" "2 * v < 256 ^ w"
  shows "sint_from_bytes w (sint_as_bytes w v) = ok v"
proof (cases "0 \<le> v")
  case True
  then have m: "v mod 256 ^ w = v" using assms(2) by (simp add: mod_pos_pos_trivial)
  have "int (2 * nat v) < int (256 ^ w)" using True assms(2) by simp
  then have "2 * nat v < 256 ^ w" "nat v < 256 ^ w" by (simp_all only: of_nat_less_iff)
  then show ?thesis using True m by (simp add: sint_from_bytes_def sint_as_bytes_def)
next
  case False
  have m: "v mod 256 ^ w = v + 256 ^ w" using mod_pos_pos_trivial [of "v + 256 ^ w" "256 ^ w"] assms(1) False by simp
  have "int (nat (v + 256 ^ w)) < int (256 ^ w)" "\<not> int (2 * nat (v + 256 ^ w)) < int (256 ^ w)" using False assms(1) by simp_all
  then have "nat (v + 256 ^ w) < 256 ^ w" "\<not> 2 * nat (v + 256 ^ w) < 256 ^ w" by (simp_all only: of_nat_less_iff not_False_eq_True)
  then show ?thesis using False m assms(1) by (simp add: sint_from_bytes_def sint_as_bytes_def)
qed

lemma char_round_trip:
  assumes "is_char c"
  shows "char_from_bytes (char_as_bytes c) = ok c"
proof -
  have c: "c < 2 ^ 24" using assms by (auto simp: is_char_def)
  have four: "(4 :: nat) = Suc (Suc (Suc (Suc 0)))" by simp
  have "c div 256 div 256 div 256 = 0" using c by (simp add: div_mult2_eq [symmetric])
  then have "\<exists>x y z. le_bytes 4 c = [x, y, z, 0]" unfolding four by simp
  then obtain x y z where b: "le_bytes 4 c = [x, y, z, 0]" by blast
  have "le_nat (le_bytes 4 c) = c" using c by simp
  then show ?thesis using assms by (simp add: char_from_bytes_def char_as_bytes_def index_def Let_def b)
qed

lemma option_round_trip: "(\<And>x. v = Some x \<Longrightarrow> from_bytes (as_bytes x) = ok x) \<Longrightarrow> option_from_bytes from_bytes (option_as_bytes fixed as_bytes v) = ok v"
  by (cases v; cases fixed) (simp_all add: option_from_bytes_def option_as_bytes_def index_def sub_slice_def)

lemma array_as_bytes_layout:
  assumes "length vs = N" "4 * N + length (concat (map as_bytes vs)) < 2 ^ 32"
  shows "array_as_bytes fixed as_bytes N vs = ok (array_layout fixed (map as_bytes vs))"
proof (cases fixed)
  case (Some w)
  have "for_each vs (\<lambda>item result. ok (result @ as_bytes item)) r = ok (r @ concat (map as_bytes vs))" for r
    by (induction vs arbitrary: r) simp_all
  then show ?thesis by (simp add: array_as_bytes_def Some array_layout_def ptr_bytes_def)
next
  case None
  let ?xs = "map as_bytes vs"
  define S where "S i = concat (map (le_bytes 4) (ends (4 * N) (take i ?xs))) @ replicate (4 * (N - i)) 0 @ concat (take i ?xs)" for i
  define body where "body = (\<lambda>i result. do {
       x \<leftarrow> index vs i;
       let result = result @ as_bytes x;
       stop \<leftarrow> try_into 32 (length result);
       write_at result (4 * i) (le_bytes 4 stop) })"
  have step: "body i (S i) = ok (S (Suc i))" if i: "i < N" for i
  proof -
    let ?A = "concat (map (le_bytes 4) (ends (4 * N) (take i ?xs)))" let ?e = "4 * N + length (concat (take (Suc i) ?xs))"
    have l: "length ?A = 4 * i" "length (S i @ as_bytes (vs ! i)) = ?e" "?e < 2 ^ 32"
      using i assms length_concat_take [of "Suc i" ?xs] by (simp_all add: S_def concat_take_Suc)
    have r: "replicate (4 * (N - i)) (0 :: byte) = replicate 4 0 @ replicate (4 * (N - Suc i)) 0" using i by (simp add: replicate_add [symmetric])
    have "write_at (S i @ as_bytes (vs ! i)) (4 * i) (le_bytes 4 ?e) = ok (?A @ le_bytes 4 ?e @ replicate (4 * (N - Suc i)) 0 @ concat (take i ?xs) @ as_bytes (vs ! i))"
      using l(1) by (simp add: S_def r write_at_def)
    also have "\<dots> = ok (S (Suc i))" using i assms(1) by (simp add: S_def ends_append take_Suc_conv_app_nth add.assoc)
    finally show ?thesis using i l(2,3) assms(1) by (simp add: body_def index_def Let_def try_into_def)
  qed
  have "for_each [0..<N] body (S 0) = ok (S N)" using for_each_inv [of "\<lambda>k u. u = S k" "S 0" "[0..<N]" body] step by auto
  then show ?thesis using assms(1) by (simp add: array_as_bytes_def None array_layout_def ptr_bytes_def body_def S_def)
qed

lemma array_from_layout:
  assumes x: "array_items fixed valid N xs" and d: "\<And>i. i < N \<Longrightarrow> from_bytes (xs ! i) = ok (vs ! i)" "length vs = N"
  shows "array_from_bytes fixed from_bytes N (array_layout fixed xs) = ok vs"
proof (cases fixed)
  case (Some w)
  have "\<exists>r. for_each [0..<N] (\<lambda>i result. do { d \<leftarrow> sub_slice (array_layout fixed xs) (w * i) (w * (i + 1)); x \<leftarrow> from_bytes d; ok (result @ [x]) }) [] = ok r
      \<and> r = take (length [0..<N]) vs"
  proof (rule for_each_inv)
    fix k u assume "k < length [0..<N]" "u = take k vs"
    then show "\<exists>v. do { d \<leftarrow> sub_slice (array_layout fixed xs) (w * ([0..<N] ! k)) (w * ([0..<N] ! k + 1)); x \<leftarrow> from_bytes d; ok (u @ [x]) } = ok v \<and> v = take (Suc k) vs"
      using fixed_item [of w xs k] d x Some by (simp add: array_items_def take_Suc_conv_app_nth)
  qed simp
  then show ?thesis using d(2) Some by (simp add: array_from_bytes_def)
next
  case None
  have "\<exists>r. for_each [0..<N] (\<lambda>i (result, start). do { stop \<leftarrow> end_at (array_layout fixed xs) i; d \<leftarrow> sub_slice (array_layout fixed xs) start stop; x \<leftarrow> from_bytes d; ok (result @ [x], stop) }) ([], 4 * N) = ok r
      \<and> r = (take (length [0..<N]) vs, 4 * N + length (concat (take (length [0..<N]) xs)))"
  proof (rule for_each_inv)
    fix k u assume "k < length [0..<N]" "u = (take k vs, 4 * N + length (concat (take k xs)))"
    then show "\<exists>v. (case u of (result, start) \<Rightarrow> do { stop \<leftarrow> end_at (array_layout fixed xs) ([0..<N] ! k); d \<leftarrow> sub_slice (array_layout fixed xs) start stop; x \<leftarrow> from_bytes d; ok (result @ [x], stop) }) = ok v
        \<and> v = (take (Suc k) vs, 4 * N + length (concat (take (Suc k) xs)))"
      using var_item [of xs k] d x None by (simp add: array_items_def take_Suc_conv_app_nth)
  qed simp
  then show ?thesis using d(2) None by (auto simp: array_from_bytes_def)
qed

lemma array_round_trip:
  assumes "array_items fixed (\<lambda>_. True) N (map as_bytes vs)" "\<And>v. v \<in> set vs \<Longrightarrow> from_bytes (as_bytes v) = ok v"
  shows "array_as_bytes fixed as_bytes N vs = ok (array_layout fixed (map as_bytes vs))" "array_from_bytes fixed from_bytes N (array_layout fixed (map as_bytes vs)) = ok vs"
  using assms array_as_bytes_layout [of vs N as_bytes fixed] array_from_layout [OF assms(1), of from_bytes vs] by (simp_all add: array_items_def)

subsection \<open>Properties\<close>



text \<open>
  C40. Encodings of values.  \<open>from_bytes\<close> inverts \<open>as_bytes\<close> for \<open>bool\<close>, \<open>char\<close>, the unsigned and signed integers within their range, and, if it does for \<open>T\<close>,
  for \<open>Option<T>\<close> and \<open>[T; N]\<close>; \<open>compare\<close> on the encodings of two integers is the order of the integers.
\<close>
theorem key_round_trip:
  "bool_from_bytes (bool_as_bytes x) = ok x \<and> (is_char c \<longrightarrow> char_from_bytes (char_as_bytes c) = ok c)
   \<and> (n < 256 ^ w \<and> n' < 256 ^ w \<longrightarrow> uint_from_bytes w (uint_as_bytes w n) = ok n \<and> uint_compare w (uint_as_bytes w n) (uint_as_bytes w n') = ok (ord_cmp n n'))
   \<and> (- (256 ^ w) \<le> 2 * i \<and> 2 * i < 256 ^ w \<and> - (256 ^ w) \<le> 2 * i' \<and> 2 * i' < 256 ^ w \<longrightarrow>
       sint_from_bytes w (sint_as_bytes w i) = ok i \<and> sint_compare w (sint_as_bytes w i) (sint_as_bytes w i') = ok (ord_cmp i i'))
   \<and> ((\<forall>v\<in>set vs. from_bytes (as_bytes v) = ok v) \<longrightarrow> (\<forall>v\<in>set (None # map Some vs). option_from_bytes from_bytes (option_as_bytes fixed as_bytes v) = ok v)
      \<and> (array_items fixed (\<lambda>_. True) N (map as_bytes vs) \<longrightarrow> (\<exists>d. array_as_bytes fixed as_bytes N vs = ok d \<and> array_from_bytes fixed from_bytes N d = ok vs)))"
proof (intro conjI impI ballI)
  fix v assume "\<forall>v\<in>set vs. from_bytes (as_bytes v) = ok v" "v \<in> set (None # map Some vs)"
  then show "option_from_bytes from_bytes (option_as_bytes fixed as_bytes v) = ok v" by (intro option_round_trip) auto
next
  assume "\<forall>v\<in>set vs. from_bytes (as_bytes v) = ok v" "array_items fixed (\<lambda>_. True) N (map as_bytes vs)"
  then show "\<exists>d. array_as_bytes fixed as_bytes N vs = ok d \<and> array_from_bytes fixed from_bytes N d = ok vs"
    using array_round_trip [of fixed N as_bytes vs from_bytes] by blast
qed (auto simp: bool_round_trip char_round_trip uint_round_trip sint_round_trip uint_compare_def sint_compare_def)

theorem key_round_trip_witness:
  "char_from_bytes (char_as_bytes 0x1F600) = ok 0x1F600 \<and> sint_compare 4 (sint_as_bytes 4 (- 5)) (sint_as_bytes 4 3) = ok Less
   \<and> (\<exists>d. array_as_bytes None bool_as_bytes 2 [True, False] = ok d \<and> array_from_bytes None bool_from_bytes 2 d = ok [True, False])"
proof -
  have "array_items None (\<lambda>_. True) 2 (map bool_as_bytes [True, False])" by (simp add: array_items_def widths_def bool_as_bytes_def)
  then show ?thesis using key_round_trip [of True "0x1F600" 0 4 0 "- 5" 3 "[True, False]" bool_from_bytes bool_as_bytes None 2]
    by (simp add: is_char_def ord_cmp_def bool_round_trip)
qed

end
