(* ===== verification/Btree_Leaf.thy ===== *)
theory Btree_Leaf
  imports Leaf_Removal Key_Types
begin

text \<open>
  What a leaf of the B-tree promises, from the lemmas on its pages and on the key types: a leaf page is a sorted list of pairs,
  \<open>position\<close> finds the place of a key in it, and the builders and mutators refine the operations on that list.
\<close>

subsection \<open>The place of a key\<close>

context key_order
begin

lemma place_below: "sorted_keys ks \<Longrightarrow> valid q \<Longrightarrow> j < length ks \<Longrightarrow> j < fst (place ks q) \<longleftrightarrow> lt (ks ! j) q"
proof (induction ks arbitrary: j)
  case (Cons k ks)
  have s: "sorted_keys ks" "valid k" "\<forall>x\<in>set ks. lt k x \<and> valid x" using Cons.prems(1) by (auto simp: sorted_keys_def)
  show ?case
  proof (cases "lt k q")
    case True
    then show ?thesis using Cons.IH [OF s(1) Cons.prems(2), of "j - 1"] Cons.prems(3) by (cases j) (auto simp: place_def)
  next
    case False
    have "\<not> lt x q" if "x \<in> set ks" for x using lt_trans [of k x q] s(2,3) that Cons.prems(2) False by blast
    then have "filter (\<lambda>x. lt x q) (k # ks) = []" "\<not> lt ((k # ks) ! j) q" using False Cons.prems(3) by (auto simp: filter_empty_conv nth_Cons split: nat.split)
    then show ?thesis by (simp add: place_def)
  qed
qed simp

lemma place_le: "fst (place ks q) \<le> length ks"
  by (simp add: place_def)

lemma place_found:
  assumes "sorted_keys ks" "valid q" "place ks q = (i, True)"
  shows "i < length ks" "same q (ks ! i)"
proof -
  note S = sorted_keysD [OF assms(1)]
  obtain j where j: "j < length ks" "same q (ks ! j)" using assms(3) by (auto simp: place_def list_ex_iff in_set_conv_nth)
  have b: "same (ks ! j) q" using j(2) by (cases rule: compare_cases [OF assms(2) S(1) [OF j(1)]]) auto
  have "\<not> j < i" using place_below [OF assms(1,2) j(1)] assms(3) b by auto
  moreover have "l < i" if "l < j" for l
    using place_below [OF assms(1,2), of l] assms(3) that j(1) le_lt_trans(2) [of "ks ! l" "ks ! j" q] S(1) [of l] S(1) [OF j(1)] S(2) [of l j] assms(2) b by auto
  ultimately have "i = j" by (meson less_irrefl linorder_neqE_nat)
  then show "i < length ks" "same q (ks ! i)" using j by auto
qed

lemma insert_place:
  assumes "sorted_keys ks" "valid q" "place ks q = (i, False)"
  shows "sorted_keys (take i ks @ q # drop i ks)"
proof -
  have below: "lt k q" if "k \<in> set (take i ks)" for k
    using that place_below [OF assms(1,2)] assms(3) by (auto simp: in_set_conv_nth)
  have above: "lt q k" if k: "k \<in> set (drop i ks)" for k
  proof -
    obtain j where j: "i \<le> j" "j < length ks" "k = ks ! j" using k by (auto simp: in_set_conv_nth) (metis add.commute le_add1 less_diff_conv)
    have "\<not> lt k q" using place_below [OF assms(1,2) j(2)] assms(3) j by auto
    moreover have "\<not> same q k" using assms(3) j nth_mem [OF j(2)] by (auto simp: place_def list_ex_iff)
    ultimately show ?thesis using compare_cases [OF assms(2) sorted_keysD(1) [OF assms(1) j(2)]] j(3) by auto
  qed
  have "sorted_wrt lt (take i ks @ drop i ks)" using assms(1) by (simp add: sorted_keys_def)
  then show ?thesis using below above assms(1,2) unfolding sorted_wrt_append sorted_keys_def by (auto dest: in_set_takeD in_set_dropD)
qed

end

definition sorted_leaf :: "(byte list \<Rightarrow> byte list \<Rightarrow> ordering rust) \<Rightarrow> (byte list \<Rightarrow> bool) \<Rightarrow> (byte list \<times> byte list) list \<Rightarrow> bool" where
  "sorted_leaf compare valid kvs \<longleftrightarrow> sorted_wrt (\<lambda>a b. compare a b = ok Less) (map fst kvs) \<and> list_all valid (map fst kvs)"

lemma sorted_leaf_keys: "key_order compare valid \<Longrightarrow> sorted_leaf compare valid kvs \<longleftrightarrow> key_order.sorted_keys compare valid (map fst kvs)"
  by (simp add: sorted_leaf_def key_order.sorted_keys_def list_all_iff)

text \<open>What the accessor reads.\<close>

definition leaf_reads :: "nat option \<Rightarrow> nat option \<Rightarrow> byte list \<Rightarrow> (byte list \<times> byte list) list \<Rightarrow> bool" where
  "leaf_reads fk fv page kvs \<longleftrightarrow> (\<exists>a. la_new page fk fv = ok a \<and> la_num_pairs a = length kvs \<and>
     (\<forall>i. la_entry a i = ok (if i < length kvs then Some (kvs ! i) else None)))"

lemma leaf_rep_reads: "leaf_rep fk fv kvs page \<Longrightarrow> leaf_reads fk fv page kvs"
  using la_new_ok la_entry_ok(1) by (fastforce simp: leaf_reads_def)

subsection \<open>The space tests\<close>

lemma leaf_size_insert:
  assumes "i \<le> length kvs"
  shows "leaf_size fk fv (take i kvs @ (k, v) # drop i kvs) = leaf_size fk fv kvs + (length k + length v + ptr_size fk + ptr_size fv)"
proof -
  have e: "kvs = take i kvs @ drop i kvs" by simp
  have "length (concat (map f kvs)) = length (concat (map f (take i kvs))) + length (concat (map f (drop i kvs)))" for f :: "_ \<Rightarrow> byte list"
    by (subst e, subst map_append) simp
  then show ?thesis using assms by (simp add: val_off_def data_start_def)
qed

lemma leaf_size_replace: "leaf_size fk fv (L @ (k, v) # R) + length v0 = leaf_size fk fv (L @ (k, v0) # R) + length v"
  by (simp add: val_off_def data_start_def)

lemma sufficient_insert_ok:
  assumes rep: "leaf_rep fk fv kvs page" and "length page < 2 ^ 63" "length k + length v < 2 ^ 63"
  shows "sufficient_insert_inplace_space page pn i fk fv k v = ok (length kvs < 65535 \<and> \<not> (pn_order pn > 0 \<and> i < length kvs)
     \<and> leaf_size fk fv kvs + (length k + length v + ptr_size fk + ptr_size fv) < 2 ^ 32 \<and> leaf_size fk fv kvs + (length k + length v + ptr_size fk + ptr_size fv) \<le> length page)"
proof -
  have b: "leaf_size fk fv kvs \<le> length page" "leaf_size fk fv kvs < 2 ^ 32" using rep_length [OF rep] rep by (auto simp: leaf_rep_def leaf_wf_def)
  define d where "d = length k + length v + ptr_size fk + ptr_size fv"
  have d: "d < 2 ^ 63 + 8" using assms(3) by (simp add: d_def ptr_size_def)
  have e: "(let d = length k + length v; d = if fk = None then d + 4 else d; d = if fv = None then d + 4 else d in f d) = f d" for f :: "nat \<Rightarrow> bool rust"
    by (simp add: d_def ptr_size_def Let_def)
  show ?thesis using b d unfolding sufficient_insert_inplace_space_def la_new_ok [OF rep] bind.bind_lunit total_length_ok [OF rep] e d_def [symmetric]
    by (auto simp: U16_MAX_def csub_def cadd_def)
qed

lemma sufficient_replace_ok:
  assumes rep: "leaf_rep fk fv (L @ (k, v0) # R) page" and "length page < 2 ^ 63" "length v < 2 ^ 63"
  shows "sufficient_replace_inplace_space page (length L) fk fv v = ok (leaf_size fk fv (L @ (k, v) # R) < 2 ^ 32 \<and> leaf_size fk fv (L @ (k, v) # R) \<le> length page)"
proof -
  let ?kvs = "L @ (k, v0) # R"
  have b: "leaf_size fk fv ?kvs \<le> length page" "leaf_size fk fv ?kvs < 2 ^ 32" using rep_length [OF rep] rep by (auto simp: leaf_rep_def leaf_wf_def)
  define t where "t = leaf_size fk fv ?kvs" define t' where "t' = leaf_size fk fv (L @ (k, v) # R)"
  have tt: "t' + length v0 = t + length v" "length v0 \<le> t" using leaf_size_replace [of fk fv L k v R v0] by (auto simp: t_def t'_def val_off_def)
  have i: "length L < length ?kvs" "length L \<le> length ?kvs" by simp_all
  have r: "la_value_range (acc fk fv ?kvs page) (length L) = ok (Some (val_off fk fv ?kvs (length L), val_off fk fv ?kvs (Suc (length L))))"
    unfolding la_value_range_def la_value_start_ok(1) [OF rep i(2)] la_value_end_ok(1) [OF rep i(1)] by simp
  have s: "csub (val_off fk fv ?kvs (Suc (length L))) (val_off fk fv ?kvs (length L)) = ok (length v0)" by (simp add: csub_def val_off_def)
  show ?thesis using b tt assms(2,3) unfolding sufficient_replace_inplace_space_def la_new_ok [OF rep] bind.bind_lunit total_length_ok [OF rep] r s option.case prod.case
      t_def [symmetric] t'_def [symmetric]
    by (auto simp: csub_def cadd_def to_isize_def ciadd_def)
qed

lemma replace_keys: "i < length kvs \<Longrightarrow> map fst (kvs[i := (fst (kvs ! i), v)]) = map fst kvs"
  by (simp add: map_update list_update_same_conv)

lemma sorted_wrt_without: "sorted_wrt P xs \<Longrightarrow> sorted_wrt P (without_indexes I xs)"
proof (induction xs rule: rev_induct)
  case (snoc x xs)
  then show ?case using set_without [of I xs] by (auto simp: without_indexes_append sorted_wrt_append)
qed simp

lemma sorted_leaf_without:
  assumes "sorted_leaf compare valid kvs"
  shows "sorted_leaf compare valid (without_indexes I kvs)"
  using assms sorted_wrt_without [of _ "map fst kvs" I] by (auto simp: sorted_leaf_def without_map list_all_iff dest: subsetD [OF set_without])

lemma without_one: "i < length xs \<Longrightarrow> without_indexes {i} xs = take i xs @ drop (Suc i) xs"
proof (induction xs rule: rev_induct)
  case (snoc x xs)
  have "without_indexes {length xs} xs = xs" for xs :: "'a list"
    by (simp add: without_indexes_def, subst filter_True) (auto simp: in_set_enumerate_eq)
  then show ?case using snoc by (cases "i = length xs") (auto simp: without_indexes_append)
qed simp

lemma pushed_builder: "lb_wf fk fv b \<Longrightarrow> lb_wf fk fv (fold (\<lambda>(k, v). lb_push k v) kvs b)" "lb_pairs (fold (\<lambda>(k, v). lb_push k v) kvs b) = lb_pairs b @ kvs"
  by (induction kvs arbitrary: b) auto

lemma passes_mono: "passes m r P \<Longrightarrow> (\<And>x s. P x s \<Longrightarrow> Q x s) \<Longrightarrow> passes m r Q"
  by (auto simp: passes_def split: option.splits sum.splits)

lemma split_separator:
  assumes "key_order compare valid" "sorted_leaf compare valid (l @ r)" "l \<noteq> []"
  shows "list_all (\<lambda>k. compare k (fst (last l)) \<noteq> ok Greater) (map fst l) \<and> list_all (\<lambda>k. compare (fst (last l)) k = ok Less) (map fst r)"
proof -
  obtain l' x where l: "l = l' @ [x]" using assms(3) by (cases l rule: rev_cases) auto
  show ?thesis using assms(2) key_order.compare_refl [OF assms(1), of "fst x"]
    by (auto simp: l sorted_leaf_def list_all_iff sorted_wrt_append)
qed

subsection \<open>Properties\<close>

text \<open>
  C15. The binary search of a leaf page.  On the page of a leaf whose keys are sorted by the order of the key type,
  \<open>LeafAccessor::new\<close> succeeds and reads back the stored pairs, and \<open>position\<close> returns, without a panic, the number of stored keys below
  the query and whether an equal key is stored; \<open>find_key\<close> returns that index for a stored key and none otherwise.
\<close>
theorem leaf_search_correct:
  assumes "key_order compare valid" "leaf_rep fk fv kvs page" "sorted_leaf compare valid kvs" "valid q"
  shows "\<exists>a. la_new page fk fv = ok a \<and> la_num_pairs a = length kvs \<and> (\<forall>i. la_entry a i = ok (if i < length kvs then Some (kvs ! i) else None)) \<and>
    la_position compare a q = ok (length (filter (\<lambda>k. compare k q = ok Less) (map fst kvs)), list_ex (\<lambda>k. compare q k = ok Equal) (map fst kvs)) \<and>
    find_key compare a q = ok (if list_ex (\<lambda>k. compare q k = ok Equal) (map fst kvs) then Some (length (filter (\<lambda>k. compare k q = ok Less) (map fst kvs))) else None)"
  using la_new_ok [OF assms(2)] la_entry_ok(1) [OF assms(2)] key_order.la_position_ok [OF assms(1,2) _ assms(4)] assms(3)
  by (simp add: sorted_leaf_keys [OF assms(1)] find_key_def key_order.place_def [OF assms(1)])

theorem leaf_search_correct_witness:
  "\<exists>a. la_new (leaf_bytes 0 (Some 1) None [([1], [7, 7]), ([4], []), ([9], [5])]) (Some 1) None = ok a \<and> la_position bytes_compare a [4] = ok (1, True)"
proof -
  let ?kvs = "[([1], [7, 7]), ([4], []), ([9], [5])] :: (byte list \<times> byte list) list"
  have r: "leaf_rep (Some 1) None ?kvs (leaf_bytes 0 (Some 1) None ?kvs)"
    by (auto simp: leaf_rep_def leaf_wf_def widths_def val_off_def data_start_def ptr_size_def intro: exI [of _ "[]"])
  have s: "sorted_leaf bytes_compare (\<lambda>_. True) ?kvs" by (simp add: sorted_leaf_def bytes_compare_def ord_cmp_def)
  show ?thesis using leaf_search_correct [OF key_bytes.key_order_axioms r s, of "[4]"] by (auto simp: bytes_compare_def ord_cmp_def)
qed

text \<open>
  C14. Inserting in place.  When \<open>position\<close> does not find the key, \<open>sufficient_insert_inplace_space\<close> answers without a panic, and whenever it
  answers yes \<open>LeafMutator::insert\<close> at that position succeeds: the page, of the same length, then represents the sorted list with the new pair
  inserted, and no assertion, overflow or access outside of the page occurs.
\<close>
theorem leaf_insert_in_place:
  assumes "key_order compare valid" "leaf_rep fk fv kvs page" "sorted_leaf compare valid kvs" "valid k"
    and "la_new page fk fv = ok a" "la_position compare a k = ok (i, False)"
    and "widths fk [k]" "widths fv [v]" "length page < 2 ^ 63" "length k + length v < 2 ^ 63"
  shows "\<exists>enough. sufficient_insert_inplace_space page pn i fk fv k v = ok enough \<and> (enough \<longrightarrow>
    (\<exists>page'. lm_insert fk fv i k v page = ok page' \<and> leaf_rep fk fv (take i kvs @ (k, v) # drop i kvs) page' \<and> length page' = length page
       \<and> sorted_leaf compare valid (take i kvs @ (k, v) # drop i kvs)))"
proof -
  have S: "key_order.sorted_keys compare valid (map fst kvs)" using assms(3) sorted_leaf_keys [OF assms(1)] by blast
  have p: "key_order.place compare (map fst kvs) k = (i, False)"
    using key_order.la_position_ok [OF assms(1,2) S assms(4)] assms(5,6) la_new_ok [OF assms(2)] by simp
  have i: "i \<le> length kvs" using key_order.place_le [OF assms(1), of "map fst kvs" k] p by simp
  have s: "sorted_leaf compare valid (take i kvs @ (k, v) # drop i kvs)"
    using key_order.insert_place [OF assms(1) S assms(4) p] by (simp add: sorted_leaf_keys [OF assms(1)] take_map drop_map)
  show ?thesis using lm_insert_ok [OF assms(2) i assms(7,8) _ _ _ assms(9)] s unfolding sufficient_insert_ok [OF assms(2,9,10)] leaf_size_insert [OF i] by auto
qed

theorem leaf_insert_in_place_witness:
  "\<exists>page'. lm_insert (Some 1) None 1 [4] [5, 6] (leaf_bytes 0 (Some 1) None [([1], [7, 7]), ([9], [5])] @ replicate 20 0) = ok page'
     \<and> leaf_rep (Some 1) None [([1], [7, 7]), ([4], [5, 6]), ([9], [5])] page'"
proof -
  let ?kvs = "[([1], [7, 7]), ([9], [5])] :: (byte list \<times> byte list) list" let ?page = "leaf_bytes 0 (Some 1) None ?kvs @ replicate 20 0"
  have r: "leaf_rep (Some 1) None ?kvs ?page"
    by (auto simp: leaf_rep_def leaf_wf_def widths_def val_off_def data_start_def ptr_size_def)
  have s: "sorted_leaf bytes_compare (\<lambda>_. True) ?kvs" by (simp add: sorted_leaf_def bytes_compare_def ord_cmp_def)
  have p: "la_position bytes_compare (acc (Some 1) None ?kvs ?page) [4] = ok (1, False)"
    using key_bytes.la_position_ok [OF r, of "[4]"] s by (simp add: key_bytes.place_def key_bytes.sorted_keys_def sorted_leaf_def bytes_compare_def ord_cmp_def)
  have len: "length ?page = 37" by (simp add: length_leaf_bytes val_off_def data_start_def ptr_size_def)
  have e: "sufficient_insert_inplace_space ?page \<lparr>pn_region = 0, pn_index = 0, pn_order = 0\<rparr> 1 (Some 1) None [4] [5, 6] = ok True"
    using sufficient_insert_ok [OF r, of "[4]" "[5, 6]" "\<lparr>pn_region = 0, pn_index = 0, pn_order = 0\<rparr>" 1] len by (simp add: val_off_def data_start_def ptr_size_def)
  show ?thesis using leaf_insert_in_place [OF key_bytes.key_order_axioms r s _ la_new_ok [OF r] p, of "[5, 6]" "\<lparr>pn_region = 0, pn_index = 0, pn_order = 0\<rparr>"] len e
    by (auto simp: widths_def)
qed

text \<open>
  C38. Replacing in place.  When \<open>position\<close> finds the key, \<open>sufficient_replace_inplace_space\<close> answers without a panic, and whenever it answers
  yes \<open>LeafMutator::replace\<close> succeeds: the page, of the same length, represents the sorted list in which only the value of that pair changed.
\<close>
theorem leaf_replace_in_place:
  assumes "key_order compare valid" "leaf_rep fk fv kvs page" "sorted_leaf compare valid kvs" "valid k"
    and "la_new page fk fv = ok a" "la_position compare a k = ok (i, True)"
    and "widths fv [v]" "length page < 2 ^ 63" "length v < 2 ^ 63"
  shows "i < length kvs \<and> compare k (fst (kvs ! i)) = ok Equal \<and> (\<exists>enough. sufficient_replace_inplace_space page i fk fv v = ok enough \<and> (enough \<longrightarrow>
    (\<exists>page'. lm_replace fk fv i v page = ok page' \<and> leaf_rep fk fv (kvs[i := (fst (kvs ! i), v)]) page' \<and> length page' = length page
       \<and> sorted_leaf compare valid (kvs[i := (fst (kvs ! i), v)]))))"
proof -
  have S: "key_order.sorted_keys compare valid (map fst kvs)" using assms(3) sorted_leaf_keys [OF assms(1)] by blast
  have p: "key_order.place compare (map fst kvs) k = (i, True)"
    using key_order.la_position_ok [OF assms(1,2) S assms(4)] assms(5,6) la_new_ok [OF assms(2)] by simp
  have i: "i < length kvs" "compare k (fst (kvs ! i)) = ok Equal" using key_order.place_found [OF assms(1) S assms(4) p] by auto
  have s: "sorted_leaf compare valid (kvs[i := (fst (kvs ! i), v)])" using assms(3) replace_keys [OF i(1)] by (simp add: sorted_leaf_def)
  obtain L k0 v0 R where k: "kvs = L @ (k0, v0) # R" "length L = i" using id_take_nth_drop [OF i(1)] i(1) by (cases "kvs ! i") (metis length_take min.absorb4)
  have e: "kvs[i := (fst (kvs ! i), v)] = L @ (k0, v) # R" using k by auto
  note rep = assms(2) [unfolded k(1)]
  have "\<exists>enough. sufficient_replace_inplace_space page i fk fv v = ok enough \<and> (enough \<longrightarrow>
    (\<exists>page'. lm_replace fk fv i v page = ok page' \<and> leaf_rep fk fv (L @ (k0, v) # R) page' \<and> length page' = length page))"
    using lm_replace_ok [OF rep assms(7) _ _ assms(8)] sufficient_replace_ok [OF rep assms(8,9)] unfolding k(2) by auto
  then show ?thesis using i s unfolding e by blast
qed

theorem leaf_replace_in_place_witness:
  "\<exists>page'. lm_replace (Some 1) None 0 [2, 2, 2] (leaf_bytes 0 (Some 1) None [([1], [7, 7]), ([9], [5])] @ replicate 20 0) = ok page'
     \<and> leaf_rep (Some 1) None [([1], [2, 2, 2]), ([9], [5])] page'"
proof -
  let ?kvs = "[([1], [7, 7]), ([9], [5])] :: (byte list \<times> byte list) list" let ?page = "leaf_bytes 0 (Some 1) None ?kvs @ replicate 20 0"
  have r: "leaf_rep (Some 1) None ?kvs ?page"
    by (auto simp: leaf_rep_def leaf_wf_def widths_def val_off_def data_start_def ptr_size_def)
  have s: "sorted_leaf bytes_compare (\<lambda>_. True) ?kvs" by (simp add: sorted_leaf_def bytes_compare_def ord_cmp_def)
  have p: "la_position bytes_compare (acc (Some 1) None ?kvs ?page) [1] = ok (0, True)"
    using key_bytes.la_position_ok [OF r, of "[1]"] s by (simp add: key_bytes.place_def key_bytes.sorted_keys_def sorted_leaf_def bytes_compare_def ord_cmp_def)
  have len: "length ?page = 37" by (simp add: length_leaf_bytes val_off_def data_start_def ptr_size_def)
  have e: "sufficient_replace_inplace_space ?page 0 (Some 1) None [2, 2, 2] = ok True"
    using sufficient_replace_ok [of "Some 1" None "[]" "[1]" "[7, 7]" "[([9], [5])]" ?page "[2, 2, 2]"] r len by (simp add: val_off_def data_start_def ptr_size_def)
  show ?thesis using leaf_replace_in_place [OF key_bytes.key_order_axioms r s _ la_new_ok [OF r] p, of "[2, 2, 2]"] len e
    by (auto simp: widths_def)
qed

text \<open>
  C13. Removing in place.  For any strictly ascending indexes of a leaf that leave at least one pair, \<open>LeafMutator::remove_indices\<close> compacts the page
  in one pass without a failed assertion, and the page then represents the remaining pairs in their order, still sorted; removing a single index with
  \<open>LeafMutator::remove\<close> gives the same pairs.
\<close>
theorem leaf_remove_in_place:
  assumes "leaf_rep fk fv kvs page" "sorted_leaf compare valid kvs" "indices \<noteq> []" "strictly_ascending indices"
    "\<forall>i\<in>set indices. i < length kvs" "length indices < length kvs"
  shows "(\<exists>page'. remove_indices fk fv indices page = ok page' \<and> leaf_rep fk fv (without_indexes (set indices) kvs) page' \<and> length page' = length page)
    \<and> sorted_leaf compare valid (without_indexes (set indices) kvs)
    \<and> (\<forall>i. indices = [i] \<longrightarrow> (\<exists>page'. lm_remove fk fv i page = ok page' \<and> leaf_rep fk fv (without_indexes (set indices) kvs) page' \<and> length page' = length page))"
proof (intro conjI allI impI)
  show "\<exists>page'. remove_indices fk fv indices page = ok page' \<and> leaf_rep fk fv (without_indexes (set indices) kvs) page' \<and> length page' = length page"
    by (rule remove_indices_ok [OF assms(1,3-6)])
  show "sorted_leaf compare valid (without_indexes (set indices) kvs)" by (rule sorted_leaf_without [OF assms(2)])
  fix i assume i: "indices = [i]"
  then have l: "i < length kvs" "length (take i kvs) = i" using assms(5) by auto
  have e: "kvs = take i kvs @ (fst (kvs ! i), snd (kvs ! i)) # drop (Suc i) kvs" using id_take_nth_drop [OF l(1)] by simp
  have "take i kvs @ drop (Suc i) kvs \<noteq> []" using assms(6) i l by (cases i) auto
  then show "\<exists>page'. lm_remove fk fv i page = ok page' \<and> leaf_rep fk fv (without_indexes (set indices) kvs) page' \<and> length page' = length page"
    using lm_remove_ok [of fk fv "take i kvs" "fst (kvs ! i)" "snd (kvs ! i)" "drop (Suc i) kvs" page] assms(1) e i l(2) without_one [OF l(1)] by simp
qed

theorem leaf_remove_in_place_witness:
  "\<exists>page'. remove_indices (Some 1) None [0, 2] (leaf_bytes 0 (Some 1) None [([1], [7, 7]), ([4], []), ([9], [5])]) = ok page' \<and> leaf_rep (Some 1) None [([4], [])] page'"
proof -
  let ?kvs = "[([1], [7, 7]), ([4], []), ([9], [5])] :: (byte list \<times> byte list) list"
  have r: "leaf_rep (Some 1) None ?kvs (leaf_bytes 0 (Some 1) None ?kvs)"
    by (auto simp: leaf_rep_def leaf_wf_def widths_def val_off_def data_start_def ptr_size_def intro: exI [of _ "[]"])
  have s: "sorted_leaf bytes_compare (\<lambda>_. True) ?kvs" by (simp add: sorted_leaf_def bytes_compare_def ord_cmp_def)
  show ?thesis using leaf_remove_in_place [OF r s, of "[0, 2]"] by (auto simp: strictly_ascending_def without_indexes_def)
qed

text \<open>
  C39. Building a leaf.  For pairs that fit a leaf, the page that \<open>LeafBuilder::build\<close> returns after pushing them one by one has been allocated with exactly
  the bytes the layout needs, and the accessor reads back the same pairs; when the allocation fails or panics, \<open>build\<close> fails with the same error.
\<close>
theorem leaf_build_round_trip:
  assumes "leaf_wf fk fv kvs"
  shows "let b = fold (\<lambda>(k, v). lb_push k v) kvs (lb_new fk fv) in
    passes (pa_source B (leaf_size fk fv kvs) s) (lb_build (pa_source B) b s) (\<lambda>page s'. \<exists>mem.
      lb_build (pa_source B) b s = ok (Inr (set_memory page mem), s') \<and> length mem = length (pm_memory page) \<and> leaf_rep fk fv kvs mem \<and> leaf_reads fk fv mem kvs)"
proof -
  define b where "b = fold (\<lambda>(k, v). lb_push k v) kvs (lb_new fk fv)"
  have b: "lb_wf fk fv b" "lb_pairs b = kvs" using pushed_builder(1) [of fk fv "lb_new fk fv" kvs] pushed_builder(2) [of kvs "lb_new fk fv"] by (simp_all add: b_def)
  have "passes (pa_source B (leaf_size fk fv kvs) s) (lb_build (pa_source B) b s) (\<lambda>page s'. \<exists>mem.
      lb_build (pa_source B) b s = ok (Inr (set_memory page mem), s') \<and> length mem = length (pm_memory page) \<and> leaf_rep fk fv kvs mem \<and> leaf_reads fk fv mem kvs)"
    by (rule passes_mono [OF pa.lb_build_ok [OF b(1), unfolded b(2), OF assms]]) (auto intro: leaf_rep_reads)
  then show ?thesis by (simp only: b_def Let_def)
qed

theorem leaf_build_round_trip_witness:
  "\<forall>(B :: unit backend) s. let kvs = [([1], [7, 7]), ([4], [])]; b = fold (\<lambda>(k, v). lb_push k v) kvs (lb_new (Some 1) None) in
    passes (pa_source B (leaf_size (Some 1) None kvs) s) (lb_build (pa_source B) b s) (\<lambda>page s'. \<exists>mem.
      lb_build (pa_source B) b s = ok (Inr (set_memory page mem), s') \<and> length mem = length (pm_memory page) \<and> leaf_rep (Some 1) None kvs mem \<and> leaf_reads (Some 1) None mem kvs)"
proof -
  have w: "leaf_wf (Some 1) None [([1], [7, 7]), ([4], [])]" by (simp add: leaf_wf_def widths_def val_off_def data_start_def ptr_size_def)
  show ?thesis using leaf_build_round_trip [OF w] unfolding Let_def by blast
qed



end
