(* ===== verification/Spec2Isabelle.thy ===== *)
theory Spec2Isabelle
  imports Redb_Prelude Bitmap Buddy_Ops Layout Page_Number Xxh3 Header Region Lru_Cache Cached_File Cached_File_Ops Page_Manager Page_Manager_Ops Page_Manager_Commit Leaf_Page Leaf_Builder Leaf_Mutator Leaf_Removal Key_Types Btree_Leaf
begin

text \<open>
  A verification development for the storage engine of \<open>redb\<close>, an embedded key-value store in Rust.  It covers the page store
  (\<open>src/tree_store/page_store\<close>) from the bitmaps up to the commit of a transaction, the leaf pages of the B-tree
  (\<open>src/tree_store/btree_base.rs\<close>) and the key types (\<open>src/types.rs\<close>).

  \<^bold>\<open>How the parts work together.\<close>  A database file is a header page followed by regions of pages (\<open>Layout\<close>).  Each region has a buddy
  allocator (\<open>Buddy\<close>, \<open>Buddy_Ops\<close>), which keeps one tree of bitmaps per page order (\<open>Bitmap\<close>); the region tracker knows which regions may
  have a free page of an order (\<open>Region\<close>).  A page is named by a page number, whose address in the file follows from the layout
  (\<open>Page_Number\<close>).  The file is read and written through a write buffer and a read cache (\<open>Cached_File\<close>, \<open>Cached_File_Ops\<close>) with
  second-chance eviction (\<open>Lru_Cache\<close>).  The header has two commit slots, each with the roots of the trees and a
  checksum (\<open>Header\<close>, \<open>Xxh3\<close>).  The page manager (\<open>Page_Manager\<close>) puts these together: it allocates and frees pages, grows and shrinks
  the file (\<open>Page_Manager_Ops\<close>) and commits a transaction by switching between the slots (\<open>Page_Manager_Commit\<close>).  On its pages
  live the leaves of the B-tree, which are read in place (\<open>Leaf_Page\<close>), built (\<open>Leaf_Builder\<close>) and changed in place
  (\<open>Leaf_Mutator\<close>, \<open>Leaf_Removal\<close>), ordered by the comparison of their key type (\<open>Key_Types\<close>); \<open>Btree_Leaf\<close> has what a leaf promises.

  \<^bold>\<open>Conventions\<close> (\<open>Redb_Prelude\<close>).  A function that can panic returns \<open>ok x\<close> or \<open>panic\<close>; failed \<open>assert!\<close> and \<open>debug_assert!\<close>, \<open>unwrap\<close> of
  \<open>None\<close>, an index or slice out of range and an overflow of checked arithmetic are panics, as in a debug build.  A \<open>Result\<close> is an inner sum
  with the error on the left, and a function that changes state and can fail returns the state it leaves behind with
  the result.  Integers are natural numbers with the checked operations of their width; values on which the code works bitwise, and
  the wrapping arithmetic of the checksum, are words.  A \<open>for\<close> loop is \<open>for_each\<close>.  A definition has the name of its Rust function,
  with a prefix for the type where several types have a method of that name (\<open>bb_\<close> for \<open>BtreeBitmap\<close>, \<open>bud_\<close> for \<open>BuddyAllocator\<close>,
  \<open>cf_\<close> for \<open>PagedCachedFile\<close>, \<open>tm_\<close> for \<open>TransactionalMemory\<close>, \<open>la_\<close>, \<open>lb_\<close>, \<open>rlb_\<close> and \<open>lm_\<close> for \<open>LeafAccessor\<close>, \<open>LeafBuilder\<close>,
  \<open>RawLeafBuilder\<close> and \<open>LeafMutator\<close>).

  \<^bold>\<open>The components.\<close>
  \<^item> \<open>Bitmap\<close> (\<open>bitmap.rs\<close>): the operations of a bitmap tree act on the set of its free ids, the search returns the least one, and
    serialization is inverted by parsing.  The contract is the locale \<open>free_index\<close>, interpreted on \<open>BtreeBitmap\<close>.
  \<^item> \<open>Buddy\<close>, \<open>Buddy_Ops\<close> (\<open>buddy_allocator.rs\<close>): allocation, lowest allocation, recording, freeing and resizing act on the set of free
    pages; free blocks never overlap and are always merged.  The contract is the locale \<open>page_heap\<close>, interpreted on \<open>BuddyAllocator\<close>.
  \<^item> \<open>Layout\<close> (\<open>layout.rs\<close>): regions are disjoint and fill the file, computing a layout from a length is inverse to its length, and no
    computation overflows.
  \<^item> \<open>Page_Number\<close> (\<open>base.rs\<close>, \<open>fast_hash.rs\<close>): encoding and decoding, disjoint addresses, an injective hash.
  \<^item> \<open>Xxh3\<close> (\<open>xxh3.rs\<close>): the hash is total and the portable, AVX2 and NEON variants agree.  The locale \<open>stripe_engine\<close> has the part in which they
    differ and is interpreted on each variant.
  \<^item> \<open>Header\<close> (\<open>header.rs\<close>): round trip, safe opening of arbitrary bytes, and selection of the newest intact slot.
  \<^item> \<open>Region\<close> (\<open>region.rs\<close>): the tracker never hides a region with a free page, and resizing keeps allocated pages.
  \<^item> \<open>Lru_Cache\<close> (\<open>lru_cache.rs\<close>): the cache is a finite map and evicting makes progress; the length of its queue is not bounded by its size.
  \<^item> \<open>Cached_File\<close>, \<open>Cached_File_Ops\<close> (\<open>cached_file.rs\<close>, \<open>backends.rs\<close>): coherent reads, isolated writes, complete flushes, latched failures.  The
    locale \<open>page_cache\<close> is the contract of the cache and \<open>storage_backend\<close> that of the trait \<open>StorageBackend\<close>, interpreted on \<open>InMemoryBackend\<close>.
  \<^item> \<open>Page_Manager\<close>, \<open>Page_Manager_Ops\<close>, \<open>Page_Manager_Commit\<close> (\<open>page_manager.rs\<close>): an allocation takes exactly one free block and succeeds below
    the size limit of the file unless the backend fails; shrinking keeps allocated pages; the index of unpersisted
    pages is consistent; the headers written by a commit open at the old or at the new commit, and after a successful commit
    the bytes in the file open at the new one.
  \<^item> \<open>Leaf_Page\<close>, \<open>Leaf_Builder\<close>, \<open>Leaf_Mutator\<close>, \<open>Leaf_Removal\<close>, \<open>Btree_Leaf\<close> (\<open>btree_base.rs\<close>): \<open>leaf_rep\<close> relates the bytes of a leaf to a list of
    pairs.  Binary search is equivalent to counting the smaller keys; building and splitting write pages that read back as
    the pairs; insertion, replacement and removal in place succeed whenever the space tests of the code say so and refine the
    operation on the sorted list.  The locale \<open>key_order\<close> is the contract of the trait \<open>Key\<close>, and \<open>page_source\<close> what a builder needs of the page
    allocator, interpreted on \<open>PageAllocator::allocate\<close>.
  \<^item> \<open>Key_Types\<close> (\<open>types.rs\<close>): the encodings and the total orders of the basic types, options and arrays; the interpretations of \<open>key_order\<close>.

  \<^bold>\<open>Parameters and bounds.\<close>  The backend of the file is a record of operations on an unknown state, restricted only by \<open>storage_backend\<close>, so
  every result also holds for a backend that fails at any point.  The iteration order of the hash map of the write buffer and the
  comparison of keys are parameters.  There is no fuel: loops are structural, or have a measure; the loop of
  \<open>allocate_helper_retry\<close>, which ends because the region tracker loses a region in each round, is a partial function that is proved to
  return.  Hypotheses such as a page shorter than \<open>2 ^ 63\<close> bytes are the limit of Rust on the size of a slice.

  \<^bold>\<open>Not modelled.\<close>  Branch pages and the operations on trees of pages (\<open>btree.rs\<close>, \<open>btree_mutator.rs\<close>, \<open>btree_cursor.rs\<close>, \<open>btree_iters.rs\<close>), the tables,
  multimaps, transactions, savepoints and the database handle above them, and with them the functions of \<open>page_manager.rs\<close> that store the
  allocator state in a system table; tuples, \<open>Vec\<close> and the types of other crates as keys; the file backends, which are system calls;
  the derive macros, Python bindings, benchmarks and fuzzers.  Operations run one at a time: locks are not modelled, nor
  is the interleaving of threads inside an operation.
\<close>

end
